(* ===== verification/JsPrelude.thy ===== *)
theory JsPrelude
  imports Main "HOL-Library.Word"
begin

text \<open>
  Shared vocabulary of the development: JavaScript strings as lists of UTF-16 code units,
  results of code that may throw, the own properties of a plain object as an association
  list in insertion order, the array operations \<open>splice\<close> and \<open>indexOf\<close>, and the generic
  list lemmas that several components use.
\<close>

named_theorems js_simps \<open>unfolding rules of the small JavaScript primitives\<close>

section \<open>Strings and bytes\<close>

type_synonym u8 = "8 word"
type_synonym u16 = "16 word"
type_synonym u32 = "32 word"
type_synonym u64 = "64 word"

text \<open>A JavaScript string is a sequence of UTF-16 code units; \<open>charCodeAt\<close> reads one of them.\<close>

type_synonym jsstring = "u16 list"

definition js :: "string \<Rightarrow> jsstring" where
  "js s = map of_char s"

lemma js_Nil [js_simps]: "js [] = []"
  by (simp add: js_def)

lemma js_Cons [js_simps]: "js (c # s) = of_char c # js s"
  by (simp add: js_def)

section \<open>Results of code that may throw\<close>

text \<open>
  The exceptions of the modelled code. \<open>IndexOutOfRange pos n len\<close> is the RangeError that
  \<open>indexOutOfRange\<close> of protobuf.js builds; the other constructors carry the part of the
  message that varies.
\<close>

datatype js_error =
    IndexOutOfRange nat nat nat
  | InvalidVarint
  | InvalidWireType u32 nat
  | InvalidEncoding
  | MissingRequired jsstring
  | JsTypeError jsstring
  | JsError jsstring
  | JsSyntaxError jsstring

type_synonym 'a res = "js_error + 'a"

definition bind_res :: "'a res \<Rightarrow> ('a \<Rightarrow> 'b res) \<Rightarrow> 'b res" where
  "bind_res m f = (case m of Inl e \<Rightarrow> Inl e | Inr x \<Rightarrow> f x)"

lemma bind_res_Inl [simp]: "bind_res (Inl e) f = Inl e"
  by (simp add: bind_res_def)

lemma bind_res_Inr [simp]: "bind_res (Inr x) f = f x"
  by (simp add: bind_res_def)

lemma bind_res_eq_Inr: "bind_res m f = Inr y \<longleftrightarrow> (\<exists>x. m = Inr x \<and> f x = Inr y)"
  by (cases m) simp_all

section \<open>Arrays\<close>

text \<open>\<open>xs.splice(i, 1)\<close> for an index \<open>i\<close>; past the end it removes nothing.\<close>

definition splice1 :: "nat \<Rightarrow> 'a list \<Rightarrow> 'a list" where
  "splice1 i xs = take i xs @ drop (Suc i) xs"

text \<open>
  The loop \<open>while (i < xs.length) if (p(xs[i])) xs.splice(i, 1); else i++\<close>, which removes
  the elements that satisfy \<open>p\<close> from an array in place.
\<close>

function splice_while :: "('a \<Rightarrow> bool) \<Rightarrow> nat \<Rightarrow> 'a list \<Rightarrow> 'a list" where
  "splice_while p i xs =
     (if i < length xs
      then if p (xs ! i) then splice_while p i (splice1 i xs) else splice_while p (Suc i) xs
      else xs)"
  by pat_completeness auto
termination
  by (relation "measure (\<lambda>(p, i, xs). length xs - i)") (auto simp: splice1_def)

declare splice_while.simps [simp del]

lemma splice_while_filter:
  "splice_while p i xs = take i xs @ filter (\<lambda>x. \<not> p x) (drop i xs)"
proof (induction p i xs rule: splice_while.induct)
  case (1 p i xs)
  show ?case
  proof (cases "i < length xs")
    case True
    then have d: "drop i xs = xs ! i # drop (Suc i) xs" by (simp add: Cons_nth_drop_Suc)
    show ?thesis
    proof (cases "p (xs ! i)")
      case True
      have "splice_while p i xs = splice_while p i (splice1 i xs)"
        using \<open>i < length xs\<close> True by (subst splice_while.simps) simp
      also have "\<dots> = take i xs @ filter (\<lambda>x. \<not> p x) (drop (Suc i) xs)"
        using 1(1) [OF \<open>i < length xs\<close> True] \<open>i < length xs\<close> by (simp add: splice1_def)
      finally show ?thesis using d True by simp
    next
      case False
      have "splice_while p i xs = splice_while p (Suc i) xs"
        using \<open>i < length xs\<close> False by (subst splice_while.simps) simp
      also have "\<dots> = take (Suc i) xs @ filter (\<lambda>x. \<not> p x) (drop (Suc i) xs)"
        using 1(2) [OF \<open>i < length xs\<close> False] by simp
      finally show ?thesis using d False \<open>i < length xs\<close> by (simp add: take_Suc_conv_app_nth)
    qed
  qed (subst splice_while.simps, simp)
qed

lemma splice_while_0: "splice_while p 0 xs = filter (\<lambda>x. \<not> p x) xs"
  by (simp add: splice_while_filter)

text \<open>
  The loop \<open>for (i = 0; i < xs.length; i++) if (p(xs[i])) { xs.splice(i, 1); break; }\<close>, and
  the index a search loop finds (\<open>undefined\<close> is None).
\<close>

fun splice_first :: "('a \<Rightarrow> bool) \<Rightarrow> 'a list \<Rightarrow> 'a list" where
  "splice_first p [] = []"
| "splice_first p (x # xs) = (if p x then xs else x # splice_first p xs)"

fun index_of :: "('a \<Rightarrow> bool) \<Rightarrow> 'a list \<Rightarrow> nat option" where
  "index_of p [] = None"
| "index_of p (x # xs) = (if p x then Some 0 else map_option Suc (index_of p xs))"

lemma index_of_None_iff: "index_of p xs = None \<longleftrightarrow> (\<forall>x \<in> set xs. \<not> p x)"
  by (induction xs) auto

lemma index_of_SomeD: "index_of p xs = Some i \<Longrightarrow> i < length xs \<and> p (xs ! i)"
  by (induction xs arbitrary: i) (auto split: if_splits)

lemma splice1_index_of:
  "index_of p xs = Some i \<Longrightarrow> splice1 i xs = splice_first p xs"
  by (induction xs arbitrary: i) (auto simp: splice1_def split: if_splits)

lemma splice_first_distinct:
  assumes "distinct (map f xs)"
  shows "splice_first (\<lambda>x. f x = k) xs = filter (\<lambda>x. f x \<noteq> k) xs"
  using assms
proof (induction xs)
  case (Cons x xs)
  then show ?case by (auto simp: image_iff intro!: filter_True [symmetric])
qed simp

lemma set_splice_first: "set (splice_first p xs) \<subseteq> set xs"
  by (induction xs) auto

lemma find_append: "find p (xs @ ys) = (case find p xs of Some x \<Rightarrow> Some x | None \<Rightarrow> find p ys)"
  by (induction xs) auto

text \<open>Keep the first occurrence of every element, in order.\<close>

definition nub :: "'a list \<Rightarrow> 'a list" where
  "nub xs = rev (remdups (rev xs))"

lemma set_nub [simp]: "set (nub xs) = set xs"
  by (simp add: nub_def)

lemma distinct_nub [simp]: "distinct (nub xs)"
  by (simp add: nub_def)

lemma nub_distinct: "distinct xs \<Longrightarrow> nub xs = xs"
  by (simp add: nub_def distinct_remdups_id)

section \<open>Own properties of plain objects\<close>

text \<open>
  The own properties of an object, in insertion order: \<open>prop_set\<close> overwrites in place or
  appends, \<open>prop_del\<close> is the \<open>delete\<close> operator, \<open>prop_get\<close> looks an own property up
  (\<open>undefined\<close> is None).
\<close>

type_synonym ('k, 'v) props = "('k \<times> 'v) list"

abbreviation prop_get :: "('k, 'v) props \<Rightarrow> 'k \<Rightarrow> 'v option" where
  "prop_get \<equiv> map_of"

fun prop_set :: "('k, 'v) props \<Rightarrow> 'k \<Rightarrow> 'v \<Rightarrow> ('k, 'v) props" where
  "prop_set [] k v = [(k, v)]"
| "prop_set ((k', v') # ps) k v = (if k' = k then (k, v) # ps else (k', v') # prop_set ps k v)"

definition prop_del :: "('k, 'v) props \<Rightarrow> 'k \<Rightarrow> ('k, 'v) props" where
  "prop_del ps k = filter (\<lambda>(k', v). k' \<noteq> k) ps"

lemma prop_get_set [simp]: "prop_get (prop_set ps k v) k' = (if k' = k then Some v else prop_get ps k')"
  by (induction ps) auto

lemma prop_keys_set: "map fst (prop_set ps k v) = (if k \<in> set (map fst ps) then map fst ps else map fst ps @ [k])"
  by (induction ps k v rule: prop_set.induct) (auto intro: rev_image_eqI)

lemma prop_set_new: "k \<notin> set (map fst ps) \<Longrightarrow> prop_set ps k v = ps @ [(k, v)]"
  by (induction ps) auto

lemma prop_get_del [simp]: "prop_get (prop_del ps k) k' = (if k' = k then None else prop_get ps k')"
  by (induction ps) (auto simp: prop_del_def)

lemma prop_del_distinct: "distinct (map fst ps) \<Longrightarrow> distinct (map fst (prop_del ps k))"
  by (induction ps) (auto simp: prop_del_def)

text \<open>The members of \<open>Object.prototype\<close>, which a read of a missing property finds.\<close>

definition proto_names :: "jsstring list" where
  "proto_names = [js ''constructor'', js ''toString'', js ''toLocaleString'', js ''valueOf'', js ''hasOwnProperty'',
     js ''isPrototypeOf'', js ''propertyIsEnumerable'', js ''__proto__'', js ''__defineGetter__'', js ''__defineSetter__'',
     js ''__lookupGetter__'', js ''__lookupSetter__'']"

text \<open>
  The assignment \<open>o[k] = v\<close> for a computed key: \<open>__proto__\<close> reaches the setter of Object.prototype and
  makes no own property.
\<close>

definition own_put :: "(jsstring, 'v) props \<Rightarrow> jsstring \<Rightarrow> 'v \<Rightarrow> (jsstring, 'v) props" where
  "own_put ps k v = (if k = js ''__proto__'' then ps else prop_set ps k v)"

lemma own_put_plain: "k \<noteq> js ''__proto__'' \<Longrightarrow> own_put ps k v = prop_set ps k v"
  by (simp add: own_put_def)

lemma prop_set_distinct: "distinct (map fst ps) \<Longrightarrow> distinct (map fst (prop_set ps k v))"
  by (simp add: prop_keys_set)

end
