(* ===== verification/RepGraph.thy ===== *)
theory RepGraph
  imports JsPrelude
begin

text \<open>
  The cluster graph of the web monitor, \<open>myGraph\<close> of rep_graph.js. Nodes are objects that
  links refer to by identity, and the arrays of nodes and links are shared between the
  closure variables, the fields of \<open>this\<close> and the d3 force layout; both are kept in an
  explicit store. What \<open>update\<close> draws is kept as the list of elements d3's keyed data join
  leaves in the document: one circle group per node and one line or path per link key.
  The coordinates of the nodes belong to the force layout and are left out.
\<close>

section \<open>State\<close>

record gnode =
  nid :: jsstring
  ncolor :: "jsstring option"
  nr :: "int option"

record glink =
  lsource :: nat
  ltarget :: nat
  lvalue :: int

text \<open>
  The text of a node: a string or a counter. A counter that was never set is
  \<open>undefined\<close>, and \<open>NaN\<close> after an increment; both are \<open>Count None\<close>.
\<close>

datatype sta = Text jsstring | Count "int option"

text \<open>A drawn node: the data key, the circle's class, fill and sync attributes, the text.\<close>

record gview =
  vkey :: jsstring
  vclass :: jsstring
  vfill :: "jsstring option"
  vsync :: "jsstring option"
  vsta :: sta

record graph =
  g_heap :: "nat \<Rightarrow> gnode"
  g_next_node :: nat
  g_narr :: "nat \<Rightarrow> nat list"
  g_larr :: "nat \<Rightarrow> glink list"
  g_next_arr :: nat
  g_nodes :: nat
  g_links :: nat
  g_slinks :: nat
  g_dlinks :: nat
  this_slinks :: nat
  this_dlinks :: nat
  force_nodes :: nat
  force_links :: nat
  blocker :: "jsstring option"
  cout_nodes :: "int option"
  dom_nodes :: "gview list"
  dom_slinks :: "jsstring list"
  dom_dlinks :: "jsstring list"
  dom_bc :: "jsstring list"
  console_err :: "jsstring list"

abbreviation nodes_of :: "graph \<Rightarrow> nat list" where
  "nodes_of g \<equiv> g_narr g (g_nodes g)"

abbreviation node_ids :: "graph \<Rightarrow> jsstring list" where
  "node_ids g \<equiv> map (\<lambda>r. nid (g_heap g r)) (nodes_of g)"

abbreviation links_of :: "graph \<Rightarrow> glink list" where
  "links_of g \<equiv> g_larr g (g_links g)"

abbreviation slinks_of :: "graph \<Rightarrow> glink list" where
  "slinks_of g \<equiv> g_larr g (this_slinks g)"

abbreviation dlinks_of :: "graph \<Rightarrow> glink list" where
  "dlinks_of g \<equiv> g_larr g (this_dlinks g)"

text \<open>
  The constructor: \<open>nodes\<close> and \<open>links\<close> are the arrays of the force layout, and the closure
  variables \<open>slinks\<close> and \<open>dlinks\<close> are the arrays just stored in \<open>this\<close>.
\<close>

definition new_graph :: graph where
  "new_graph = \<lparr>
     g_heap = (\<lambda>_. \<lparr>nid = [], ncolor = None, nr = None\<rparr>), g_next_node = 0,
     g_narr = (\<lambda>_. []), g_larr = (\<lambda>_. []), g_next_arr = 4,
     g_nodes = 0, g_links = 1, g_slinks = 2, g_dlinks = 3,
     this_slinks = 2, this_dlinks = 3, force_nodes = 0, force_links = 1,
     blocker = None, cout_nodes = None,
     dom_nodes = [], dom_slinks = [], dom_dlinks = [], dom_bc = [], console_err = []\<rparr>"

section \<open>Drawing\<close>

definition cls_circle :: jsstring where "cls_circle = js ''node_circle''"
definition cls_broker :: jsstring where "cls_broker = js ''node_circle_broker''"

text \<open>
  d3's \<open>selection.data(values, key)\<close> with its enter and exit selections: an old element
  whose key no value has is removed, the first old element of a key stays, and the first
  value of a key that no element has enters at the end.
\<close>

definition data_join :: "jsstring list \<Rightarrow> jsstring list \<Rightarrow> jsstring list" where
  "data_join old new =
     filter (\<lambda>k. k \<in> set new) (nub old) @ filter (\<lambda>k. k \<notin> set old) (nub new)"

definition link_key :: "graph \<Rightarrow> string \<Rightarrow> glink \<Rightarrow> jsstring" where
  "link_key g p l = js p @ nid (g_heap g (lsource l)) @ js ''-'' @ nid (g_heap g (ltarget l))"

definition enter_node :: "gnode \<Rightarrow> gview" where
  "enter_node n = \<lparr>vkey = nid n, vclass = cls_circle, vfill = ncolor n, vsync = None,
     vsta = Text []\<rparr>"

text \<open>The entering nodes: the first node of every id that is not drawn yet.\<close>

fun enter_nodes :: "jsstring list \<Rightarrow> gnode list \<Rightarrow> gview list" where
  "enter_nodes seen [] = []"
| "enter_nodes seen (n # ns) =
     (if nid n \<in> set seen then enter_nodes seen ns
      else enter_node n # enter_nodes (nid n # seen) ns)"

fun keep_nodes :: "jsstring list \<Rightarrow> jsstring list \<Rightarrow> gview list \<Rightarrow> gview list" where
  "keep_nodes new seen [] = []"
| "keep_nodes new seen (v # vs) =
     (if vkey v \<in> set new \<and> vkey v \<notin> set seen then v # keep_nodes new (vkey v # seen) vs
      else keep_nodes new seen vs)"

definition join_nodes :: "gview list \<Rightarrow> gnode list \<Rightarrow> gview list" where
  "join_nodes old ns = keep_nodes (map nid ns) [] old @ enter_nodes (map vkey old) ns"

text \<open>\<open>update\<close> draws the arrays that the closure variables hold.\<close>

definition update :: "graph \<Rightarrow> graph" where
  "update g = g\<lparr>
     dom_slinks := data_join (dom_slinks g) (map (link_key g ''p_'') (g_larr g (g_slinks g))),
     dom_dlinks := data_join (dom_dlinks g) (map (link_key g ''d_'') (g_larr g (g_dlinks g))),
     dom_bc := data_join (dom_bc g) (map (link_key g ''bc_'') (take 1 (links_of g))),
     dom_nodes := join_nodes (dom_nodes g) (map (g_heap g) (nodes_of g))\<rparr>"

section \<open>Nodes and links\<close>

definition find_node :: "graph \<Rightarrow> jsstring \<Rightarrow> nat option" where
  "find_node g i = find (\<lambda>r. nid (g_heap g r) = i) (nodes_of g)"

definition find_node_index :: "graph \<Rightarrow> jsstring \<Rightarrow> nat option" where
  "find_node_index g i = index_of (\<lambda>r. nid (g_heap g r) = i) (nodes_of g)"

definition value_or_20 :: "int option \<Rightarrow> int" where
  "value_or_20 v = (case v of None \<Rightarrow> 20 | Some x \<Rightarrow> if x = 0 then 20 else x)"

text \<open>
  \<open>addLink\<close>, \<open>addSLink\<close> and \<open>addDLink\<close> differ in the array they push to (closure variable
  or field of \<open>this\<close>) and in the name they log when an end is missing.
\<close>

definition push_link :: "string \<Rightarrow> nat \<Rightarrow> graph \<Rightarrow> jsstring \<Rightarrow> jsstring \<Rightarrow> int option \<Rightarrow> graph" where
  "push_link name a g s t v =
     (case (find_node g s, find_node g t) of
        (Some ns, Some nt) \<Rightarrow>
          update (g\<lparr>g_larr := (g_larr g)(a := g_larr g a @
            [\<lparr>lsource = ns, ltarget = nt, lvalue = value_or_20 v\<rparr>])\<rparr>)
      | _ \<Rightarrow> g\<lparr>console_err := console_err g @ [js ''err '' @ js name]\<rparr>)"

definition add_link :: "graph \<Rightarrow> jsstring \<Rightarrow> jsstring \<Rightarrow> int option \<Rightarrow> graph" where
  "add_link g s t v = push_link ''addLink'' (g_links g) g s t v"

definition add_slink :: "graph \<Rightarrow> jsstring \<Rightarrow> jsstring \<Rightarrow> int option \<Rightarrow> graph" where
  "add_slink g s t v = push_link ''addSLink'' (this_slinks g) g s t v"

definition add_dlink :: "graph \<Rightarrow> jsstring \<Rightarrow> jsstring \<Rightarrow> int option \<Rightarrow> graph" where
  "add_dlink g s t v = push_link ''addDLink'' (this_dlinks g) g s t v"

definition push_node :: "graph \<Rightarrow> gnode \<Rightarrow> graph" where
  "push_node g n = g\<lparr>
     g_heap := (g_heap g)(g_next_node g := n), g_next_node := Suc (g_next_node g),
     g_narr := (g_narr g)(g_nodes g := nodes_of g @ [g_next_node g])\<rparr>"

definition add_node_obj :: "graph \<Rightarrow> gnode \<Rightarrow> graph" where
  "add_node_obj g n = update (push_node g n)"

definition add_node_str :: "graph \<Rightarrow> jsstring \<Rightarrow> graph" where
  "add_node_str g i =
     (let c = (if blocker g = Some i then js ''lawngreen'' else js ''steelblue'');
          g1 = push_node g \<lparr>nid = i, ncolor = Some c, nr = None\<rparr>;
          g2 = add_link g1 (nid (g_heap g1 (hd (nodes_of g1)))) i None
      in update g2)"

text \<open>\<open>d3.select("#...")\<close> picks the first element with that id.\<close>

fun dom_upd :: "(gview \<Rightarrow> bool) \<Rightarrow> (gview \<Rightarrow> gview) \<Rightarrow> gview list \<Rightarrow> gview list" where
  "dom_upd p f [] = []"
| "dom_upd p f (v # vs) = (if p v then f v # vs else v # dom_upd p f vs)"

text \<open>
  The element that the selector \<open>#node_\<close> followed by an id picks. An id that is no CSS name makes a selector of another form: it
  throws or finds nothing; that it may also describe some other element is not modelled.
\<close>

definition css_name :: "jsstring \<Rightarrow> bool" where
  "css_name i \<longleftrightarrow> list_all (\<lambda>c. 128 \<le> c \<or> c \<in> {45, 95} \<or> 48 \<le> c \<and> c \<le> 57 \<or> 65 \<le> c \<and> c \<le> 90 \<or> 97 \<le> c \<and> c \<le> 122) i"

definition picked :: "jsstring \<Rightarrow> gview \<Rightarrow> bool" where
  "picked i v \<longleftrightarrow> css_name i \<and> vkey v = i"

definition set_node_sta :: "graph \<Rightarrow> jsstring \<Rightarrow> sta \<Rightarrow> graph" where
  "set_node_sta g i s = g\<lparr>dom_nodes := dom_upd (picked i) (vsta_update (\<lambda>_. s)) (dom_nodes g)\<rparr>"

text \<open>
  \<open>updateNodeSta\<close> skips a refresh within 500 ms of the last one; the times of the last
  refreshes are the page's global \<open>tl_map\<close>.
\<close>

definition update_node_sta ::
  "graph \<Rightarrow> (jsstring \<rightharpoonup> int) \<Rightarrow> int \<Rightarrow> jsstring \<Rightarrow> sta \<Rightarrow> graph \<times> (jsstring \<rightharpoonup> int)" where
  "update_node_sta g tmap tm i s =
     (if (case tmap i of None \<Rightarrow> True | Some t \<Rightarrow> t = 0 \<or> tm - t > 500)
      then (set_node_sta g i s, tmap(i \<mapsto> tm)) else (g, tmap))"

definition on_add_node :: "graph \<Rightarrow> jsstring \<Rightarrow> graph" where
  "on_add_node g i =
     (if find_node g i \<noteq> None then g
      else let g = add_node_str g i;
               g = add_dlink g i (js ''Transaction'') None;
               g = add_dlink g i (js ''Block'') None;
               g = add_dlink g i (js ''Endorsement'') None;
               g = add_dlink g i (js ''Sync'') None;
               g = add_slink g (js ''Transaction'') i None;
               g = add_slink g (js ''Block'') i None;
               g = add_slink g (js ''Endorsement'') i None;
               g = add_slink g (js ''Sync'') i None;
               g = g\<lparr>cout_nodes := map_option (\<lambda>c. c + 1) (cout_nodes g)\<rparr>
           in set_node_sta g (js ''RepChain'') (Count (cout_nodes g)))"

section \<open>Block producer and synchronisation state\<close>


definition truthy_attr :: "jsstring option \<Rightarrow> bool" where
  "truthy_attr a = (case a of None \<Rightarrow> False | Some s \<Rightarrow> s \<noteq> [])"

definition unset_broker :: "gview \<Rightarrow> gview" where
  "unset_broker v = v\<lparr>vclass := cls_circle,
     vfill := Some (if truthy_attr (vsync v) then js ''seagreen'' else js ''steelblue'')\<rparr>"

definition make_broker :: "gview \<Rightarrow> gview" where
  "make_broker v = v\<lparr>vclass := cls_broker, vfill := Some (js ''lawngreen'')\<rparr>"

definition set_blocker :: "graph \<Rightarrow> jsstring \<Rightarrow> graph" where
  "set_blocker g i = g\<lparr>blocker := Some i,
     dom_nodes := dom_upd (picked i) make_broker
       (dom_upd (\<lambda>v. vclass v = cls_broker) unset_broker (dom_nodes g))\<rparr>"

definition set_node_sync :: "graph \<Rightarrow> jsstring \<Rightarrow> jsstring \<Rightarrow> graph" where
  "set_node_sync g i val = g\<lparr>dom_nodes := dom_upd (picked i)
     (\<lambda>v. let v = v\<lparr>vsync := Some val\<rparr>
          in if blocker g \<noteq> Some i then v\<lparr>vclass := cls_circle, vfill := Some (js ''seagreen'')\<rparr> else v)
     (dom_nodes g)\<rparr>"

section \<open>Removal\<close>

definition splice_links :: "(glink \<Rightarrow> bool) \<Rightarrow> nat \<Rightarrow> graph \<Rightarrow> graph" where
  "splice_links p a g = g\<lparr>g_larr := (g_larr g)(a := splice_while p 0 (g_larr g a))\<rparr>"

text \<open>
  \<open>removeNode\<close>: \<open>n\<close> is undefined for an unknown id, and \<open>nodes.splice(undefined, 1)\<close>
  removes the element at index 0.
\<close>

definition remove_node :: "graph \<Rightarrow> jsstring \<Rightarrow> graph" where
  "remove_node g i =
     (let n = find_node g i;
          hit = (\<lambda>l. Some (lsource l) = n \<or> Some (ltarget l) = n);
          g1 = splice_links hit (this_dlinks g) (splice_links hit (this_slinks g)
                 (splice_links hit (g_links g) g));
          k = (case find_node_index g1 i of None \<Rightarrow> 0 | Some k \<Rightarrow> k)
      in update (g1\<lparr>g_narr := (g_narr g1)(g_nodes g1 := splice1 k (nodes_of g1))\<rparr>))"

definition joins :: "graph \<Rightarrow> jsstring \<Rightarrow> jsstring \<Rightarrow> glink \<Rightarrow> bool" where
  "joins g s t l \<longleftrightarrow> nid (g_heap g (lsource l)) = s \<and> nid (g_heap g (ltarget l)) = t"

definition remove_one :: "nat \<Rightarrow> graph \<Rightarrow> jsstring \<Rightarrow> jsstring \<Rightarrow> graph" where
  "remove_one a g s t =
     update (g\<lparr>g_larr := (g_larr g)(a := splice_first (joins g s t) (g_larr g a))\<rparr>)"

definition remove_link :: "graph \<Rightarrow> jsstring \<Rightarrow> jsstring \<Rightarrow> graph" where
  "remove_link g s t = remove_one (g_links g) g s t"

definition remove_slink :: "graph \<Rightarrow> jsstring \<Rightarrow> jsstring \<Rightarrow> graph" where
  "remove_slink g s t = remove_one (this_slinks g) g s t"

definition remove_dlink :: "graph \<Rightarrow> jsstring \<Rightarrow> jsstring \<Rightarrow> graph" where
  "remove_dlink g s t = remove_one (this_dlinks g) g s t"

definition remove_all_links :: "graph \<Rightarrow> graph" where
  "remove_all_links g = update (g\<lparr>g_larr := (g_larr g)(g_links g := [])\<rparr>)"

text \<open>\<open>removeAllNodes\<close> splices as many nodes as there are links.\<close>

definition remove_all_nodes :: "graph \<Rightarrow> graph" where
  "remove_all_nodes g =
     update (g\<lparr>g_narr := (g_narr g)(g_nodes g := drop (length (links_of g)) (nodes_of g))\<rparr>)"

text \<open>
  \<open>resetNodes\<close> binds \<open>links\<close>, \<open>this.slinks\<close>, \<open>this.dlinks\<close> and \<open>nodes\<close> to fresh arrays and
  does not redraw.
\<close>

definition reset_nodes :: "graph \<Rightarrow> graph" where
  "reset_nodes g =
     (let a = g_next_arr g;
          g1 = g\<lparr>g_larr := (g_larr g)(a := [], a + 1 := [], a + 2 := []),
                 g_narr := (g_narr g)(a + 3 := []), g_next_arr := a + 4,
                 g_links := a, this_slinks := a + 1, this_dlinks := a + 2, g_nodes := a + 3,
                 cout_nodes := Some 0\<rparr>
      in set_node_sta g1 (js ''RepChain'') (Count (Some 0)))"

end
