(* ===== verification/RepGraphInv.thy ===== *)
theory RepGraphInv
  imports RepGraph
begin

text \<open>
  The consistency of the cluster graph: node ids are distinct, every link joins two nodes of
  the graph, the arrays that \<open>update\<close> draws are the ones the operations write, every node is
  drawn once, and only the current block producer carries the producer's circle class. Every
  operation keeps it, except the three that the properties at the end single out.
\<close>

named_theorems graph_simps \<open>what the small steps of the graph leave unchanged\<close>

section \<open>Frame lemmas\<close>

lemma update_frame [simp]:
  "g_heap (update g) = g_heap g" "g_next_node (update g) = g_next_node g"
  "g_narr (update g) = g_narr g" "g_larr (update g) = g_larr g"
  "g_next_arr (update g) = g_next_arr g" "g_nodes (update g) = g_nodes g"
  "g_links (update g) = g_links g" "g_slinks (update g) = g_slinks g"
  "g_dlinks (update g) = g_dlinks g" "this_slinks (update g) = this_slinks g"
  "this_dlinks (update g) = this_dlinks g" "blocker (update g) = blocker g"
  "cout_nodes (update g) = cout_nodes g" "console_err (update g) = console_err g"
  by (simp_all add: update_def)

lemma set_node_sta_frame [simp]:
  "g_heap (set_node_sta g i s) = g_heap g" "g_next_node (set_node_sta g i s) = g_next_node g"
  "g_narr (set_node_sta g i s) = g_narr g" "g_larr (set_node_sta g i s) = g_larr g"
  "g_nodes (set_node_sta g i s) = g_nodes g" "g_links (set_node_sta g i s) = g_links g"
  "g_slinks (set_node_sta g i s) = g_slinks g" "g_dlinks (set_node_sta g i s) = g_dlinks g"
  "this_slinks (set_node_sta g i s) = this_slinks g"
  "this_dlinks (set_node_sta g i s) = this_dlinks g"
  "blocker (set_node_sta g i s) = blocker g" "cout_nodes (set_node_sta g i s) = cout_nodes g"
  by (simp_all add: set_node_sta_def)

lemma push_link_frame [simp]:
  "g_heap (push_link n a g s t v) = g_heap g" "g_next_node (push_link n a g s t v) = g_next_node g"
  "g_narr (push_link n a g s t v) = g_narr g" "g_nodes (push_link n a g s t v) = g_nodes g"
  "g_links (push_link n a g s t v) = g_links g" "g_slinks (push_link n a g s t v) = g_slinks g"
  "g_dlinks (push_link n a g s t v) = g_dlinks g"
  "this_slinks (push_link n a g s t v) = this_slinks g"
  "this_dlinks (push_link n a g s t v) = this_dlinks g"
  "blocker (push_link n a g s t v) = blocker g" "cout_nodes (push_link n a g s t v) = cout_nodes g"
  by (simp_all add: push_link_def split: option.split)

lemma push_node_frame [simp]:
  "g_larr (push_node g n) = g_larr g" "g_nodes (push_node g n) = g_nodes g"
  "g_links (push_node g n) = g_links g" "g_slinks (push_node g n) = g_slinks g"
  "g_dlinks (push_node g n) = g_dlinks g" "this_slinks (push_node g n) = this_slinks g"
  "this_dlinks (push_node g n) = this_dlinks g" "blocker (push_node g n) = blocker g"
  "dom_nodes (push_node g n) = dom_nodes g" "cout_nodes (push_node g n) = cout_nodes g"
  "g_narr (push_node g n) = (g_narr g)(g_nodes g := nodes_of g @ [g_next_node g])"
  "g_heap (push_node g n) = (g_heap g)(g_next_node g := n)"
  "g_next_node (push_node g n) = Suc (g_next_node g)"
  by (simp_all add: push_node_def)

lemma find_node_cong:
  "g_heap g' = g_heap g \<Longrightarrow> nodes_of g' = nodes_of g \<Longrightarrow> find_node g' = find_node g"
  by (simp add: find_node_def fun_eq_iff)

lemma find_node_update [simp]: "find_node (update g) = find_node g"
  and find_node_push_link [simp]: "find_node (push_link n a g s t v) = find_node g"
  and find_node_sta [simp]: "find_node (set_node_sta g i x) = find_node g"
  by (rule find_node_cong; simp)+

lemma find_node_None_iff: "find_node g i = None \<longleftrightarrow> i \<notin> set (node_ids g)"
  by (auto simp: find_node_def find_None_iff)

lemma find_node_SomeD: "find_node g i = Some r \<Longrightarrow> r \<in> set (nodes_of g) \<and> nid (g_heap g r) = i"
  by (auto simp: find_node_def find_Some_iff)

lemma find_node_SomeI:
  assumes "distinct (node_ids g)" "r \<in> set (nodes_of g)"
  shows "find_node g (nid (g_heap g r)) = Some r"
proof -
  obtain q where q: "find_node g (nid (g_heap g r)) = Some q"
    using assms(2) find_node_None_iff [of g "nid (g_heap g r)"] by (auto simp del: not_None_eq)
  from find_node_SomeD [OF q] assms show ?thesis using q
    by (auto simp: distinct_map inj_on_def)
qed

lemma cls_neq [simp]: "cls_circle \<noteq> cls_broker" "cls_broker \<noteq> cls_circle"
  by (simp_all add: cls_circle_def cls_broker_def js_simps)

section \<open>The invariant\<close>

definition ends_in :: "graph \<Rightarrow> glink list \<Rightarrow> bool" where
  "ends_in g ls \<longleftrightarrow>
     (\<forall>l \<in> set ls. lsource l \<in> set (nodes_of g) \<and> ltarget l \<in> set (nodes_of g))"

definition struct_inv :: "graph \<Rightarrow> bool" where
  "struct_inv g \<longleftrightarrow>
     (\<forall>r \<in> set (nodes_of g). r < g_next_node g) \<and> distinct (node_ids g) \<and>
     ends_in g (links_of g) \<and> ends_in g (slinks_of g) \<and> ends_in g (dlinks_of g) \<and>
     g_slinks g = this_slinks g \<and> g_dlinks g = this_dlinks g \<and>
     distinct [g_links g, this_slinks g, this_dlinks g]"

definition dom_inv :: "graph \<Rightarrow> bool" where
  "dom_inv g \<longleftrightarrow>
     distinct (map vkey (dom_nodes g)) \<and>
     (\<forall>v \<in> set (dom_nodes g). vclass v = cls_broker \<longrightarrow> blocker g = Some (vkey v))"

definition drawn :: "graph \<Rightarrow> bool" where
  "drawn g \<longleftrightarrow> set (map vkey (dom_nodes g)) = set (node_ids g)"

definition graph_inv :: "graph \<Rightarrow> bool" where
  "graph_inv g \<longleftrightarrow> struct_inv g \<and> dom_inv g \<and> drawn g"

lemma struct_inv_update [simp]: "struct_inv (update g) = struct_inv g"
  by (simp add: struct_inv_def ends_in_def)

lemma struct_inv_sta [simp]: "struct_inv (set_node_sta g i s) = struct_inv g"
  by (simp add: struct_inv_def ends_in_def)

subsection \<open>The data join\<close>

lemma keep_nodes_subset: "set (keep_nodes new seen vs) \<subseteq> set vs"
  by (induction new seen vs rule: keep_nodes.induct) auto

lemma keep_nodes_keys:
  "distinct (map vkey vs) \<Longrightarrow> set seen \<inter> vkey ` set vs = {} \<Longrightarrow>
     keep_nodes new seen vs = filter (\<lambda>v. vkey v \<in> set new) vs"
  by (induction new seen vs rule: keep_nodes.induct) auto

lemma enter_nodes_keys:
  "vkey ` set (enter_nodes seen ns) = nid ` set ns - set seen"
  by (induction seen ns rule: enter_nodes.induct) (auto simp: enter_node_def)

lemma enter_nodes_distinct: "distinct (map vkey (enter_nodes seen ns))"
proof (induction seen ns rule: enter_nodes.induct)
  case (2 seen n ns)
  then show ?case by (simp add: enter_nodes_keys enter_node_def)
qed simp

lemma enter_nodes_class:
  "v \<in> set (enter_nodes seen ns) \<Longrightarrow> vclass v = cls_circle"
  by (induction seen ns rule: enter_nodes.induct) (auto simp: enter_node_def split: if_splits)

lemma join_nodes_eq:
  "distinct (map vkey old) \<Longrightarrow>
     join_nodes old ns = filter (\<lambda>v. vkey v \<in> nid ` set ns) old @ enter_nodes (map vkey old) ns"
  by (simp add: join_nodes_def keep_nodes_keys)

lemma dom_inv_update:
  assumes "dom_inv g"
  shows "dom_inv (update g) \<and> drawn (update g)"
proof -
  let ?ns = "map (g_heap g) (nodes_of g)"
  have d: "distinct (map vkey (dom_nodes g))" using assms by (simp add: dom_inv_def)
  have e: "dom_nodes (update g) =
    filter (\<lambda>v. vkey v \<in> nid ` set ?ns) (dom_nodes g) @ enter_nodes (map vkey (dom_nodes g)) ?ns"
    using join_nodes_eq [OF d] by (simp add: update_def)
  have "distinct (map vkey (dom_nodes (update g)))"
    using d unfolding e
    by (auto simp: enter_nodes_keys enter_nodes_distinct distinct_map_filter)
  moreover have "\<forall>v \<in> set (dom_nodes (update g)). vclass v = cls_broker \<longrightarrow>
      blocker (update g) = Some (vkey v)"
    using assms unfolding e by (auto simp: dom_inv_def dest!: enter_nodes_class)
  moreover have "drawn (update g)"
    unfolding drawn_def e set_map set_append image_Un enter_nodes_keys by auto (force simp: image_iff)+
  ultimately show ?thesis by (simp add: dom_inv_def)
qed

lemma graph_inv_update:
  "struct_inv g \<Longrightarrow> dom_inv g \<Longrightarrow> graph_inv (update g)"
  by (simp add: graph_inv_def dom_inv_update)

subsection \<open>Selections\<close>

lemma dom_upd_keys: "(\<And>v. vkey (f v) = vkey v) \<Longrightarrow> map vkey (dom_upd p f vs) = map vkey vs"
  by (induction p f vs rule: dom_upd.induct) auto

lemma dom_upd_mem: "v \<in> set (dom_upd p f vs) \<Longrightarrow> v \<in> set vs \<or> (\<exists>w \<in> set vs. p w \<and> v = f w)"
  by (induction p f vs rule: dom_upd.induct) (auto split: if_splits)

lemma dom_upd_none:
  assumes "distinct (map vkey vs)" "\<And>v. v \<in> set vs \<Longrightarrow> p v \<Longrightarrow> vkey v = k" "\<And>v. \<not> p (f v)"
    and "v \<in> set (dom_upd p f vs)"
  shows "\<not> p v"
  using assms
proof (induction p f vs rule: dom_upd.induct)
  case (2 p f w vs)
  show ?case
  proof (cases "p w")
    case True
    then have "\<forall>u \<in> set vs. \<not> p u" using "2.prems"(1,2) by fastforce
    then show ?thesis using "2.prems"(3,4) True by auto
  qed (use 2 in auto)
qed simp

lemma graph_inv_dom:
  assumes "graph_inv g" and "map vkey vs = map vkey (dom_nodes g)"
    and "\<And>v. v \<in> set vs \<Longrightarrow> vclass v = cls_broker \<Longrightarrow> b = Some (vkey v)"
  shows "graph_inv (g\<lparr>blocker := b, dom_nodes := vs\<rparr>)"
proof -
  have "set (map vkey vs) = set (map vkey (dom_nodes g))" by (simp only: assms(2))
  then show ?thesis using assms
    unfolding graph_inv_def struct_inv_def dom_inv_def drawn_def ends_in_def by simp
qed

section \<open>Every operation keeps the invariant\<close>

lemma ends_in_cong:
  "nodes_of g' = nodes_of g \<Longrightarrow> ends_in g' ls = ends_in g ls"
  by (simp add: ends_in_def)

lemma ends_in_append [simp]: "ends_in g (xs @ ys) \<longleftrightarrow> ends_in g xs \<and> ends_in g ys"
  by (auto simp: ends_in_def)

lemma ends_in_subset: "ends_in g ls \<Longrightarrow> set ks \<subseteq> set ls \<Longrightarrow> ends_in g ks"
  by (auto simp: ends_in_def)

text \<open>Replacing one of the three link arrays by one with the same kind of ends.\<close>

lemma struct_inv_larr:
  assumes "struct_inv g" "a \<in> {g_links g, this_slinks g, this_dlinks g}" "ends_in g ls"
  shows "struct_inv (g\<lparr>g_larr := (g_larr g)(a := ls)\<rparr>)"
  using assms unfolding struct_inv_def ends_in_def by auto

lemma push_link_eq:
  assumes "find_node g s = Some ns" "find_node g t = Some nt"
  shows "push_link n a g s t v = update (g\<lparr>g_larr := (g_larr g)(a := g_larr g a @
    [\<lparr>lsource = ns, ltarget = nt, lvalue = value_or_20 v\<rparr>])\<rparr>)"
  by (simp add: push_link_def assms)

lemma dom_inv_cong:
  "dom_nodes g' = dom_nodes g \<Longrightarrow> blocker g' = blocker g \<Longrightarrow> dom_inv g' = dom_inv g"
  by (simp add: dom_inv_def)

lemma struct_inv_console [simp]: "struct_inv (g\<lparr>console_err := e\<rparr>) = struct_inv g"
  by (simp add: struct_inv_def ends_in_def)

lemma graph_inv_console: "graph_inv g \<Longrightarrow> graph_inv (g\<lparr>console_err := e\<rparr>)"
  by (simp add: graph_inv_def dom_inv_def drawn_def)

lemma ends_in_larr: "struct_inv g \<Longrightarrow> a \<in> {g_links g, this_slinks g, this_dlinks g} \<Longrightarrow>
  ends_in g (g_larr g a)"
  by (auto simp: struct_inv_def)

lemma push_link_struct:
  assumes "struct_inv g" "dom_inv g" "a \<in> {g_links g, this_slinks g, this_dlinks g}"
  shows "struct_inv (push_link n a g s t v) \<and> dom_inv (push_link n a g s t v)"
proof (cases "find_node g s = None \<or> find_node g t = None")
  case True
  then show ?thesis using assms by (auto simp: push_link_def dom_inv_def split: option.split)
next
  case False
  then obtain ns nt where n: "find_node g s = Some ns" "find_node g t = Some nt" by auto
  have e: "ends_in g (g_larr g a @ [\<lparr>lsource = ns, ltarget = nt, lvalue = value_or_20 v\<rparr>])"
    using ends_in_larr [OF assms(1,3)] find_node_SomeD [OF n(1)] find_node_SomeD [OF n(2)]
    by (simp add: ends_in_def)
  have "dom_inv (g\<lparr>g_larr := ls\<rparr>)" for ls using assms(2) by (simp add: dom_inv_def)
  then show ?thesis unfolding push_link_eq [OF n]
    using struct_inv_larr [OF assms(1,3) e] by (simp add: dom_inv_update)
qed

lemma push_link_inv:
  assumes "graph_inv g" "a \<in> {g_links g, this_slinks g, this_dlinks g}"
  shows "graph_inv (push_link n a g s t v)"
proof (cases "find_node g s = None \<or> find_node g t = None")
  case True
  then show ?thesis using assms(1)
    by (auto simp: push_link_def graph_inv_console split: option.split)
next
  case False
  then obtain ns nt where n: "find_node g s = Some ns" "find_node g t = Some nt" by auto
  have e: "ends_in g (g_larr g a @ [\<lparr>lsource = ns, ltarget = nt, lvalue = value_or_20 v\<rparr>])"
    using assms ends_in_larr [of g a] find_node_SomeD [OF n(1)] find_node_SomeD [OF n(2)]
    unfolding graph_inv_def by (simp add: ends_in_def)
  show ?thesis unfolding push_link_eq [OF n]
    by (rule graph_inv_update) (use assms e in \<open>simp_all add: graph_inv_def struct_inv_larr dom_inv_def\<close>)
qed

lemma add_link_inv: "graph_inv g \<Longrightarrow> graph_inv (add_link g s t v)"
  and add_slink_inv: "graph_inv g \<Longrightarrow> graph_inv (add_slink g s t v)"
  and add_dlink_inv: "graph_inv g \<Longrightarrow> graph_inv (add_dlink g s t v)"
  by (simp_all add: add_link_def add_slink_def add_dlink_def push_link_inv)

lemma push_node_struct:
  assumes "struct_inv g" "find_node g (nid n) = None"
  shows "struct_inv (push_node g n)"
proof -
  have f: "r \<in> set (nodes_of g) \<Longrightarrow> r \<noteq> g_next_node g" for r
    using assms(1) by (auto simp: struct_inv_def)
  then have m: "map (\<lambda>r. nid (((g_heap g)(g_next_node g := n)) r)) (nodes_of g) = node_ids g"
    by (auto intro: map_cong)
  have ids: "node_ids (push_node g n) = node_ids g @ [nid n]" using m by simp
  have "nid n \<notin> set (node_ids g)" using assms(2) by (simp only: find_node_None_iff) simp
  then have "distinct (node_ids (push_node g n))"
    using assms(1) unfolding ids by (simp add: struct_inv_def)
  then show ?thesis using assms(1)
    unfolding struct_inv_def ends_in_def by (auto simp: less_SucI)
qed

lemma dom_inv_push_node [simp]: "dom_inv (push_node g n) = dom_inv g"
  by (simp add: dom_inv_def)

lemma add_node_obj_inv:
  "graph_inv g \<Longrightarrow> find_node g (nid n) = None \<Longrightarrow> graph_inv (add_node_obj g n)"
  unfolding add_node_obj_def
  by (rule graph_inv_update) (simp_all add: graph_inv_def push_node_struct)

lemma push_link_update_inv:
  assumes "struct_inv g" "dom_inv g"
  shows "graph_inv (update (push_link n (g_links g) g s t v))"
  using push_link_struct [OF assms, of "g_links g" n s t v] by (simp add: graph_inv_update)

lemma add_node_str_inv:
  assumes "graph_inv g" "find_node g i = None"
  shows "graph_inv (add_node_str g i)"
  unfolding add_node_str_def Let_def add_link_def
  by (rule push_link_update_inv) (use assms in \<open>simp_all add: graph_inv_def push_node_struct\<close>)

lemma graph_inv_cout: "graph_inv g \<Longrightarrow> graph_inv (g\<lparr>cout_nodes := c\<rparr>)"
  by (simp add: graph_inv_def struct_inv_def dom_inv_def drawn_def ends_in_def)

lemma graph_inv_dom': 
  assumes "graph_inv g" and "map vkey vs = map vkey (dom_nodes g)"
    and "\<And>v. v \<in> set vs \<Longrightarrow> vclass v = cls_broker \<Longrightarrow> blocker g = Some (vkey v)"
  shows "graph_inv (g\<lparr>dom_nodes := vs\<rparr>)"
proof -
  have "g\<lparr>dom_nodes := vs\<rparr> = g\<lparr>blocker := blocker g, dom_nodes := vs\<rparr>" by simp
  then show ?thesis using graph_inv_dom [OF assms(1,2), of "blocker g"] assms(3) by simp
qed

lemma set_node_sta_inv:
  assumes "graph_inv g"
  shows "graph_inv (set_node_sta g i s)"
  unfolding set_node_sta_def
  by (rule graph_inv_dom' [OF assms])
    (use assms in \<open>auto simp: dom_upd_keys graph_inv_def dom_inv_def dest!: dom_upd_mem\<close>)

lemma on_add_node_inv:
  assumes "graph_inv g"
  shows "graph_inv (on_add_node g i)"
  unfolding on_add_node_def Let_def using assms
  by (auto intro!: set_node_sta_inv graph_inv_cout add_slink_inv add_dlink_inv add_node_str_inv)

lemma unset_broker_simps [simp]:
  "vkey (unset_broker v) = vkey v" "vclass (unset_broker v) = cls_circle"
  by (simp_all add: unset_broker_def)

lemma make_broker_simps [simp]:
  "vkey (make_broker v) = vkey v" "vclass (make_broker v) = cls_broker"
  by (simp_all add: make_broker_def)

lemma unset_all:
  assumes "dom_inv g" "v \<in> set (dom_upd (\<lambda>v. vclass v = cls_broker) unset_broker (dom_nodes g))"
  shows "vclass v \<noteq> cls_broker"
proof (rule dom_upd_none [OF _ _ _ assms(2)])
  show "distinct (map vkey (dom_nodes g))" using assms(1) by (simp add: dom_inv_def)
  show "vkey w = the (blocker g)" if "w \<in> set (dom_nodes g)" "vclass w = cls_broker" for w
    using assms(1) that by (auto simp: dom_inv_def)
qed simp

lemma set_blocker_dom:
  assumes "dom_inv g"
  shows "dom_inv (set_blocker g i)" "map vkey (dom_nodes (set_blocker g i)) = map vkey (dom_nodes g)"
proof -
  show k: "map vkey (dom_nodes (set_blocker g i)) = map vkey (dom_nodes g)"
    by (simp add: set_blocker_def dom_upd_keys)
  have "blocker (set_blocker g i) = Some (vkey v)" if "v \<in> set (dom_nodes (set_blocker g i))" "vclass v = cls_broker" for v
  proof -
    let ?vs = "dom_upd (\<lambda>v. vclass v = cls_broker) unset_broker (dom_nodes g)"
    have "v \<in> set (dom_upd (picked i) make_broker ?vs)" using that(1) by (simp add: set_blocker_def)
    then have "v \<in> set ?vs \<or> (\<exists>w \<in> set ?vs. picked i w \<and> v = make_broker w)" by (rule dom_upd_mem)
    then have "vkey v = i" using unset_all [OF assms, of v] that(2) by (auto simp: picked_def)
    then show ?thesis by (simp add: set_blocker_def)
  qed
  then show "dom_inv (set_blocker g i)" using assms unfolding dom_inv_def k by blast
qed

lemma set_blocker_inv:
  assumes "graph_inv g"
  shows "graph_inv (set_blocker g i)"
proof -
  have "dom_inv g" using assms by (simp add: graph_inv_def)
  note d = set_blocker_dom [OF this, of i]
  have "graph_inv (g\<lparr>blocker := Some i, dom_nodes := dom_nodes (set_blocker g i)\<rparr>)"
    by (rule graph_inv_dom [OF assms d(2)]) (use d(1) in \<open>auto simp: dom_inv_def set_blocker_def\<close>)
  then show ?thesis by (simp add: set_blocker_def)
qed

lemma set_node_sync_inv:
  assumes "graph_inv g"
  shows "graph_inv (set_node_sync g i val)"
  unfolding set_node_sync_def
  by (rule graph_inv_dom' [OF assms])
    (use assms in \<open>auto simp: dom_upd_keys graph_inv_def dom_inv_def Let_def
       split: if_splits dest!: dom_upd_mem\<close>)

section \<open>Removing a node\<close>

lemma splice_links_frame [simp]:
  "g_heap (splice_links p a g) = g_heap g" "g_next_node (splice_links p a g) = g_next_node g"
  "g_narr (splice_links p a g) = g_narr g" "g_nodes (splice_links p a g) = g_nodes g"
  "g_links (splice_links p a g) = g_links g" "g_slinks (splice_links p a g) = g_slinks g"
  "g_dlinks (splice_links p a g) = g_dlinks g"
  "this_slinks (splice_links p a g) = this_slinks g"
  "this_dlinks (splice_links p a g) = this_dlinks g"
  "blocker (splice_links p a g) = blocker g" "dom_nodes (splice_links p a g) = dom_nodes g"
  "cout_nodes (splice_links p a g) = cout_nodes g"
  "g_larr (splice_links p a g) = (g_larr g)(a := filter (\<lambda>l. \<not> p l) (g_larr g a))"
  by (simp_all add: splice_links_def splice_while_0)

lemma find_node_index_splice [simp]:
  "find_node_index (splice_links p a g) i = find_node_index g i"
  by (simp add: find_node_index_def)

lemma find_index_None: "find_node_index g i = None \<longleftrightarrow> find_node g i = None"
  by (simp add: find_node_index_def index_of_None_iff find_node_None_iff image_iff) metis

text \<open>
  For a known id \<open>removeNode\<close> drops exactly the node and the links that touch it.
\<close>

lemma remove_node_known:
  assumes inv: "graph_inv g" and r: "find_node g i = Some r"
  shows "nodes_of (remove_node g i) = filter (\<lambda>q. q \<noteq> r) (nodes_of g)"
    and "links_of (remove_node g i) = filter (\<lambda>l. lsource l \<noteq> r \<and> ltarget l \<noteq> r) (links_of g)"
    and "slinks_of (remove_node g i) = filter (\<lambda>l. lsource l \<noteq> r \<and> ltarget l \<noteq> r) (slinks_of g)"
    and "dlinks_of (remove_node g i) = filter (\<lambda>l. lsource l \<noteq> r \<and> ltarget l \<noteq> r) (dlinks_of g)"
proof -
  have d: "distinct (node_ids g)" and a: "distinct [g_links g, this_slinks g, this_dlinks g]"
    using inv by (auto simp: graph_inv_def struct_inv_def)
  obtain k where k: "find_node_index g i = Some k"
    using find_index_None [of g i] r by auto
  have "splice1 k (nodes_of g) = splice_first (\<lambda>q. nid (g_heap g q) = i) (nodes_of g)"
    using k by (simp add: find_node_index_def splice1_index_of)
  also have "\<dots> = filter (\<lambda>q. nid (g_heap g q) \<noteq> i) (nodes_of g)"
    by (rule splice_first_distinct [OF d])
  also have "\<dots> = filter (\<lambda>q. q \<noteq> r) (nodes_of g)"
    using find_node_SomeD [OF r] d by (intro filter_cong) (auto simp: distinct_map inj_on_def)
  finally have s: "splice1 k (nodes_of g) = filter (\<lambda>q. q \<noteq> r) (nodes_of g)" .
  show "nodes_of (remove_node g i) = filter (\<lambda>q. q \<noteq> r) (nodes_of g)"
    using s k by (simp add: remove_node_def Let_def)
  show "links_of (remove_node g i) = filter (\<lambda>l. lsource l \<noteq> r \<and> ltarget l \<noteq> r) (links_of g)"
    "slinks_of (remove_node g i) = filter (\<lambda>l. lsource l \<noteq> r \<and> ltarget l \<noteq> r) (slinks_of g)"
    "dlinks_of (remove_node g i) = filter (\<lambda>l. lsource l \<noteq> r \<and> ltarget l \<noteq> r) (dlinks_of g)"
    using a r by (simp_all add: remove_node_def Let_def cong: filter_cong)
qed

lemma remove_node_frame [simp]:
  "g_heap (remove_node g i) = g_heap g" "g_next_node (remove_node g i) = g_next_node g"
  "g_nodes (remove_node g i) = g_nodes g" "g_links (remove_node g i) = g_links g"
  "g_slinks (remove_node g i) = g_slinks g" "g_dlinks (remove_node g i) = g_dlinks g"
  "this_slinks (remove_node g i) = this_slinks g" "this_dlinks (remove_node g i) = this_dlinks g"
  "blocker (remove_node g i) = blocker g" "cout_nodes (remove_node g i) = cout_nodes g"
  by (simp_all add: remove_node_def Let_def)

lemma remove_node_dom: "dom_inv g \<Longrightarrow> dom_inv (remove_node g i) \<and> drawn (remove_node g i)"
  unfolding remove_node_def Let_def
  by (rule dom_inv_update) (simp add: dom_inv_def)

lemma remove_node_inv:
  assumes inv: "graph_inv g" and r: "find_node g i = Some r"
  shows "graph_inv (remove_node g i)"
proof -
  have e: "ends_in (remove_node g i) (filter (\<lambda>l. lsource l \<noteq> r \<and> ltarget l \<noteq> r) ls)"
    if "ends_in g ls" for ls
    using that remove_node_known(1) [OF assms] by (auto simp: ends_in_def)
  have "struct_inv (remove_node g i)"
    using inv remove_node_known [OF assms] unfolding graph_inv_def struct_inv_def
    by (auto simp: e distinct_map_filter)
  then show ?thesis using inv remove_node_dom by (simp add: graph_inv_def)
qed

section \<open>Removing links\<close>

lemma remove_one_inv:
  assumes "graph_inv g" "a \<in> {g_links g, this_slinks g, this_dlinks g}"
  shows "graph_inv (remove_one a g s t)"
proof -
  have "ends_in g (splice_first (joins g s t) (g_larr g a))"
    using assms by (intro ends_in_subset [OF _ set_splice_first] ends_in_larr) (simp_all add: graph_inv_def)
  then show ?thesis unfolding remove_one_def
    by (intro graph_inv_update) (use assms in \<open>simp_all add: graph_inv_def struct_inv_larr dom_inv_def\<close>)
qed

lemma remove_link_inv: "graph_inv g \<Longrightarrow> graph_inv (remove_link g s t)"
  and remove_slink_inv: "graph_inv g \<Longrightarrow> graph_inv (remove_slink g s t)"
  and remove_dlink_inv: "graph_inv g \<Longrightarrow> graph_inv (remove_dlink g s t)"
  by (simp_all add: remove_link_def remove_slink_def remove_dlink_def remove_one_inv)

lemma remove_all_links_inv:
  assumes "graph_inv g"
  shows "graph_inv (remove_all_links g)"
  unfolding remove_all_links_def
  by (rule graph_inv_update)
    (use assms in \<open>simp_all add: graph_inv_def struct_inv_larr dom_inv_def ends_in_def\<close>)

section \<open>Reachable graphs\<close>

text \<open>
  The calls that keep the graph consistent, with the conditions a caller has to meet: a new
  node's id is fresh and a removed node's id is known. \<open>onAddNode\<close> checks its id itself.
\<close>

inductive graph_step :: "graph \<Rightarrow> graph \<Rightarrow> bool" where
  step_on_add: "graph_step g (on_add_node g i)"
| step_add_obj: "find_node g (nid n) = None \<Longrightarrow> graph_step g (add_node_obj g n)"
| step_add_str: "find_node g i = None \<Longrightarrow> graph_step g (add_node_str g i)"
| step_remove: "find_node g i \<noteq> None \<Longrightarrow> graph_step g (remove_node g i)"
| step_link: "graph_step g (add_link g s t v)"
| step_slink: "graph_step g (add_slink g s t v)"
| step_dlink: "graph_step g (add_dlink g s t v)"
| step_rm_link: "graph_step g (remove_link g s t)"
| step_rm_slink: "graph_step g (remove_slink g s t)"
| step_rm_dlink: "graph_step g (remove_dlink g s t)"
| step_rm_all_links: "graph_step g (remove_all_links g)"
| step_blocker: "graph_step g (set_blocker g i)"
| step_sync: "graph_step g (set_node_sync g i val)"
| step_sta: "graph_step g (set_node_sta g i x)"
| step_update_sta: "graph_step g (fst (update_node_sta g m tm i x))"
| step_count: "graph_step g (g\<lparr>cout_nodes := c\<rparr>)"

text \<open>The calls that may break it: the removal of an unknown node, and the two that drop nodes and leave links.\<close>

inductive graph_wild :: "graph \<Rightarrow> graph \<Rightarrow> bool" where
  wild_remove: "graph_wild g (remove_node g i)"
| wild_all_nodes: "graph_wild g (remove_all_nodes g)"
| wild_reset: "graph_wild g (reset_nodes g)"

text \<open>Any sequence of calls; it is tame while it has none of the latter.\<close>

inductive graph_run :: "bool \<Rightarrow> graph \<Rightarrow> bool" where
  run_new: "graph_run tame new_graph"
| run_step: "graph_run tame g \<Longrightarrow> graph_step g g' \<Longrightarrow> graph_run tame g'"
| run_wild: "graph_run tame g \<Longrightarrow> graph_wild g g' \<Longrightarrow> graph_run False g'"

lemma new_graph_inv: "graph_inv new_graph"
  by (simp add: graph_inv_def struct_inv_def dom_inv_def drawn_def ends_in_def new_graph_def)

lemmas graph_op_inv =
  on_add_node_inv add_node_obj_inv add_node_str_inv remove_node_inv add_link_inv add_slink_inv
  add_dlink_inv remove_link_inv remove_slink_inv remove_dlink_inv remove_all_links_inv
  set_blocker_inv set_node_sync_inv set_node_sta_inv

lemma graph_step_inv: "graph_step g g' \<Longrightarrow> graph_inv g \<Longrightarrow> graph_inv g'"
  by (induction rule: graph_step.induct) (auto intro: graph_op_inv graph_inv_cout simp: update_node_sta_def)

lemma tame_run_inv: "graph_run tame g \<Longrightarrow> tame \<Longrightarrow> graph_inv g"
  by (induction rule: graph_run.induct) (auto intro: new_graph_inv graph_step_inv)

section \<open>What no call breaks\<close>

definition base_inv :: "graph \<Rightarrow> bool" where
  "base_inv g \<longleftrightarrow> (\<forall>r \<in> set (nodes_of g). r < g_next_node g) \<and> distinct (node_ids g) \<and> dom_inv g"

lemma base_inv_cong:
  "g_heap g' = g_heap g \<Longrightarrow> g_next_node g' = g_next_node g \<Longrightarrow> nodes_of g' = nodes_of g \<Longrightarrow> dom_inv g' = dom_inv g
    \<Longrightarrow> base_inv g' = base_inv g"
  by (simp add: base_inv_def)

lemma base_inv_update: "base_inv g \<Longrightarrow> base_inv (update g)"
  by (simp add: base_inv_def dom_inv_update)

lemma base_inv_larr: "base_inv (g\<lparr>g_larr := x\<rparr>) = base_inv g"
  by (rule base_inv_cong) (simp_all add: dom_inv_def)

lemma base_inv_push_link: "base_inv g \<Longrightarrow> base_inv (push_link n a g s t v)"
proof (cases "find_node g s = None \<or> find_node g t = None")
  case True
  moreover assume "base_inv g"
  then have "base_inv (g\<lparr>console_err := e\<rparr>)" for e by (simp add: base_inv_def dom_inv_def)
  ultimately show ?thesis by (auto simp: push_link_def split: option.split)
next
  case False
  moreover assume "base_inv g"
  then have "base_inv (update (g\<lparr>g_larr := x\<rparr>))" for x by (simp add: base_inv_update base_inv_larr)
  ultimately show ?thesis by (auto simp: push_link_def)
qed

lemma base_inv_push_node:
  assumes "base_inv g" "find_node g (nid n) = None"
  shows "base_inv (push_node g n)"
proof -
  have f: "r \<in> set (nodes_of g) \<Longrightarrow> r \<noteq> g_next_node g" for r
    using assms(1) by (auto simp: base_inv_def)
  then have "map (\<lambda>r. nid (((g_heap g)(g_next_node g := n)) r)) (nodes_of g) = node_ids g"
    by (auto intro: map_cong)
  then have ids: "node_ids (push_node g n) = node_ids g @ [nid n]" by simp
  have "nid n \<notin> set (node_ids g)" using assms(2) by (simp only: find_node_None_iff) simp
  then have "distinct (node_ids (push_node g n))"
    using assms(1) unfolding ids by (simp add: base_inv_def)
  then show ?thesis using assms(1) unfolding base_inv_def by (auto simp: less_SucI)
qed

lemma base_inv_sta: "base_inv g \<Longrightarrow> base_inv (set_node_sta g i x)"
  unfolding base_inv_def dom_inv_def set_node_sta_def
  by (auto simp: dom_upd_keys dest!: dom_upd_mem)

lemma base_inv_cout: "base_inv (g\<lparr>cout_nodes := c\<rparr>) = base_inv g"
  by (rule base_inv_cong) (simp_all add: dom_inv_def)

lemma base_inv_str: "base_inv g \<Longrightarrow> find_node g i = None \<Longrightarrow> base_inv (add_node_str g i)"
  by (simp add: add_node_str_def add_link_def Let_def base_inv_update base_inv_push_link base_inv_push_node)

lemma base_inv_on_add: "base_inv g \<Longrightarrow> base_inv (on_add_node g i)"
  by (simp add: on_add_node_def add_dlink_def add_slink_def Let_def base_inv_sta base_inv_cout base_inv_push_link base_inv_str)

lemma base_inv_nodes:
  assumes "base_inv g" "set ns \<subseteq> set (nodes_of g)" "distinct (map (\<lambda>r. nid (g_heap g r)) ns)"
  shows "base_inv (update (g\<lparr>g_narr := (g_narr g)(g_nodes g := ns)\<rparr>))"
proof (rule base_inv_update)
  have "dom_inv (g\<lparr>g_narr := (g_narr g)(g_nodes g := ns)\<rparr>)" using assms(1) by (simp add: base_inv_def dom_inv_def)
  then show "base_inv (g\<lparr>g_narr := (g_narr g)(g_nodes g := ns)\<rparr>)" using assms by (auto simp: base_inv_def)
qed

lemma distinct_splice1: "distinct (map f xs) \<Longrightarrow> distinct (map f (splice1 k xs))"
proof -
  assume d: "distinct (map f xs)"
  have "map f (splice1 k xs) = take k (map f xs) @ drop (Suc k) (map f xs)"
    by (simp add: splice1_def take_map drop_map)
  then show ?thesis using d set_take_disj_set_drop_if_distinct [OF d, of k "Suc k"]
    by (simp only: distinct_append distinct_take distinct_drop)
qed

lemma base_inv_remove: "base_inv g \<Longrightarrow> base_inv (remove_node g i)"
proof -
  assume b: "base_inv g"
  let ?g1 = "splice_links p3 (this_dlinks g) (splice_links p2 (this_slinks g) (splice_links p1 (g_links g) g))"
  have "base_inv (splice_links p3 a3 (splice_links p2 a2 (splice_links p1 a1 g)))" for p1 p2 p3 a1 a2 a3
    using b by (simp add: splice_links_def base_inv_larr)
  then have "base_inv (update (h\<lparr>g_narr := (g_narr h)(g_nodes h := splice1 k (nodes_of h))\<rparr>))"
    if "h = splice_links p3 a3 (splice_links p2 a2 (splice_links p1 a1 g))" for h p1 p2 p3 a1 a2 a3 k
    using that b
    by (intro base_inv_nodes distinct_splice1)
      (auto simp: base_inv_def splice1_def simp del: splice_links_frame(13) dest: in_set_takeD in_set_dropD)
  then show ?thesis by (simp add: remove_node_def Let_def del: splice_links_frame)
qed

lemma base_inv_remove_all: "base_inv g \<Longrightarrow> base_inv (remove_all_nodes g)"
proof -
  assume b: "base_inv g"
  then have "distinct (map (\<lambda>r. nid (g_heap g r)) (drop n (nodes_of g)))" for n
    by (metis base_inv_def distinct_drop drop_map)
  then show ?thesis unfolding remove_all_nodes_def by (intro base_inv_nodes [OF b]) (simp_all add: set_drop_subset)
qed

lemma base_inv_reset: "base_inv g \<Longrightarrow> base_inv (reset_nodes g)"
  unfolding reset_nodes_def Let_def by (rule base_inv_sta) (simp add: base_inv_def dom_inv_def)

lemma base_inv_sync: "base_inv g \<Longrightarrow> base_inv (set_node_sync g i val)"
  unfolding base_inv_def dom_inv_def set_node_sync_def
  by (auto simp: dom_upd_keys Let_def picked_def split: if_splits dest!: dom_upd_mem)

lemma base_inv_blocker: "base_inv g \<Longrightarrow> base_inv (set_blocker g i)"
  using set_blocker_dom(1) [of g i] by (simp add: base_inv_def) (simp add: set_blocker_def)

lemma base_inv_step: "graph_step g g' \<Longrightarrow> base_inv g \<Longrightarrow> base_inv g'"
  by (induction rule: graph_step.induct)
    (simp_all add: base_inv_on_add base_inv_str base_inv_remove base_inv_sync base_inv_blocker base_inv_sta base_inv_update
      base_inv_push_link base_inv_push_node base_inv_larr add_link_def add_slink_def add_dlink_def add_node_obj_def remove_link_def
      remove_slink_def remove_dlink_def remove_one_def remove_all_links_def update_node_sta_def base_inv_cout)

lemma base_inv_wild: "graph_wild g g' \<Longrightarrow> base_inv g \<Longrightarrow> base_inv g'"
  by (induction rule: graph_wild.induct) (simp_all add: base_inv_remove base_inv_remove_all base_inv_reset)

lemma run_base_inv: "graph_run tame g \<Longrightarrow> base_inv g"
  by (induction rule: graph_run.induct) (auto simp: base_inv_step base_inv_wild, simp add: base_inv_def dom_inv_def new_graph_def)

section \<open>The arrays\<close>

text \<open>A call that binds no variable to a new array and writes no array but those of \<open>links\<close>, \<open>this.slinks\<close> and \<open>this.dlinks\<close>.\<close>

definition keeps_arrays :: "graph \<Rightarrow> graph \<Rightarrow> bool" where
  "keeps_arrays g g' \<longleftrightarrow> g_links g' = g_links g \<and> g_slinks g' = g_slinks g \<and> g_dlinks g' = g_dlinks g
     \<and> this_slinks g' = this_slinks g \<and> this_dlinks g' = this_dlinks g \<and> g_next_arr g' = g_next_arr g
     \<and> (\<forall>a. a \<notin> {g_links g, this_slinks g, this_dlinks g} \<longrightarrow> g_larr g' a = g_larr g a)"

lemma keeps_arrays_refl [simp]: "keeps_arrays g g"
  by (simp add: keeps_arrays_def)

lemma keeps_arrays_trans: "keeps_arrays g h \<Longrightarrow> keeps_arrays h k \<Longrightarrow> keeps_arrays g k"
  by (simp add: keeps_arrays_def)

lemma keeps_arrays_update [simp]: "keeps_arrays g (update h) = keeps_arrays g h"
  by (simp add: keeps_arrays_def)

lemma keeps_arrays_sta [simp]: "keeps_arrays g (set_node_sta h i x) = keeps_arrays g h"
  by (simp add: keeps_arrays_def) (simp add: set_node_sta_def)

lemma keeps_arrays_link: "keeps_arrays g h \<Longrightarrow> a \<in> {g_links h, this_slinks h, this_dlinks h} \<Longrightarrow> keeps_arrays g (push_link n a h s t v)"
  by (erule keeps_arrays_trans) (auto simp: push_link_def keeps_arrays_def split: option.split)

lemma keeps_arrays_node [simp]: "keeps_arrays g (push_node h n) = keeps_arrays g h"
  by (simp add: keeps_arrays_def) (simp add: push_node_def)

lemma keeps_arrays_str: "keeps_arrays g h \<Longrightarrow> keeps_arrays g (add_node_str h i)"
  by (simp add: add_node_str_def add_link_def Let_def keeps_arrays_link)

lemma keeps_arrays_cout [simp]: "keeps_arrays g (h\<lparr>cout_nodes := c\<rparr>) = keeps_arrays g h"
  by (simp add: keeps_arrays_def)

lemma keeps_arrays_on_add: "keeps_arrays g (on_add_node g i)"
  by (auto simp: on_add_node_def add_slink_def add_dlink_def Let_def intro!: keeps_arrays_link keeps_arrays_str)

lemma keeps_arrays_remove: "keeps_arrays g (remove_node g i)"
  by (simp add: keeps_arrays_def) (simp add: remove_node_def splice_links_def update_def Let_def)

lemma keeps_arrays_step: "graph_step g g' \<Longrightarrow> keeps_arrays g g'"
  by (induction rule: graph_step.induct)
    (auto simp: keeps_arrays_on_add keeps_arrays_remove add_node_obj_def add_link_def add_slink_def add_dlink_def remove_link_def
      remove_slink_def remove_dlink_def update_node_sta_def intro!: keeps_arrays_link keeps_arrays_str,
     simp_all add: keeps_arrays_def remove_one_def remove_all_links_def set_blocker_def set_node_sync_def)

lemma keeps_arrays_all_nodes: "keeps_arrays g (remove_all_nodes g)"
  by (simp add: remove_all_nodes_def) (simp add: keeps_arrays_def)

lemma reset_arrays:
  "g_slinks (reset_nodes g) = g_slinks g" "g_dlinks (reset_nodes g) = g_dlinks g" "g_next_arr (reset_nodes g) = g_next_arr g + 4"
  "g_links (reset_nodes g) = g_next_arr g" "this_slinks (reset_nodes g) = g_next_arr g + 1" "this_dlinks (reset_nodes g) = g_next_arr g + 2"
  "a < g_next_arr g \<Longrightarrow> g_larr (reset_nodes g) a = g_larr g a"
  by (simp_all add: reset_nodes_def Let_def set_node_sta_def)

definition arrays_below :: "graph \<Rightarrow> bool" where
  "arrays_below g \<longleftrightarrow> g_links g < g_next_arr g \<and> g_slinks g < g_next_arr g \<and> g_dlinks g < g_next_arr g
     \<and> this_slinks g < g_next_arr g \<and> this_dlinks g < g_next_arr g"

lemma arrays_below_keeps: "keeps_arrays g g' \<Longrightarrow> arrays_below g \<Longrightarrow> arrays_below g'"
  by (simp add: keeps_arrays_def arrays_below_def)

lemma wild_cases: "graph_wild g g' \<Longrightarrow> keeps_arrays g g' \<or> g' = reset_nodes g"
  by (induction rule: graph_wild.induct) (simp_all add: keeps_arrays_remove keeps_arrays_all_nodes)

lemma call_cases: "graph_step g g' \<or> graph_wild g g' \<Longrightarrow> keeps_arrays g g' \<or> g' = reset_nodes g"
  using keeps_arrays_step wild_cases by blast

lemma run_arrays_below: "graph_run tame g \<Longrightarrow> arrays_below g"
proof (induction rule: graph_run.induct)
  case (run_new tame)
  show ?case by (simp add: arrays_below_def new_graph_def)
next
  case (run_step tame g g')
  then show ?case using keeps_arrays_step arrays_below_keeps by blast
next
  case (run_wild tame g g')
  then show ?case using wild_cases [of g g'] arrays_below_keeps [of g g'] by (auto simp: arrays_below_def reset_arrays)
qed

text \<open>The array that \<open>update\<close> draws the links from is none that a call writes.\<close>

definition detached :: "glink list \<Rightarrow> glink list \<Rightarrow> graph \<Rightarrow> bool" where
  "detached ss ds g \<longleftrightarrow> arrays_below g \<and> g_larr g (g_slinks g) = ss \<and> g_larr g (g_dlinks g) = ds
     \<and> g_slinks g \<notin> {g_links g, this_slinks g, this_dlinks g} \<and> g_dlinks g \<notin> {g_links g, this_slinks g, this_dlinks g}"

lemma reset_detached: "arrays_below g \<Longrightarrow> detached (g_larr g (g_slinks g)) (g_larr g (g_dlinks g)) (reset_nodes g)"
  by (simp add: detached_def arrays_below_def reset_arrays)

lemma detached_call: "graph_step g g' \<or> graph_wild g g' \<Longrightarrow> detached ss ds g \<Longrightarrow> detached ss ds g'"
proof (drule call_cases, erule disjE)
  assume d: "detached ss ds g"
  show "detached ss ds g'" if "keeps_arrays g g'"
    using that d arrays_below_keeps [OF that] by (auto simp: detached_def keeps_arrays_def)
  show "detached ss ds g'" if "g' = reset_nodes g"
    using that d reset_detached [of g] by (simp add: detached_def)
qed

lemma detached_calls: "(\<lambda>g g'. graph_step g g' \<or> graph_wild g g')\<^sup>*\<^sup>* g g' \<Longrightarrow> detached ss ds g \<Longrightarrow> detached ss ds g'"
  by (induction rule: rtranclp_induct) (auto simp: detached_call)

end
