(* ===== verification/Monitor.thy ===== *)
theory Monitor
  imports RepGraphInv
begin

text \<open>
  The page g1.html around the graph: the fixed topic nodes that \<open>drawGraph\<close> places, the
  mapping of peer addresses to node ids, and the WebSocket handlers that turn a decoded
  \<open>rep.protos.Event\<close> into counters, block list and graph updates. The rendering of the
  counters and of the block list as HTML is left out; the list itself is kept.
\<close>

section \<open>The fixed nodes\<close>

definition topic_node :: "string \<Rightarrow> string \<Rightarrow> int \<Rightarrow> gnode" where
  "topic_node i c r = \<lparr>nid = js i, ncolor = Some (js c), nr = Some r\<rparr>"

definition draw_graph :: graph where
  "draw_graph =
     (let g = new_graph;
          g = add_node_obj g (topic_node ''RepChain'' ''grey'' 18);
          g = add_node_obj g (topic_node ''Transaction'' ''lightblue'' 15);
          g = add_node_obj g (topic_node ''Endorsement'' ''lightblue'' 15);
          g = add_node_obj g (topic_node ''Block'' ''lightblue'' 15)
      in add_node_obj g (topic_node ''Sync'' ''lightblue'' 15))"

section \<open>Node ids of peer addresses\<close>

text \<open>
  \<open>brief\<close> keeps what stands between the first \<open>@\<close> and the next \<open>/\<close>; the handler then
  replaces every dot, colon and percent sign by an underscore.
\<close>

definition brief :: "jsstring \<Rightarrow> jsstring" where
  "brief ft =
     (case index_of (\<lambda>c. c = of_char (CHR ''@'')) ft of
        None \<Rightarrow> ft
      | Some p0 \<Rightarrow>
          (case index_of (\<lambda>c. c = of_char (CHR ''/'')) (drop (Suc p0) ft) of
             None \<Rightarrow> drop (Suc p0) ft
           | Some k \<Rightarrow> take k (drop (Suc p0) ft)))"

definition replace_char :: "char \<Rightarrow> char \<Rightarrow> jsstring \<Rightarrow> jsstring" where
  "replace_char a b s = map (\<lambda>c. if c = of_char a then of_char b else c) s"

definition node_id_of :: "jsstring \<Rightarrow> jsstring" where
  "node_id_of addr =
     replace_char (CHR ''%'') (CHR ''_'')
       (replace_char (CHR '':'') (CHR ''_'') (replace_char (CHR ''.'') (CHR ''_'') (brief addr)))"

section \<open>The page\<close>

text \<open>
  What the handler reads of a decoded event. \<open>bk_secs\<close> are the local times of the
  endorsements; None is an endorsement without \<open>tmLocal\<close>.
\<close>

record blk =
  bk_secs :: "int option list"
  bk_prev :: "u8 list"
  bk_txs :: "jsstring list"

record event =
  ev_from :: jsstring
  ev_to :: jsstring
  ev_action :: int
  ev_blk :: "blk option"

record blk_entry =
  be_count :: "int option"
  be_seconds :: int
  be_prev :: "u8 list"
  be_txs :: "jsstring list"

record page =
  pgraph :: graph
  cout_evts :: "int option"
  cout_trans :: "int option"
  cout_blocks :: "int option"
  cout_endorsements :: "int option"
  tl_map :: "jsstring \<rightharpoonup> int"
  buf_block :: "blk_entry list"
  timer_block :: bool
  page_errs :: nat

definition incr :: "int option \<Rightarrow> int option" where
  "incr c = map_option (\<lambda>x. x + 1) c"

definition decr :: "int option \<Rightarrow> int option" where
  "decr c = map_option (\<lambda>x. x - 1) c"

definition page_sta :: "page \<Rightarrow> int \<Rightarrow> string \<Rightarrow> int option \<Rightarrow> page" where
  "page_sta p tm i c =
     (let (g, m) = update_node_sta (pgraph p) (tl_map p) tm (js i) (Count c)
      in p\<lparr>pgraph := g, tl_map := m\<rparr>)"

text \<open>
  \<open>socket.onopen\<close> resets the counters (the totals only when no height is known), and
  \<open>socket.onclose\<close> draws a new graph.
\<close>

definition on_open :: "page \<Rightarrow> page" where
  "on_open p =
     (let p = (if cout_blocks p = None \<or> cout_blocks p = Some 0
               then p\<lparr>cout_trans := Some 0, cout_blocks := Some 0\<rparr> else p)
      in p\<lparr>pgraph := (pgraph p)\<lparr>cout_nodes := Some 0\<rparr>, cout_evts := Some 0,
           cout_endorsements := Some 0\<rparr>)"

definition on_close :: "page \<Rightarrow> page" where
  "on_close p = p\<lparr>pgraph := draw_graph, cout_evts := None, cout_trans := None,
     cout_blocks := None, cout_endorsements := None\<rparr>"

section \<open>The message handler\<close>

text \<open>
  A handler step that throws leaves the state it had reached in \<open>Inl\<close>; the catch clause of
  the handler logs the error and keeps that state.
\<close>

type_synonym page_res = "page + page"

definition new_block :: "page \<Rightarrow> blk option \<Rightarrow> page_res" where
  "new_block p b =
     (let p = p\<lparr>cout_blocks := incr (cout_blocks p)\<rparr>
      in case b of
           None \<Rightarrow> Inl p
         | Some k \<Rightarrow>
             (case bk_secs k of
                Some s # _ \<Rightarrow>
                  Inr (p\<lparr>buf_block := \<lparr>be_count = cout_blocks p, be_seconds = s, be_prev = bk_prev k,
                                          be_txs = bk_txs k\<rparr> # buf_block p,
                         timer_block := True\<rparr>)
              | _ \<Rightarrow> Inl p))"

definition count_action :: "page \<Rightarrow> int \<Rightarrow> event \<Rightarrow> jsstring \<Rightarrow> jsstring \<Rightarrow> page_res" where
  "count_action p tm ev sfrom sto =
     (if ev_action ev = 1 then
        let p = (if ev_from ev \<noteq> js ''Transaction'' then p\<lparr>cout_trans := incr (cout_trans p)\<rparr> else p)
        in Inr (page_sta p tm ''Transaction'' (cout_trans p))
      else if ev_action ev = 2 then
        (if ev_from ev \<noteq> js ''Block'' then new_block p (ev_blk ev) else Inr p)
      else if ev_action ev = 4 then
        let p = (if ev_from ev \<noteq> js ''Endorsement''
                 then p\<lparr>cout_endorsements := incr (cout_endorsements p)\<rparr> else p)
        in Inr (page_sta p tm ''Endorsement'' (cout_endorsements p))
      else if ev_action ev = 7 then Inr (p\<lparr>pgraph := set_blocker (pgraph p) sfrom\<rparr>)
      else if ev_action ev = 9 then
        (if (case tl_map p (js ''Sync'') of None \<Rightarrow> True | Some t \<Rightarrow> t = 0 \<or> tm - t > 500)
         then Inr (p\<lparr>tl_map := (tl_map p)(js ''Sync'' \<mapsto> tm)\<rparr>) else Inr p)
      else if ev_action ev = 10 then Inr (p\<lparr>pgraph := add_dlink (pgraph p) sfrom sto None\<rparr>)
      else Inr p)"

text \<open>The animation of a link is skipped within \<open>SPAN_LINK\<close> = 1500 ms of the last one.\<close>

definition touch_link :: "int \<Rightarrow> jsstring \<Rightarrow> (jsstring \<rightharpoonup> int) \<Rightarrow> (jsstring \<rightharpoonup> int)" where
  "touch_link tm k m =
     (if (case m k of None \<Rightarrow> True | Some t \<Rightarrow> t = 0 \<or> tm - t > 1500) then m(k \<mapsto> tm) else m)"

definition member_action :: "page \<Rightarrow> int \<Rightarrow> event \<Rightarrow> jsstring \<Rightarrow> jsstring \<Rightarrow> page" where
  "member_action p tm ev sfrom sto =
     (if ev_action ev = 5 then p\<lparr>pgraph := on_add_node (pgraph p) sfrom\<rparr>
      else if ev_action ev = 6 then
        let g = remove_node (pgraph p) sfrom;
            g = g\<lparr>cout_nodes := decr (cout_nodes g)\<rparr>
        in p\<lparr>pgraph := set_node_sta g (js ''RepChain'') (Count (cout_nodes g))\<rparr>
      else if ev_action ev \<in> {1, 2, 3, 4, 9} then
        p\<lparr>tl_map := touch_link tm (js ''#p_'' @ sfrom @ js ''-'' @ sto)
             (touch_link tm (js ''#d_'' @ sfrom @ js ''-'' @ sto) (tl_map p))\<rparr>
      else p)"

definition on_message :: "page \<Rightarrow> int \<Rightarrow> event \<Rightarrow> page" where
  "on_message p tm ev =
     (let sfrom = node_id_of (ev_from ev); sto = node_id_of (ev_to ev);
          p = p\<lparr>cout_evts := incr (cout_evts p)\<rparr>;
          p = page_sta p tm ''Event'' (cout_evts p)
      in case count_action p tm ev sfrom sto of
           Inl q \<Rightarrow> q\<lparr>page_errs := Suc (page_errs q)\<rparr>
         | Inr q \<Rightarrow> member_action q tm ev sfrom sto)"

text \<open>The timer of the block list keeps the 20 newest blocks.\<close>

definition on_block_timer :: "page \<Rightarrow> int \<Rightarrow> page" where
  "on_block_timer p tm =
     (let p = p\<lparr>buf_block := take 20 (buf_block p)\<rparr>;
          p = page_sta p tm ''Block'' (cout_blocks p)
      in p\<lparr>timer_block := False\<rparr>)"

end
