(* ===== verification/GraphProps.thy ===== *)
theory GraphProps
  imports Monitor
begin

text \<open>
  The properties of the cluster graph and of the page's message handler, on top of the
  invariant of RepGraphInv.
\<close>

section \<open>What a member event adds and removes\<close>

definition topics :: "jsstring list" where
  "topics = [js ''Transaction'', js ''Block'', js ''Endorsement'', js ''Sync'']"

definition has_topics :: "graph \<Rightarrow> bool" where
  "has_topics g \<longleftrightarrow> (\<forall>t \<in> set topics. find_node g t \<noteq> None)"

definition topic_ref :: "graph \<Rightarrow> jsstring \<Rightarrow> nat" where
  "topic_ref g t = the (find_node g t)"

definition up_link :: "nat \<Rightarrow> nat \<Rightarrow> glink" where
  "up_link s t = \<lparr>lsource = s, ltarget = t, lvalue = 20\<rparr>"

lemma value_or_20_None [simp]: "value_or_20 None = 20"
  by (simp add: value_or_20_def)

lemma find_node_push_node:
  assumes "struct_inv g"
  shows "find_node (push_node g n) i =
    (case find_node g i of Some r \<Rightarrow> Some r | None \<Rightarrow> if nid n = i then Some (g_next_node g) else None)"
proof -
  have f: "\<forall>r \<in> set (nodes_of g). r \<noteq> g_next_node g" using assms by (auto simp: struct_inv_def)
  have "find (\<lambda>r. nid (((g_heap g)(g_next_node g := n)) r) = i) rs =
      find (\<lambda>r. nid (g_heap g r) = i) rs" if "\<forall>r \<in> set rs. r \<noteq> g_next_node g" for rs
    using that by (induction rs) auto
  from this [OF f] show ?thesis
    by (simp add: find_node_def find_append split: option.split)
qed

lemma push_link_larr:
  assumes "find_node g s = Some ns" "find_node g t = Some nt"
  shows "g_larr (push_link n a g s t None) = (g_larr g)(a := g_larr g a @ [up_link ns nt])"
  by (simp add: push_link_eq [OF assms] up_link_def)

lemma add_node_str_effect:
  assumes inv: "struct_inv g" and new: "find_node g i = None"
  defines "r \<equiv> g_next_node g"
  shows "nodes_of (add_node_str g i) = nodes_of g @ [r]"
    and "g_larr (add_node_str g i) = (g_larr g)(g_links g := links_of g @ [up_link (hd (nodes_of g @ [r])) r])"
    and "find_node (add_node_str g i) k = (if k = i then Some r else find_node g k)"
proof -
  let ?n = "\<lparr>nid = i, ncolor = Some (if blocker g = Some i then js ''lawngreen'' else js ''steelblue''),
    nr = None\<rparr>"
  let ?g1 = "push_node g ?n"
  let ?h = "hd (nodes_of g @ [r])"
  have s1: "struct_inv ?g1" using push_node_struct [OF inv] new by simp
  have n1: "nodes_of ?g1 = nodes_of g @ [r]" by (simp add: r_def)
  have fi: "find_node ?g1 i = Some r" using new by (simp add: find_node_push_node [OF inv] r_def)
  have "?h \<in> set (nodes_of ?g1)" unfolding n1 by (cases "nodes_of g") auto
  then have fh: "find_node ?g1 (nid (g_heap ?g1 ?h)) = Some ?h"
    using s1 by (intro find_node_SomeI) (simp_all add: struct_inv_def del: push_node_frame)
  have e: "add_node_str g i = update (add_link ?g1 (nid (g_heap ?g1 ?h)) i None)"
    by (simp only: add_node_str_def Let_def n1)
  show "nodes_of (add_node_str g i) = nodes_of g @ [r]"
    unfolding e add_link_def by (simp add: r_def)
  show "g_larr (add_node_str g i) = (g_larr g)(g_links g := links_of g @ [up_link ?h r])"
    unfolding e add_link_def update_frame push_link_larr [OF fh fi] by simp
  show "find_node (add_node_str g i) k = (if k = i then Some r else find_node g k)"
    unfolding e add_link_def find_node_update find_node_push_link
    using new by (auto simp: find_node_push_node [OF inv] r_def split: option.split)
qed

lemma on_add_node_effect:
  assumes inv: "graph_inv g" and new: "find_node g i = None" and top: "has_topics g"
  defines "r \<equiv> g_next_node g"
  shows "nodes_of (on_add_node g i) = nodes_of g @ [r]"
    and "links_of (on_add_node g i) = links_of g @ [up_link (hd (nodes_of g)) r]"
    and "dlinks_of (on_add_node g i) = dlinks_of g @ map (\<lambda>t. up_link r (topic_ref g t)) topics"
    and "slinks_of (on_add_node g i) = slinks_of g @ map (\<lambda>t. up_link (topic_ref g t) r) topics"
    and "cout_nodes (on_add_node g i) = map_option (\<lambda>c. c + 1) (cout_nodes g)"
proof -
  have si: "struct_inv g" and a: "distinct [g_links g, this_slinks g, this_dlinks g]"
    using inv by (auto simp: graph_inv_def struct_inv_def)
  note str = add_node_str_effect [OF si new]
  have ne: "nodes_of g \<noteq> []"
    using top by (auto simp: has_topics_def topics_def find_node_None_iff)
  have t: "find_node (add_node_str g i) t = Some (topic_ref g t)" if "t \<in> set topics" for t
    using that top new unfolding str(3) has_topics_def topic_ref_def by auto
  have fi: "find_node (add_node_str g i) i = Some r" by (simp add: str(3) r_def)
  have frame: "g_nodes (add_node_str g i) = g_nodes g" "g_links (add_node_str g i) = g_links g"
    "this_slinks (add_node_str g i) = this_slinks g" "this_dlinks (add_node_str g i) = this_dlinks g"
    "cout_nodes (add_node_str g i) = cout_nodes g"
    by (simp_all add: add_node_str_def add_link_def Let_def)
  have "js ''Transaction'' \<in> set topics" "js ''Block'' \<in> set topics"
    "js ''Endorsement'' \<in> set topics" "js ''Sync'' \<in> set topics" by (simp_all add: topics_def)
  note ft = this [THEN t]
  show "nodes_of (on_add_node g i) = nodes_of g @ [r]"
    using new str(1) by (simp add: on_add_node_def Let_def add_dlink_def add_slink_def frame r_def)
  show "links_of (on_add_node g i) = links_of g @ [up_link (hd (nodes_of g)) r]"
    "dlinks_of (on_add_node g i) = dlinks_of g @ map (\<lambda>t. up_link r (topic_ref g t)) topics"
    "slinks_of (on_add_node g i) = slinks_of g @ map (\<lambda>t. up_link (topic_ref g t) r) topics"
    using new ne a
    by (simp_all add: on_add_node_def Let_def add_dlink_def add_slink_def frame
        push_link_larr [OF fi ft(1)] push_link_larr [OF fi ft(2)] push_link_larr [OF fi ft(3)]
        push_link_larr [OF fi ft(4)] push_link_larr [OF ft(1) fi] push_link_larr [OF ft(2) fi]
        push_link_larr [OF ft(3) fi] push_link_larr [OF ft(4) fi] push_link_larr ft fi
        str(2) r_def topics_def)
  show "cout_nodes (on_add_node g i) = map_option (\<lambda>c. c + 1) (cout_nodes g)"
    using new by (simp add: on_add_node_def Let_def add_dlink_def add_slink_def frame)
qed

section \<open>The graph the page starts with\<close>

lemma draw_graph_run: "graph_run tame draw_graph"
  unfolding draw_graph_def Let_def
  by (intro run_step [OF _ step_add_obj] run_new) code_simp+

lemma draw_graph_inv: "graph_inv draw_graph"
  by (rule tame_run_inv [OF draw_graph_run]) simp

lemma draw_graph_topics: "has_topics draw_graph"
  by code_simp

lemma draw_graph_ids:
  "node_ids draw_graph = map js [''RepChain'', ''Transaction'', ''Endorsement'', ''Block'', ''Sync'']"
  by code_simp

lemma draw_graph_nodes: "nodes_of draw_graph = [0, 1, 2, 3, 4]"
  by code_simp

lemma draw_graph_fresh: "find_node draw_graph (js ''n1'') = None"
  by code_simp

section \<open>Properties of the graph\<close>

text \<open>C2: after any sequence of the graph's calls, in which \<open>addNode\<close> is given fresh ids (the page gives no others), node ids
  are distinct and no node is drawn twice. If moreover no call removed a node by an unknown id, spliced the nodes in
  \<open>removeAllNodes\<close> or reset them in \<open>resetNodes\<close>, then every link joins two nodes of the graph and exactly the nodes of
  the graph are drawn; what those calls break is stated further down.\<close>

theorem reachable_graph_consistent:
  assumes "graph_run tame g"
  shows "distinct (node_ids g) \<and> distinct (map vkey (dom_nodes g)) \<and>
    (tame \<longrightarrow> (\<forall>l \<in> set (links_of g @ slinks_of g @ dlinks_of g).
        lsource l \<in> set (nodes_of g) \<and> ltarget l \<in> set (nodes_of g)) \<and>
      set (map vkey (dom_nodes g)) = set (node_ids g))"
proof (intro conjI impI)
  note b = run_base_inv [OF assms, unfolded base_inv_def]
  show "distinct (node_ids g)" using b by blast
  show "distinct (map vkey (dom_nodes g))" using b unfolding dom_inv_def by blast
  assume tame
  note t = tame_run_inv [OF assms this, unfolded graph_inv_def struct_inv_def drawn_def ends_in_def]
  show "\<forall>l \<in> set (links_of g @ slinks_of g @ dlinks_of g). lsource l \<in> set (nodes_of g) \<and> ltarget l \<in> set (nodes_of g)"
    using t unfolding set_append by blast
  show "set (map vkey (dom_nodes g)) = set (node_ids g)" using t by blast
qed

theorem reachable_graph_consistent_witness:
  "distinct (node_ids (on_add_node draw_graph (js ''n1''))) \<and>
   set (map vkey (dom_nodes (on_add_node draw_graph (js ''n1'')))) = set (node_ids (on_add_node draw_graph (js ''n1''))) \<and>
   distinct (map vkey (dom_nodes (remove_node draw_graph (js ''n1''))))"
  using reachable_graph_consistent [OF run_step [OF draw_graph_run [of True] step_on_add], of "js ''n1''"]
    reachable_graph_consistent [OF run_wild [OF draw_graph_run [of True] wild_remove], of "js ''n1''"] by blast

text \<open>C13: at most one drawn node carries the block producer's circle, and it is the node that
  the last \<open>setBlocker\<close> named.\<close>

theorem at_most_one_producer:
  assumes "graph_run tame g" "v \<in> set (dom_nodes g)" "w \<in> set (dom_nodes g)"
    "vclass v = cls_broker" "vclass w = cls_broker"
  shows "v = w \<and> blocker g = Some (vkey v)"
proof -
  have "dom_inv g" using run_base_inv [OF assms(1)] by (simp add: base_inv_def)
  then have d: "inj_on vkey (set (dom_nodes g))"
    and b: "\<forall>u \<in> set (dom_nodes g). vclass u = cls_broker \<longrightarrow> blocker g = Some (vkey u)"
    unfolding dom_inv_def distinct_map by blast+
  from b have k: "blocker g = Some (vkey v)" "blocker g = Some (vkey w)"
    using assms(2-) by blast+
  from k have "vkey v = vkey w" by simp
  with d have "v = w" using assms(2,3) by (rule inj_onD)
  with k show ?thesis by simp
qed

lemma set_blocker_draws:
  assumes "css_name i" "i \<in> vkey ` set (dom_nodes g)"
  shows "\<exists>v \<in> set (dom_nodes (set_blocker g i)). vkey v = i \<and> vclass v = cls_broker"
proof -
  have "\<exists>v \<in> set (dom_upd (picked i) make_broker vs). vkey v = i \<and> vclass v = cls_broker"
    if "i \<in> vkey ` set vs" for vs
    using that assms(1) by (induction vs) (auto simp: picked_def)
  moreover have "i \<in> vkey ` set (dom_upd (\<lambda>v. vclass v = cls_broker) unset_broker (dom_nodes g))"
    using assms(2) dom_upd_keys [of unset_broker "\<lambda>v. vclass v = cls_broker" "dom_nodes g"]
    unfolding set_map [symmetric] by simp
  ultimately show ?thesis by (simp add: set_blocker_def)
qed

theorem at_most_one_producer_witness:
  "\<exists>v \<in> set (dom_nodes (set_blocker draw_graph (js ''Sync''))).
     vclass v = cls_broker \<and> vkey v = js ''Sync'' \<and>
     blocker (set_blocker draw_graph (js ''Sync'')) = Some (vkey v)"
proof -
  have "js ''Sync'' \<in> set (map vkey (dom_nodes draw_graph))" by code_simp
  then obtain v where v: "v \<in> set (dom_nodes (set_blocker draw_graph (js ''Sync'')))"
      "vkey v = js ''Sync''" "vclass v = cls_broker"
    using set_blocker_draws [of "js ''Sync''" draw_graph] by (auto simp: css_name_def js_simps)
  with at_most_one_producer [OF run_step [OF draw_graph_run step_blocker] v(1) v(1) v(3) v(3)]
  show ?thesis by blast
qed

lemma filter_up_links:
  "ends_in g ls \<Longrightarrow> r \<notin> set (nodes_of g) \<Longrightarrow>
     filter (\<lambda>l. lsource l \<noteq> r \<and> ltarget l \<noteq> r) ls = ls"
  by (auto simp: ends_in_def intro!: filter_True)

text \<open>C18: a peer that joins and leaves again leaves the nodes and the three link arrays as they
  were before it joined.\<close>

theorem member_up_down_restores:
  assumes "graph_inv g" "has_topics g" "find_node g i = None"
  defines "g' \<equiv> remove_node (on_add_node g i) i"
  shows "nodes_of g' = nodes_of g \<and> links_of g' = links_of g \<and> slinks_of g' = slinks_of g \<and>
    dlinks_of g' = dlinks_of g"
proof -
  let ?r = "g_next_node g" and ?g1 = "on_add_node g i"
  note eff = on_add_node_effect [OF assms(1,3,2)]
  have inv1: "graph_inv ?g1" by (rule on_add_node_inv [OF assms(1)])
  have r: "?r \<notin> set (nodes_of g)" using assms(1) by (auto simp: graph_inv_def struct_inv_def)
  have f: "find_node ?g1 i = Some ?r"
    using add_node_str_effect(3) [of g i i] assms(1,3)
    by (simp add: on_add_node_def Let_def add_dlink_def add_slink_def graph_inv_def
        find_node_cong [of "x\<lparr>cout_nodes := c\<rparr>" x for x c])
  have e: "ends_in g (links_of g)" "ends_in g (slinks_of g)" "ends_in g (dlinks_of g)"
    using assms(1) by (auto simp: graph_inv_def struct_inv_def)
  note keep = e [THEN filter_up_links, OF r]
  show ?thesis unfolding g'_def
    unfolding remove_node_known [OF inv1 f] eff filter_append keep
    using r by (auto simp: up_link_def topics_def intro!: filter_True)
qed

theorem member_up_down_restores_witness:
  "nodes_of (remove_node (on_add_node draw_graph (js ''n1'')) (js ''n1'')) = nodes_of draw_graph"
  using member_up_down_restores [OF draw_graph_inv draw_graph_topics draw_graph_fresh] by blast

section \<open>Where the graph loses its consistency\<close>

text \<open>C35: \<open>removeNode\<close> with an id that is not in the graph removes the first node (the hub
  of the page) and no link; the graph stays consistent only if no link touched that node.\<close>

theorem remove_unknown_hits_first:
  assumes inv: "graph_inv g" and none: "find_node g i = None" and n: "nodes_of g = r # rs"
  shows "nodes_of (remove_node g i) = rs \<and> links_of (remove_node g i) = links_of g \<and>
    (graph_inv (remove_node g i) \<longleftrightarrow>
      (\<forall>l \<in> set (links_of g @ slinks_of g @ dlinks_of g). lsource l \<noteq> r \<and> ltarget l \<noteq> r))"
proof -
  have k: "find_node_index g i = None" using none by (simp add: find_index_None)
  have nodes: "nodes_of (remove_node g i) = rs"
    using k n by (simp add: remove_node_def Let_def splice1_def)
  have larr: "g_larr (remove_node g i) = g_larr g"
    using none by (simp add: remove_node_def Let_def fun_eq_iff)
  have si: "struct_inv g" using inv by (simp add: graph_inv_def)
  have "r \<notin> set rs" using si n by (auto simp: struct_inv_def distinct_map)
  then have e: "ends_in (remove_node g i) ls \<longleftrightarrow> (\<forall>l \<in> set ls. lsource l \<noteq> r \<and> ltarget l \<noteq> r)"
    if "ends_in g ls" for ls
    using that n nodes by (auto simp: ends_in_def)
  have ends: "ends_in g (links_of g)" "ends_in g (slinks_of g)" "ends_in g (dlinks_of g)"
    using si by (simp_all add: struct_inv_def)
  have S: "struct_inv (remove_node g i) \<longleftrightarrow> ends_in (remove_node g i) (links_of g) \<and>
      ends_in (remove_node g i) (slinks_of g) \<and> ends_in (remove_node g i) (dlinks_of g)"
  proof -
    have p: "\<forall>q \<in> set rs. q < g_next_node g" "distinct (map (\<lambda>r. nid (g_heap g r)) rs)"
      using si unfolding struct_inv_def n by simp_all
    have q: "g_slinks g = this_slinks g" "g_dlinks g = this_dlinks g"
        "distinct [g_links g, this_slinks g, this_dlinks g]"
      using si unfolding struct_inv_def by blast+
    have "g_narr (remove_node g i) (g_nodes g) = rs" using nodes by simp
    then show ?thesis
      unfolding struct_inv_def larr remove_node_frame using p q by simp
  qed
  have "graph_inv (remove_node g i) \<longleftrightarrow> struct_inv (remove_node g i)"
    using inv remove_node_dom [of g i] unfolding graph_inv_def by blast
  also have "\<dots> \<longleftrightarrow>
      (\<forall>l \<in> set (links_of g @ slinks_of g @ dlinks_of g). lsource l \<noteq> r \<and> ltarget l \<noteq> r)"
    unfolding S e [OF ends(1)] e [OF ends(2)] e [OF ends(3)] set_append by blast
  finally show ?thesis using nodes larr by (simp only: remove_node_frame)
qed

theorem remove_unknown_hits_first_witness:
  "nodes_of (remove_node draw_graph (js ''n1'')) = [1, 2, 3, 4]"
  using remove_unknown_hits_first [OF draw_graph_inv draw_graph_fresh draw_graph_nodes] by blast

text \<open>C37: \<open>resetNodes\<close> binds \<open>this.slinks\<close> and \<open>this.dlinks\<close> to new arrays and leaves the closure variables that
  \<open>update\<close> draws on the old ones: whatever calls follow on this graph, no link they add or remove changes the arrays that
  are drawn, and every \<open>update\<close> joins the links that were drawn before the reset. The page avoids it by making a new graph
  after each reset.\<close>

theorem reset_nodes_detaches_drawing:
  assumes "graph_run tame g" "(\<lambda>h h'. graph_step h h' \<or> graph_wild h h')\<^sup>*\<^sup>* (reset_nodes g) g'"
  shows "g_larr g' (g_slinks g') = g_larr g (g_slinks g) \<and> g_larr g' (g_dlinks g') = g_larr g (g_dlinks g) \<and>
    g_slinks g' \<noteq> this_slinks g' \<and> g_dlinks g' \<noteq> this_dlinks g' \<and>
    dom_slinks (update g') = data_join (dom_slinks g') (map (link_key g' ''p_'') (g_larr g (g_slinks g))) \<and>
    dom_dlinks (update g') = data_join (dom_dlinks g') (map (link_key g' ''d_'') (g_larr g (g_dlinks g)))"
proof -
  have "detached (g_larr g (g_slinks g)) (g_larr g (g_dlinks g)) g'"
    by (rule detached_calls [OF assms(2) reset_detached [OF run_arrays_below [OF assms(1)]]])
  then show ?thesis by (simp add: detached_def update_def)
qed

theorem reset_nodes_detaches_drawing_witness:
  "g_larr (on_add_node (add_node_obj (reset_nodes draw_graph) (topic_node ''Block'' ''grey'' 1)) (js ''n1''))
     (g_slinks (on_add_node (add_node_obj (reset_nodes draw_graph) (topic_node ''Block'' ''grey'' 1)) (js ''n1''))) =
   g_larr draw_graph (g_slinks draw_graph)"
proof -
  let ?R = "\<lambda>h h'. graph_step h h' \<or> graph_wild h h'"
  let ?n = "topic_node ''Block'' ''grey'' 1"
  have "find_node (reset_nodes draw_graph) (nid ?n) = None" by code_simp
  then have "?R (reset_nodes draw_graph) (add_node_obj (reset_nodes draw_graph) ?n)" 
    by (intro disjI1 step_add_obj)
  then have "?R\<^sup>*\<^sup>* (reset_nodes draw_graph) (add_node_obj (reset_nodes draw_graph) ?n)" by (rule r_into_rtranclp [of ?R])
  then have "?R\<^sup>*\<^sup>* (reset_nodes draw_graph) (on_add_node (add_node_obj (reset_nodes draw_graph) ?n) (js ''n1''))"
    by (rule rtranclp.rtrancl_into_rtrancl [of ?R]) (rule disjI1 [OF step_on_add])
  then show ?thesis by (rule reset_nodes_detaches_drawing [OF draw_graph_run, THEN conjunct1])
qed

section \<open>The colour of an early block producer\<close>

definition shown :: "graph \<Rightarrow> jsstring \<Rightarrow> jsstring option \<Rightarrow> jsstring \<Rightarrow> bool" where
  "shown g k f c \<longleftrightarrow> (\<exists>v \<in> set (dom_nodes g). vkey v = k \<and> vfill v = f \<and> vclass v = c)"

lemma shown_update:
  assumes "dom_inv g" "shown g k f c" "k \<in> set (node_ids g)"
  shows "shown (update g) k f c"
proof -
  obtain v where v: "v \<in> set (dom_nodes g)" "vkey v = k" "vfill v = f" "vclass v = c"
    using assms(2) by (auto simp: shown_def)
  have "distinct (map vkey (dom_nodes g))" using assms(1) by (simp add: dom_inv_def)
  from join_nodes_eq [OF this] have "v \<in> set (dom_nodes (update g))"
    using v assms(3) by (auto simp: update_def)
  with v show ?thesis by (auto simp: shown_def)
qed

lemma shown_push_link:
  assumes "dom_inv g" "shown g k f c" "k \<in> set (node_ids g)"
  shows "shown (push_link n a g s t v) k f c"
proof (cases "find_node g s = None \<or> find_node g t = None")
  case True
  then show ?thesis using assms(2) by (auto simp: push_link_def shown_def split: option.split)
next
  case False
  then obtain ns nt where n: "find_node g s = Some ns" "find_node g t = Some nt" by auto
  show ?thesis unfolding push_link_eq [OF n]
    by (rule shown_update) (use assms in \<open>simp_all add: dom_inv_def shown_def\<close>)
qed

lemma shown_dom_upd:
  assumes "shown g k f c" and "\<And>v. p v \<Longrightarrow> vkey v = k \<Longrightarrow> vclass v = c \<Longrightarrow>
      vkey (h v) = k \<and> vfill (h v) = vfill v \<and> vclass (h v) = c"
  shows "shown (g\<lparr>dom_nodes := dom_upd p h (dom_nodes g)\<rparr>) k f c"
proof -
  have "\<exists>v \<in> set (dom_upd p h vs). vkey v = k \<and> vfill v = f \<and> vclass v = c"
    if "\<exists>v \<in> set vs. vkey v = k \<and> vfill v = f \<and> vclass v = c" for vs
    using that assms(2) by (induction vs) auto
  then show ?thesis using assms(1) by (simp add: shown_def)
qed

lemma shown_sta: "shown g k f c \<Longrightarrow> shown (set_node_sta g i x) k f c"
  unfolding set_node_sta_def by (rule shown_dom_upd) auto

lemma add_node_str_shown:
  assumes inv: "graph_inv g" and new: "find_node g i = None"
  shows "shown (add_node_str g i) i
    (Some (if blocker g = Some i then js ''lawngreen'' else js ''steelblue'')) cls_circle"
proof -
  let ?c = "Some (if blocker g = Some i then js ''lawngreen'' else js ''steelblue'')"
  let ?n = "\<lparr>nid = i, ncolor = ?c, nr = None\<rparr>"
  let ?g1 = "push_node g ?n"
  let ?h = "hd (nodes_of ?g1)"
  let ?l = "\<lambda>ns nt. ?g1\<lparr>g_larr := (g_larr ?g1)(g_links ?g1 := links_of ?g1 @
       [\<lparr>lsource = ns, ltarget = nt, lvalue = value_or_20 None\<rparr>])\<rparr>"
  have si: "struct_inv g" and di: "dom_inv g" and dr: "drawn g"
    using inv by (auto simp: graph_inv_def)
  have s1: "struct_inv ?g1" using push_node_struct [OF si] new by simp
  have fi: "find_node ?g1 i = Some (g_next_node g)" using new by (simp add: find_node_push_node [OF si])
  have "?h \<in> set (nodes_of ?g1)" by (cases "nodes_of g") auto
  then have fh: "find_node ?g1 (nid (g_heap ?g1 ?h)) = Some ?h"
    using s1 by (intro find_node_SomeI) (simp_all add: struct_inv_def del: push_node_frame)
  have e: "add_node_str g i = update (update (?l ?h (g_next_node g)))"
    unfolding add_node_str_def Let_def add_link_def
    using push_link_eq [OF fh fi, of "''addLink''" "g_links ?g1" None] by (simp only:)
  have key: "i \<in> set (node_ids (?l q r))" for q r by simp
  have d1: "dom_inv (?l q r)" for q r using di by (simp add: dom_inv_def)
  have nk: "i \<notin> vkey ` set (dom_nodes g)"
    using dr new unfolding drawn_def find_node_None_iff by auto
  have en: "enter_node ?n \<in> set (enter_nodes seen (ns @ [?n]))"
    if "i \<notin> set seen" "i \<notin> nid ` set ns" for seen ns
    using that by (induction ns arbitrary: seen) auto
  have nn: "i \<notin> nid ` set (map (g_heap ?g1) (nodes_of g))"
    using new si unfolding find_node_None_iff by (auto simp: struct_inv_def)
  have "i \<notin> set (map vkey (dom_nodes g))" using nk by simp
  note en = en [OF this nn]
  have "dom_nodes (update (?l q r)) = join_nodes (dom_nodes g) (map (g_heap ?g1) (nodes_of g) @ [?n])"
    for q r by (simp add: update_def)
  then have "enter_node ?n \<in> set (dom_nodes (update (?l q r)))" for q r
    using en by (simp only: join_nodes_def set_append Un_iff) blast
  then have "shown (update (?l q r)) i ?c cls_circle" for q r
    unfolding shown_def by (rule bexI [rotated]) (simp add: enter_node_def)
  then show ?thesis unfolding e
    by (rule shown_update [OF dom_inv_update [OF d1, THEN conjunct1]]) (use key in simp)
qed

definition keeps_shown :: "graph \<Rightarrow> jsstring \<Rightarrow> jsstring option \<Rightarrow> jsstring \<Rightarrow> bool" where
  "keeps_shown g k f c \<longleftrightarrow> graph_inv g \<and> shown g k f c \<and> k \<in> set (node_ids g)"

lemma keeps_shown_push:
  assumes "keeps_shown g k f c" "a \<in> {g_links g, this_slinks g, this_dlinks g}"
  shows "keeps_shown (push_link n a g s t v) k f c"
proof -
  have "dom_inv g" using assms(1) by (simp add: keeps_shown_def graph_inv_def)
  with assms show ?thesis
    unfolding keeps_shown_def by (simp add: push_link_inv shown_push_link)
qed

lemma keeps_shown_dlink: "keeps_shown g k f c \<Longrightarrow> keeps_shown (add_dlink g s t v) k f c"
  and keeps_shown_slink: "keeps_shown g k f c \<Longrightarrow> keeps_shown (add_slink g s t v) k f c"
  by (simp_all add: add_dlink_def add_slink_def keeps_shown_push)

lemma keeps_shown_finish:
  "keeps_shown h k f c \<Longrightarrow> shown (set_node_sta (h\<lparr>cout_nodes := x\<rparr>) i y) k f c"
  by (rule shown_sta) (simp add: keeps_shown_def shown_def)

lemma on_add_node_shown:
  assumes "graph_inv g" "find_node g i = None"
  shows "shown (on_add_node g i) i
    (Some (if blocker g = Some i then js ''lawngreen'' else js ''steelblue'')) cls_circle"
proof -
  let ?c = "Some (if blocker g = Some i then js ''lawngreen'' else js ''steelblue'')"
  have si: "struct_inv g" using assms(1) by (simp add: graph_inv_def)
  have "i \<in> set (node_ids (add_node_str g i))"
    using add_node_str_effect(3) [OF si assms(2), of i] find_node_None_iff
    by (metis option.distinct(1))
  then have K: "keeps_shown (add_node_str g i) i ?c cls_circle"
    using add_node_str_inv [OF assms] add_node_str_shown [OF assms] by (simp add: keeps_shown_def)
  show ?thesis
    unfolding on_add_node_def Let_def assms(2) simp_thms if_False
    by (intro keeps_shown_finish keeps_shown_slink keeps_shown_dlink K)
qed

text \<open>C40: a node that joins after it was named block producer is drawn in the producer's colour
  but without the producer's class, so the next \<open>setBlocker\<close> leaves it in that colour.\<close>

theorem early_producer_colour_stays:
  assumes "graph_inv g" "find_node g x = None" "y \<noteq> x"
  shows "shown (set_blocker (on_add_node (set_blocker g x) x) y) x (Some (js ''lawngreen'')) cls_circle"
proof -
  let ?g1 = "set_blocker g x"
  have inv1: "graph_inv ?g1" by (rule set_blocker_inv [OF assms(1)])
  have f1: "find_node ?g1 x = None"
    using assms(2) by (simp add: find_node_def set_blocker_def)
  have b: "blocker ?g1 = Some x" by (simp add: set_blocker_def)
  have "shown (on_add_node ?g1 x) x (Some (js ''lawngreen'')) cls_circle"
    using on_add_node_shown [OF inv1 f1] b by simp
  then have "shown (on_add_node ?g1 x\<lparr>dom_nodes := dom_upd (\<lambda>v. vclass v = cls_broker) unset_broker
      (dom_nodes (on_add_node ?g1 x))\<rparr>) x (Some (js ''lawngreen'')) cls_circle"
    by (rule shown_dom_upd) simp
  from shown_dom_upd [OF this, of "picked y" make_broker] assms(3) show ?thesis
    by (simp add: set_blocker_def [of _ y] shown_def picked_def)
qed

theorem early_producer_colour_stays_witness:
  "shown (set_blocker (on_add_node (set_blocker draw_graph (js ''n1'')) (js ''n1'')) (js ''Sync''))
     (js ''n1'') (Some (js ''lawngreen'')) cls_circle"
proof -
  have "js ''Sync'' \<noteq> js ''n1''" by (simp add: js_simps)
  from early_producer_colour_stays [OF draw_graph_inv draw_graph_fresh this] show ?thesis .
qed

section \<open>The message handler\<close>

definition member_count :: "page \<Rightarrow> bool" where
  "member_count p \<longleftrightarrow> cout_nodes (pgraph p) = Some (int (length (nodes_of (pgraph p))) - 5)"

text \<open>The nodes that the page places itself, and the others: the peers.\<close>

definition fixed_ids :: "jsstring list" where
  "fixed_ids = js ''RepChain'' # topics"

definition has_fixed :: "graph \<Rightarrow> bool" where
  "has_fixed g \<longleftrightarrow> list_all (\<lambda>t. find_node g t \<noteq> None) fixed_ids"

definition peers :: "graph \<Rightarrow> jsstring list" where
  "peers g = filter (\<lambda>i. i \<notin> set fixed_ids) (node_ids g)"

text \<open>A member-down event has to name a peer of the graph.\<close>

definition event_ok :: "page \<Rightarrow> event \<Rightarrow> bool" where
  "event_ok p ev \<longleftrightarrow>
     (ev_action ev = 6 \<longrightarrow> node_id_of (ev_from ev) \<in> set (peers (pgraph p)))"

fun handle_all :: "page \<Rightarrow> (int \<times> event) list \<Rightarrow> page" where
  "handle_all p [] = p"
| "handle_all p ((tm, ev) # es) = handle_all (on_message p tm ev) es"

fun events_ok :: "page \<Rightarrow> (int \<times> event) list \<Rightarrow> bool" where
  "events_ok p [] = True"
| "events_ok p ((tm, ev) # es) \<longleftrightarrow> event_ok p ev \<and> events_ok (on_message p tm ev) es"

definition page_inv :: "page \<Rightarrow> bool" where
  "page_inv p \<longleftrightarrow> graph_inv (pgraph p) \<and> member_count p"

lemma member_count_cong:
  "cout_nodes (pgraph q) = cout_nodes (pgraph p) \<Longrightarrow> nodes_of (pgraph q) = nodes_of (pgraph p) \<Longrightarrow>
   member_count q = member_count p"
  by (simp add: member_count_def)

lemma page_sta_graph:
  "pgraph (page_sta p tm i c) = set_node_sta (pgraph p) (js i) (Count c) \<or>
   pgraph (page_sta p tm i c) = pgraph p"
  by (simp add: page_sta_def update_node_sta_def split: prod.split)

lemma page_sta_inv: "page_inv p \<Longrightarrow> page_inv (page_sta p tm i c)"
  using page_sta_graph [of p tm i c]
  by (auto simp: page_inv_def set_node_sta_inv member_count_def)

lemma page_inv_cong: "pgraph q = pgraph p \<Longrightarrow> page_inv q = page_inv p"
  by (simp add: page_inv_def member_count_def)

lemma find_node_page_sta [simp]: "find_node (pgraph (page_sta p tm i c)) = find_node (pgraph p)"
  using page_sta_graph [of p tm i c] by auto

lemma new_block_graph:
  "new_block p b = Inl q \<or> new_block p b = Inr q \<Longrightarrow> pgraph q = pgraph p"
  by (auto simp: new_block_def Let_def split: option.splits list.splits)

lemma set_blocker_frame [simp]:
  "nodes_of (set_blocker g i) = nodes_of g" "cout_nodes (set_blocker g i) = cout_nodes g"
  "find_node (set_blocker g i) = find_node g"
  by (simp_all add: set_blocker_def find_node_def fun_eq_iff)

lemma count_action_inv:
  assumes "page_inv p" "count_action p tm ev f t = Inl q \<or> count_action p tm ev f t = Inr q"
  shows "page_inv q \<and> find_node (pgraph q) = find_node (pgraph p)"
proof -
  have i: "page_inv (page_sta (p\<lparr>cout_trans := x\<rparr>) tm i c)"
    "page_inv (page_sta (p\<lparr>cout_endorsements := x\<rparr>) tm i c)" "page_inv (page_sta p tm i c)" for x i c
    using assms(1) by (intro page_sta_inv; simp add: page_inv_def member_count_def)+
  have b: "page_inv q \<and> find_node (pgraph q) = find_node (pgraph p)"
    if "new_block p b = Inl q \<or> new_block p b = Inr q" for b
  proof -
    have "pgraph q = pgraph p" by (rule new_block_graph [OF that])
    with assms(1) show ?thesis by (simp add: page_inv_def member_count_def)
  qed
  have g: "page_inv (p\<lparr>pgraph := set_blocker (pgraph p) f\<rparr>)"
    "page_inv (p\<lparr>pgraph := add_dlink (pgraph p) f t None\<rparr>)" "page_inv (p\<lparr>tl_map := m\<rparr>)" for m
    using assms(1)
    by (simp_all add: page_inv_def member_count_def set_blocker_inv add_dlink_inv)
      (simp_all add: add_dlink_def)
  consider "ev_action ev = 2" "ev_from ev \<noteq> js ''Block''"
    | "ev_action ev = 1" | "ev_action ev = 4" | "ev_action ev = 7" | "ev_action ev = 9"
    | "ev_action ev = 10" | "ev_action ev \<notin> {1, 2, 4, 7, 9, 10} \<or> ev_action ev = 2 \<and> ev_from ev = js ''Block''"
    by auto
  then show ?thesis
  proof cases
    case 1
    then have "new_block p (ev_blk ev) = Inl q \<or> new_block p (ev_blk ev) = Inr q"
      using assms(2) by (simp add: count_action_def)
    then show ?thesis by (rule b)
  next
    case 2
    let ?p = "if ev_from ev \<noteq> js ''Transaction'' then p\<lparr>cout_trans := incr (cout_trans p)\<rparr> else p"
    have q: "q = page_sta ?p tm ''Transaction'' (cout_trans ?p)"
      using assms(2) 2 unfolding count_action_def Let_def by simp
    show ?thesis unfolding q using i by (cases "ev_from ev = js ''Transaction''") simp_all
  next
    case 3
    let ?p = "if ev_from ev \<noteq> js ''Endorsement'' then p\<lparr>cout_endorsements := incr (cout_endorsements p)\<rparr> else p"
    have q: "q = page_sta ?p tm ''Endorsement'' (cout_endorsements ?p)"
      using assms(2) 3 unfolding count_action_def Let_def by simp
    show ?thesis unfolding q using i by (cases "ev_from ev = js ''Endorsement''") simp_all
  next
    case 4
    then have "q = p\<lparr>pgraph := set_blocker (pgraph p) f\<rparr>" using assms(2) by (auto simp: count_action_def)
    then show ?thesis using g(1) by simp
  next
    case 5
    then have "q = p \<or> q = p\<lparr>tl_map := (tl_map p)(js ''Sync'' \<mapsto> tm)\<rparr>"
      using assms(2) by (auto simp: count_action_def split: if_splits)
    then show ?thesis using g(3) assms(1) by auto
  next
    case 6
    then have "q = p\<lparr>pgraph := add_dlink (pgraph p) f t None\<rparr>"
      using assms(2) by (auto simp: count_action_def)
    then show ?thesis using g(2) by (simp add: add_dlink_def)
  next
    case 7
    then have "q = p" using assms(2) by (auto simp: count_action_def split: if_splits)
    then show ?thesis using assms(1) by simp
  qed
qed

lemma remove_node_length:
  assumes "nodes_of g \<noteq> []"
  shows "length (nodes_of (remove_node g i)) = length (nodes_of g) - 1"
proof -
  have "length (splice1 k (nodes_of g)) = length (nodes_of g) - 1" if "k < length (nodes_of g)" for k
    using that by (simp add: splice1_def)
  moreover have "find_node_index g i = Some k \<Longrightarrow> k < length (nodes_of g)" for k
    by (simp add: find_node_index_def index_of_SomeD)
  ultimately show ?thesis using assms
    by (auto simp: remove_node_def Let_def split: option.split)
qed

lemma on_add_node_count:
  assumes "graph_inv g"
  shows "int (length (nodes_of (on_add_node g i))) =
      int (length (nodes_of g)) + (if find_node g i = None then 1 else 0) \<and>
    cout_nodes (on_add_node g i) =
      (if find_node g i = None then map_option (\<lambda>c. c + 1) (cout_nodes g) else cout_nodes g)"
proof (cases "find_node g i = None")
  case True
  have "struct_inv g" using assms by (simp add: graph_inv_def)
  from add_node_str_effect(1) [OF this True] True show ?thesis
    by (simp add: on_add_node_def Let_def add_dlink_def add_slink_def)
      (simp add: add_node_str_def add_link_def Let_def)
qed (simp add: on_add_node_def)

lemma member_action_inv:
  assumes "page_inv p" "ev_action ev = 6 \<longrightarrow> find_node (pgraph p) f \<noteq> None"
  shows "page_inv (member_action p tm ev f t)"
proof -
  consider "ev_action ev = 5" | "ev_action ev = 6" | "ev_action ev \<notin> {5, 6}" by auto
  then show ?thesis
  proof cases
    case 1
    with assms(1) show ?thesis
      using on_add_node_count [of "pgraph p" f] on_add_node_inv [of "pgraph p" f]
      by (auto simp: member_action_def page_inv_def member_count_def split: if_splits)
  next
    case 2
    with assms obtain r where r: "find_node (pgraph p) f = Some r" by auto
    have ne: "nodes_of (pgraph p) \<noteq> []" using find_node_SomeD [OF r] by auto
    have "graph_inv (remove_node (pgraph p) f)"
      using assms(1) by (intro remove_node_inv [OF _ r]) (simp add: page_inv_def)
    then show ?thesis using 2 assms(1) remove_node_length [OF ne, of f] ne
      by (auto simp: member_action_def page_inv_def member_count_def Let_def decr_def
          of_nat_diff Suc_le_eq intro!: set_node_sta_inv graph_inv_cout)
  next
    case 3
    with assms(1) show ?thesis by (auto simp: member_action_def page_inv_def member_count_def)
  qed
qed

lemma peer_iff: "i \<in> set (peers g) \<longleftrightarrow> find_node g i \<noteq> None \<and> i \<notin> set fixed_ids"
  unfolding find_node_None_iff by (simp add: peers_def)

lemma peer_known: "i \<in> set (peers g) \<Longrightarrow> \<exists>r. find_node g i = Some r"
  by (simp add: peer_iff)

lemma has_fixed_on_add:
  assumes "graph_inv g" "has_fixed g"
  shows "has_fixed (on_add_node g i)"
proof (cases "find_node g i = None")
  case True
  have "find_node (on_add_node g i) = find_node (add_node_str g i)"
    using True by (simp add: on_add_node_def Let_def add_dlink_def add_slink_def
        find_node_cong [of "x\<lparr>cout_nodes := c\<rparr>" x for x c])
  then have "find_node (on_add_node g i) t \<noteq> None" if "find_node g t \<noteq> None" for t
    using that add_node_str_effect(3) [OF _ True, of t] assms(1) by (simp add: graph_inv_def)
  then show ?thesis using assms(2) by (simp add: has_fixed_def list_all_iff)
qed (use assms in \<open>simp add: on_add_node_def\<close>)

lemma has_fixed_remove:
  assumes "graph_inv g" "has_fixed g" "i \<in> set (peers g)"
  shows "has_fixed (remove_node g i)"
proof -
  obtain r where r: "find_node g i = Some r" using peer_known [OF assms(3)] by blast
  have "find_node (remove_node g i) t \<noteq> None" if t: "t \<in> set fixed_ids" for t
  proof -
    obtain q where q: "q \<in> set (nodes_of g)" "nid (g_heap g q) = t"
      using assms(2) t find_node_None_iff [of g t] by (auto simp: has_fixed_def list_all_iff)
    moreover have "q \<noteq> r" using q find_node_SomeD [OF r] assms(3) t by (auto simp: peers_def)
    ultimately have "t \<in> set (node_ids (remove_node g i))"
      using remove_node_known(1) [OF assms(1) r] by auto
    then show ?thesis using find_node_None_iff [of "remove_node g i" t] by blast
  qed
  then show ?thesis by (simp add: has_fixed_def list_all_iff)
qed

lemma member_action_fixed:
  assumes "page_inv p" "has_fixed (pgraph p)" "ev_action ev = 6 \<longrightarrow> f \<in> set (peers (pgraph p))"
  shows "has_fixed (pgraph (member_action p tm ev f t))"
proof -
  have g: "graph_inv (pgraph p)" using assms(1) by (simp add: page_inv_def)
  have c: "find_node (g\<lparr>cout_nodes := c\<rparr>) = find_node g" for g c by (rule find_node_cong) simp_all
  show ?thesis
    using assms(2,3) has_fixed_on_add [OF g assms(2)] has_fixed_remove [OF g assms(2)]
    by (simp add: member_action_def has_fixed_def c Let_def)
qed

lemma peers_length:
  assumes "distinct (node_ids g)" "has_fixed g"
  shows "int (length (peers g)) = int (length (nodes_of g)) - 5"
proof -
  have f: "set fixed_ids \<subseteq> set (node_ids g)"
    using assms(2) find_node_None_iff by (auto simp: has_fixed_def list_all_iff simp del: set_map)
  have d: "distinct fixed_ids" by code_simp
  have "length (peers g) = card (set (node_ids g) - set fixed_ids)"
    using assms(1) distinct_card [OF distinct_filter [OF assms(1), of "\<lambda>i. i \<notin> set fixed_ids"]]
    by (simp add: peers_def set_diff_eq del: set_map)
  also have "\<dots> = length (node_ids g) - length fixed_ids"
    using f distinct_card [OF d] distinct_card [OF assms(1)] by (simp add: card_Diff_subset del: set_map)
  finally have "length (peers g) = length (nodes_of g) - 5" by (simp add: fixed_ids_def topics_def)
  moreover have "5 \<le> length (nodes_of g)"
    using card_mono [OF _ f] distinct_card [OF d] distinct_card [OF assms(1)] by (simp add: fixed_ids_def topics_def del: set_map)
  ultimately show ?thesis by simp
qed

lemma on_message_inv:
  assumes "page_inv p" "event_ok p ev"
  shows "page_inv (on_message p tm ev)"
proof -
  let ?p = "page_sta (p\<lparr>cout_evts := incr (cout_evts p)\<rparr>) tm ''Event'' (incr (cout_evts p))"
  let ?f = "node_id_of (ev_from ev)" and ?t = "node_id_of (ev_to ev)"
  have p: "page_inv ?p" using assms(1) by (intro page_sta_inv) (simp add: page_inv_def member_count_def)
  show ?thesis
  proof (cases "count_action ?p tm ev ?f ?t")
    case (Inl q)
    with count_action_inv [OF p, of tm ev ?f ?t q] show ?thesis
      by (simp add: on_message_def Let_def page_inv_def member_count_def)
  next
    case (Inr q)
    with count_action_inv [OF p, of tm ev ?f ?t q] assms(2) show ?thesis
      by (simp add: on_message_def Let_def member_action_inv event_ok_def peer_known)
  qed
qed

lemma on_message_fixed:
  assumes "page_inv p" "event_ok p ev" "has_fixed (pgraph p)"
  shows "has_fixed (pgraph (on_message p tm ev))"
proof -
  let ?p = "page_sta (p\<lparr>cout_evts := incr (cout_evts p)\<rparr>) tm ''Event'' (incr (cout_evts p))"
  let ?f = "node_id_of (ev_from ev)" and ?t = "node_id_of (ev_to ev)"
  have p: "page_inv ?p" using assms(1) by (intro page_sta_inv) (simp add: page_inv_def member_count_def)
  have f: "has_fixed (pgraph ?p)" using assms(3) by (simp add: has_fixed_def)
  have six: "ev_action ev = 6 \<longrightarrow> ?f \<in> set (peers (pgraph p))" using assms(2) by (simp add: event_ok_def)
  show ?thesis
  proof (cases "count_action ?p tm ev ?f ?t")
    case (Inl q)
    with count_action_inv [OF p, of tm ev ?f ?t q] f show ?thesis
      by (simp add: on_message_def Let_def has_fixed_def)
  next
    case (Inr q)
    with count_action_inv [OF p, of tm ev ?f ?t q] f have q: "page_inv q" "has_fixed (pgraph q)"
        "find_node (pgraph q) = find_node (pgraph p)"
      by (simp_all add: has_fixed_def)
    have "has_fixed (pgraph (member_action q tm ev ?f ?t))"
      by (rule member_action_fixed [OF q(1,2)]) (use six in \<open>simp add: peer_iff q(3)\<close>)
    with Inr show ?thesis by (simp add: on_message_def Let_def)
  qed
qed

lemma handle_all_inv:
  "page_inv p \<Longrightarrow> has_fixed (pgraph p) \<Longrightarrow> events_ok p es \<Longrightarrow>
     page_inv (handle_all p es) \<and> has_fixed (pgraph (handle_all p es))"
  by (induction p es rule: handle_all.induct) (auto simp: on_message_inv on_message_fixed)

lemma on_open_inv: "pgraph p = draw_graph \<Longrightarrow> page_inv (on_open p)"
  by (simp add: page_inv_def on_open_def Let_def graph_inv_cout draw_graph_inv member_count_def
      draw_graph_nodes)

lemma on_open_fixed: "pgraph p = draw_graph \<Longrightarrow> has_fixed (pgraph (on_open p))"
proof -
  assume p: "pgraph p = draw_graph"
  have "find_node (draw_graph\<lparr>cout_nodes := Some 0\<rparr>) = find_node draw_graph" by (rule find_node_cong) simp_all
  moreover have "has_fixed draw_graph" by code_simp
  ultimately show ?thesis using p by (simp add: on_open_def Let_def has_fixed_def)
qed

text \<open>C14: from the moment the socket opens on a new graph, any stream of events in which every member-down event names a
  peer that is in the graph (an id that is not one of the five fixed nodes) keeps the graph consistent, and the node counter
  is the number of peers. Events whose handling throws are included.\<close>

theorem event_stream_keeps_page:
  assumes "pgraph p = draw_graph" "events_ok (on_open p) es"
  defines "q \<equiv> handle_all (on_open p) es"
  shows "graph_inv (pgraph q) \<and>
    cout_nodes (pgraph q) = Some (int (length (peers (pgraph q))))"
proof -
  have q: "page_inv q" "has_fixed (pgraph q)"
    using handle_all_inv [OF on_open_inv [OF assms(1)] on_open_fixed [OF assms(1)] assms(2)] by (simp_all add: q_def)
  then have "distinct (node_ids (pgraph q))" by (simp add: page_inv_def graph_inv_def struct_inv_def)
  from peers_length [OF this q(2)] q(1) show ?thesis by (simp add: page_inv_def member_count_def)
qed

definition sample_page :: page where
  "sample_page = \<lparr>pgraph = draw_graph, cout_evts = None, cout_trans = None, cout_blocks = None,
     cout_endorsements = None, tl_map = Map.empty, buf_block = [], timer_block = False,
     page_errs = 0\<rparr>"

definition up_event :: "string \<Rightarrow> event" where
  "up_event a = \<lparr>ev_from = js a, ev_to = [], ev_action = 5, ev_blk = None\<rparr>"

theorem event_stream_keeps_page_witness:
  "graph_inv (pgraph (handle_all (on_open sample_page) [(1000, up_event ''2@n1:80/x'')]))"
  by (rule event_stream_keeps_page [THEN conjunct1])
    (simp_all add: sample_page_def event_ok_def up_event_def)

section \<open>Node ids\<close>

lemma index_of_append: "c \<notin> set xs \<Longrightarrow> index_of (\<lambda>x. x = c) (xs @ c # ys) = Some (length xs)"
  by (induction xs) auto

text \<open>The node id of an address \<open>system@host:port/path\<close> is its host and port with every
  dot, colon and percent sign replaced by an underscore, so it is the same for every path.\<close>

theorem node_id_of_address:
  assumes "of_char (CHR ''@'') \<notin> set sys" "of_char (CHR ''/'') \<notin> set host"
  shows "node_id_of (sys @ of_char (CHR ''@'') # host @ of_char (CHR ''/'') # path) =
    map (\<lambda>c. if c \<in> of_char ` {CHR ''.'', CHR '':'', CHR ''%''} then of_char (CHR ''_'') else c) host"
proof -
  have "brief (sys @ of_char (CHR ''@'') # host @ of_char (CHR ''/'') # path) = host"
    by (simp only: brief_def index_of_append [OF assms(1)] option.case) 
      (simp add: index_of_append [OF assms(2)] del: of_char_Char)
  then show ?thesis by (simp add: node_id_of_def replace_char_def)
qed

theorem node_id_of_address_witness:
  "node_id_of (js ''1'' @ of_char (CHR ''@'') # js ''a.b:80'' @ of_char (CHR ''/'') # js ''user'') =
     js ''a_b_80''"
proof -
  have h: "of_char (CHR ''@'') \<notin> set (js ''1'')" "of_char (CHR ''/'') \<notin> set (js ''a.b:80'')"
    by (simp_all add: js_simps)
  show ?thesis unfolding node_id_of_address [OF h] by (simp add: js_simps)
qed

end
