(* ===== verification/LongBits.thy ===== *)
theory LongBits
  imports JsPrelude
begin

text \<open>
  LongBits of protobuf.js: a 64-bit value as two unsigned 32-bit halves, the conversions from
  and to JavaScript numbers, the zig-zag transformation and the varint length. JavaScript
  numbers are doubles; the integers among them are modelled as \<open>int\<close>, and a sum that may not
  be a double is rounded by \<open>round_double\<close>.
\<close>

unbundle bit_operations_syntax

section \<open>Numbers\<close>

text \<open>\<open>n >>> 0\<close> on an integer number.\<close>

definition to_uint32 :: "int \<Rightarrow> u32" where
  "to_uint32 n = word_of_int n"

fun bit_len :: "nat \<Rightarrow> nat" where
  "bit_len n = (if n = 0 then 0 else Suc (bit_len (n div 2)))"

declare bit_len.simps [simp del]

text \<open>The nearest double of an integer, ties to even: 53 significant bits are kept.\<close>

definition round_nat :: "nat \<Rightarrow> nat" where
  "round_nat n =
     (if bit_len n \<le> 53 then n
      else let k = bit_len n - 53; q = n div 2 ^ k; r = n mod 2 ^ k; half = 2 ^ (k - 1)
           in (if r > half \<or> r = half \<and> odd q then q + 1 else q) * 2 ^ k)"

definition round_double :: "int \<Rightarrow> int" where
  "round_double n = sgn n * int (round_nat (nat \<bar>n\<bar>))"

lemma bit_len_le: "n < 2 ^ k \<Longrightarrow> bit_len n \<le> k"
proof (induction n arbitrary: k rule: bit_len.induct)
  case (1 n)
  show ?case
  proof (cases "n = 0")
    case False
    with 1(2) obtain j where j: "k = Suc j" by (cases k) auto
    have "n div 2 < 2 ^ j" using 1(2) j by (simp add: less_mult_imp_div_less mult.commute)
    with 1(1) False j show ?thesis by (simp add: bit_len.simps [of n])
  qed (simp add: bit_len.simps)
qed

lemma round_double_exact:
  assumes "\<bar>n\<bar> < 2 ^ 53"
  shows "round_double n = n"
proof -
  have "nat \<bar>n\<bar> < 2 ^ 53" using assms by (simp add: nat_less_iff)
  then show ?thesis using bit_len_le [of "nat \<bar>n\<bar>" 53]
    by (simp add: round_double_def round_nat_def sgn_mult_abs)
qed

lemma round_double_uminus [simp]: "round_double (- n) = - round_double n"
  by (simp add: round_double_def)

section \<open>The two halves\<close>

record longbits =
  lo :: u32
  hi :: u32

definition bits64 :: "longbits \<Rightarrow> u64" where
  "bits64 b = word_of_int (uint (hi b) * 2 ^ 32 + uint (lo b))"

definition mk_bits :: "u32 \<Rightarrow> u32 \<Rightarrow> longbits" where
  "mk_bits l h = \<lparr>lo = l, hi = h\<rparr>"

lemma mk_bits_simps [simp]: "lo (mk_bits l h) = l" "hi (mk_bits l h) = h"
  by (simp_all add: mk_bits_def)

lemma mk_bits_eta: "mk_bits (lo b) (hi b) = b"
  by (simp add: mk_bits_def)

definition zero_bits :: longbits where
  "zero_bits = mk_bits 0 0"

definition from_number :: "int \<Rightarrow> longbits" where
  "from_number value =
     (if value = 0 then zero_bits
      else let sign = value < 0;
               value = (if sign then - value else value);
               l = to_uint32 value;
               h = to_uint32 ((value - uint l) div 4294967296)
           in if sign then
                let h = NOT h; l = NOT l
                in if uint l + 1 > 4294967295
                   then mk_bits 0 (if uint h + 1 > 4294967295 then 0 else h + 1)
                   else mk_bits (l + 1) h
              else mk_bits l h)"

definition to_number :: "bool \<Rightarrow> longbits \<Rightarrow> int" where
  "to_number uns b =
     (if \<not> uns \<and> drop_bit 31 (hi b) \<noteq> 0 then
        let l = NOT (lo b) + 1;
            h = NOT (hi b);
            h = (if l = 0 then h + 1 else h)
        in - round_double (uint l + uint h * 4294967296)
      else round_double (uint (lo b) + uint (hi b) * 4294967296))"

text \<open>
  \<open>toHash\<close> packs the eight bytes of the value into a string, \<open>fromHash\<close> reads them back.
\<close>

definition hash_char :: "u32 \<Rightarrow> nat \<Rightarrow> u16" where
  "hash_char w k = ucast (drop_bit k w AND 255)"

definition to_hash :: "longbits \<Rightarrow> jsstring" where
  "to_hash b = [hash_char (lo b) 0, hash_char (lo b) 8, hash_char (lo b) 16, ucast (drop_bit 24 (lo b)),
                hash_char (hi b) 0, hash_char (hi b) 8, hash_char (hi b) 16, ucast (drop_bit 24 (hi b))]"

definition char_at :: "jsstring \<Rightarrow> nat \<Rightarrow> u32" where
  "char_at s k = (if k < length s then ucast (s ! k) else 0)"

definition from_hash :: "jsstring \<Rightarrow> longbits" where
  "from_hash s =
     (if s = replicate 8 0 then zero_bits
      else mk_bits
        (char_at s 0 OR push_bit 8 (char_at s 1) OR push_bit 16 (char_at s 2) OR push_bit 24 (char_at s 3))
        (char_at s 4 OR push_bit 8 (char_at s 5) OR push_bit 16 (char_at s 6) OR push_bit 24 (char_at s 7)))"

text \<open>\<open>hi >> 31\<close> is the sign mask; the shifts of the halves are those of the source.\<close>

definition zz_encode :: "longbits \<Rightarrow> longbits" where
  "zz_encode b =
     (let mask = signed_drop_bit 31 (hi b)
      in mk_bits (push_bit 1 (lo b) XOR mask) ((push_bit 1 (hi b) OR drop_bit 31 (lo b)) XOR mask))"

definition zz_decode :: "longbits \<Rightarrow> longbits" where
  "zz_decode b =
     (let mask = - (lo b AND 1)
      in mk_bits ((drop_bit 1 (lo b) OR push_bit 31 (hi b)) XOR mask) (drop_bit 1 (hi b) XOR mask))"

definition bits_length :: "longbits \<Rightarrow> nat" where
  "bits_length b =
     (let part0 = lo b;
          part1 = drop_bit 28 (lo b) OR push_bit 4 (hi b);
          part2 = drop_bit 24 (hi b)
      in if part2 = 0 then
           if part1 = 0 then
             if part0 < 16384 then if part0 < 128 then 1 else 2
             else if part0 < 2097152 then 3 else 4
           else if part1 < 16384 then if part1 < 128 then 5 else 6
             else if part1 < 2097152 then 7 else 8
         else if part2 < 128 then 9 else 10)"

section \<open>Value of the halves\<close>

lemma uint32_lt: "uint (w :: u32) < 4294967296"
  using uint_lt2p [of w] by simp

lemma bits64_uint: "uint (bits64 b) = uint (hi b) * 2 ^ 32 + uint (lo b)"
proof -
  have "uint (hi b) * 2 ^ 32 + uint (lo b) < 2 ^ 64"
    using uint32_lt [of "hi b"] uint32_lt [of "lo b"] by simp
  then show ?thesis
    unfolding bits64_def uint_word_of_int by (simp del: power_numeral power_Suc)
qed

lemma bits64_lo: "uint (lo b) = uint (bits64 b) mod 2 ^ 32"
  using uint32_lt [of "lo b"] by (simp add: bits64_uint)

lemma bits64_hi: "uint (hi b) = uint (bits64 b) div 2 ^ 32"
  using uint32_lt [of "lo b"] by (simp add: bits64_uint)

lemma bits64_inj: "bits64 a = bits64 b \<longleftrightarrow> lo a = lo b \<and> hi a = hi b"
  by (metis bits64_lo bits64_hi bits64_def word_uint_eq_iff)

lemma bits64_cat: "bits64 b = push_bit 32 (ucast (hi b)) + ucast (lo b)"
  by (simp add: bits64_def push_bit_eq_mult)

lemma bit_bits64: "bit (bits64 b) n \<longleftrightarrow> (if n < 32 then bit (lo b) n else n < 64 \<and> bit (hi b) (n - 32))"
proof -
  have "bits64 b = word_cat (hi b) (lo b)" by (simp add: bits64_cat word_cat_eq)
  then show ?thesis by (auto simp: bit_word_cat_iff bit_imp_le_length)
qed

lemma bits64_not: "bits64 (mk_bits (NOT l) (NOT h)) = NOT (bits64 (mk_bits l h))"
  by (rule bit_word_eqI) (auto simp: bit_bits64 bit_not_iff)

lemma bits64_halves:
  "bits64 (mk_bits (word_of_int v) (word_of_int ((v - uint (word_of_int v :: u32)) div 4294967296)))
   = word_of_int v"
proof -
  have h: "(v - v mod 4294967296) div 4294967296 = v div 4294967296"
    by (simp add: minus_mod_eq_mult_div)
  have "uint (word_of_int v :: u64) = v mod (4294967296 * 4294967296)"
    by (simp add: uint_word_of_int)
  also have "\<dots> = 4294967296 * (v div 4294967296 mod 4294967296) + v mod 4294967296"
    by (rule zmod_zmult2_eq) simp
  finally show ?thesis
    by (simp add: word_uint_eq_iff bits64_uint uint_word_of_int h)
qed

lemma uint_32_max: "4294967295 \<le> uint (w :: u32) \<longleftrightarrow> w = -1"
  using uint32_lt [of w] by (auto simp: word_uint_eq_iff unsigned_minus_1_eq_mask mask_eq_exp_minus_1)

lemma uint_ucast_64: "uint (ucast (w :: u32) :: u64) = uint w"
  using uint32_lt [of w] by (simp add: unsigned_ucast_eq take_bit_eq_mod)

lemma ucast_incr: "w \<noteq> -1 \<Longrightarrow> ucast (w + 1 :: u32) = (ucast w + 1 :: u64)"
  using uint32_lt [of w] uint_32_max [of w]
  by (simp add: word_uint_eq_iff uint_word_ariths uint_ucast_64)

lemma uint_incr: "uint (w + 1 :: u32) = (if w = -1 then 0 else uint w + 1)"
  using uint32_lt [of w] uint_32_max [of w] by (auto simp: uint_word_ariths)

lemma incr_0_iff: "(w :: u32) + 1 = 0 \<longleftrightarrow> w = -1"
  by (simp add: eq_neg_iff_add_eq_0)

lemma bits64_incr:
  "bits64 (mk_bits (l + 1) (if l + 1 = 0 then h + 1 else h)) = bits64 (mk_bits l h) + 1"
proof -
  have m: "uint (-1 :: u32) = 4294967295" by (simp add: unsigned_minus_1_eq_mask mask_eq_exp_minus_1)
  have "uint (bits64 (mk_bits (l + 1) (if l + 1 = 0 then h + 1 else h)))
        = (uint h * 4294967296 + uint l + 1) mod 18446744073709551616"
    using uint32_lt [of l] uint32_lt [of h] uint_32_max [of l] uint_32_max [of h]
    by (cases "l = -1"; cases "h = -1") (auto simp: bits64_uint incr_0_iff uint_incr m)
  then show ?thesis by (simp add: word_uint_eq_iff bits64_uint uint_word_ariths)
qed

lemma incr_eq:
  "(if uint l + 1 > 4294967295 then mk_bits 0 (if uint h + 1 > 4294967295 then 0 else h + 1)
    else mk_bits (l + 1) h) = mk_bits (l + 1) (if l + 1 = 0 then h + 1 else h)"
  using uint_32_max [of l] uint_32_max [of h] by (auto simp: incr_0_iff)

section \<open>Conversions\<close>

lemma bits64_from_number: "bits64 (from_number v) = word_of_int v"
proof (cases "v < 0")
  case True
  then have nz: "v \<noteq> 0" by simp
  let ?l = "word_of_int (- v) :: u32"
  let ?h = "word_of_int ((- v - uint ?l) div 4294967296) :: u32"
  have "bits64 (from_number v) = bits64 (mk_bits (NOT ?l) (NOT ?h)) + 1"
    using True nz unfolding from_number_def Let_def to_uint32_def
    by (simp only: incr_eq bits64_incr if_True if_False)
  also have "\<dots> = - bits64 (mk_bits ?l ?h)"
    by (simp add: bits64_not minus_eq_not_plus_1)
  also have "\<dots> = word_of_int v"
    unfolding bits64_halves by simp
  finally show ?thesis .
next
  case False
  then show ?thesis
    by (simp add: from_number_def zero_bits_def bits64_def [of "mk_bits 0 0"] Let_def to_uint32_def
        bits64_halves)
qed

lemma sint_64: "sint (w :: u64) = (if uint w < 2 ^ 63 then uint w else uint w - 2 ^ 64)"
proof -
  have u: "uint w < 18446744073709551616" using uint_lt2p [of w] by simp
  have "bit (uint w) 63 \<longleftrightarrow> \<not> uint w < 2 ^ 63"
  proof (cases "uint w < 2 ^ 63")
    case False
    then have "uint w div 2 ^ 63 = 1" using u by (simp add: div_pos_geq)
    with False show ?thesis by (simp add: bit_iff_odd)
  qed (simp add: bit_iff_odd)
  with u show ?thesis
    by (simp add: sint_uint signed_take_bit_eq_take_bit_minus take_bit_eq_mod)
qed

lemma sign_bit: "drop_bit 31 (hi b) \<noteq> 0 \<longleftrightarrow> sint (bits64 b) < 0"
proof -
  have u: "uint (bits64 b) < 18446744073709551616" using uint_lt2p [of "bits64 b"] by simp
  have "drop_bit 31 (hi b) = 0 \<longleftrightarrow> uint (hi b) < 2 ^ 31"
    using uint32_lt [of "hi b"]
    by (auto simp: word_uint_eq_iff drop_bit_eq_div uint_div_distrib zdiv_eq_0_iff)
  also have "\<dots> \<longleftrightarrow> uint (bits64 b) < 2 ^ 63"
  proof -
    have "h < 2147483648 \<longleftrightarrow> h * 4294967296 + l < 9223372036854775808"
      if "0 \<le> l" "l < 4294967296" for h l :: int using that by linarith
    then show ?thesis using uint32_lt [of "lo b"] by (simp add: bits64_uint)
  qed
  finally show ?thesis using u by (auto simp: sint_64)
qed

lemma to_number_eq:
  "to_number uns b = round_double (if uns then uint (bits64 b) else sint (bits64 b))"
proof (cases "\<not> uns \<and> drop_bit 31 (hi b) \<noteq> 0")
  case True
  let ?n = "mk_bits (NOT (lo b) + 1) (if NOT (lo b) + 1 = 0 then NOT (hi b) + 1 else NOT (hi b))"
  have neg: "sint (bits64 b) < 0" using True sign_bit by blast
  have "bits64 ?n = - bits64 b"
    using bits64_incr [of "NOT (lo b)" "NOT (hi b)"] bits64_not [of "lo b" "hi b"]
    by (simp only: minus_eq_not_plus_1 mk_bits_eta)
  moreover have "uint (- bits64 b) = - sint (bits64 b)" 
    using neg uint_lt2p [of "bits64 b"] by (auto simp: sint_64 uint_word_ariths zmod_zminus1_eq_if split: if_splits)
  ultimately have "uint (hi ?n) * 2 ^ 32 + uint (lo ?n) = - sint (bits64 b)"
    by (metis bits64_uint)
  with True show ?thesis
    by (simp add: to_number_def Let_def add.commute)
next
  case False
  have "sint (bits64 b) = uint (bits64 b)" if "\<not> uns"
    using that False sign_bit [of b] uint_lt2p [of "bits64 b"] by (auto simp: sint_64 split: if_splits)
  with False show ?thesis by (auto simp: to_number_def bits64_uint add.commute)
qed

lemma to_number_from_number:
  assumes "- (2 ^ 63) \<le> v" "v < 2 ^ 63"
  shows "to_number False (from_number v) = round_double v"
proof -
  have "sint (word_of_int v :: u64) = v"
    using assms by (simp add: signed_of_int signed_take_bit_int_eq_self_iff)
  then show ?thesis by (simp add: to_number_eq bits64_from_number)
qed



section \<open>Zig-zag\<close>

lemma signed_drop_31: "signed_drop_bit 31 (w :: u32) = (if bit w 31 then -1 else 0)"
  by (rule bit_word_eqI) (auto simp: bit_signed_drop_bit_iff not_less_eq_eq)

lemma signed_drop_63: "signed_drop_bit 63 (w :: u64) = (if bit w 63 then -1 else 0)"
  by (rule bit_word_eqI) (auto simp: bit_signed_drop_bit_iff not_less_eq_eq)

lemma minus_lsb: "- (w AND 1) = (if bit w 0 then -1 else 0 :: 'a::len word)"
  by (simp add: and_one_eq bit_0 odd_iff_mod_2_eq_one)

lemma bits64_zz_encode:
  "bits64 (zz_encode b) = (push_bit 1 (bits64 b) XOR signed_drop_bit 63 (bits64 b))"
proof (rule bit_word_eqI)
  fix n assume n: "n < LENGTH(64)"
  have nn: "\<not> bit (x :: u32) m" if "m \<ge> 32" for x m using that bit_imp_le_length [of x m] by auto
  show "bit (bits64 (zz_encode b)) n = bit (push_bit 1 (bits64 b) XOR signed_drop_bit 63 (bits64 b)) n"
    using n
    by (cases "n = 32")
      (auto simp: zz_encode_def Let_def signed_drop_31 signed_drop_63 bit_bits64 bit_xor_iff bit_or_iff
        bit_push_bit_iff bit_drop_bit_eq nn simp del: push_bit_Suc One_nat_def)
qed

lemma bits64_zz_decode:
  "bits64 (zz_decode b) = (drop_bit 1 (bits64 b) XOR - (bits64 b AND 1))"
proof (rule bit_word_eqI)
  fix n assume n: "n < LENGTH(64)"
  have nn: "\<not> bit (x :: u32) m" if "m \<ge> 32" for x m using that bit_imp_le_length [of x m] by auto
  show "bit (bits64 (zz_decode b)) n = bit (drop_bit 1 (bits64 b) XOR - (bits64 b AND 1)) n"
    using n
    by (cases "n = 31"; cases "n = 63")
      (auto simp: zz_decode_def Let_def minus_lsb bit_bits64 bit_xor_iff bit_or_iff
        bit_push_bit_iff bit_drop_bit_eq nn simp del: push_bit_Suc drop_bit_Suc One_nat_def)
qed

lemma zz_decode_encode: "zz_decode (zz_encode b) = b"
proof -
  have "bits64 (zz_decode (zz_encode b)) = bits64 b"
  proof (rule bit_word_eqI)
    fix n assume "n < LENGTH(64)"
    then show "bit (bits64 (zz_decode (zz_encode b))) n = bit (bits64 b) n"
      unfolding bits64_zz_decode bits64_zz_encode
      by (cases "n = 63") (auto simp: minus_lsb signed_drop_63 bit_xor_iff bit_push_bit_iff bit_drop_bit_eq
        simp del: push_bit_Suc drop_bit_Suc One_nat_def)
  qed
  then show ?thesis by (metis bits64_inj mk_bits_eta)
qed

text \<open>
  Zig-zag interleaves the signed values with the unsigned ones: \<open>0, -1, 1, -2, 2\<close> are sent as
  \<open>0, 1, 2, 3, 4\<close>.
\<close>

definition zigzag :: "int \<Rightarrow> int" where
  "zigzag v = (if 0 \<le> v then 2 * v else - 2 * v - 1)"

lemma zigzag_bits: "uint (bits64 (zz_encode b)) = zigzag (sint (bits64 b))"
proof -
  let ?w = "bits64 b"
  have u: "uint ?w < 2 ^ 64" "0 \<le> uint ?w" using uint_lt2p [of ?w] by simp_all
  have s: "bit ?w 63 \<longleftrightarrow> sint ?w < 0"
    by (simp add: sint_uint signed_take_bit_negative_iff bit_uint_iff)
  show ?thesis
  proof (cases "bit ?w 63")
    case True
    then have "bits64 (zz_encode b) = NOT (?w * 2)"
      by (simp add: bits64_zz_encode signed_drop_63 push_bit_eq_mult)
    also have "\<dots> = - (?w * 2) - 1" by (simp add: not_eq_complement)
    finally have e: "bits64 (zz_encode b) = - (?w * 2) - 1" .
    have "uint ?w * 2 mod 2 ^ 64 = (uint ?w * 2 - 2 ^ 64) mod 2 ^ 64" by simp
    also have "\<dots> = uint ?w * 2 - 2 ^ 64"
      using True s u by (intro mod_pos_pos_trivial) (auto simp: sint_64 split: if_splits)
    finally show ?thesis unfolding e
      using True s u by (auto simp: zigzag_def sint_64 uint_word_ariths zmod_zminus1_eq_if)
  next
    case False
    then show ?thesis
      using s u by (auto simp: bits64_zz_encode signed_drop_63 push_bit_eq_mult zigzag_def sint_64
        uint_word_ariths)
  qed
qed

text \<open>\<open>zzEncode\<close> sends the signed 64-bit value \<open>v\<close> as the unsigned value \<open>2v\<close> for \<open>v \<ge> 0\<close> and
  \<open>-2v - 1\<close> for \<open>v < 0\<close>, and \<open>zzDecode\<close> is its inverse.\<close>

lemma zigzag_64:
  "uint (bits64 (zz_encode b)) = zigzag (sint (bits64 b)) \<and> zz_decode (zz_encode b) = b"
  by (simp add: zigzag_bits zz_decode_encode)

section \<open>Hashes\<close>

lemma and_255: "w AND 255 = take_bit 8 (w :: 'a::len word)"
  by (simp add: take_bit_eq_mask mask_eq_exp_minus_1)

lemma byte_char:
  "ucast (ucast (take_bit 8 w :: u32) :: u16) = take_bit 8 w"
  "ucast (ucast (drop_bit 24 w :: u32) :: u16) = drop_bit 24 w"
proof -
  show "ucast (ucast (take_bit 8 w :: u32) :: u16) = take_bit 8 w"
    by (rule bit_word_eqI) (auto simp: bit_simps)
  have "n < 16" if "bit w (24 + n)" for n using that bit_imp_le_length [of w "24 + n"] by simp
  then show "ucast (ucast (drop_bit 24 w :: u32) :: u16) = drop_bit 24 w"
    by (intro bit_word_eqI) (auto simp: bit_simps)
qed

lemma char_at_hash:
  "char_at (to_hash b) 0 = take_bit 8 (lo b)"
  "char_at (to_hash b) 1 = take_bit 8 (drop_bit 8 (lo b))"
  "char_at (to_hash b) 2 = take_bit 8 (drop_bit 16 (lo b))"
  "char_at (to_hash b) 3 = drop_bit 24 (lo b)"
  "char_at (to_hash b) 4 = take_bit 8 (hi b)"
  "char_at (to_hash b) 5 = take_bit 8 (drop_bit 8 (hi b))"
  "char_at (to_hash b) 6 = take_bit 8 (drop_bit 16 (hi b))"
  "char_at (to_hash b) 7 = drop_bit 24 (hi b)"
  by (simp_all add: char_at_def to_hash_def hash_char_def and_255 byte_char)

lemma from_bytes_32:
  "take_bit 8 w OR push_bit 8 (take_bit 8 (drop_bit 8 w)) OR push_bit 16 (take_bit 8 (drop_bit 16 w))
   OR push_bit 24 (drop_bit 24 w) = (w :: u32)"
proof (rule bit_word_eqI)
  fix n assume "n < LENGTH(32)"
  then show "bit (take_bit 8 w OR push_bit 8 (take_bit 8 (drop_bit 8 w))
      OR push_bit 16 (take_bit 8 (drop_bit 16 w)) OR push_bit 24 (drop_bit 24 w)) n = bit w n"
    by (cases "n < 8"; cases "n < 16"; cases "n < 24") (auto simp: bit_simps)
qed

lemma from_hash_eq:
  "from_hash s = mk_bits
        (char_at s 0 OR push_bit 8 (char_at s 1) OR push_bit 16 (char_at s 2) OR push_bit 24 (char_at s 3))
        (char_at s 4 OR push_bit 8 (char_at s 5) OR push_bit 16 (char_at s 6) OR push_bit 24 (char_at s 7))"
proof (cases "s = replicate 8 0")
  case True
  then have "char_at s k = 0" for k by (simp add: char_at_def)
  then show ?thesis using True by (simp add: from_hash_def zero_bits_def)
qed (simp add: from_hash_def)

text \<open>\<open>fromHash\<close> reads back the value that \<open>toHash\<close> packed into eight characters.\<close>

lemma hash_roundtrip: "length (to_hash b) = 8 \<and> from_hash (to_hash b) = b"
  by (simp only: from_hash_eq char_at_hash from_bytes_32 mk_bits_eta) (simp add: to_hash_def)

section \<open>Length\<close>

text \<open>The number of 7-bit groups of a value, at least one.\<close>

fun varint_len :: "nat \<Rightarrow> nat" where
  "varint_len n = (if n < 128 then 1 else Suc (varint_len (n div 128)))"

declare varint_len.simps [simp del]

lemma varint_len_eq:
  "(j = 0 \<or> 128 ^ j \<le> n) \<Longrightarrow> n < 128 ^ Suc j \<Longrightarrow> varint_len n = Suc j"
proof (induction j arbitrary: n)
  case 0
  then show ?case by (simp add: varint_len.simps)
next
  case (Suc j)
  then have b: "128 * 128 ^ j \<le> n" "n < 128 * (128 * 128 ^ j)" by simp_all
  then have "\<not> n < 128" by (metis le_trans not_less one_le_numeral one_le_power mult_le_mono2 mult_1_right)
  moreover have "varint_len (n div 128) = Suc j"
    using b by (intro Suc.IH) (auto simp: less_eq_div_iff_mult_less_eq div_less_iff_less_mult mult.commute)
  ultimately show ?case by (subst varint_len.simps) simp
qed

lemma part_eqs:
  "lo b = ucast (bits64 b)"
  "drop_bit 28 (lo b) OR push_bit 4 (hi b) = ucast (drop_bit 28 (bits64 b))"
  "drop_bit 24 (hi b) = ucast (drop_bit 56 (bits64 b))"
  by (rule bit_word_eqI; auto simp: bit_simps bit_bits64 dest: bit_imp_le_length)+

lemma unat_ucast_32: "unat (ucast (w :: u64) :: u32) = unat w mod 2 ^ 32"
  by (simp add: unsigned_ucast_eq take_bit_eq_mod)

lemma unat_drop_28: "unat (drop_bit 28 (w :: u64)) = unat w div 2 ^ 28"
  by (simp add: drop_bit_eq_div unat_div_distrib)

lemma unat_drop_56: "unat (drop_bit 56 (w :: u64)) = unat w div 2 ^ 56"
  by (simp add: drop_bit_eq_div unat_div_distrib)

lemma bits_length_groups: "bits_length b = varint_len (unat (bits64 b))"
proof -
  define n where "n = unat (bits64 b)"
  have n: "n < 18446744073709551616" unfolding n_def using unsigned_less [of "bits64 b", where ?'a = nat] by simp
  have p0: "unat (lo b) = n mod 2 ^ 32" by (simp only: part_eqs(1) unat_ucast_32 n_def)
  have p1: "unat (drop_bit 28 (lo b) OR push_bit 4 (hi b)) = n div 2 ^ 28 mod 2 ^ 32"
    by (simp only: part_eqs(2) unat_ucast_32 n_def) (simp add: unat_drop_28 unat_drop_56)
  have p2: "unat (drop_bit 24 (hi b)) = n div 2 ^ 56 mod 2 ^ 32"
    by (simp only: part_eqs(3) unat_ucast_32 n_def) (simp add: unat_drop_28 unat_drop_56)
  have "bits_length b =
    (let part0 = n mod 2 ^ 32; part1 = n div 2 ^ 28 mod 2 ^ 32; part2 = n div 2 ^ 56
     in if part2 = 0 then
           if part1 = 0 then
             if part0 < 16384 then if part0 < 128 then 1 else 2
             else if part0 < 2097152 then 3 else 4
           else if part1 < 16384 then if part1 < 128 then 5 else 6
             else if part1 < 2097152 then 7 else 8
         else if part2 < 128 then 9 else 10)"
    unfolding bits_length_def Let_def
    using n by (simp only: p0 p1 p2 word_less_nat_alt word_unat_eq_iff) (simp add: div_less_iff_less_mult)
  also have "\<dots> = varint_len n"
  proof (cases "n < 2 ^ 56")
    case True
    then have "n div 2 ^ 28 mod 2 ^ 32 = n div 2 ^ 28" by (simp add: div_less_iff_less_mult)
    moreover have "n mod 2 ^ 32 = n" if "n < 2 ^ 28" using that by simp
    ultimately show ?thesis
      using True varint_len_eq [of 0 n] varint_len_eq [of 1 n] varint_len_eq [of 2 n] varint_len_eq [of 3 n]
       varint_len_eq [of 4 n] varint_len_eq [of 5 n] varint_len_eq [of 6 n] varint_len_eq [of 7 n]
      by (auto simp: Let_def div_less_iff_less_mult not_less)
  next
    case False
    then show ?thesis using n varint_len_eq [of 8 n] varint_len_eq [of 9 n]
      by (auto simp: Let_def div_less_iff_less_mult not_less)
  qed
  finally show ?thesis by (simp add: n_def)
qed

text \<open>C29: \<open>length\<close> is the number of 7-bit groups that the 64-bit value takes as a varint.\<close>

lemma bits_length_varint: "bits_length b = varint_len (unat (bits64 b))"
  by (rule bits_length_groups)

end
