(* ===== verification/Bytes.thy ===== *)
theory Bytes
  imports JsPrelude
begin

text \<open>
  Byte buffers. A \<open>Uint8Array\<close> is a list of bytes: an element store \<open>buf[i] = v\<close> is the list
  update, which like the typed array ignores an index past the end; a read past the end gives
  \<open>undefined\<close>, which every caller in the modelled code coerces to 0 with a bit operation or
  compares, and \<open>octet\<close> reads it as 0. \<open>put\<close> is \<open>buf.set(bytes, pos)\<close>.
\<close>

unbundle bit_operations_syntax

section \<open>Reading and storing bytes\<close>

definition octet :: "u8 list \<Rightarrow> nat \<Rightarrow> nat" where
  "octet buf i = (if i < length buf then unat (buf ! i) else 0)"

fun put :: "u8 list \<Rightarrow> nat \<Rightarrow> u8 list \<Rightarrow> u8 list" where
  "put buf pos [] = buf"
| "put buf pos (b # bs) = put (buf[pos := b]) (Suc pos) bs"

lemma length_put [simp]: "length (put buf pos bs) = length buf"
  by (induction buf pos bs rule: put.induct) simp_all

lemma put_append: "put buf pos (as @ bs) = put (put buf pos as) (pos + length as) bs"
  by (induction buf pos as rule: put.induct) simp_all

lemma put_eq: "pos + length bs \<le> length buf \<Longrightarrow> put buf pos bs = take pos buf @ bs @ drop (pos + length bs) buf"
proof (induction buf pos bs rule: put.induct)
  case (2 buf pos b bs)
  then have "pos < length buf" by simp
  then show ?case using 2 by (simp add: take_Suc_conv_app_nth)
qed simp

lemma put_all: "length bs = length buf \<Longrightarrow> put buf 0 bs = bs"
  by (simp add: put_eq)

lemma octet_append: "octet (xs @ ys) i = (if i < length xs then octet xs i else octet ys (i - length xs))"
  by (auto simp: octet_def nth_append)

lemma octet_Cons_0 [simp]: "octet (x # xs) 0 = unat x"
  by (simp add: octet_def)

lemma octet_Cons_Suc [simp]: "octet (x # xs) (Suc i) = octet xs i"
  by (simp add: octet_def)

lemma octet_drop: "octet buf (p + i) = octet (drop p buf) i"
  by (auto simp: octet_def)

lemma off_steps: "off + 1 = Suc off" "off + 2 = Suc (Suc off)" "off + 3 = Suc (Suc (Suc off))"
  "off + 4 = Suc (Suc (Suc (Suc off)))"
  by simp_all

lemma octets_at:
  assumes "drop p buf = bs"
  shows "octet buf p = octet bs 0" "octet buf (p + 1) = octet bs 1" "octet buf (p + 2) = octet bs 2"
    "octet buf (p + 3) = octet bs 3"
  using octet_drop [of buf p 0] octet_drop [of buf p 1] octet_drop [of buf p 2] octet_drop [of buf p 3] assms
  by simp_all

lemma octet_Cons: "octet (x # xs) i = (if i = 0 then unat x else octet xs (i - 1))"
  by (cases i) simp_all

lemma octet_at_less: "drop p buf = b # bs \<Longrightarrow> p < length buf"
  by (metis drop_all leI list.distinct(1))

lemma octet_lt: "octet buf i < 256"
  using unsigned_less [of "buf ! i", where ?'a = nat] by (simp add: octet_def)

section \<open>Bit masks on natural numbers\<close>

lemma nat_and_mask: "n AND (2 ^ k - 1) = n mod 2 ^ k" for n :: nat
  using take_bit_eq_mask [of k n] by (simp add: take_bit_eq_mod mask_eq_exp_minus_1)

lemma nat_or_push:
  fixes x y :: nat
  assumes "x < 2 ^ k"
  shows "x OR (y * 2 ^ k) = x + y * 2 ^ k"
proof -
  have "\<not> bit x n \<or> \<not> bit (push_bit k y) n" for n
  proof (cases "k \<le> n")
    case True
    then have "\<not> bit x n"
      using assms less_le_trans [OF assms, of "2 ^ n"] by (simp add: bit_iff_odd power_increasing)
    then show ?thesis ..
  qed (simp add: bit_push_bit_iff)
  then have "x + push_bit k y = x OR push_bit k y" by (rule disjunctive_add)
  then show ?thesis by (simp add: push_bit_eq_mult)
qed

lemma nat_or_push2:
  fixes x y :: nat
  assumes "x < 2 ^ k"
  shows "(y * 2 ^ k) OR x = x + y * 2 ^ k"
  using nat_or_push [OF assms] by (simp add: or.commute)

lemma and_push_bit: "(n :: nat) AND push_bit k m = push_bit k (drop_bit k n AND m)"
  by (rule bit_eqI) (auto simp: bit_simps)

lemmas and_masks =
  nat_and_mask [of _ 3, simplified] nat_and_mask [of _ 4, simplified]
  nat_and_mask [of _ 5, simplified] nat_and_mask [of _ 6, simplified] nat_and_mask [of _ 7, simplified]
  nat_and_mask [of _ 8, simplified] nat_and_mask [of _ 10, simplified]

text \<open>The byte that a store of the number \<open>n\<close> leaves in the array.\<close>

definition byte_of :: "nat \<Rightarrow> u8" where
  "byte_of n = of_nat n"

lemma unat_byte_of: "n < 256 \<Longrightarrow> unat (byte_of n) = n"
  by (simp add: byte_of_def unat_of_nat)

lemma byte_of_unat [simp]: "byte_of (unat b) = b"
  by (simp add: byte_of_def)

end
