(* ===== verification/Utf8.thy ===== *)
theory Utf8
  imports Bytes
begin

text \<open>
  The utf8 module of protobuf.js: the byte length of a string, writing its UTF-8 bytes into a
  buffer and reading a byte range back, code unit by code unit and with the chunking that keeps
  the argument lists of \<open>String.fromCharCode.apply\<close> short.
\<close>

unbundle bit_operations_syntax

section \<open>Surrogates\<close>

text \<open>The tests of the source; \<open>charCodeAt\<close> past the end is NaN, whose bits are 0.\<close>

definition is_high :: "u16 \<Rightarrow> bool" where
  "is_high c \<longleftrightarrow> unat c AND 0xFC00 = 0xD800"

definition next_low :: "jsstring \<Rightarrow> bool" where
  "next_low s \<longleftrightarrow> (case s of [] \<Rightarrow> False | d # _ \<Rightarrow> unat d AND 0xFC00 = 0xDC00)"

fun utf8_length :: "jsstring \<Rightarrow> nat" where
  "utf8_length [] = 0"
| "utf8_length (c # s) =
     (if unat c < 128 then 1 + utf8_length s
      else if unat c < 2048 then 2 + utf8_length s
      else if is_high c \<and> next_low s then 4 + utf8_length (drop 1 s)
      else 3 + utf8_length s)"

section \<open>Writing\<close>

text \<open>One iteration's stores, in the order of the source.\<close>

fun utf8_write_loop :: "jsstring \<Rightarrow> u8 list \<Rightarrow> nat \<Rightarrow> u8 list \<times> nat" where
  "utf8_write_loop [] buf off = (buf, off)"
| "utf8_write_loop (c # s) buf off =
     (let c1 = unat c
      in if c1 < 128 then utf8_write_loop s (buf[off := byte_of c1]) (off + 1)
         else if c1 < 2048 then
           utf8_write_loop s
             (buf[off := byte_of (drop_bit 6 c1 OR 192), off + 1 := byte_of (c1 AND 63 OR 128)])
             (off + 2)
         else if is_high c \<and> next_low s then
           let c1 = 0x10000 + push_bit 10 (c1 AND 0x03FF) + (unat (hd s) AND 0x03FF)
           in utf8_write_loop (drop 1 s)
                (buf[off := byte_of (drop_bit 18 c1 OR 240),
                     off + 1 := byte_of (drop_bit 12 c1 AND 63 OR 128),
                     off + 2 := byte_of (drop_bit 6 c1 AND 63 OR 128),
                     off + 3 := byte_of (c1 AND 63 OR 128)])
                (off + 4)
         else
           utf8_write_loop s
             (buf[off := byte_of (drop_bit 12 c1 OR 224),
                  off + 1 := byte_of (drop_bit 6 c1 AND 63 OR 128),
                  off + 2 := byte_of (c1 AND 63 OR 128)])
             (off + 3))"

definition utf8_write :: "jsstring \<Rightarrow> u8 list \<Rightarrow> nat \<Rightarrow> u8 list \<times> nat" where
  "utf8_write s buf off =
     (case utf8_write_loop s buf off of (buf', off') \<Rightarrow> (buf', off' - off))"

section \<open>Reading\<close>

text \<open>
  \<open>chunk[i++] = t\<close>. The chunk array is reused after a flush and keeps its length, which is why
  the list may be longer than the number \<open>i\<close> of live entries.
\<close>

definition chunk_put :: "jsstring \<times> nat \<Rightarrow> nat \<Rightarrow> jsstring \<times> nat" where
  "chunk_put ci t =
     (case ci of (chunk, i) \<Rightarrow>
        (if i < length chunk then chunk[i := of_nat t] else chunk @ [of_nat t], i + 1))"

definition utf8_flush :: "jsstring option \<Rightarrow> jsstring \<times> nat \<Rightarrow> jsstring option \<times> jsstring \<times> nat" where
  "utf8_flush parts ci =
     (case ci of (chunk, i) \<Rightarrow>
        if i > 8191 then (Some ((case parts of None \<Rightarrow> [] | Some p \<Rightarrow> p) @ chunk), chunk, 0)
        else (parts, chunk, i))"

text \<open>
  A byte past the end of the buffer is \<open>undefined\<close>: it compares as false with every number and
  counts as 0 in the bit operations.
\<close>

definition utf8_read_char :: "u8 list \<Rightarrow> nat \<Rightarrow> jsstring \<times> nat \<Rightarrow> nat \<times> jsstring \<times> nat" where
  "utf8_read_char buf p ci =
     (let t = octet buf p
      in if p < length buf \<and> t < 128 then (p + 1, chunk_put ci t)
         else if t > 191 \<and> t < 224 then
           (p + 2, chunk_put ci (push_bit 6 (t AND 31) OR octet buf (p + 1) AND 63))
         else if t > 239 \<and> t < 365 then
           let t = int (push_bit 18 (t AND 7) OR push_bit 12 (octet buf (p + 1) AND 63)
                        OR push_bit 6 (octet buf (p + 2) AND 63) OR octet buf (p + 3) AND 63) - 0x10000
           in (p + 4, chunk_put (chunk_put ci (nat (0xD800 + drop_bit 10 t))) (nat (0xDC00 + (t AND 1023))))
         else
           (p + 3, chunk_put ci (push_bit 12 (t AND 15) OR push_bit 6 (octet buf (p + 1) AND 63)
                                 OR octet buf (p + 2) AND 63)))"

lemma utf8_read_char_less: "p < fst (utf8_read_char buf p ci)"
  by (simp add: utf8_read_char_def Let_def)

text \<open>The \<open>while (start < end)\<close> loop; the result is what is joined at the end.\<close>

function utf8_read_loop :: "u8 list \<Rightarrow> nat \<Rightarrow> nat \<Rightarrow> jsstring option \<Rightarrow> jsstring \<times> nat \<Rightarrow> jsstring" where
  "utf8_read_loop buf start end' parts ci =
     (if start < end' then
        case utf8_read_char buf start ci of
          (start', ci') \<Rightarrow>
            (case utf8_flush parts ci' of (parts', ci'') \<Rightarrow> utf8_read_loop buf start' end' parts' ci'')
      else case ci of (chunk, i) \<Rightarrow>
        (case parts of
           Some p \<Rightarrow> if i \<noteq> 0 then p @ take i chunk else p
         | None \<Rightarrow> take i chunk))"
  by pat_completeness auto
termination
  by (relation "measure (\<lambda>(buf, start, end', parts, ci). end' - start)")
    (auto dest!: arg_cong [where f = fst], metis diff_less_mono2 fst_conv utf8_read_char_less)

declare utf8_read_loop.simps [simp del]

definition utf8_read :: "u8 list \<Rightarrow> nat \<Rightarrow> nat \<Rightarrow> jsstring" where
  "utf8_read buf start end' =
     (if end' < start + 1 then [] else utf8_read_loop buf start end' None ([], 0))"

section \<open>The bytes of a string\<close>

definition utf8_unit :: "u16 \<Rightarrow> u8 list" where
  "utf8_unit c =
     (let n = unat c
      in if n < 128 then [byte_of n]
         else if n < 2048 then [byte_of (192 + n div 64), byte_of (128 + n mod 64)]
         else [byte_of (224 + n div 4096), byte_of (128 + n div 64 mod 64), byte_of (128 + n mod 64)])"

definition pair_value :: "u16 \<Rightarrow> u16 \<Rightarrow> nat" where
  "pair_value c d = 0x10000 + (unat c mod 1024) * 1024 + unat d mod 1024"

definition utf8_pair :: "u16 \<Rightarrow> u16 \<Rightarrow> u8 list" where
  "utf8_pair c d =
     (let n = pair_value c d
      in [byte_of (240 + n div 262144), byte_of (128 + n div 4096 mod 64),
          byte_of (128 + n div 64 mod 64), byte_of (128 + n mod 64)])"

fun utf8_bytes :: "jsstring \<Rightarrow> u8 list" where
  "utf8_bytes [] = []"
| "utf8_bytes (c # s) =
     (if is_high c \<and> next_low s then utf8_pair c (hd s) @ utf8_bytes (drop 1 s)
      else utf8_unit c @ utf8_bytes s)"

lemma unat16_lt: "unat (c :: u16) < 65536"
  using unsigned_less [of c, where ?'a = nat] by simp

lemma and_0xFC00: "unat (c :: u16) AND 0xFC00 = unat c div 1024 * 1024"
  using and_push_bit [of "unat c" 10 63] unat16_lt [of c]
  by (simp add: drop_bit_eq_div push_bit_eq_mult and_masks)

lemma is_high_iff: "is_high c \<longleftrightarrow> unat c div 1024 = 54"
  by (auto simp: is_high_def and_0xFC00)

lemma is_high_small: "unat c < 55296 \<Longrightarrow> \<not> is_high c"
  by (auto simp: is_high_iff)

lemma next_low_Cons: "next_low (d # s) \<longleftrightarrow> unat d div 1024 = 55"
  by (auto simp: next_low_def and_0xFC00)

lemma utf8_length_bytes: "utf8_length s = length (utf8_bytes s)"
  by (induction s rule: utf8_length.induct)
    (auto simp: utf8_unit_def utf8_pair_def Let_def is_high_iff)

lemmas or_tags = nat_or_push [of _ 7 1, simplified] nat_or_push [of _ 6 3, simplified]
  nat_or_push [of _ 5 7, simplified] nat_or_push [of _ 4 15, simplified]

lemma pair_value_lt: "pair_value c d < 1114112"
proof -
  have "unat c mod 1024 < 1024" "unat d mod 1024 < 1024" by simp_all
  then show ?thesis unfolding pair_value_def by linarith
qed

lemma pair_value_push:
  "0x10000 + push_bit 10 (unat c AND 0x03FF) + (unat d AND 0x03FF) = pair_value c d"
  by (simp add: pair_value_def and_masks push_bit_eq_mult)

lemma pair_bytes:
  fixes n :: nat
  assumes "n < 1114112"
  shows "drop_bit 18 n OR 240 = 240 + n div 262144" "drop_bit 12 n AND 63 OR 128 = 128 + n div 4096 mod 64"
    "drop_bit 6 n AND 63 OR 128 = 128 + n div 64 mod 64" "n AND 63 OR 128 = 128 + n mod 64"
proof -
  have "n div 262144 < 16" using assms by (simp add: div_less_iff_less_mult)
  then show "drop_bit 18 n OR 240 = 240 + n div 262144" by (simp add: drop_bit_eq_div or_tags)
  have m: "k mod 64 < 128" for k :: nat by (rule less_trans [of _ 64]) simp_all
  show "drop_bit 12 n AND 63 OR 128 = 128 + n div 4096 mod 64"
    "drop_bit 6 n AND 63 OR 128 = 128 + n div 64 mod 64" "n AND 63 OR 128 = 128 + n mod 64"
    by (simp_all add: drop_bit_eq_div and_masks or_tags m)
qed

lemma unit_bytes:
  fixes n :: nat
  shows "n < 2048 \<Longrightarrow> drop_bit 6 n OR 192 = 192 + n div 64"
    "n < 65536 \<Longrightarrow> drop_bit 12 n OR 224 = 224 + n div 4096"
proof -
  show "drop_bit 6 n OR 192 = 192 + n div 64" if "n < 2048"
    using that by (simp add: drop_bit_eq_div or_tags div_less_iff_less_mult)
  show "drop_bit 12 n OR 224 = 224 + n div 4096" if "n < 65536"
    using that by (simp add: drop_bit_eq_div or_tags div_less_iff_less_mult)
qed

lemma utf8_write_loop_put:
  "utf8_write_loop s buf off = (put buf off (utf8_bytes s), off + length (utf8_bytes s))"
proof (induction s buf off rule: utf8_write_loop.induct)
  case (2 c s buf off)
  have b: "unat c < 1114112" using unat16_lt [of c] by simp
  consider "unat c < 128" | "\<not> unat c < 128" "unat c < 2048"
    | "\<not> unat c < 128" "\<not> unat c < 2048" "is_high c \<and> next_low s"
    | "\<not> unat c < 128" "\<not> unat c < 2048" "\<not> (is_high c \<and> next_low s)" by blast
  then show ?case
  proof cases
    case 1
    with 2(1) show ?thesis by (simp add: is_high_small utf8_unit_def Let_def)
  next
    case 2
    with "2.IH"(2) show ?thesis
      by (simp add: is_high_small utf8_unit_def Let_def unit_bytes pair_bytes(4) [OF b])
  next
    case 3
    with "2.IH"(3) show ?thesis
      by (simp add: utf8_pair_def Let_def pair_value_push pair_bytes [OF pair_value_lt] off_steps
          del: push_bit_and)
  next
    case 4
    then have "(is_high c \<and> next_low s) = False" by blast
    with "2.IH"(4) [OF refl 4] 4(1, 2) show ?thesis
      by (simp only: utf8_write_loop.simps utf8_bytes.simps if_False) (simp add: utf8_unit_def Let_def unit_bytes unat16_lt pair_bytes [OF b] off_steps)
  qed
qed simp

lemma utf8_write_put: "utf8_write s buf off = (put buf off (utf8_bytes s), utf8_length s)"
  by (simp add: utf8_write_def utf8_write_loop_put utf8_length_bytes)

section \<open>Reading what was written\<close>

lemma div_mod_64: "n div 64 * 64 + n mod 64 = (n :: nat)"
  by simp

lemma split_12: "n mod 64 + (n div 64 mod 64 + n div 4096 * 64) * 64 = (n :: nat)"
proof -
  have "n div 4096 = n div 64 div 64" by (simp add: div_mult2_eq [symmetric])
  then have "n div 64 mod 64 + n div 4096 * 64 = n div 64" by simp
  then show ?thesis by simp
qed

lemma split_18: "n mod 64 + (n div 64 mod 64 + (n div 4096 mod 64 + n div 262144 * 64) * 64) * 64 = (n :: nat)"
proof -
  have e: "n div 4096 = n div 64 div 64" "n div 262144 = n div 64 div 4096"
    by (simp_all add: div_mult2_eq [symmetric])
  show ?thesis using split_12 [of "n div 64"] by (simp add: e)
qed

lemma tag_mod:
  "(128 + k mod 64) mod 64 = k mod (64 :: nat)" "128 + k mod 64 < (256 :: nat)"
proof -
  show "(128 + k mod 64) mod 64 = k mod (64 :: nat)" using mod_mult_self3 [of 2 64 "k mod 64"] by simp
  show "128 + k mod 64 < (256 :: nat)" using mod_less_divisor [of 64 k] by linarith
qed

lemma or_groups:
  fixes y m :: nat
  shows "y * 64 OR m mod 64 = m mod 64 + y * 64"
    "y * 4096 OR (m mod 64) * 64 = (m mod 64 + y * 64) * 64"
    "y * 262144 OR (m mod 64) * 4096 = (m mod 64 + y * 64) * 4096"
proof -
  have m: "m mod 64 < 64" by simp
  show "y * 64 OR m mod 64 = m mod 64 + y * 64" using nat_or_push2 [of "m mod 64" 6 y] m by simp
  have "(m mod 64) * 64 < 4096" using m by linarith
  then show "y * 4096 OR (m mod 64) * 64 = (m mod 64 + y * 64) * 64"
    using nat_or_push2 [of "(m mod 64) * 64" 12 y] by simp
  have "(m mod 64) * 4096 < 262144" using m by linarith
  then show "y * 262144 OR (m mod 64) * 4096 = (m mod 64 + y * 64) * 4096"
    using nat_or_push2 [of "(m mod 64) * 4096" 18 y] by simp
qed

lemma read_unit:
  assumes "drop p buf = utf8_unit c @ post"
  shows "utf8_read_char buf p ci = (p + length (utf8_unit c), chunk_put ci (unat c))"
proof -
  define n where "n = unat c"
  have n: "n < 65536" unfolding n_def by (rule unat16_lt)
  consider "n < 128" | "128 \<le> n" "n < 2048" | "2048 \<le> n" by linarith
  then show ?thesis
  proof cases
    case 1
    then have "octet buf p = n"
      using octets_at(1) [OF assms] by (simp add: utf8_unit_def unat_byte_of n_def)
    moreover have "p < length buf" using octet_at_less [of p buf] assms 1 by (simp add: utf8_unit_def n_def)
    ultimately show ?thesis using 1 by (simp add: utf8_read_char_def utf8_unit_def n_def)
  next
    case 2
    define q where "q = n div 64"
    have q: "q < 32" using 2 by (simp add: q_def div_less_iff_less_mult)
    have u: "utf8_unit c = [byte_of (192 + q), byte_of (128 + n mod 64)]"
      using 2 by (simp add: utf8_unit_def Let_def n_def q_def)
    have o: "octet buf p = 192 + q" "octet buf (p + 1) = 128 + n mod 64"
      using q octets_at [OF assms] by (simp_all add: u unat_byte_of tag_mod)
    have "(192 + q) mod 32 = q" using q mod_mult_self3 [of 6 32 q] by simp
    then have "push_bit 6 (octet buf p AND 31) OR octet buf (p + 1) AND 63 = n"
      unfolding o by (simp add: and_masks push_bit_eq_mult nat_or_push2 [of _ 6, simplified] tag_mod q_def)
    then show ?thesis using q o(1) by (simp add: utf8_read_char_def u n_def)
  next
    case 3
    define q where "q = n div 4096"
    have q: "q < 16" using n by (simp add: q_def div_less_iff_less_mult)
    have u: "utf8_unit c = [byte_of (224 + q), byte_of (128 + n div 64 mod 64), byte_of (128 + n mod 64)]"
      using 3 by (simp add: utf8_unit_def Let_def n_def q_def)
    have o: "octet buf p = 224 + q" "octet buf (p + 1) = 128 + n div 64 mod 64"
      "octet buf (p + 2) = 128 + n mod 64"
      using q octets_at [OF assms] by (simp_all add: u unat_byte_of tag_mod octet_Cons)
    have "(224 + q) mod 16 = q" using q mod_mult_self3 [of 14 16 q] by simp
    then have e: "push_bit 12 (octet buf p AND 15) OR push_bit 6 (octet buf (p + 1) AND 63)
        OR octet buf (p + 2) AND 63 = (q * 4096 OR (n div 64 mod 64) * 64) OR n mod 64"
      unfolding o by (simp add: and_masks push_bit_eq_mult tag_mod or.assoc)
    have "push_bit 12 (octet buf p AND 15) OR push_bit 6 (octet buf (p + 1) AND 63)
        OR octet buf (p + 2) AND 63 = n"
      unfolding e by (simp only: or_groups q_def split_12)
    then show ?thesis using q o(1) by (simp add: utf8_read_char_def u n_def)
  qed
qed

lemma pair_units:
  assumes "is_high c" "next_low (d # s)"
  shows "pair_value c d = 0x10000 + (unat c - 0xD800) * 1024 + (unat d - 0xDC00)"
    "unat c = 0xD800 + (pair_value c d - 0x10000) div 1024"
    "unat d = 0xDC00 + (pair_value c d - 0x10000) mod 1024"
proof -
  have c: "unat c = 54 * 1024 + unat c mod 1024" and d: "unat d = 55 * 1024 + unat d mod 1024"
    using assms div_mult_mod_eq [of "unat c" 1024] div_mult_mod_eq [of "unat d" 1024]
    by (simp_all add: is_high_iff next_low_Cons)
  have e: "pair_value c d - 0x10000 = unat d mod 1024 + unat c mod 1024 * 1024"
    by (simp add: pair_value_def)
  show "unat c = 0xD800 + (pair_value c d - 0x10000) div 1024"
    unfolding e using c by simp
  show "unat d = 0xDC00 + (pair_value c d - 0x10000) mod 1024"
    unfolding e using d by simp
  show "pair_value c d = 0x10000 + (unat c - 0xD800) * 1024 + (unat d - 0xDC00)"
    unfolding pair_value_def using c d by simp
qed

lemma int_and_1023: "int k AND 1023 = int (k mod 1024)"
  using take_bit_eq_mask [of 10 "int k"] by (simp add: take_bit_eq_mod mask_eq_exp_minus_1 zmod_int)

lemma read_pair:
  assumes "drop p buf = utf8_pair c d @ post" "is_high c" "next_low (d # s)"
  shows "utf8_read_char buf p ci = (p + 4, chunk_put (chunk_put ci (unat c)) (unat d))"
proof -
  define n where "n = pair_value c d"
  have n: "n < 1114112" "65536 \<le> n" using pair_value_lt by (simp_all add: n_def pair_value_def)
  define q where "q = n div 262144"
  have q: "q < 8" using n by (simp add: q_def div_less_iff_less_mult)
  have u: "utf8_pair c d = [byte_of (240 + q), byte_of (128 + n div 4096 mod 64),
      byte_of (128 + n div 64 mod 64), byte_of (128 + n mod 64)]"
    by (simp add: utf8_pair_def Let_def n_def q_def)
  have o: "octet buf p = 240 + q" "octet buf (p + 1) = 128 + n div 4096 mod 64"
    "octet buf (p + 2) = 128 + n div 64 mod 64" "octet buf (p + 3) = 128 + n mod 64"
    using q octets_at [OF assms(1)] by (simp_all add: u unat_byte_of tag_mod octet_Cons)
  have "(240 + q) mod 8 = q" using q mod_mult_self3 [of 30 8 q] by simp
  then have e: "push_bit 18 (octet buf p AND 7) OR push_bit 12 (octet buf (p + 1) AND 63)
      OR push_bit 6 (octet buf (p + 2) AND 63) OR octet buf (p + 3) AND 63
      = ((q * 262144 OR (n div 4096 mod 64) * 4096) OR (n div 64 mod 64) * 64) OR n mod 64"
    unfolding o by (simp add: and_masks push_bit_eq_mult tag_mod or.assoc)
  have v: "push_bit 18 (octet buf p AND 7) OR push_bit 12 (octet buf (p + 1) AND 63)
      OR push_bit 6 (octet buf (p + 2) AND 63) OR octet buf (p + 3) AND 63 = n"
    unfolding e by (simp only: or_groups q_def split_18)
  have i: "int n - 65536 = int (n - 65536)" using n by simp
  have "nat (55296 + drop_bit 10 (int n - 65536)) = unat c"
    "nat (56320 + (int n - 65536 AND 1023)) = unat d"
    unfolding i pair_units(2, 3) [OF assms(2, 3)]
    by (simp_all add: drop_bit_eq_div int_and_1023 n_def nat_add_distrib zdiv_int [symmetric] zmod_int [symmetric])
  then show ?thesis using q o(1) v by (simp add: utf8_read_char_def Let_def)
qed

section \<open>The loop and its chunks\<close>

fun no_pair :: "jsstring \<Rightarrow> bool" where
  "no_pair [] \<longleftrightarrow> True"
| "no_pair (c # s) \<longleftrightarrow> \<not> (is_high c \<and> next_low s) \<and> no_pair s"

text \<open>The characters decoded so far, and the states from which no flush picks up a stale entry.\<close>

definition decoded :: "jsstring option \<Rightarrow> jsstring \<times> nat \<Rightarrow> jsstring" where
  "decoded parts ci = (case parts of None \<Rightarrow> [] | Some p \<Rightarrow> p) @ take (snd ci) (fst ci)"

definition chunk_safe :: "jsstring \<times> nat \<Rightarrow> jsstring \<Rightarrow> bool" where
  "chunk_safe ci s \<longleftrightarrow>
     snd ci \<le> length (fst ci) \<and>
     (snd ci + length s \<le> 8191
      \<or> length (fst ci) \<le> 8192 \<and> snd ci \<le> 8191 \<and> (snd ci + length s \<le> 16384 \<or> no_pair s))"

lemma chunk_put_facts:
  assumes "snd ci \<le> length (fst ci)"
  shows "snd (chunk_put ci (unat c)) = Suc (snd ci)"
    "length (fst (chunk_put ci (unat c))) = max (length (fst ci)) (Suc (snd ci))"
    "decoded parts (chunk_put ci (unat c)) = decoded parts ci @ [c]"
proof -
  obtain chunk i where ci: "ci = (chunk, i)" by (cases ci)
  have "i \<noteq> length chunk \<Longrightarrow> take (Suc i) (chunk[i := c]) = take i chunk @ [c]"
    using assms by (simp add: ci take_Suc_conv_app_nth)
  then show "snd (chunk_put ci (unat c)) = Suc (snd ci)"
    "length (fst (chunk_put ci (unat c))) = max (length (fst ci)) (Suc (snd ci))"
    "decoded parts (chunk_put ci (unat c)) = decoded parts ci @ [c]"
    using assms by (auto simp: chunk_put_def ci decoded_def max_def)
qed

lemma flush_decoded:
  assumes "snd ci > 8191 \<Longrightarrow> length (fst ci) = snd ci"
  shows "decoded (fst (utf8_flush parts ci)) (snd (utf8_flush parts ci)) = decoded parts ci"
  using assms by (cases ci) (auto simp: utf8_flush_def decoded_def)

lemma step_unit:
  fixes parts :: "jsstring option"
  assumes "chunk_safe ci (c # s)" "\<not> (is_high c \<and> next_low s)"
  defines "st \<equiv> utf8_flush parts (chunk_put ci (unat c))"
  shows "decoded (fst st) (snd st) = decoded parts ci @ [c] \<and> chunk_safe (snd st) s"
proof -
  let ?ci = "chunk_put ci (unat c)"
  have i: "snd ci \<le> length (fst ci)" using assms(1) by (simp add: chunk_safe_def)
  note f = chunk_put_facts [OF i]
  have "snd ?ci > 8191 \<Longrightarrow> length (fst ?ci) = snd ?ci"
    using assms(1) f(1, 2) [of c] by (auto simp: chunk_safe_def)
  moreover have "chunk_safe (snd st) s"
    using assms(1, 2) f(1, 2) [of c] unfolding st_def
    by (cases ?ci) (auto simp: chunk_safe_def utf8_flush_def)
  ultimately show ?thesis by (simp add: st_def flush_decoded f(3))
qed

lemma step_pair:
  fixes parts :: "jsstring option"
  assumes "chunk_safe ci (c # d # s)" "is_high c" "next_low (d # s)"
  defines "st \<equiv> utf8_flush parts (chunk_put (chunk_put ci (unat c)) (unat d))"
  shows "decoded (fst st) (snd st) = decoded parts ci @ [c, d] \<and> chunk_safe (snd st) s"
proof -
  let ?ci = "chunk_put ci (unat c)" and ?cj = "chunk_put (chunk_put ci (unat c)) (unat d)"
  have i: "snd ci \<le> length (fst ci)" using assms(1) by (simp add: chunk_safe_def)
  note f = chunk_put_facts [OF i, where c = c]
  have j: "snd ?ci \<le> length (fst ?ci)" by (simp add: f)
  note g = chunk_put_facts [OF j, where c = d]
  have "snd ?cj > 8191 \<Longrightarrow> length (fst ?cj) = snd ?cj"
    using assms(1) i unfolding g(1, 2) f(1, 2) by (auto simp: chunk_safe_def assms)
  moreover have "chunk_safe (snd st) s"
    using assms(1) f(1, 2) g(1, 2) unfolding st_def
    by (cases ?cj) (auto simp: chunk_safe_def utf8_flush_def assms(2, 3))
  ultimately show ?thesis by (simp add: st_def flush_decoded g(3) f(3))
qed

lemma utf8_read_loop_bytes:
  assumes "drop p buf = utf8_bytes s @ post" "chunk_safe ci s"
  shows "utf8_read_loop buf p (p + length (utf8_bytes s)) parts ci = decoded parts ci @ s"
  using assms
proof (induction s arbitrary: p parts ci rule: utf8_bytes.induct)
  case 1
  then show ?case
    by (cases ci) (auto simp: utf8_read_loop.simps [of buf p p] decoded_def split: option.splits)
next
  case (2 c s)
  show ?case
  proof (cases "is_high c \<and> next_low s")
    case True
    then obtain d s' where s: "s = d # s'" by (cases s) (auto simp: next_low_def)
    define st where "st = utf8_flush parts (chunk_put (chunk_put ci (unat c)) (unat d))"
    have b: "utf8_bytes (c # s) = utf8_pair c d @ utf8_bytes s'" using True s by simp
    have l: "length (utf8_pair c d) = 4" by (simp add: utf8_pair_def Let_def)
    have r: "utf8_read_char buf p ci = (p + 4, chunk_put (chunk_put ci (unat c)) (unat d))"
      using True 2(3) s by (intro read_pair [of _ _ _ _ "utf8_bytes s' @ post" s']) simp_all
    have k: "decoded (fst st) (snd st) = decoded parts ci @ [c, d]" "chunk_safe (snd st) s'"
      using step_pair [of ci c d s' parts] 2(4) True s by (simp_all add: st_def)
    have "drop p buf = utf8_pair c d @ utf8_bytes s' @ post" using 2(3) unfolding b by simp
    then have "drop (p + 4) buf = utf8_bytes s' @ post"
      using l by (simp add: drop_drop [symmetric] add.commute [of p])
    with 2(1) [OF True, of "p + 4" "snd st" "fst st"] k s
    have "utf8_read_loop buf (p + 4) (p + 4 + length (utf8_bytes s')) (fst st) (snd st)
          = decoded parts ci @ c # d # s'" by simp
    then show ?thesis
      unfolding b by (subst utf8_read_loop.simps)
        (simp add: r l s st_def [symmetric] case_prod_beta add.assoc)
  next
    case False
    define st where "st = utf8_flush parts (chunk_put ci (unat c))"
    have b: "utf8_bytes (c # s) = utf8_unit c @ utf8_bytes s"
      by (simp only: utf8_bytes.simps if_not_P [OF False])
    have l: "0 < length (utf8_unit c)" by (simp add: utf8_unit_def Let_def)
    have r: "utf8_read_char buf p ci = (p + length (utf8_unit c), chunk_put ci (unat c))"
      using 2(3) unfolding utf8_bytes.simps if_not_P [OF False]
      by (intro read_unit [of _ _ _ "utf8_bytes s @ post"]) simp
    have k: "decoded (fst st) (snd st) = decoded parts ci @ [c]" "chunk_safe (snd st) s"
      using step_unit [of ci c s parts] 2(4) False by (simp_all add: st_def)
    have "drop p buf = utf8_unit c @ utf8_bytes s @ post"
      using 2(3) unfolding utf8_bytes.simps if_not_P [OF False] by simp
    then have "drop (p + length (utf8_unit c)) buf = utf8_bytes s @ post"
      by (simp add: drop_drop [symmetric] add.commute [of p])
    with 2(2) [OF False, of "p + length (utf8_unit c)" "snd st" "fst st"] k
    have "utf8_read_loop buf (p + length (utf8_unit c)) (p + length (utf8_unit c) + length (utf8_bytes s))
            (fst st) (snd st) = decoded parts ci @ c # s" by simp
    then show ?thesis
      using l unfolding b by (subst utf8_read_loop.simps)
        (simp add: r st_def [symmetric] case_prod_beta add.assoc)
  qed
qed

definition utf8_safe :: "jsstring \<Rightarrow> bool" where
  "utf8_safe s \<longleftrightarrow> length s \<le> 16384 \<or> no_pair s"

lemma utf8_read_bytes:
  assumes "drop p buf = utf8_bytes s @ post" "utf8_safe s"
  shows "utf8_read buf p (p + length (utf8_bytes s)) = s"
proof (cases s)
  case Nil
  then show ?thesis by (simp add: utf8_read_def)
next
  case (Cons c s')
  have "0 < length (utf8_bytes s)"
    by (simp add: Cons utf8_unit_def utf8_pair_def Let_def)
  moreover have "chunk_safe ([], 0) s" using assms(2) by (auto simp: chunk_safe_def utf8_safe_def)
  ultimately show ?thesis
    using utf8_read_loop_bytes [OF assms(1), of "([], 0)" None]
    by (simp add: utf8_read_def decoded_def)
qed

section \<open>Properties\<close>

text \<open>C19: \<open>utf8.write\<close> stores exactly as many bytes as \<open>utf8.length\<close> promises, touches nothing else
  of the buffer, and \<open>utf8.read\<close> of that range gives the string back, lone surrogates included,
  for every string of at most 16384 code units and for longer ones without surrogate pairs.\<close>

lemma utf8_roundtrip:
  assumes "off + utf8_length s \<le> length buf" "utf8_safe s"
  shows "utf8_write s buf off = (put buf off (utf8_bytes s), utf8_length s)
         \<and> take off (put buf off (utf8_bytes s)) = take off buf
         \<and> drop (off + utf8_length s) (put buf off (utf8_bytes s)) = drop (off + utf8_length s) buf
         \<and> utf8_read (fst (utf8_write s buf off)) off (off + utf8_length s) = s"
proof -
  have p: "put buf off (utf8_bytes s) = take off buf @ utf8_bytes s @ drop (off + length (utf8_bytes s)) buf"
    using assms(1) by (simp add: put_eq utf8_length_bytes)
  have "drop off (put buf off (utf8_bytes s)) = utf8_bytes s @ drop (off + length (utf8_bytes s)) buf"
    using assms(1) by (simp add: p)
  from utf8_read_bytes [OF this assms(2)] show ?thesis
    using assms(1) by (simp add: utf8_write_put utf8_length_bytes p)
qed

lemma utf8_roundtrip_witness:
  "utf8_read (fst (utf8_write [0x48, 0xE9, 0xD83D, 0xDE00, 0xDC00] (replicate 12 0) 1)) 1 11
   = [0x48, 0xE9, 0xD83D, 0xDE00, 0xDC00]"
proof -
  have l: "utf8_length [0x48, 0xE9, 0xD83D, 0xDE00, 0xDC00] = 10"
    by (simp add: is_high_iff next_low_Cons)
  have "1 + utf8_length [0x48, 0xE9, 0xD83D, 0xDE00, 0xDC00] \<le> length (replicate 12 (0 :: u8))"
    by (simp only: l) simp
  from utf8_roundtrip [OF this, THEN conjunct2, THEN conjunct2, THEN conjunct2] show ?thesis
    by (simp add: utf8_safe_def l del: utf8_bytes.simps utf8_length.simps)
qed

text \<open>
  The reused chunk: when a surrogate pair makes one chunk 8193 entries long, the next flush at
  8192 entries passes the whole array to \<open>fromCharCode\<close> and appends the stale last entry.
\<close>

definition no_high :: "jsstring \<Rightarrow> bool" where
  "no_high s \<longleftrightarrow> list_all (\<lambda>c. \<not> is_high c) s"

lemma utf8_bytes_no_high:
  "no_high s \<Longrightarrow> utf8_bytes (s @ t) = utf8_bytes s @ utf8_bytes t \<and> (s \<noteq> [] \<longrightarrow> utf8_bytes s = utf8_unit (hd s) @ utf8_bytes (tl s))"
  by (induction s) (auto simp: no_high_def)

lemma read_run:
  assumes "no_high s" "drop p buf = utf8_bytes s @ post" "i + length s \<le> 8191" "p + length (utf8_bytes s) \<le> e"
    "i \<le> length chunk"
  shows "utf8_read_loop buf p e parts (chunk, i)
    = utf8_read_loop buf (p + length (utf8_bytes s)) e parts (take i chunk @ s @ drop (i + length s) chunk, i + length s)"
  using assms
proof (induction s arbitrary: p i chunk)
  case (Cons c s)
  have h: "\<not> is_high c" "no_high s" using Cons.prems(1) by (simp_all add: no_high_def)
  then have b: "utf8_bytes (c # s) = utf8_unit c @ utf8_bytes s" by simp
  have l: "0 < length (utf8_unit c)" by (simp add: utf8_unit_def Let_def)
  have d: "drop p buf = utf8_unit c @ utf8_bytes s @ post" using Cons.prems(2) unfolding b by simp
  then have d': "drop (p + length (utf8_unit c)) buf = utf8_bytes s @ post"
    by (simp add: drop_drop [symmetric] add.commute [of p])
  have r: "utf8_read_char buf p (chunk, i)
      = (p + length (utf8_unit c), take i chunk @ c # drop (Suc i) chunk, Suc i)"
    using read_unit [OF d, of "(chunk, i)"] Cons.prems(5) by (auto simp: chunk_put_def upd_conv_take_nth_drop)
  have "p < e" using Cons.prems(4) l unfolding b length_append by linarith
  then have "utf8_read_loop buf p e parts (chunk, i)
      = utf8_read_loop buf (p + length (utf8_unit c)) e parts (take i chunk @ c # drop (Suc i) chunk, Suc i)"
    using Cons.prems(3) by (subst utf8_read_loop.simps) (simp add: r utf8_flush_def)
  also have "\<dots> = utf8_read_loop buf (p + length (utf8_bytes (c # s))) e parts
      (take i chunk @ (c # s) @ drop (i + length (c # s)) chunk, i + length (c # s))"
    using Cons.IH [OF h(2) d', of "Suc i" "take i chunk @ c # drop (Suc i) chunk"] Cons.prems(3-5) h(1)
    unfolding b by (simp add: add.commute add.left_commute)
  finally show ?case .
qed simp

text \<open>C36: the reused chunk leaks: when the first 8191 code units and the 8192 after the next two are no high surrogates
  and those two are a surrogate pair, reading back what was written repeats the low surrogate of the pair behind the 8192
  units; the rest of the string, of at most 8191 units, follows.\<close>

lemma utf8_read_stale_chunk:
  assumes "length s = 8191" "no_high s" "is_high c" "next_low [d]" "length t = 8192" "no_high t" "length u \<le> 8191"
  shows "utf8_read (utf8_bytes (s @ c # d # t @ u)) 0 (utf8_length (s @ c # d # t @ u)) = s @ c # d # t @ d # u"
proof -
  define buf where "buf = utf8_bytes (s @ c # d # t @ u)"
  obtain t' b where t: "t = t' @ [b]" using assms(5) by (cases t rule: rev_cases) auto
  have t': "length t' = 8191" "no_high t'" "\<not> is_high b" using assms(5,6) by (simp_all add: t no_high_def)
  have b: "utf8_bytes (b # u) = utf8_unit b @ utf8_bytes u" using t'(3) by simp
  have p: "utf8_bytes (c # d # x) = utf8_pair c d @ utf8_bytes x" for x
    using assms(3,4) by (simp add: next_low_def)
  have lP: "length (utf8_pair c d) = 4" by (simp add: utf8_pair_def Let_def)
  define n where "n = length (utf8_bytes s)"
  define m where "m = length (utf8_bytes t')"
  define e where "e = n + 4 + m + length (utf8_unit b) + length (utf8_bytes u)"
  have buf: "buf = utf8_bytes s @ utf8_pair c d @ utf8_bytes t' @ utf8_unit b @ utf8_bytes u"
    using utf8_bytes_no_high [OF assms(2)] utf8_bytes_no_high [OF t'(2)] by (simp only: buf_def t p b append_assoc append.simps)
  have ends: "drop (n + k) buf = drop k (utf8_pair c d @ utf8_bytes t' @ utf8_unit b @ utf8_bytes u)" for k
    by (simp add: buf n_def)
  have total: "utf8_length (s @ c # d # t @ u) = e"
    unfolding utf8_length_bytes buf_def [symmetric] by (simp add: buf e_def n_def m_def lP)
  have lb: "0 < length (utf8_unit b)" by (simp add: utf8_unit_def Let_def)
  have "utf8_read buf 0 e = utf8_read_loop buf 0 e None ([], 0)" using lb by (simp add: utf8_read_def e_def)
  also have "\<dots> = utf8_read_loop buf n e None (s, 8191)"
    using read_run [of s 0 buf "utf8_pair c d @ utf8_bytes t' @ utf8_unit b @ utf8_bytes u" 0 e "[]" None] assms(1,2)
    by (simp add: buf n_def e_def)
  also have "\<dots> = utf8_read_loop buf (n + 4) e (Some (s @ [c, d])) (s @ [c, d], 0)"
  proof -
    have "utf8_read_char buf n (s, 8191) = (n + 4, s @ [c, d], 8193)"
      using read_pair [of n buf c d "utf8_bytes t' @ utf8_unit b @ utf8_bytes u" "[]" "(s, 8191)"] ends [of 0] assms(1,3,4)
      by (simp add: chunk_put_def)
    then show ?thesis by (subst utf8_read_loop.simps) (simp add: utf8_flush_def e_def)
  qed
  also have "\<dots> = utf8_read_loop buf (n + 4 + m) e (Some (s @ [c, d])) (t' @ [c, d], 8191)"
    using read_run [of t' "n + 4" buf "utf8_unit b @ utf8_bytes u" 0 e "s @ [c, d]" "Some (s @ [c, d])"] ends [of 4]
      assms(1) t'(1,2) lP by (simp add: m_def e_def)
  also have "\<dots> = utf8_read_loop buf (n + 4 + m + length (utf8_unit b)) e (Some (s @ c # d # t @ [d])) (t @ [d], 0)"
  proof -
    have "drop (n + 4 + m) buf = utf8_unit b @ utf8_bytes u" using ends [of "4 + m"] lP by (simp add: m_def add.assoc)
    from read_unit [OF this, of "(t' @ [c, d], 8191)"]
    have "utf8_read_char buf (n + 4 + m) (t' @ [c, d], 8191) = (n + 4 + m + length (utf8_unit b), t @ [d], 8192)"
      using t'(1) by (simp add: chunk_put_def list_update_append t)
    then show ?thesis using lb by (subst utf8_read_loop.simps) (simp add: utf8_flush_def e_def)
  qed
  also have "\<dots> = s @ c # d # t @ d # u"
  proof -
    have "drop (n + 4 + m + length (utf8_unit b)) buf = utf8_bytes u"
      using ends [of "4 + m + length (utf8_unit b)"] lP by (simp add: m_def add.assoc)
    then show ?thesis
      using utf8_read_loop_bytes [of "n + 4 + m + length (utf8_unit b)" buf u "[]" "(t @ [d], 0)" "Some (s @ c # d # t @ [d])"] assms(7)
      by (simp add: e_def chunk_safe_def decoded_def)
  qed
  finally show ?thesis by (simp add: total buf_def)
qed

lemma utf8_read_stale_chunk_witness:
  "utf8_read (utf8_bytes (replicate 8191 0x61 @ 0xD83D # 0xDE00 # replicate 8192 0x62 @ [0x63])) 0
     (utf8_length (replicate 8191 0x61 @ 0xD83D # 0xDE00 # replicate 8192 0x62 @ [0x63]))
   = replicate 8191 0x61 @ 0xD83D # 0xDE00 # replicate 8192 0x62 @ 0xDE00 # [0x63]"
  by (rule utf8_read_stale_chunk) (simp_all add: no_high_def list_all_iff is_high_iff next_low_Cons)

end
