(* ===== verification/Base64.thy ===== *)
theory Base64
  imports Bytes Complex_Main
begin

text \<open>
  The base64 module of protobuf.js: the two tables, the decoded length of a string (a number
  that need not be an integer, hence a \<open>rat\<close>), encoding a byte range, decoding into a buffer and
  the syntactic test. The encoder and the decoder are the state machines of the source, with the
  goto index \<open>j\<close> and the carried bits \<open>t\<close>.
\<close>

unbundle bit_operations_syntax

section \<open>Tables\<close>

definition b64 :: "nat \<Rightarrow> nat" where
  "b64 i = (if i < 26 then i + 65 else if i < 52 then i + 71 else if i < 62 then i - 4 else (i - 59) OR 43)"

definition s64 :: "nat \<Rightarrow> nat option" where
  "s64 c = map_of (map (\<lambda>i. (b64 i, i)) [0..<64]) c"

section \<open>Operations\<close>

text \<open>The loop \<open>while (--p % 4 > 1 && string.charAt(p) === "=") ++n\<close>, entered with \<open>p > 0\<close>.\<close>

fun base64_padding :: "jsstring \<Rightarrow> nat \<Rightarrow> nat" where
  "base64_padding s 0 = 0"
| "base64_padding s (Suc p) =
     (if p mod 4 > 1 \<and> p < length s \<and> unat (s ! p) = 61 then Suc (base64_padding s p) else 0)"

definition base64_length :: "jsstring \<Rightarrow> rat" where
  "base64_length s =
     (if length s = 0 then 0
      else of_nat (length s * 3) / 4 - of_nat (base64_padding s (length s)))"

fun base64_encode_loop :: "nat list \<Rightarrow> nat \<Rightarrow> nat \<Rightarrow> nat list \<Rightarrow> nat list" where
  "base64_encode_loop [] j t acc =
     (if j \<noteq> 0 then acc @ [b64 t, 61] @ (if j = 1 then [61] else []) else acc)"
| "base64_encode_loop (b # bs) j t acc =
     (if j = 0 then base64_encode_loop bs 1 (push_bit 4 (b AND 3)) (acc @ [b64 (drop_bit 2 b)])
      else if j = 1 then base64_encode_loop bs 2 (push_bit 2 (b AND 15)) (acc @ [b64 (t OR drop_bit 4 b)])
      else base64_encode_loop bs 0 t (acc @ [b64 (t OR drop_bit 6 b), b64 (b AND 63)]))"

definition base64_encode :: "u8 list \<Rightarrow> nat \<Rightarrow> nat \<Rightarrow> jsstring" where
  "base64_encode buf start end' =
     map of_nat (base64_encode_loop (map (octet buf) [start..<end']) 0 0 [])"

text \<open>The buffer is written even when decoding fails later; the result carries it in both cases.\<close>

fun base64_decode_loop :: "jsstring \<Rightarrow> nat \<Rightarrow> nat \<Rightarrow> u8 list \<Rightarrow> nat \<Rightarrow> u8 list \<times> (nat \<times> nat) res" where
  "base64_decode_loop [] j t buf off = (buf, Inr (j, off))"
| "base64_decode_loop (ch # s) j t buf off =
     (if unat ch = 61 \<and> j > 1 then (buf, Inr (j, off))
      else case s64 (unat ch) of
        None \<Rightarrow> (buf, Inl InvalidEncoding)
      | Some c \<Rightarrow>
          if j = 0 then base64_decode_loop s 1 c buf off
          else if j = 1 then
            base64_decode_loop s 2 c (buf[off := byte_of (push_bit 2 t OR drop_bit 4 (c AND 48))]) (off + 1)
          else if j = 2 then
            base64_decode_loop s 3 c
              (buf[off := byte_of (push_bit 4 (t AND 15) OR drop_bit 2 (c AND 60))]) (off + 1)
          else
            base64_decode_loop s 0 t (buf[off := byte_of (push_bit 6 (t AND 3) OR c)]) (off + 1))"

definition base64_decode :: "jsstring \<Rightarrow> u8 list \<Rightarrow> nat \<Rightarrow> u8 list \<times> nat res" where
  "base64_decode s buf off =
     (case base64_decode_loop s 0 0 buf off of
        (buf', Inl e) \<Rightarrow> (buf', Inl e)
      | (buf', Inr (j, off')) \<Rightarrow> (buf', if j = 1 then Inl InvalidEncoding else Inr (off' - off)))"

text \<open>The regular expression of \<open>base64.test\<close>: quartets of the alphabet, the last one padded.\<close>

definition b64_char :: "u16 \<Rightarrow> bool" where
  "b64_char c \<longleftrightarrow>
     65 \<le> unat c \<and> unat c \<le> 90 \<or> 97 \<le> unat c \<and> unat c \<le> 122 \<or> 48 \<le> unat c \<and> unat c \<le> 57
     \<or> unat c = 43 \<or> unat c = 47"

fun base64_test :: "jsstring \<Rightarrow> bool" where
  "base64_test [] \<longleftrightarrow> True"
| "base64_test (a # b # c # d # s) \<longleftrightarrow>
     b64_char a \<and> b64_char b \<and>
     (b64_char c \<and> b64_char d \<and> base64_test s
      \<or> s = [] \<and> (unat c = 61 \<or> b64_char c) \<and> unat d = 61)"
| "base64_test _ \<longleftrightarrow> False"

section \<open>Table facts\<close>

lemma b64_62: "b64 62 = 43" "b64 63 = 47"
  by (simp_all add: b64_def)

lemma b64_cases:
  assumes "i < 64"
  obtains "i < 26" "b64 i = i + 65" | "26 \<le> i" "i < 52" "b64 i = i + 71"
    | "52 \<le> i" "i < 62" "b64 i = i - 4" | "i = 62" "b64 i = 43" | "i = 63" "b64 i = 47"
  using assms b64_62 by (cases "i < 26"; cases "i < 52"; cases "i < 62"; cases "i = 62"; cases "i = 63")
    (auto simp: b64_def)

lemma b64_inj: "i < 64 \<Longrightarrow> k < 64 \<Longrightarrow> b64 i = b64 k \<Longrightarrow> i = k"
  by (erule b64_cases; erule b64_cases) auto

lemma s64_b64: "i < 64 \<Longrightarrow> s64 (b64 i) = Some i"
  unfolding s64_def by (rule map_of_is_SomeI) (auto simp: distinct_map inj_on_def comp_def intro: b64_inj)

lemma s64_SomeD: "s64 c = Some i \<Longrightarrow> i < 64 \<and> b64 i = c"
  unfolding s64_def by (auto dest!: map_of_SomeD)

lemma b64_range: "i < 64 \<Longrightarrow> b64 i < 128 \<and> b64 i \<noteq> 61"
  by (erule b64_cases) auto

lemma b64_char_s64: "b64_char c \<longleftrightarrow> (\<exists>i < 64. s64 (unat c) = Some i)"
proof
  define n where "n = unat c"
  assume "b64_char c"
  then consider "65 \<le> n" "n \<le> 90" | "97 \<le> n" "n \<le> 122" | "48 \<le> n" "n \<le> 57" | "n = 43" | "n = 47"
    by (auto simp: b64_char_def n_def)
  then have "\<exists>i < 64. b64 i = n"
  proof cases
    case 1
    then have "n - 65 < 26" by linarith
    with 1 show ?thesis by (intro exI [of _ "n - 65"]) (simp add: b64_def)
  next
    case 2
    then have "\<not> n - 71 < 26" "n - 71 < 52" by linarith+
    with 2 show ?thesis by (intro exI [of _ "n - 71"]) (simp add: b64_def)
  next
    case 3
    then have "\<not> n + 4 < 52" "n + 4 < 62" by linarith+
    with 3 show ?thesis by (intro exI [of _ "n + 4"]) (simp add: b64_def)
  next
    case 4 then show ?thesis by (intro exI [of _ 62]) (simp add: b64_62)
  next
    case 5 then show ?thesis by (intro exI [of _ 63]) (simp add: b64_62)
  qed
  then have "\<exists>i < 64. b64 i = unat c" by (simp add: n_def)
  then show "\<exists>i < 64. s64 (unat c) = Some i" using s64_b64 by metis
next
  assume "\<exists>i < 64. s64 (unat c) = Some i"
  then obtain i where "i < 64" "b64 i = unat c" by (auto dest: s64_SomeD)
  then show "b64_char c" unfolding b64_char_def
    by (cases rule: b64_cases) auto
qed

section \<open>Groups of three bytes\<close>

text \<open>The four table indices of three bytes, and the three bytes of four indices.\<close>

definition quad :: "nat \<Rightarrow> nat \<Rightarrow> nat \<Rightarrow> nat list" where
  "quad a b c = [a div 4, a mod 4 * 16 + b div 16, b mod 16 * 4 + c div 64, c mod 64]"

lemma enc_bits:
  fixes a b c :: nat
  assumes "a < 256" "b < 256" "c < 256"
  shows "drop_bit 2 a = a div 4" "push_bit 4 (a AND 3) OR drop_bit 4 b = a mod 4 * 16 + b div 16"
    "push_bit 2 (b AND 15) OR drop_bit 6 c = b mod 16 * 4 + c div 64" "c AND 63 = c mod 64"
    "push_bit 4 (a AND 3) = a mod 4 * 16" "push_bit 2 (b AND 15) = b mod 16 * 4"
proof -
  have "b div 16 < 16" "c div 64 < 4" using assms by (simp_all add: div_less_iff_less_mult)
  then show "push_bit 4 (a AND 3) OR drop_bit 4 b = a mod 4 * 16 + b div 16"
    "push_bit 2 (b AND 15) OR drop_bit 6 c = b mod 16 * 4 + c div 64"
    using nat_or_push2 [of "b div 16" 4 "a mod 4"] nat_or_push2 [of "c div 64" 2 "b mod 16"]
    by (simp_all add: and_masks nat_and_mask [of _ 2, simplified] push_bit_eq_mult drop_bit_eq_div)
qed (simp_all add: and_masks nat_and_mask [of _ 2, simplified] push_bit_eq_mult drop_bit_eq_div)

lemma dec_bits:
  fixes i1 i2 i3 i4 :: nat
  assumes "i2 < 64" "i3 < 64" "i4 < 64"
  shows "push_bit 2 i1 OR drop_bit 4 (i2 AND 48) = i1 * 4 + i2 div 16"
    "push_bit 4 (i2 AND 15) OR drop_bit 2 (i3 AND 60) = i2 mod 16 * 16 + i3 div 4"
    "push_bit 6 (i3 AND 3) OR i4 = i3 mod 4 * 64 + i4"
proof -
  have l: "i2 div 16 < 4" "i3 div 4 < 16" using assms by (simp_all add: div_less_iff_less_mult)
  have "i2 AND 48 = i2 div 16 * 16" "i3 AND 60 = i3 div 4 * 4"
    using and_push_bit [of i2 4 3] and_push_bit [of i3 2 15] l
    by (simp_all add: and_masks nat_and_mask [of _ 2, simplified] push_bit_eq_mult drop_bit_eq_div)
  then show "push_bit 2 i1 OR drop_bit 4 (i2 AND 48) = i1 * 4 + i2 div 16"
    "push_bit 4 (i2 AND 15) OR drop_bit 2 (i3 AND 60) = i2 mod 16 * 16 + i3 div 4"
    "push_bit 6 (i3 AND 3) OR i4 = i3 mod 4 * 64 + i4"
    using assms l nat_or_push2 [of "i2 div 16" 2 i1] nat_or_push2 [of "i3 div 4" 4 "i2 mod 16"]
      nat_or_push2 [of i4 6 "i3 mod 4"]
    by (simp_all add: and_masks nat_and_mask [of _ 2, simplified] push_bit_eq_mult drop_bit_eq_div)
qed

lemma quad_lts:
  fixes a b c :: nat
  assumes "a < 256" "b < 256" "c < 256"
  shows "a div 4 < 64" "a mod 4 * 16 + b div 16 < 64" "b mod 16 * 4 + c div 64 < 64" "c mod 64 < 64"
proof -
  have "a div 4 < 64" "b div 16 < 16" "c div 64 < 4" "a mod 4 < 4" "b mod 16 < 16" "c mod 64 < 64"
    using assms by (simp_all add: div_less_iff_less_mult)
  then show "a div 4 < 64" "a mod 4 * 16 + b div 16 < 64" "b mod 16 * 4 + c div 64 < 64" "c mod 64 < 64"
    by linarith+
qed

lemma quad_bytes:
  fixes a b c :: nat
  assumes "a < 256" "b < 256" "c < 256"
  shows "(a div 4) * 4 + (a mod 4 * 16 + b div 16) div 16 = a"
    "(a mod 4 * 16 + b div 16) mod 16 * 16 + (b mod 16 * 4 + c div 64) div 4 = b"
    "(b mod 16 * 4 + c div 64) mod 4 * 64 + c mod 64 = c"
proof -
  have l: "b div 16 < 16" "c div 64 < 4" using assms by (simp_all add: div_less_iff_less_mult)
  show "(a div 4) * 4 + (a mod 4 * 16 + b div 16) div 16 = a" using l by simp
  show "(a mod 4 * 16 + b div 16) mod 16 * 16 + (b mod 16 * 4 + c div 64) div 4 = b" using l by simp
  show "(b mod 16 * 4 + c div 64) mod 4 * 64 + c mod 64 = c" using l by simp
qed

section \<open>Encoding and decoding in groups\<close>

fun b64_groups :: "nat list \<Rightarrow> nat list" where
  "b64_groups [] = []"
| "b64_groups [a] = [b64 (a div 4), b64 (a mod 4 * 16), 61, 61]"
| "b64_groups [a, b] = [b64 (a div 4), b64 (a mod 4 * 16 + b div 16), b64 (b mod 16 * 4), 61]"
| "b64_groups (a # b # c # bs) = map b64 (quad a b c) @ b64_groups bs"

lemma encode_loop_groups:
  "\<forall>b \<in> set bs. b < 256 \<Longrightarrow> base64_encode_loop bs 0 t acc = acc @ b64_groups bs"
proof (induction bs arbitrary: t acc rule: b64_groups.induct)
  case (2 a)
  then show ?case using enc_bits [of a 0 0] by simp
next
  case (3 a b)
  then show ?case using enc_bits [of a b 0] by simp
next
  case (4 a b c bs)
  then show ?case using enc_bits [of a b c] by (simp add: quad_def)
qed simp

lemma unat_b64: "i < 64 \<Longrightarrow> unat (of_nat (b64 i) :: u16) = b64 i"
  using b64_range [of i] by (simp add: unat_of_nat)

lemma decode_step:
  assumes "i < 64"
  shows "base64_decode_loop (of_nat (b64 i) # s) j t buf off =
     (if j = 0 then base64_decode_loop s 1 i buf off
      else if j = 1 then
        base64_decode_loop s 2 i (buf[off := byte_of (push_bit 2 t OR drop_bit 4 (i AND 48))]) (off + 1)
      else if j = 2 then
        base64_decode_loop s 3 i (buf[off := byte_of (push_bit 4 (t AND 15) OR drop_bit 2 (i AND 60))]) (off + 1)
      else base64_decode_loop s 0 t (buf[off := byte_of (push_bit 6 (t AND 3) OR i)]) (off + 1))"
  using assms b64_range [OF assms] by (simp add: unat_b64 s64_b64)

lemma decode_pad: "1 < j \<Longrightarrow> base64_decode_loop (61 # s) j t buf off = (buf, Inr (j, off))"
  by simp

declare base64_decode_loop.simps(2) [simp del]

lemma decode_quad:
  assumes "i1 < 64" "i2 < 64" "i3 < 64" "i4 < 64"
  shows "base64_decode_loop (of_nat (b64 i1) # of_nat (b64 i2) # of_nat (b64 i3) # of_nat (b64 i4) # s) 0 t buf off
    = base64_decode_loop s 0 i3 (put buf off [byte_of (i1 * 4 + i2 div 16), byte_of (i2 mod 16 * 16 + i3 div 4),
        byte_of (i3 mod 4 * 64 + i4)]) (off + 3)"
  using assms by (simp only: decode_step dec_bits) (simp add: off_steps)

lemma decode_three:
  assumes "i1 < 64" "i2 < 64" "i3 < 64"
  shows "base64_decode_loop [of_nat (b64 i1), of_nat (b64 i2), of_nat (b64 i3), 61] 0 t buf off
    = (put buf off [byte_of (i1 * 4 + i2 div 16), byte_of (i2 mod 16 * 16 + i3 div 4)], Inr (3, off + 2))"
  using assms by (simp only: decode_step dec_bits) (simp add: decode_pad off_steps)

lemma decode_two:
  assumes "i1 < 64" "i2 < 64"
  shows "base64_decode_loop [of_nat (b64 i1), of_nat (b64 i2), 61, 61] 0 t buf off
    = (put buf off [byte_of (i1 * 4 + i2 div 16)], Inr (2, off + 1))"
  using assms dec_bits(1) [of i2 0 0 i1]
  by (simp only: decode_step) (simp add: decode_pad off_steps del: drop_bit_and)

lemma decode_groups:
  assumes "\<forall>b \<in> set bs. b < 256"
  shows "\<exists>j. j \<noteq> 1 \<and> base64_decode_loop (map of_nat (b64_groups bs)) 0 t buf off
             = (put buf off (map byte_of bs), Inr (j, off + length bs))"
  using assms
proof (induction bs arbitrary: t buf off rule: b64_groups.induct)
  case (2 a)
  then have l: "a div 4 < 64" "a mod 4 * 16 < 64" using quad_lts [of a 0 0] by (simp_all add: quad_def)
  have m: "map of_nat (b64_groups [a]) = [of_nat (b64 (a div 4)), of_nat (b64 (a mod 4 * 16)), 61, 61]"
    by simp
  show ?case unfolding m decode_two [OF l] using 2 quad_bytes [of a 0 0] by simp
next
  case (3 a b)
  then have l: "a div 4 < 64" "a mod 4 * 16 + b div 16 < 64" "b mod 16 * 4 < 64"
    using quad_lts [of a b 0] by (simp_all add: quad_def)
  have m: "map of_nat (b64_groups [a, b]) = [of_nat (b64 (a div 4)),
      of_nat (b64 (a mod 4 * 16 + b div 16)), of_nat (b64 (b mod 16 * 4)), 61]" by simp
  show ?case unfolding m decode_three [OF l] using 3 quad_bytes [of a b 0] by simp
next
  case (4 a b c bs)
  have lt: "a < 256" "b < 256" "c < 256" using 4(2) by simp_all
  have l: "a div 4 < 64" "a mod 4 * 16 + b div 16 < 64" "b mod 16 * 4 + c div 64 < 64" "c mod 64 < 64"
    by (rule quad_lts [OF lt])+
  have m: "map of_nat (b64_groups (a # b # c # bs)) = of_nat (b64 (a div 4))
      # of_nat (b64 (a mod 4 * 16 + b div 16)) # of_nat (b64 (b mod 16 * 4 + c div 64))
      # of_nat (b64 (c mod 64)) # map of_nat (b64_groups bs)" by (simp add: quad_def)
  obtain j where j: "j \<noteq> 1"
    "base64_decode_loop (map of_nat (b64_groups bs)) 0 (b mod 16 * 4 + c div 64)
       (put buf off [byte_of a, byte_of b, byte_of c]) (off + 3)
     = (put (put buf off [byte_of a, byte_of b, byte_of c]) (off + 3) (map byte_of bs), Inr (j, off + 3 + length bs))"
    using "4.IH" [of "b mod 16 * 4 + c div 64" "put buf off [byte_of a, byte_of b, byte_of c]" "off + 3"] 4(2)
    by auto
  note q = quad_bytes [OF lt]
  show ?case
    unfolding m decode_quad [OF l] q j(2) using j(1)
    by (intro exI [of _ j]) (simp add: off_steps)
qed simp

section \<open>Properties\<close>

lemma octets_range:
  assumes "start \<le> end'" "end' \<le> length buf"
  shows "map (octet buf) [start..<end'] = map unat (take (end' - start) (drop start buf))"
  using assms by (intro nth_equalityI) (auto simp: octet_def)

lemma base64_encode_groups:
  "base64_encode buf start end' = map of_nat (b64_groups (map (octet buf) [start..<end']))"
  by (simp add: base64_encode_def encode_loop_groups octet_lt)

lemma decode_encoded:
  assumes "start \<le> end'" "end' \<le> length src"
  shows "base64_decode (base64_encode src start end') buf off
         = (put buf off (take (end' - start) (drop start src)), Inr (end' - start))"
proof -
  let ?bs = "map (octet src) [start..<end']"
  obtain j where "j \<noteq> 1" "base64_decode_loop (map of_nat (b64_groups ?bs)) 0 0 buf off
      = (put buf off (map byte_of ?bs), Inr (j, off + length ?bs))"
    using decode_groups [of ?bs 0 buf off] by (auto simp: octet_lt)
  moreover have "map byte_of ?bs = take (end' - start) (drop start src)"
    unfolding octets_range [OF assms] by (simp add: comp_def)
  ultimately show ?thesis by (simp add: base64_decode_def base64_encode_groups)
qed

text \<open>C20: decoding what \<open>encode\<close> made of a byte range stores exactly those bytes at the offset and
  returns their number.\<close>

lemma base64_roundtrip:
  assumes "start \<le> end'" "end' \<le> length src"
  shows "base64_decode (base64_encode src start end') buf off
         = (put buf off (take (end' - start) (drop start src)), Inr (end' - start))"
  by (rule decode_encoded [OF assms])

lemma base64_roundtrip_witness:
  "base64_decode (base64_encode [1, 0xFF, 0x80, 7] 0 4) (replicate 4 0) 0 = ([1, 0xFF, 0x80, 7], Inr 4)"
  using base64_roundtrip [of 0 4 "[1, 0xFF, 0x80, 7]" "replicate 4 0" 0]
    put_all [of "[1, 0xFF, 0x80, 7]" "replicate 4 0"] by (simp del: put.simps)

lemma b64_char_b64: "i < 64 \<Longrightarrow> b64_char (of_nat (b64 i))"
  by (auto simp: b64_char_s64 unat_b64 s64_b64)

lemma unat_61: "unat (61 :: u16) = 61"
  by simp

lemma b64_groups_test: "\<forall>b \<in> set bs. b < 256 \<Longrightarrow> base64_test (map of_nat (b64_groups bs))"
proof (induction bs rule: b64_groups.induct)
  case (2 a)
  then show ?case using quad_lts [of a 0 0] by (simp add: quad_def b64_char_b64)
next
  case (3 a b)
  then show ?case using quad_lts [of a b 0] by (simp add: quad_def b64_char_b64)
next
  case (4 a b c bs)
  have lt: "a < 256" "b < 256" "c < 256" using 4(2) by simp_all
  have "base64_test (map of_nat (b64_groups bs))" using 4 by simp
  then show ?case using quad_lts [OF lt] by (simp add: quad_def b64_char_b64)
qed simp

lemma b64_charE:
  assumes "b64_char c"
  obtains i where "i < 64" "c = of_nat (b64 i)"
  using assms s64_SomeD [of "unat c"] by (force simp: b64_char_s64)

lemma padding_char: "b64_char c \<Longrightarrow> unat c \<noteq> 61"
  by (auto simp: b64_char_def)

text \<open>The padding of a well-formed string, counted in its last quartet.\<close>

fun b64_pads :: "jsstring \<Rightarrow> nat" where
  "b64_pads (a # b # c # d # s) =
     (if s = [] then (if unat d = 61 then if unat c = 61 then 2 else 1 else 0) else b64_pads s)"
| "b64_pads _ = 0"

lemma padding_closed:
  assumes "length s = 4 * q + 4"
  shows "base64_padding s (length s) =
    (if unat (s ! (4 * q + 3)) = 61 then if unat (s ! (4 * q + 2)) = 61 then 2 else 1 else 0)"
proof -
  have l: "length s = Suc (Suc (Suc (4 * q + 1)))" using assms by simp
  have m: "Suc (Suc (4 * q + 1)) mod 4 = 3" "Suc (4 * q + 1) mod 4 = 2" "(4 * q + 1) mod 4 = 1"
    by presburger+
  have z: "base64_padding s (Suc (4 * q)) = 0"
  proof -
    have "4 * q mod 4 = 0" by simp
    then show ?thesis by (simp only: base64_padding.simps) simp
  qed
  have n: "s ! Suc (Suc (4 * q + 1)) = s ! (4 * q + 3)" "s ! Suc (4 * q + 1) = s ! (4 * q + 2)"
    by (simp_all add: numeral_eq_Suc)
  have "base64_padding s (Suc (Suc (Suc (4 * q + 1)))) =
    (if unat (s ! (4 * q + 3)) = 61 then if unat (s ! (4 * q + 2)) = 61 then 2 else 1 else 0)"
    unfolding base64_padding.simps(2) [of s "Suc (Suc (4 * q + 1))"] m
      base64_padding.simps(2) [of s "Suc (4 * q + 1)"] base64_padding.simps(2) [of s "4 * q + 1"]
    using assms z unfolding n by simp
  then show ?thesis unfolding l .
qed

lemma length_4E:
  assumes "length s = 4 * q + 4"
  obtains a b c d s' where "s = a # b # c # d # s'" "length s' = 4 * q"
proof -
  obtain a s1 where 1: "s = a # s1" using assms by (cases s) auto
  with assms obtain b s2 where 2: "s1 = b # s2" by (cases s1) auto
  with assms 1 obtain c s3 where 3: "s2 = c # s3" by (cases s2) auto
  with assms 1 2 obtain d s4 where 4: "s3 = d # s4" by (cases s3) auto
  show ?thesis using that [of a b c d s4] assms 1 2 3 4 by simp
qed

lemma padding_pads: "length s = 4 * q + 4 \<Longrightarrow> base64_padding s (length s) = b64_pads s"
proof (induction q arbitrary: s)
  case 0
  obtain a b c d s' where s: "s = a # b # c # d # s'" "length s' = 4 * 0" using 0 by (rule length_4E)
  have "base64_padding s (length s) =
    (if unat (s ! 3) = 61 then if unat (s ! 2) = 61 then 2 else 1 else 0)"
    using padding_closed [OF 0] by (simp only: mult_0_right add_0)
  moreover have "s ! 3 = d" "s ! 2 = c" using s(1) by (simp_all add: numeral_3_eq_3 numeral_2_eq_2)
  ultimately show ?case using s by simp
next
  case (Suc q)
  obtain a b c d s' where s1: "s = a # b # c # d # s'" "length s' = 4 * Suc q"
    using Suc.prems by (rule length_4E)
  then have s: "s = a # b # c # d # s'" "length s' = 4 * q + 4" by simp_all
  have "s ! (4 * Suc q + 3) = s' ! (4 * q + 3)" "s ! (4 * Suc q + 2) = s' ! (4 * q + 2)"
    by (simp_all add: s(1) numeral_eq_Suc)
  then have "base64_padding s (length s) = base64_padding s' (length s')"
    using padding_closed [OF Suc.prems] padding_closed [OF s(2)] by simp
  with Suc.IH [OF s(2)] s show ?case by auto
qed

lemma test_length4: "base64_test s \<Longrightarrow> s \<noteq> [] \<Longrightarrow> \<exists>q. length s = 4 * q + 4"
proof (induction s rule: base64_test.induct)
  case (2 a b c d s)
  then show ?case by (cases "s = []") (force, auto intro: exI [of _ "Suc _"])
qed auto

lemma b64_pads_le: "b64_pads s \<le> 2"
  by (induction s rule: b64_pads.induct) auto

definition b64_size :: "jsstring \<Rightarrow> nat" where
  "b64_size s = 3 * (length s div 4) - b64_pads s"

lemma base64_length_test:
  assumes "base64_test s"
  shows "base64_length s = of_nat (b64_size s)"
proof (cases "s = []")
  case False
  then obtain q where q: "length s = 4 * q + 4" using test_length4 [OF assms] by blast
  have "of_nat (length s * 3) / 4 = (of_nat (3 * (q + 1)) :: rat)" by (simp add: q)
  moreover have "b64_pads s \<le> 3 * (q + 1)" using b64_pads_le [of s] by simp
  moreover have "length s div 4 = q + 1" by (simp add: q)
  ultimately show ?thesis
    using False padding_pads [OF q] by (simp add: base64_length_def b64_size_def of_nat_diff)
qed (simp add: base64_length_def b64_size_def)

lemma b64_size_Cons4:
  assumes "base64_test s" "s \<noteq> []"
  shows "b64_size (a # b # c # d # s) = 3 + b64_size s"
proof -
  obtain q where q: "length s = 4 * q + 4" using test_length4 [OF assms] by blast
  then show ?thesis using b64_pads_le [of s] assms(2) by (simp add: b64_size_def)
qed

lemma test_decode:
  assumes "base64_test s"
  shows "\<exists>j buf'. j \<noteq> 1 \<and> length buf' = length buf
           \<and> base64_decode_loop s 0 t buf off = (buf', Inr (j, off + b64_size s))"
  using assms
proof (induction s arbitrary: t buf off rule: base64_test.induct)
  case 1
  then show ?case by (simp add: b64_size_def)
next
  case (2 a b c d s)
  then obtain i1 i2 where i: "i1 < 64" "a = of_nat (b64 i1)" "i2 < 64" "b = of_nat (b64 i2)"
    by (auto elim!: b64_charE)
  have pad: "x = 61" if "unat x = 61" for x :: u16 using that unat_61 by (simp add: word_unat_eq_iff)
  consider "b64_char c" "b64_char d" "base64_test s" | "s = []" "c = 61" "d = 61"
    | "s = []" "b64_char c" "d = 61" using 2(2) pad by auto
  then show ?case
  proof cases
    case 1
    then obtain i3 i4 where k: "i3 < 64" "c = of_nat (b64 i3)" "i4 < 64" "d = of_nat (b64 i4)"
      by (auto elim!: b64_charE)
    define buf1 where "buf1 = put buf off [byte_of (i1 * 4 + i2 div 16), byte_of (i2 mod 16 * 16 + i3 div 4),
        byte_of (i3 mod 4 * 64 + i4)]"
    obtain j buf' where j: "j \<noteq> 1" "length buf' = length buf1"
      "base64_decode_loop s 0 i3 buf1 (off + 3) = (buf', Inr (j, off + 3 + b64_size s))"
      using 2(1) [OF 1(3)] by blast
    have l: "length buf1 = length buf" by (simp add: buf1_def del: put.simps)
    have e: "base64_decode_loop (a # b # c # d # s) 0 t buf off = (buf', Inr (j, off + 3 + b64_size s))"
      unfolding i(2, 4) k(2, 4) decode_quad [OF i(1, 3) k(1, 3)] buf1_def [symmetric] by (rule j(3))
    have "b64_size (a # b # c # d # s) = 3 + b64_size s"
    proof (cases "s = []")
      case True
      then show ?thesis using padding_char [OF 1(2)] by (simp add: b64_size_def)
    next
      case False
      then show ?thesis by (rule b64_size_Cons4 [OF 1(3)])
    qed
    then show ?thesis using j(1, 2) l e by (intro exI [of _ j] exI [of _ buf']) (simp add: add.assoc)
  next
    case 2
    then show ?thesis
      using decode_two [OF i(1, 3), of t buf off] by (simp add: i(2, 4) b64_size_def)
  next
    case 3
    then obtain i3 where k: "i3 < 64" "c = of_nat (b64 i3)" by (auto elim!: b64_charE)
    then show ?thesis
      using 3 padding_char [OF 3(2)] decode_three [OF i(1, 3) k(1), of t buf off]
      by (simp add: i(2, 4) b64_size_def)
  qed
qed auto

lemma encoded_length:
  assumes "start \<le> end'" "end' \<le> length src"
  shows "base64_length (base64_encode src start end') = of_nat (end' - start)"
proof -
  have t: "base64_test (base64_encode src start end')"
    by (simp add: base64_encode_groups b64_groups_test octet_lt)
  from test_decode [OF t, of "[]" 0 0] base64_length_test [OF t] decode_encoded [OF assms, of "[]" 0] show ?thesis
    by (auto simp: base64_decode_def)
qed

text \<open>C34: \<open>encode\<close> only produces strings that \<open>test\<close> accepts, and for every accepted string
  \<open>length\<close> is the number of bytes that \<open>decode\<close> stores; decoding it never fails.\<close>

lemma base64_test_decodes:
  "base64_test (base64_encode src start end')
   \<and> (base64_test s \<longrightarrow>
        (\<exists>buf' n. base64_decode s buf off = (buf', Inr n) \<and> length buf' = length buf
           \<and> base64_length s = of_nat n))"
proof -
  have "base64_test (base64_encode src start end')"
    by (simp add: base64_encode_groups b64_groups_test octet_lt)
  moreover have "\<exists>buf' n. base64_decode s buf off = (buf', Inr n) \<and> length buf' = length buf
           \<and> base64_length s = of_nat n" if "base64_test s"
    using test_decode [OF that, of buf 0 off] base64_length_test [OF that]
    by (auto simp: base64_decode_def)
  ultimately show ?thesis by blast
qed

lemma base64_test_decodes_witness:
  "\<exists>buf' n. base64_decode [65, 81, 61, 61] [0] 0 = (buf', Inr n) \<and> length buf' = length [0 :: u8]
     \<and> base64_length [65, 81, 61, 61] = of_nat n"
  using base64_test_decodes [of "[]" 0 0 "[65, 81, 61, 61]" "[0]" 0] by (simp add: b64_char_def)

text \<open>The misplaced parenthesis of \<open>length\<close>: the two characters \<open>"AQ"\<close>, which \<open>decode\<close>
  accepts as one byte, have the length 1.5.\<close>

lemma base64_length_fraction:
  "base64_length [65, 81] = 3 / 2 \<and> base64_decode [65, 81] [0] 0 = ([1], Inr 1)"
proof -
  have p: "base64_padding [65, 81] 2 = 0" by (simp add: numeral_2_eq_2)
  have "base64_decode_loop [of_nat (b64 0), of_nat (b64 16)] 0 0 [0] 0 = ([1], Inr (2, 1))"
    using dec_bits(1) [of 16 0 0 0] by (simp only: decode_step) (simp add: byte_of_def)
  then have "base64_decode_loop [65, 81] 0 0 [0] 0 = ([1], Inr (2, 1))" by (simp add: b64_def)
  with p show ?thesis by (simp add: base64_length_def base64_decode_def)
qed

end
