(* ===== verification/Float.thy ===== *)
theory Float
  imports Bytes
begin

text \<open>
  The float module of protobuf.js where typed arrays exist: a number is copied through a
  \<open>Float32Array\<close> or \<open>Float64Array\<close> of one element whose bytes are seen through a \<open>Uint8Array\<close>.
  A floating-point value is modelled by its IEEE bit pattern, and the byte order of the platform,
  which the source detects with the sign byte of \<open>-0\<close>, is the argument \<open>little\<close> of the views.
  The helpers \<open>writeUintLE\<close> and \<open>readUintLE\<close> (and their big-endian twins) are here too.
\<close>

unbundle bit_operations_syntax

section \<open>Words and their bytes\<close>

definition bytes_of :: "nat \<Rightarrow> 'a::len word \<Rightarrow> u8 list" where
  "bytes_of k w = map (\<lambda>i. ucast (drop_bit (8 * i) w)) [0..<k]"

fun of_bytes :: "u8 list \<Rightarrow> 'a::len word" where
  "of_bytes [] = 0"
| "of_bytes (b # bs) = ucast b OR push_bit 8 (of_bytes bs)"

lemma length_bytes_of [simp]: "length (bytes_of k w) = k"
  by (simp add: bytes_of_def)

lemma bit_of_bytes:
  "bit (of_bytes bs :: 'a::len word) n
   \<longleftrightarrow> n < LENGTH('a) \<and> n div 8 < length bs \<and> bit (bs ! (n div 8)) (n mod 8)"
proof (induction bs arbitrary: n)
  case (Cons b bs)
  show ?case
  proof (cases "n < 8")
    case True
    then show ?thesis
      by (auto simp: bit_or_iff bit_push_bit_iff bit_ucast_iff dest: bit_imp_le_length)
  next
    case False
    then have "\<not> bit b n" by (auto dest: bit_imp_le_length)
    moreover have "n div 8 = Suc ((n - 8) div 8)" "n mod 8 = (n - 8) mod 8"
      using False by (simp_all add: le_div_geq le_mod_geq)
    ultimately show ?thesis
      using False Cons.IH [of "n - 8"] by (auto simp: bit_or_iff bit_push_bit_iff bit_ucast_iff)
  qed
qed simp

lemma bytes_of_4: "bytes_of 4 w = [ucast w, ucast (drop_bit 8 w), ucast (drop_bit 16 w), ucast (drop_bit 24 w)]"
  by (simp add: bytes_of_def upt_rec)

lemma bytes_of_8: "bytes_of 8 w = [ucast w, ucast (drop_bit 8 w), ucast (drop_bit 16 w), ucast (drop_bit 24 w),
     ucast (drop_bit 32 w), ucast (drop_bit 40 w), ucast (drop_bit 48 w), ucast (drop_bit 56 w)]"
  by (simp add: bytes_of_def upt_rec)

lemma of_bytes_of:
  fixes w :: "'a::len word"
  assumes "LENGTH('a) \<le> 8 * k"
  shows "of_bytes (bytes_of k w) = w"
proof (rule bit_word_eqI)
  fix n assume n: "n < LENGTH('a)"
  then have "n div 8 < k" using assms by (simp add: div_less_iff_less_mult mult.commute)
  then show "bit (of_bytes (bytes_of k w) :: 'a word) n = bit w n"
    using n by (simp add: bit_of_bytes bytes_of_def bit_ucast_iff bit_drop_bit_eq del: of_bytes.simps)
qed

lemma bytes_of_of_bytes:
  assumes "length bs = k" "8 * k \<le> LENGTH('a)"
  shows "bytes_of k (of_bytes bs :: 'a::len word) = bs"
proof (rule nth_equalityI)
  fix i assume "i < length (bytes_of k (of_bytes bs :: 'a word))"
  then have i: "i < k" by simp
  have "bit (ucast (drop_bit (8 * i) (of_bytes bs :: 'a word)) :: u8) n = bit (bs ! i) n" if "n < 8" for n
  proof -
    have "8 * i + n < LENGTH('a)" "(8 * i + n) div 8 = i" "(8 * i + n) mod 8 = n" using i assms(2) that by auto
    then show ?thesis using i that assms(1)
      by (simp add: bit_ucast_iff bit_drop_bit_eq bit_of_bytes del: of_bytes.simps)
  qed
  then show "bytes_of k (of_bytes bs :: 'a word) ! i = bs ! i"
    using i by (simp add: bytes_of_def bit_eq_iff bit_imp_le_length)
qed (use assms in simp)

section \<open>Unsigned helpers\<close>

definition write_uint_le :: "u32 \<Rightarrow> u8 list \<Rightarrow> nat \<Rightarrow> u8 list" where
  "write_uint_le val buf pos =
     buf[pos := ucast (val AND 255), pos + 1 := ucast (drop_bit 8 val AND 255),
         pos + 2 := ucast (drop_bit 16 val AND 255), pos + 3 := ucast (drop_bit 24 val)]"

definition write_uint_be :: "u32 \<Rightarrow> u8 list \<Rightarrow> nat \<Rightarrow> u8 list" where
  "write_uint_be val buf pos =
     buf[pos := ucast (drop_bit 24 val), pos + 1 := ucast (drop_bit 16 val AND 255),
         pos + 2 := ucast (drop_bit 8 val AND 255), pos + 3 := ucast (val AND 255)]"

text \<open>An element as a 32-bit operand.\<close>

definition octet32 :: "u8 list \<Rightarrow> nat \<Rightarrow> u32" where
  "octet32 buf i = (if i < length buf then ucast (buf ! i) else 0)"

definition read_uint_le :: "u8 list \<Rightarrow> nat \<Rightarrow> u32" where
  "read_uint_le buf pos =
     (octet32 buf pos OR push_bit 8 (octet32 buf (pos + 1)) OR push_bit 16 (octet32 buf (pos + 2))
      OR push_bit 24 (octet32 buf (pos + 3)))"

definition read_uint_be :: "u8 list \<Rightarrow> nat \<Rightarrow> u32" where
  "read_uint_be buf pos =
     (push_bit 24 (octet32 buf pos) OR push_bit 16 (octet32 buf (pos + 1)) OR push_bit 8 (octet32 buf (pos + 2))
      OR octet32 buf (pos + 3))"

lemma ucast_and_255: "ucast (w AND 255 :: u32) = (ucast w :: u8)"
proof -
  have "w AND 255 = take_bit 8 w" by (simp add: take_bit_eq_mask mask_eq_exp_minus_1)
  then show ?thesis by (auto intro: bit_word_eqI simp: bit_simps)
qed

lemma write_uint_le_put: "write_uint_le val buf pos = put buf pos (bytes_of 4 val)"
  by (simp only: write_uint_le_def bytes_of_4 ucast_and_255 off_steps put.simps)

lemma write_uint_be_put: "write_uint_be val buf pos = put buf pos (rev (bytes_of 4 val))"
  by (simp only: write_uint_be_def bytes_of_4 ucast_and_255 off_steps put.simps rev.simps append.simps)

lemma octet32_drop: "octet32 buf (p + i) = octet32 (drop p buf) i"
  by (auto simp: octet32_def)

lemma read_uint_le_drop: "read_uint_le buf pos = of_bytes (map (\<lambda>i. if pos + i < length buf then buf ! (pos + i) else 0) [0..<4])"
  by (simp add: read_uint_le_def octet32_def upt_rec off_steps)

lemma read_slice:
  assumes "drop pos buf = bs @ post" "length bs = k"
  shows "map (\<lambda>i. if pos + i < length buf then buf ! (pos + i) else 0) [0..<k] = bs"
proof (rule nth_equalityI)
  fix i assume "i < length (map (\<lambda>i. if pos + i < length buf then buf ! (pos + i) else 0) [0..<k])"
  then have i: "i < k" by simp
  have l: "pos + i < length buf" using arg_cong [OF assms(1), of length] assms(2) i by simp
  have "drop pos buf ! i = bs ! i" using assms i by (simp add: nth_append)
  then show "map (\<lambda>i. if pos + i < length buf then buf ! (pos + i) else 0) [0..<k] ! i = bs ! i"
    using i l by simp
qed (use assms in simp)

lemma read_uint_le_bytes:
  assumes "drop pos buf = bs @ post" "length bs = 4"
  shows "read_uint_le buf pos = of_bytes bs"
  by (simp only: read_uint_le_drop read_slice [OF assms])

lemma read_uint_le_word: "drop pos buf = bytes_of 4 w @ post \<Longrightarrow> read_uint_le buf pos = w"
  by (simp add: read_uint_le_bytes of_bytes_of)

section \<open>The typed-array views\<close>

text \<open>
  The bytes of the single element, in the order of the platform; \<open>view_get\<close> reads the element
  back from them.
\<close>

definition view_bytes :: "bool \<Rightarrow> nat \<Rightarrow> 'a::len word \<Rightarrow> u8 list" where
  "view_bytes little k w = (if little then bytes_of k w else rev (bytes_of k w))"

definition view_get :: "bool \<Rightarrow> u8 list \<Rightarrow> 'a::len word" where
  "view_get little f8b = (if little then of_bytes f8b else of_bytes (rev f8b))"

text \<open>\<open>le = f8b[3] === 128\<close> with \<open>-0\<close> in the view, and \<open>f8b[7] === 128\<close> for doubles.\<close>

definition float_le :: "bool \<Rightarrow> bool" where
  "float_le little \<longleftrightarrow> view_bytes little 4 (0x80000000 :: u32) ! 3 = 128"

definition double_le :: "bool \<Rightarrow> bool" where
  "double_le little \<longleftrightarrow> view_bytes little 8 (0x8000000000000000 :: u64) ! 7 = 128"

definition write_float_cpy :: "bool \<Rightarrow> u32 \<Rightarrow> u8 list \<Rightarrow> nat \<Rightarrow> u8 list" where
  "write_float_cpy little val buf pos =
     (let f8b = view_bytes little 4 val
      in buf[pos := f8b ! 0, pos + 1 := f8b ! 1, pos + 2 := f8b ! 2, pos + 3 := f8b ! 3])"

definition write_float_rev :: "bool \<Rightarrow> u32 \<Rightarrow> u8 list \<Rightarrow> nat \<Rightarrow> u8 list" where
  "write_float_rev little val buf pos =
     (let f8b = view_bytes little 4 val
      in buf[pos := f8b ! 3, pos + 1 := f8b ! 2, pos + 2 := f8b ! 1, pos + 3 := f8b ! 0])"

definition write_float_le :: "bool \<Rightarrow> u32 \<Rightarrow> u8 list \<Rightarrow> nat \<Rightarrow> u8 list" where
  "write_float_le little = (if float_le little then write_float_cpy little else write_float_rev little)"

definition read_float_cpy :: "bool \<Rightarrow> u8 list \<Rightarrow> nat \<Rightarrow> u32" where
  "read_float_cpy little buf pos =
     view_get little (map (\<lambda>i. if pos + i < length buf then buf ! (pos + i) else 0) [0, 1, 2, 3])"

definition read_float_rev :: "bool \<Rightarrow> u8 list \<Rightarrow> nat \<Rightarrow> u32" where
  "read_float_rev little buf pos =
     view_get little (map (\<lambda>i. if pos + i < length buf then buf ! (pos + i) else 0) [3, 2, 1, 0])"

definition read_float_le :: "bool \<Rightarrow> u8 list \<Rightarrow> nat \<Rightarrow> u32" where
  "read_float_le little = (if float_le little then read_float_cpy little else read_float_rev little)"

definition write_double_cpy :: "bool \<Rightarrow> u64 \<Rightarrow> u8 list \<Rightarrow> nat \<Rightarrow> u8 list" where
  "write_double_cpy little val buf pos =
     (let f8b = view_bytes little 8 val
      in buf[pos := f8b ! 0, pos + 1 := f8b ! 1, pos + 2 := f8b ! 2, pos + 3 := f8b ! 3,
             pos + 4 := f8b ! 4, pos + 5 := f8b ! 5, pos + 6 := f8b ! 6, pos + 7 := f8b ! 7])"

definition write_double_rev :: "bool \<Rightarrow> u64 \<Rightarrow> u8 list \<Rightarrow> nat \<Rightarrow> u8 list" where
  "write_double_rev little val buf pos =
     (let f8b = view_bytes little 8 val
      in buf[pos := f8b ! 7, pos + 1 := f8b ! 6, pos + 2 := f8b ! 5, pos + 3 := f8b ! 4,
             pos + 4 := f8b ! 3, pos + 5 := f8b ! 2, pos + 6 := f8b ! 1, pos + 7 := f8b ! 0])"

definition write_double_le :: "bool \<Rightarrow> u64 \<Rightarrow> u8 list \<Rightarrow> nat \<Rightarrow> u8 list" where
  "write_double_le little = (if double_le little then write_double_cpy little else write_double_rev little)"

definition read_double_cpy :: "bool \<Rightarrow> u8 list \<Rightarrow> nat \<Rightarrow> u64" where
  "read_double_cpy little buf pos =
     view_get little (map (\<lambda>i. if pos + i < length buf then buf ! (pos + i) else 0) [0, 1, 2, 3, 4, 5, 6, 7])"

definition read_double_rev :: "bool \<Rightarrow> u8 list \<Rightarrow> nat \<Rightarrow> u64" where
  "read_double_rev little buf pos =
     view_get little (map (\<lambda>i. if pos + i < length buf then buf ! (pos + i) else 0) [7, 6, 5, 4, 3, 2, 1, 0])"

definition read_double_le :: "bool \<Rightarrow> u8 list \<Rightarrow> nat \<Rightarrow> u64" where
  "read_double_le little = (if double_le little then read_double_cpy little else read_double_rev little)"

lemma float_le_eq [simp]: "float_le little = little"
  by (cases little) (simp_all add: float_le_def view_bytes_def bytes_of_4)

lemma double_le_eq [simp]: "double_le little = little"
  by (cases little) (simp_all add: double_le_def view_bytes_def bytes_of_8)

lemma off_steps8: "off + 5 = Suc (off + 4)" "off + 6 = Suc (Suc (off + 4))" "off + 7 = Suc (Suc (Suc (off + 4)))"
  by simp_all

lemma write_float_le_put: "write_float_le little val buf pos = put buf pos (bytes_of 4 val)"
  by (cases little) (simp_all add: write_float_le_def write_float_cpy_def write_float_rev_def view_bytes_def
      bytes_of_4 off_steps Let_def numeral_2_eq_2 numeral_3_eq_3)

lemma nth_list8: "[a, b, c, d, e, f, g, h] ! 4 = e" "[a, b, c, d, e, f, g, h] ! 5 = f"
    "[a, b, c, d, e, f, g, h] ! 6 = g" "[a, b, c, d, e, f, g, h] ! 7 = h"
  by (simp_all add: numeral_eq_Suc)

lemma write_double_le_put: "write_double_le little val buf pos = put buf pos (bytes_of 8 val)"
  by (cases little) (simp_all add: write_double_le_def write_double_cpy_def write_double_rev_def view_bytes_def
      bytes_of_8 off_steps8 off_steps Let_def nth_list8 numeral_2_eq_2 numeral_3_eq_3)

lemma upt_4_8: "[0..<4] = [0, 1, 2, 3 :: nat]" "[0..<8] = [0, 1, 2, 3, 4, 5, 6, 7 :: nat]"
  by (simp_all add: upt_rec)

lemma rev_4_8: "rev [3, 2, 1, 0 :: nat] = [0, 1, 2, 3]" "rev [7, 6, 5, 4, 3, 2, 1, 0 :: nat] = [0, 1, 2, 3, 4, 5, 6, 7]"
  by simp_all

lemma read_float_le_slice:
  "read_float_le little buf pos = of_bytes (map (\<lambda>i. if pos + i < length buf then buf ! (pos + i) else 0) [0..<4])"
  by (cases little) (simp_all only: read_float_le_def float_le_eq read_float_cpy_def read_float_rev_def
      view_get_def upt_4_8 rev_map rev_4_8 if_True if_False)

lemma read_double_le_slice:
  "read_double_le little buf pos = of_bytes (map (\<lambda>i. if pos + i < length buf then buf ! (pos + i) else 0) [0..<8])"
  by (cases little) (simp_all only: read_double_le_def double_le_eq read_double_cpy_def read_double_rev_def
      view_get_def upt_4_8 rev_map rev_4_8 if_True if_False)

text \<open>C26: on a platform of either byte order a float and a double are stored little-endian, and
  reading the stored bytes gives the same bit pattern back.\<close>

lemma float_roundtrip:
  "write_float_le little f buf pos = put buf pos (bytes_of 4 f)
   \<and> write_double_le little d buf pos = put buf pos (bytes_of 8 d)
   \<and> (drop pos buf = bytes_of 4 f @ post \<longrightarrow> read_float_le little buf pos = f)
   \<and> (drop pos buf = bytes_of 8 d @ post \<longrightarrow> read_double_le little buf pos = d)"
  by (simp add: write_float_le_put write_double_le_put read_float_le_slice read_double_le_slice
      read_slice of_bytes_of del: upt_Suc)

lemma float_roundtrip_witness:
  "read_float_le False (write_float_le True 0x3F800000 [0, 0, 0, 0] 0) 0 = 0x3F800000"
  using float_roundtrip [of True "0x3F800000" "[0, 0, 0, 0]" 0]
    float_roundtrip [of False "0x3F800000" "bytes_of 4 (0x3F800000 :: u32)" 0 _ "[]"]
    put_all [of "bytes_of 4 (0x3F800000 :: u32)" "[0, 0, 0, 0]"]
  by simp

end
