(* ===== verification/Pool.thy ===== *)
theory Pool
  imports Bytes
begin

text \<open>
  The buffer pool of protobuf.js, which carves small allocations out of slabs. A typed array is a
  view of a memory block: the block's number, the offset of the view and its length. The state is
  the closure of the allocator, with the sizes of the blocks allocated so far. \<open>alloc\<close> and \<open>slice\<close> are the
  constructor and \<open>subarray\<close> of Uint8Array, as \<open>Writer.alloc\<close> passes them.
\<close>

unbundle bit_operations_syntax

record view =
  view_block :: nat
  view_off :: nat
  view_len :: nat

record pool =
  pool_size :: nat
  pool_slab :: "nat option"
  pool_offset :: nat
  pool_blocks :: "nat list"

text \<open>\<open>pool(alloc, slice, size)\<close>; an omitted or zero size means 8192.\<close>

definition pool_new :: "nat \<Rightarrow> pool" where
  "pool_new sz =
     (let SIZE = (if sz = 0 then 8192 else sz)
      in \<lparr>pool_size = SIZE, pool_slab = None, pool_offset = SIZE, pool_blocks = []\<rparr>)"

definition raw_alloc :: "pool \<Rightarrow> nat \<Rightarrow> view \<times> pool" where
  "raw_alloc p sz =
     (\<lparr>view_block = length (pool_blocks p), view_off = 0, view_len = sz\<rparr>, p\<lparr>pool_blocks := pool_blocks p @ [sz]\<rparr>)"

text \<open>\<open>slab.subarray(start, end)\<close> of a whole block: both ends are clamped to its length.\<close>

definition subarray :: "pool \<Rightarrow> nat \<Rightarrow> nat \<Rightarrow> nat \<Rightarrow> view" where
  "subarray p b from to =
     (let n = pool_blocks p ! b in \<lparr>view_block = b, view_off = min from n, view_len = min to n - min from n\<rparr>)"

definition pool_alloc :: "pool \<Rightarrow> nat \<Rightarrow> view \<times> pool" where
  "pool_alloc p sz =
     (if sz < 1 \<or> sz > drop_bit 1 (pool_size p) then raw_alloc p sz
      else
        let p = (if pool_offset p + sz > pool_size p
                 then let (slab, p) = raw_alloc p (pool_size p)
                      in p\<lparr>pool_slab := Some (view_block slab), pool_offset := 0\<rparr>
                 else p);
            buf = subarray p (the (pool_slab p)) (pool_offset p) (pool_offset p + sz);
            off = pool_offset p + sz;
            off = (if off AND 7 \<noteq> 0 then (off OR 7) + 1 else off)
        in (buf, p\<lparr>pool_offset := off\<rparr>))"

fun pool_allocs :: "pool \<Rightarrow> nat list \<Rightarrow> view list \<times> pool" where
  "pool_allocs p [] = ([], p)"
| "pool_allocs p (n # ns) =
     (let (v, p) = pool_alloc p n; (vs, p) = pool_allocs p ns in (v # vs, p))"

section \<open>Views never overlap\<close>

definition overlap :: "view \<Rightarrow> view \<Rightarrow> bool" where
  "overlap v w \<longleftrightarrow> view_block v = view_block w \<and> view_off v < view_off w + view_len w
                    \<and> view_off w < view_off v + view_len v"

definition in_block :: "pool \<Rightarrow> view \<Rightarrow> bool" where
  "in_block p v \<longleftrightarrow> view_block v < length (pool_blocks p) \<and> view_off v + view_len v \<le> pool_blocks p ! view_block v"

text \<open>A view that was handed out lies in its block, and in the slab below the allocation front.\<close>

definition behind :: "pool \<Rightarrow> view \<Rightarrow> bool" where
  "behind p v \<longleftrightarrow> in_block p v
     \<and> (pool_slab p = Some (view_block v) \<longrightarrow> view_off v + view_len v \<le> pool_offset p)"

definition pool_ok :: "pool \<Rightarrow> bool" where
  "pool_ok p \<longleftrightarrow> 0 < pool_size p \<and>
     (case pool_slab p of None \<Rightarrow> pool_offset p = pool_size p
      | Some b \<Rightarrow> b < length (pool_blocks p) \<and> pool_blocks p ! b = pool_size p \<and> pool_offset p mod 8 = 0)"

definition align8 :: "nat \<Rightarrow> nat" where
  "align8 off = (if off AND 7 \<noteq> 0 then (off OR 7) + 1 else off)"

lemma or_7: "off OR 7 = off div 8 * 8 + (7 :: nat)"
proof -
  have "off OR 7 = (off div 8 * 8) OR 7"
  proof -
    have "off OR mask 3 = push_bit 3 (drop_bit 3 off) OR mask 3"
      by (rule bit_eqI) (auto simp: bit_simps)
    then show ?thesis by (simp add: push_bit_eq_mult drop_bit_eq_div mask_eq_exp_minus_1)
  qed
  then show ?thesis using nat_or_push2 [of 7 3 "off div 8"] by simp
qed

lemma align8: "off \<le> align8 off" "align8 off mod 8 = 0"
proof -
  have "align8 off = (if off mod 8 = 0 then off else off div 8 * 8 + 8)"
    by (simp add: align8_def or_7 and_masks)
  then show "off \<le> align8 off" "align8 off mod 8 = 0"
    by (simp_all, presburger)
qed

lemma pool_new_ok: "pool_ok (pool_new n)"
  by (simp add: pool_new_def pool_ok_def Let_def)

lemma half_size: "\<not> n > drop_bit 1 m \<Longrightarrow> n \<le> (m :: nat)"
  by (simp add: drop_bit_eq_div)

lemma pool_alloc_inv:
  assumes "pool_ok p" "pool_alloc p n = (v, p')"
  shows "pool_ok p' \<and> view_len v = n \<and> behind p' v \<and> view_off v mod 8 = 0 \<and> (\<forall>w. behind p w \<longrightarrow> behind p' w \<and> \<not> overlap v w)"
proof -
  consider (raw) "n < 1 \<or> n > drop_bit 1 (pool_size p)"
    | (slab) "\<not> (n < 1 \<or> n > drop_bit 1 (pool_size p))" "pool_offset p + n > pool_size p"
    | (carve) "\<not> (n < 1 \<or> n > drop_bit 1 (pool_size p))" "\<not> pool_offset p + n > pool_size p"
    by blast
  then show ?thesis
  proof cases
    case raw
    then have "(v, p') = raw_alloc p n" using assms(2) by (simp add: pool_alloc_def)
    then show ?thesis using assms(1)
      by (auto simp: raw_alloc_def pool_ok_def behind_def in_block_def overlap_def nth_append split: option.splits)
  next
    case slab
    then have n: "n \<le> pool_size p" using half_size by blast
    have "v = \<lparr>view_block = length (pool_blocks p), view_off = 0, view_len = n\<rparr>"
      "p' = p\<lparr>pool_slab := Some (length (pool_blocks p)), pool_offset := align8 n, pool_blocks := pool_blocks p @ [pool_size p]\<rparr>"
      using assms(2) slab n by (auto simp: pool_alloc_def raw_alloc_def subarray_def align8_def Let_def simp del: drop_bit_Suc)
    then show ?thesis using assms(1) align8 [of n] n
      by (auto simp: pool_ok_def behind_def in_block_def overlap_def nth_append)
  next
    case carve
    then obtain b where b: "pool_slab p = Some b" "b < length (pool_blocks p)" "pool_blocks p ! b = pool_size p" "pool_offset p mod 8 = 0"
      using assms(1) by (auto simp: pool_ok_def split: option.splits)
    with carve have "v = \<lparr>view_block = b, view_off = pool_offset p, view_len = n\<rparr>"
      "p' = p\<lparr>pool_offset := align8 (pool_offset p + n)\<rparr>"
      using assms(2) by (auto simp: pool_alloc_def subarray_def align8_def Let_def simp del: drop_bit_Suc)
    then show ?thesis using assms(1) b carve(2) align8 [of "pool_offset p + n"]
      by (fastforce simp: pool_ok_def behind_def in_block_def overlap_def)
  qed
qed

lemma pool_allocs_disjoint:
  assumes "pool_ok p" "pool_allocs p ns = (vs, p')"
  shows "map view_len vs = ns \<and> (\<forall>v \<in> set vs. view_off v mod 8 = 0 \<and> behind p' v)
    \<and> (\<forall>w. behind p w \<longrightarrow> behind p' w \<and> (\<forall>v \<in> set vs. \<not> overlap v w))
    \<and> (\<forall>i < length vs. \<forall>j < i. \<not> overlap (vs ! i) (vs ! j))"
  using assms
proof (induction ns arbitrary: p vs)
  case (Cons n ns)
  obtain v p1 where v: "pool_alloc p n = (v, p1)" by fastforce
  obtain vs1 where vs: "pool_allocs p1 ns = (vs1, p')" "vs = v # vs1"
    using Cons.prems(2) v by (auto split: prod.splits)
  note a = pool_alloc_inv [OF Cons.prems(1) v]
  have ih: "map view_len vs1 = ns" "\<forall>v \<in> set vs1. view_off v mod 8 = 0 \<and> behind p' v"
    "\<forall>w. behind p1 w \<longrightarrow> behind p' w \<and> (\<forall>v \<in> set vs1. \<not> overlap v w)"
    "\<forall>i < length vs1. \<forall>j < i. \<not> overlap (vs1 ! i) (vs1 ! j)"
    using Cons.IH [OF _ vs(1)] a by simp_all
  have "\<not> overlap (vs ! i) (vs ! j)" if "i < length vs" "j < i" for i j
  proof (cases j)
    case 0
    then have "vs ! i \<in> set vs1" using that vs(2) by (cases i) auto
    then show ?thesis using ih(3) a 0 vs(2) by auto
  next
    case (Suc k)
    then show ?thesis using that ih(4) vs(2) by (cases i) auto
  qed
  moreover have "\<forall>w. behind p w \<longrightarrow> behind p' w \<and> (\<forall>v \<in> set vs. \<not> overlap v w)" using ih(3) a vs(2) by auto
  moreover have "\<forall>v \<in> set vs. view_off v mod 8 = 0 \<and> behind p' v" using ih(2, 3) a vs(2) by auto
  ultimately show ?case using ih(1) a vs(2) by auto
qed simp

text \<open>C25: whatever sizes are requested, the buffers of a pool have the requested lengths, start at
  multiples of 8, lie inside the memory block they are views of, and no two of them overlap.\<close>

lemma pool_buffers_disjoint:
  assumes "pool_allocs (pool_new sz) ns = (vs, p')"
  shows "map view_len vs = ns
    \<and> (\<forall>v \<in> set vs. view_off v mod 8 = 0 \<and> view_block v < length (pool_blocks p')
         \<and> view_off v + view_len v \<le> pool_blocks p' ! view_block v)
    \<and> (\<forall>i < length vs. \<forall>j < i. \<not> overlap (vs ! i) (vs ! j))"
  using pool_allocs_disjoint [OF pool_new_ok assms] unfolding behind_def in_block_def by blast

lemma pool_buffers_disjoint_witness:
  "map view_len (fst (pool_allocs (pool_new 16) [3, 5, 20, 4])) = [3, 5, 20, 4]
   \<and> \<not> overlap (fst (pool_allocs (pool_new 16) [3, 5, 20, 4]) ! 1) (fst (pool_allocs (pool_new 16) [3, 5, 20, 4]) ! 0)"
proof -
  obtain vs p' where a: "pool_allocs (pool_new 16) [3, 5, 20, 4] = (vs, p')" by fastforce
  from pool_buffers_disjoint [OF a] have "map view_len vs = [3, 5, 20, 4]"
    "\<forall>i < length vs. \<forall>j < i. \<not> overlap (vs ! i) (vs ! j)" by blast+
  moreover from this(1) have "length vs = 4" using length_map [of view_len vs] by simp
  ultimately show ?thesis unfolding a by simp
qed

end
