(* ===== verification/Writer.thy ===== *)
theory Writer
  imports LongBits Utf8 Base64 Float
begin

text \<open>
  The Writer of protobuf.js: values are queued as operations with a precomputed length, messages
  are nested with \<open>fork\<close> and \<open>ldelim\<close>, and \<open>finish\<close> walks the queue over a buffer of the exact
  size. The linked list from \<open>head.next\<close> to \<open>tail\<close> is the list \<open>w_ops\<close>; the chain of saved states is
  \<open>w_states\<close>. An operation that holds a LongBits object is changed by \<open>finish\<close>, which consumes the
  object, so \<open>finish\<close> returns the writer too.
\<close>

unbundle bit_operations_syntax

section \<open>Operations and the writer\<close>

datatype op_val =
    VByte nat
  | VVarint32 u32
  | VVarint64 longbits
  | VFixed32 u32
  | VFloat u32
  | VDouble u64
  | VBytes "u8 list"
  | VUtf8 jsstring

record op =
  op_len :: nat
  op_val :: op_val

record wstate =
  s_ops :: "op list"
  s_len :: nat

record writer =
  w_len :: nat
  w_ops :: "op list"
  w_states :: "wstate list"

definition new_op :: "nat \<Rightarrow> op_val \<Rightarrow> op" where
  "new_op len v = \<lparr>op_len = len, op_val = v\<rparr>"

definition new_writer :: writer where
  "new_writer = \<lparr>w_len = 0, w_ops = [], w_states = []\<rparr>"

definition push :: "op_val \<Rightarrow> nat \<Rightarrow> writer \<Rightarrow> writer" where
  "push v len w = w\<lparr>w_len := w_len w + len, w_ops := w_ops w @ [new_op len v]\<rparr>"

section \<open>Storing a value\<close>

definition write_byte :: "nat \<Rightarrow> u8 list \<Rightarrow> nat \<Rightarrow> u8 list" where
  "write_byte val buf pos = buf[pos := byte_of (val AND 255)]"

lemma unat_drop_7: "unat (drop_bit 7 (w :: u32)) = unat w div 128"
  by (simp add: drop_bit_eq_div unat_div_distrib)

function write_varint32 :: "u32 \<Rightarrow> u8 list \<Rightarrow> nat \<Rightarrow> u8 list" where
  "write_varint32 val buf pos =
     (if unat val > 127
      then write_varint32 (drop_bit 7 val) (buf[pos := ucast (val AND 127 OR 128)]) (pos + 1)
      else buf[pos := ucast val])"
  by pat_completeness auto

termination
  by (relation "measure (\<lambda>(val, buf, pos). unat val)") (auto simp: unat_drop_7)

declare write_varint32.simps [simp del]

text \<open>The second loop of \<open>writeVarint64\<close>, when only the low half is left.\<close>

function write_varint64_lo :: "longbits \<Rightarrow> u8 list \<Rightarrow> nat \<Rightarrow> u8 list \<times> longbits" where
  "write_varint64_lo val buf pos =
     (if unat (lo val) > 127
      then write_varint64_lo (val\<lparr>lo := drop_bit 7 (lo val)\<rparr>)
             (buf[pos := ucast (lo val AND 127 OR 128)]) (pos + 1)
      else (buf[pos := ucast (lo val)], val))"
  by pat_completeness auto
termination
  by (relation "measure (\<lambda>(val, buf, pos). unat (lo val))") (auto simp: unat_drop_7)

declare write_varint64_lo.simps [simp del]

function write_varint64 :: "longbits \<Rightarrow> u8 list \<Rightarrow> nat \<Rightarrow> u8 list \<times> longbits" where
  "write_varint64 val buf pos =
     (if hi val \<noteq> 0
      then write_varint64
             (val\<lparr>lo := drop_bit 7 (lo val) OR push_bit 25 (hi val), hi := drop_bit 7 (hi val)\<rparr>)
             (buf[pos := ucast (lo val AND 127 OR 128)]) (pos + 1)
      else write_varint64_lo val buf pos)"
  by pat_completeness auto
termination
proof (relation "measure (\<lambda>(val, buf, pos). unat (hi val))")
  fix val :: longbits and buf :: "u8 list" and pos :: nat
  assume "hi val \<noteq> 0"
  then have "0 < unat (hi val)" by (simp add: unat_gt_0)
  then show "((val\<lparr>lo := drop_bit 7 (lo val) OR push_bit 25 (hi val), hi := drop_bit 7 (hi val)\<rparr>,
      buf[pos := ucast (lo val AND 127 OR 128)], pos + 1), val, buf, pos)
      \<in> measure (\<lambda>(val, buf, pos). unat (hi val))"
    by (simp add: unat_drop_7)
qed simp

declare write_varint64.simps [simp del]

definition write_fixed32 :: "u32 \<Rightarrow> u8 list \<Rightarrow> nat \<Rightarrow> u8 list" where
  "write_fixed32 val buf pos =
     buf[pos := ucast (val AND 255), pos + 1 := ucast (drop_bit 8 val AND 255),
         pos + 2 := ucast (drop_bit 16 val AND 255), pos + 3 := ucast (drop_bit 24 val)]"

text \<open>\<open>buf.set(val, pos)\<close>; the queue sized the buffer so that it fits.\<close>

definition write_bytes :: "u8 list \<Rightarrow> u8 list \<Rightarrow> nat \<Rightarrow> u8 list" where
  "write_bytes val buf pos = put buf pos val"

text \<open>\<open>op.fn(op.val, buf, pos)\<close>: the stores, and the value that the operation holds afterwards.\<close>

fun op_fn :: "bool \<Rightarrow> op_val \<Rightarrow> u8 list \<Rightarrow> nat \<Rightarrow> u8 list \<times> op_val" where
  "op_fn le (VByte n) buf pos = (write_byte n buf pos, VByte n)"
| "op_fn le (VVarint32 v) buf pos = (write_varint32 v buf pos, VVarint32 v)"
| "op_fn le (VVarint64 b) buf pos = (case write_varint64 b buf pos of (buf', b') \<Rightarrow> (buf', VVarint64 b'))"
| "op_fn le (VFixed32 v) buf pos = (write_fixed32 v buf pos, VFixed32 v)"
| "op_fn le (VFloat f) buf pos = (write_float_le le f buf pos, VFloat f)"
| "op_fn le (VDouble d) buf pos = (write_double_le le d buf pos, VDouble d)"
| "op_fn le (VBytes bs) buf pos = (write_bytes bs buf pos, VBytes bs)"
| "op_fn le (VUtf8 s) buf pos = (fst (utf8_write s buf pos), VUtf8 s)"

section \<open>Queueing a value\<close>

definition w_uint32 :: "int \<Rightarrow> writer \<Rightarrow> writer" where
  "w_uint32 value w =
     (let v = to_uint32 value
      in push (VVarint32 v)
           (if v < 128 then 1 else if v < 16384 then 2 else if v < 2097152 then 3
            else if v < 268435456 then 4 else 5) w)"

definition w_int32 :: "int \<Rightarrow> writer \<Rightarrow> writer" where
  "w_int32 value w =
     (if value < 0 then push (VVarint64 (from_number value)) 10 w else w_uint32 value w)"

text \<open>\<open>(value << 1 ^ value >> 31) >>> 0\<close> on the 32-bit value.\<close>

definition zigzag32 :: "int \<Rightarrow> u32" where
  "zigzag32 value = (push_bit 1 (to_uint32 value) XOR signed_drop_bit 31 (to_uint32 value))"

definition w_sint32 :: "int \<Rightarrow> writer \<Rightarrow> writer" where
  "w_sint32 value w = w_uint32 (uint (zigzag32 value)) w"

definition w_uint64 :: "int \<Rightarrow> writer \<Rightarrow> writer" where
  "w_uint64 value w = (let bits = from_number value in push (VVarint64 bits) (bits_length bits) w)"

definition w_sint64 :: "int \<Rightarrow> writer \<Rightarrow> writer" where
  "w_sint64 value w = (let bits = zz_encode (from_number value) in push (VVarint64 bits) (bits_length bits) w)"

definition w_bool :: "bool \<Rightarrow> writer \<Rightarrow> writer" where
  "w_bool value w = push (VByte (if value then 1 else 0)) 1 w"

definition w_fixed32 :: "int \<Rightarrow> writer \<Rightarrow> writer" where
  "w_fixed32 value w = push (VFixed32 (to_uint32 value)) 4 w"

definition w_fixed64 :: "int \<Rightarrow> writer \<Rightarrow> writer" where
  "w_fixed64 value w = (let bits = from_number value in push (VFixed32 (hi bits)) 4 (push (VFixed32 (lo bits)) 4 w))"

definition w_float :: "u32 \<Rightarrow> writer \<Rightarrow> writer" where
  "w_float f w = push (VFloat f) 4 w"

definition w_double :: "u64 \<Rightarrow> writer \<Rightarrow> writer" where
  "w_double d w = push (VDouble d) 8 w"

definition w_bytes :: "u8 list \<Rightarrow> writer \<Rightarrow> writer" where
  "w_bytes value w =
     (let len = length value
      in if len = 0 then push (VByte 0) 1 w else push (VBytes value) len (w_uint32 (int len) w))"

text \<open>
  The same operation for a base64 string. It is modelled for the strings whose \<open>base64.length\<close> is
  an integer; the queue would hold a fractional length otherwise.
\<close>

definition w_base64 :: "jsstring \<Rightarrow> writer \<Rightarrow> writer res" where
  "w_base64 value w =
     (if length value = 0 then Inr (push (VByte 0) 1 w)
      else let len = nat \<lfloor>base64_length value\<rfloor>
           in case base64_decode value (replicate len 0) 0 of
                (buf, Inl e) \<Rightarrow> Inl e
              | (buf, Inr n) \<Rightarrow> Inr (push (VBytes buf) len (w_uint32 (int len) w)))"

definition w_string :: "jsstring \<Rightarrow> writer \<Rightarrow> writer" where
  "w_string value w =
     (let len = utf8_length value
      in if len \<noteq> 0 then push (VUtf8 value) len (w_uint32 (int len) w) else push (VByte 0) 1 w)"

section \<open>Nesting and finishing\<close>

definition w_fork :: "writer \<Rightarrow> writer" where
  "w_fork w = \<lparr>w_len = 0, w_ops = [], w_states = \<lparr>s_ops = w_ops w, s_len = w_len w\<rparr> # w_states w\<rparr>"

definition w_reset :: "writer \<Rightarrow> writer" where
  "w_reset w =
     (case w_states w of
        s # ss \<Rightarrow> w\<lparr>w_len := s_len s, w_ops := s_ops s, w_states := ss\<rparr>
      | [] \<Rightarrow> w\<lparr>w_len := 0, w_ops := []\<rparr>)"

definition w_ldelim :: "writer \<Rightarrow> writer" where
  "w_ldelim w =
     (let ops = w_ops w; len = w_len w; w = w_uint32 (int len) (w_reset w)
      in if len \<noteq> 0 then w\<lparr>w_len := w_len w + len, w_ops := w_ops w @ ops\<rparr> else w)"

fun finish_loop :: "bool \<Rightarrow> op list \<Rightarrow> u8 list \<Rightarrow> nat \<Rightarrow> u8 list \<times> op list" where
  "finish_loop le [] buf pos = (buf, [])"
| "finish_loop le (h # hs) buf pos =
     (case op_fn le (op_val h) buf pos of
        (buf', v') \<Rightarrow>
          (case finish_loop le hs buf' (pos + op_len h) of
             (buf'', hs') \<Rightarrow> (buf'', h\<lparr>op_val := v'\<rparr> # hs')))"

text \<open>\<open>alloc\<close> gives a zeroed array; \<open>le\<close> is the byte order of the platform.\<close>

definition w_finish :: "bool \<Rightarrow> writer \<Rightarrow> u8 list \<times> writer" where
  "w_finish le w =
     (case finish_loop le (w_ops w) (replicate (w_len w) 0) 0 of
        (buf, ops) \<Rightarrow> (buf, w\<lparr>w_ops := ops\<rparr>))"

end
