(* ===== verification/Wire.thy ===== *)
theory Wire
  imports Writer
begin

text \<open>
  What the writer writes: the wire format of every value, stated without the writer, and the
  refinement of the queue by direct construction of the bytes of every nesting level.
\<close>

unbundle bit_operations_syntax

section \<open>Varints\<close>

fun varint :: "nat \<Rightarrow> u8 list" where
  "varint n = (if n < 128 then [byte_of n] else byte_of (n mod 128 + 128) # varint (n div 128))"

declare varint.simps [simp del]

lemma length_varint: "length (varint n) = varint_len n"
  by (induction n rule: varint.induct) (subst varint.simps, subst varint_len.simps, simp)

lemma varint_not_Nil [simp]: "varint n \<noteq> []"
  by (subst varint.simps) simp

lemma ucast_byte_of: "(ucast (w :: 'a::len word) :: u8) = byte_of (unat w)"
  by (simp add: byte_of_def)

lemma varint_byte: "ucast (w AND 127 OR 128 :: u32) = byte_of (unat w mod 128 + 128)"
proof -
  have "unat (w AND 127 OR 128) = (unat w AND 127) OR 128"
    by (simp add: unsigned_or_eq unsigned_and_eq)
  also have "\<dots> = unat w mod 128 + 128"
    by (simp add: and_masks or_tags)
  finally show ?thesis by (simp add: ucast_byte_of)
qed

lemma write_varint32_put: "write_varint32 v buf pos = put buf pos (varint (unat v))"
proof (induction v buf pos rule: write_varint32.induct)
  case (1 val buf pos)
  show ?case
  proof (cases "unat val > 127")
    case True
    then show ?thesis using 1 [OF True]
      by (subst write_varint32.simps, subst varint.simps) (simp add: varint_byte unat_drop_7)
  next
    case False
    then show ?thesis
      by (subst write_varint32.simps, subst varint.simps) (simp add: ucast_byte_of)
  qed
qed

lemma bits64_drop_7:
  "unat (bits64 (b\<lparr>lo := drop_bit 7 (lo b) OR push_bit 25 (hi b), hi := drop_bit 7 (hi b)\<rparr>))
   = unat (bits64 b) div 128"
proof -
  have "bits64 (b\<lparr>lo := drop_bit 7 (lo b) OR push_bit 25 (hi b), hi := drop_bit 7 (hi b)\<rparr>) = drop_bit 7 (bits64 b)"
  proof (rule bit_word_eqI)
    fix n assume "n < LENGTH(64)"
    moreover have "\<not> bit (x :: u32) m" if "m \<ge> 32" for x m using that bit_imp_le_length [of x m] by auto
    ultimately show "bit (bits64 (b\<lparr>lo := drop_bit 7 (lo b) OR push_bit 25 (hi b), hi := drop_bit 7 (hi b)\<rparr>)) n
        = bit (drop_bit 7 (bits64 b)) n"
      by (cases "n < 25"; cases "n < 32"; cases "n < 57") (auto simp: bit_bits64 bit_simps)
  qed
  then show ?thesis by (simp add: drop_bit_eq_div unat_div_distrib)
qed

lemma unat_bits64: "unat (bits64 b) = unat (hi b) * 4294967296 + unat (lo b)"
proof -
  have "int (unat (bits64 b)) = int (unat (hi b) * 4294967296 + unat (lo b))"
    by (simp add: bits64_uint)
  then show ?thesis by (simp only: of_nat_eq_iff)
qed

lemma unat_lo_mod: "unat (lo b) mod 128 = unat (bits64 b) mod 128"
proof -
  have "unat (bits64 b) = unat (lo b) + 128 * (unat (hi b) * 33554432)"
    by (simp add: unat_bits64)
  then show ?thesis by (simp only: mod_mult_self2)
qed

lemma write_varint64_lo_put:
  "hi val = 0 \<Longrightarrow> fst (write_varint64_lo val buf pos) = put buf pos (varint (unat (bits64 val)))"
proof (induction val buf pos rule: write_varint64_lo.induct)
  case (1 val buf pos)
  then have e: "unat (bits64 val) = unat (lo val)" by (simp add: unat_bits64)
  show ?case
  proof (cases "unat (lo val) > 127")
    case True
    have "unat (bits64 (val\<lparr>lo := drop_bit 7 (lo val)\<rparr>)) = unat (bits64 val) div 128"
      using 1(2) by (simp add: unat_bits64 unat_drop_7)
    then show ?thesis using 1(1) [OF True] 1(2) True
      by (subst write_varint64_lo.simps, subst varint.simps) (simp add: e varint_byte)
  next
    case False
    then show ?thesis
      by (subst write_varint64_lo.simps, subst varint.simps) (simp add: e ucast_byte_of)
  qed
qed

lemma write_varint64_put: "fst (write_varint64 val buf pos) = put buf pos (varint (unat (bits64 val)))"
proof (induction val buf pos rule: write_varint64.induct)
  case (1 val buf pos)
  show ?case
  proof (cases "hi val = 0")
    case False
    then have "\<not> unat (bits64 val) < 128" by (simp add: unat_bits64 word_unat_eq_iff)
    then show ?thesis using 1 [OF False] False
      by (subst write_varint64.simps, subst varint.simps)
        (simp add: varint_byte bits64_drop_7 unat_lo_mod)
  next
    case True
    then show ?thesis using write_varint64_lo_put [OF True]
      by (subst write_varint64.simps) simp
  qed
qed

section \<open>The bytes of an operation\<close>

fun op_bytes :: "op_val \<Rightarrow> u8 list" where
  "op_bytes (VByte n) = [byte_of n]"
| "op_bytes (VVarint32 v) = varint (unat v)"
| "op_bytes (VVarint64 b) = varint (unat (bits64 b))"
| "op_bytes (VFixed32 v) = bytes_of 4 v"
| "op_bytes (VFloat f) = bytes_of 4 f"
| "op_bytes (VDouble d) = bytes_of 8 d"
| "op_bytes (VBytes bs) = bs"
| "op_bytes (VUtf8 s) = utf8_bytes s"

lemma byte_of_and: "byte_of (n AND 255) = byte_of n"
  by (simp add: word_unat_eq_iff byte_of_def and_masks unat_of_nat)

lemma write_fixed32_put: "write_fixed32 v buf pos = put buf pos (bytes_of 4 v)"
  unfolding write_uint_le_put [symmetric] by (simp only: write_fixed32_def write_uint_le_def)

lemma op_fn_put: "fst (op_fn le v buf pos) = put buf pos (op_bytes v)"
  using write_varint64_put
  by (cases v) (simp_all add: write_byte_def byte_of_and write_varint32_put write_fixed32_put
      write_float_le_put write_double_le_put write_bytes_def utf8_write_put case_prod_beta)

section \<open>What a writer stands for\<close>

text \<open>
  The bytes queued at one nesting level, and the abstract state of a writer: the queued bytes of
  every open level, the innermost first.
\<close>

definition ops_bytes :: "op list \<Rightarrow> u8 list" where
  "ops_bytes ops = concat (map (\<lambda>h. op_bytes (op_val h)) ops)"

definition levels :: "writer \<Rightarrow> u8 list list" where
  "levels w = ops_bytes (w_ops w) # map (\<lambda>s. ops_bytes (s_ops s)) (w_states w)"

definition ops_sized :: "nat \<Rightarrow> op list \<Rightarrow> bool" where
  "ops_sized len ops \<longleftrightarrow> (\<forall>h \<in> set ops. op_len h = length (op_bytes (op_val h))) \<and> len = length (ops_bytes ops)"

definition writer_ok :: "writer \<Rightarrow> bool" where
  "writer_ok w \<longleftrightarrow> ops_sized (w_len w) (w_ops w) \<and> (\<forall>s \<in> set (w_states w). ops_sized (s_len s) (s_ops s))"

text \<open>Appending to the innermost level.\<close>

definition emit :: "u8 list \<Rightarrow> u8 list list \<Rightarrow> u8 list list" where
  "emit bs ls = (hd ls @ bs) # tl ls"

lemma ops_bytes_append [simp]: "ops_bytes (xs @ ys) = ops_bytes xs @ ops_bytes ys"
  by (simp add: ops_bytes_def)

lemma ops_bytes_Cons [simp]: "ops_bytes (x # xs) = op_bytes (op_val x) @ ops_bytes xs"
  by (simp add: ops_bytes_def)

lemma ops_bytes_Nil [simp]: "ops_bytes [] = []"
  by (simp add: ops_bytes_def)

lemma push_spec:
  assumes "writer_ok w" "len = length (op_bytes v)"
  shows "writer_ok (push v len w) \<and> levels (push v len w) = emit (op_bytes v) (levels w)"
  using assms by (auto simp: push_def writer_ok_def ops_sized_def levels_def emit_def new_op_def)

lemma w_uint32_spec:
  assumes "writer_ok w"
  shows "writer_ok (w_uint32 v w) \<and> levels (w_uint32 v w) = emit (varint (nat (v mod 2 ^ 32))) (levels w)"
proof -
  define x where "x = to_uint32 v"
  have u: "unat x = nat (v mod 2 ^ 32)"
    by (simp add: x_def to_uint32_def unat_eq_nat_uint uint_word_of_int)
  have l: "unat x < 2 ^ 35" using unsigned_less [of x, where ?'a = nat] by simp
  have "(if x < 128 then 1 else if x < 16384 then 2 else if x < 2097152 then 3
      else if x < 268435456 then 4 else 5) = varint_len (unat x)"
    using l varint_len_eq [of 0 "unat x"] varint_len_eq [of 1 "unat x"] varint_len_eq [of 2 "unat x"]
      varint_len_eq [of 3 "unat x"] varint_len_eq [of 4 "unat x"]
    by (simp add: word_less_nat_alt not_less)
  then show ?thesis
    using push_spec [OF assms, of _ "VVarint32 x"]
    by (simp add: w_uint32_def Let_def x_def [symmetric] length_varint u)
qed

lemma w_uint64_spec:
  assumes "writer_ok w"
  shows "writer_ok (w_uint64 v w) \<and> levels (w_uint64 v w) = emit (varint (nat (v mod 2 ^ 64))) (levels w)"
proof -
  have "unat (bits64 (from_number v)) = nat (v mod 2 ^ 64)"
    by (simp add: bits64_from_number unat_eq_nat_uint uint_word_of_int)
  then show ?thesis
    using push_spec [OF assms, of _ "VVarint64 (from_number v)"]
    by (simp add: w_uint64_def Let_def length_varint bits_length_groups)
qed

lemma w_int32_spec:
  assumes "writer_ok w" "- (2 ^ 63) \<le> v"
  shows "writer_ok (w_int32 v w) \<and> levels (w_int32 v w)
    = emit (varint (nat (if v < 0 then v mod 2 ^ 64 else v mod 2 ^ 32))) (levels w)"
proof (cases "v < 0")
  case True
  have u: "unat (bits64 (from_number v)) = nat (v mod 2 ^ 64)"
    by (simp add: bits64_from_number unat_eq_nat_uint uint_word_of_int)
  have "v mod 18446744073709551616 = v + 18446744073709551616"
    using True assms(2) mod_pos_pos_trivial [of "v + 18446744073709551616" 18446744073709551616] by simp
  then have "varint_len (nat (v mod 2 ^ 64)) = 10"
    using varint_len_eq [of 9 "nat (v mod 2 ^ 64)"] True assms(2) by simp
  then show ?thesis
    using push_spec [OF assms(1), of 10 "VVarint64 (from_number v)"] True
    by (simp add: w_int32_def length_varint u)
qed (use w_uint32_spec [OF assms(1), of v] in \<open>simp add: w_int32_def\<close>)

lemma sint_32: "sint (w :: u32) = (if uint w < 2 ^ 31 then uint w else uint w - 2 ^ 32)"
proof -
  have u: "uint w < 4294967296" by (rule uint32_lt)
  have "bit (uint w) 31 \<longleftrightarrow> \<not> uint w < 2 ^ 31"
  proof (cases "uint w < 2 ^ 31")
    case False
    then have "uint w div 2 ^ 31 = 1" using u by (simp add: div_pos_geq)
    with False show ?thesis by (simp add: bit_iff_odd)
  qed (simp add: bit_iff_odd)
  with u show ?thesis
    by (simp add: sint_uint signed_take_bit_eq_take_bit_minus take_bit_eq_mod)
qed

lemma zigzag32_uint: "uint (zigzag32 v) = zigzag (sint (to_uint32 v))"
proof -
  let ?w = "to_uint32 v"
  have u: "uint ?w < 2 ^ 32" "0 \<le> uint ?w" using uint32_lt [of ?w] by simp_all
  have s: "bit ?w 31 \<longleftrightarrow> sint ?w < 0"
    by (simp add: sint_uint signed_take_bit_negative_iff bit_uint_iff)
  show ?thesis
  proof (cases "bit ?w 31")
    case True
    then have "zigzag32 v = NOT (?w * 2)"
      by (simp add: zigzag32_def signed_drop_31 push_bit_eq_mult)
    also have "\<dots> = - (?w * 2) - 1" by (simp add: not_eq_complement)
    finally have e: "zigzag32 v = - (?w * 2) - 1" .
    have "uint ?w * 2 mod 2 ^ 32 = (uint ?w * 2 - 2 ^ 32) mod 2 ^ 32" by simp
    also have "\<dots> = uint ?w * 2 - 2 ^ 32"
      using True s u by (intro mod_pos_pos_trivial) (auto simp: sint_32 split: if_splits)
    finally show ?thesis unfolding e
      using True s u by (auto simp: zigzag_def sint_32 uint_word_ariths zmod_zminus1_eq_if)
  next
    case False
    then show ?thesis
      using s u by (auto simp: zigzag32_def signed_drop_31 push_bit_eq_mult zigzag_def sint_32 uint_word_ariths)
  qed
qed

lemma sint_to_uint32: "- (2 ^ 31) \<le> v \<Longrightarrow> v < 2 ^ 31 \<Longrightarrow> sint (to_uint32 v) = v"
  by (simp add: to_uint32_def signed_of_int signed_take_bit_int_eq_self_iff)

lemma w_sint32_spec:
  assumes "writer_ok w" "- (2 ^ 31) \<le> v" "v < 2 ^ 31"
  shows "writer_ok (w_sint32 v w) \<and> levels (w_sint32 v w) = emit (varint (nat (zigzag v))) (levels w)"
proof -
  have "uint (zigzag32 v) = zigzag v" by (simp only: zigzag32_uint sint_to_uint32 [OF assms(2, 3)])
  moreover have "zigzag v mod 2 ^ 32 = zigzag v" using assms(2, 3) by (simp add: zigzag_def)
  ultimately show ?thesis using w_uint32_spec [OF assms(1), of "uint (zigzag32 v)"]
    by (simp add: w_sint32_def)
qed

lemma w_sint64_spec:
  assumes "writer_ok w" "- (2 ^ 63) \<le> v" "v < 2 ^ 63"
  shows "writer_ok (w_sint64 v w) \<and> levels (w_sint64 v w) = emit (varint (nat (zigzag v))) (levels w)"
proof -
  have "sint (bits64 (from_number v)) = v"
    using assms(2, 3) by (simp add: bits64_from_number signed_of_int signed_take_bit_int_eq_self_iff)
  then have "uint (bits64 (zz_encode (from_number v))) = zigzag v" by (simp add: zigzag_bits)
  then have "unat (bits64 (zz_encode (from_number v))) = nat (zigzag v)" by (simp add: unat_eq_nat_uint)
  then show ?thesis
    using push_spec [OF assms(1), of _ "VVarint64 (zz_encode (from_number v))"]
    by (simp add: w_sint64_def Let_def length_varint bits_length_groups)
qed

lemma w_bool_spec:
  "writer_ok w \<Longrightarrow> writer_ok (w_bool v w) \<and> levels (w_bool v w) = emit (varint (of_bool v)) (levels w)"
  using push_spec [of w 1 "VByte (of_bool v)"] by (cases v) (simp_all add: w_bool_def varint.simps)

lemma w_fixed32_spec:
  "writer_ok w \<Longrightarrow> writer_ok (w_fixed32 v w) \<and> levels (w_fixed32 v w) = emit (bytes_of 4 (to_uint32 v)) (levels w)"
  using push_spec [of w 4 "VFixed32 (to_uint32 v)"] by (simp add: w_fixed32_def)

lemma bytes_of_bits64: "bytes_of 4 (lo b) @ bytes_of 4 (hi b) = bytes_of 8 (bits64 b)"
proof -
  have "ucast (drop_bit k (bits64 b)) = (ucast (drop_bit k (lo b)) :: u8)" if "k \<le> 24" for k
    using that by (intro bit_word_eqI) (auto simp: bit_simps bit_bits64)
  moreover have "ucast (drop_bit (32 + k) (bits64 b)) = (ucast (drop_bit k (hi b)) :: u8)" if "k \<le> 24" for k
    using that by (intro bit_word_eqI) (auto simp: bit_simps bit_bits64)
  note this [of 0] this [of 8] this [of 16] this [of 24]
  ultimately show ?thesis
    using \<open>\<And>k. k \<le> 24 \<Longrightarrow> ucast (drop_bit k (bits64 b)) = (ucast (drop_bit k (lo b)) :: u8)\<close> [of 0]
    by (simp add: bytes_of_4 bytes_of_8)
qed

lemma emit_emit: "emit ys (emit xs ls) = emit (xs @ ys) ls"
  by (simp add: emit_def)

lemma push2_spec:
  assumes "writer_ok w \<and> levels w = emit xs ls" "len = length (op_bytes v)" "zs = xs @ op_bytes v"
  shows "writer_ok (push v len w) \<and> levels (push v len w) = emit zs ls"
  using push_spec [of w len v] assms emit_emit by metis

lemma w_fixed64_spec:
  assumes "writer_ok w"
  shows "writer_ok (w_fixed64 v w) \<and> levels (w_fixed64 v w) = emit (bytes_of 8 (word_of_int v :: u64)) (levels w)"
proof -
  let ?b = "from_number v"
  have "writer_ok (push (VFixed32 (lo ?b)) 4 w) \<and>
    levels (push (VFixed32 (lo ?b)) 4 w) = emit (bytes_of 4 (lo ?b)) (levels w)"
    using push_spec [OF assms, of 4 "VFixed32 (lo ?b)"] by simp
  from push2_spec [OF this, of 4 "VFixed32 (hi ?b)" "bytes_of 8 (word_of_int v :: u64)"]
  show ?thesis using bytes_of_bits64 [of ?b] by (simp add: w_fixed64_def Let_def bits64_from_number)
qed

lemma w_float_spec:
  "writer_ok w \<Longrightarrow> writer_ok (w_float f w) \<and> levels (w_float f w) = emit (bytes_of 4 f) (levels w)"
  using push_spec [of w 4 "VFloat f"] by (simp add: w_float_def)

lemma w_double_spec:
  "writer_ok w \<Longrightarrow> writer_ok (w_double d w) \<and> levels (w_double d w) = emit (bytes_of 8 d) (levels w)"
  using push_spec [of w 8 "VDouble d"] by (simp add: w_double_def)

text \<open>A length-delimited field: the length, kept in 32 bits, and the bytes.\<close>

definition delimited :: "u8 list \<Rightarrow> u8 list" where
  "delimited bs = varint (length bs mod 2 ^ 32) @ bs"

lemma nat_len: "nat (int n mod 2 ^ 32) = n mod 2 ^ 32"
  by (simp add: nat_mod_distrib)

lemma varint_0: "varint 0 = [byte_of 0]"
  by (simp add: varint.simps)

lemma w_bytes_spec:
  assumes "writer_ok w"
  shows "writer_ok (w_bytes bs w) \<and> levels (w_bytes bs w) = emit (delimited bs) (levels w)"
proof (cases "bs = []")
  case True
  then show ?thesis using push_spec [OF assms, of 1 "VByte 0"]
    by (simp add: w_bytes_def delimited_def varint_0)
next
  case False
  then show ?thesis
    using push2_spec [OF w_uint32_spec [OF assms, of "int (length bs)"], of "length bs" "VBytes bs" "delimited bs"]
    by (simp only: w_bytes_def Let_def delimited_def nat_len op_bytes.simps length_0_conv if_False)
qed

lemma w_string_spec:
  assumes "writer_ok w"
  shows "writer_ok (w_string s w) \<and> levels (w_string s w) = emit (delimited (utf8_bytes s)) (levels w)"
proof (cases "utf8_bytes s = []")
  case True
  then show ?thesis using push_spec [OF assms, of 1 "VByte 0"]
    by (simp add: w_string_def delimited_def varint_0 utf8_length_bytes)
next
  case False
  then show ?thesis
    using push2_spec [OF w_uint32_spec [OF assms, of "int (length (utf8_bytes s))"],
        of "length (utf8_bytes s)" "VUtf8 s" "delimited (utf8_bytes s)"]
    by (simp only: w_string_def Let_def delimited_def nat_len op_bytes.simps length_0_conv if_False
        utf8_length_bytes if_True simp_thms)
qed

lemma w_fork_spec: "writer_ok w \<Longrightarrow> writer_ok (w_fork w) \<and> levels (w_fork w) = [] # levels w"
  by (simp add: w_fork_def writer_ok_def ops_sized_def levels_def)

definition drop_level :: "u8 list list \<Rightarrow> u8 list list" where
  "drop_level ls = (if tl ls = [] then [[]] else tl ls)"

lemma w_reset_spec: "writer_ok w \<Longrightarrow> writer_ok (w_reset w) \<and> levels (w_reset w) = drop_level (levels w)"
  by (auto simp: w_reset_def writer_ok_def ops_sized_def levels_def drop_level_def split: list.splits)

lemma w_ldelim_spec:
  assumes "writer_ok w"
  shows "writer_ok (w_ldelim w) \<and> levels (w_ldelim w) = emit (delimited (hd (levels w))) (drop_level (levels w))"
proof -
  define v where "v = w_uint32 (int (w_len w)) (w_reset w)"
  have l: "w_len w = length (hd (levels w))" using assms by (simp add: writer_ok_def ops_sized_def levels_def)
  have v: "writer_ok v" "levels v = emit (varint (w_len w mod 2 ^ 32)) (drop_level (levels w))"
    using w_reset_spec [OF assms] w_uint32_spec [of "w_reset w" "int (w_len w)"]
    by (simp_all only: v_def nat_len simp_thms)
  show ?thesis
  proof (cases "w_len w = 0")
    case True
    then have "w_ldelim w = v" by (simp add: w_ldelim_def Let_def v_def)
    then show ?thesis using v l True by (simp add: delimited_def)
  next
    case False
    define u where "u = v\<lparr>w_len := w_len v + w_len w, w_ops := w_ops v @ w_ops w\<rparr>"
    have "writer_ok u" using v(1) assms by (auto simp: u_def writer_ok_def ops_sized_def)
    moreover have "levels u = emit (ops_bytes (w_ops w)) (levels v)" by (simp add: u_def levels_def emit_def)
    moreover have "w_ldelim w = u" using False by (simp add: w_ldelim_def Let_def u_def v_def)
    moreover have "hd (levels w) = ops_bytes (w_ops w)" by (simp add: levels_def)
    ultimately show ?thesis using v(2) l by (simp add: delimited_def emit_emit)
  qed
qed

lemma finish_loop_put:
  "\<forall>h \<in> set ops. op_len h = length (op_bytes (op_val h)) \<Longrightarrow>
   fst (finish_loop le ops buf pos) = put buf pos (ops_bytes ops)"
proof (induction ops arbitrary: buf pos)
  case (Cons h hs)
  then show ?case using op_fn_put [of le "op_val h" buf pos]
    by (simp add: case_prod_beta put_append)
qed simp

lemma w_finish_bytes:
  assumes "writer_ok w"
  shows "fst (w_finish le w) = hd (levels w)"
  using assms
  by (simp add: w_finish_def case_prod_beta writer_ok_def ops_sized_def finish_loop_put levels_def put_all)

section \<open>Sequences of calls\<close>

datatype wcall =
    CUint32 int | CInt32 int | CSint32 int | CUint64 int | CInt64 int | CSint64 int | CBool bool
  | CFixed32 int | CSfixed32 int | CFixed64 int | CSfixed64 int | CFloat u32 | CDouble u64
  | CBytes "u8 list" | CString jsstring | CFork | CReset | CLdelim

text \<open>\<open>int64\<close>, \<open>sfixed32\<close> and \<open>sfixed64\<close> are aliases in the source.\<close>

fun w_call :: "wcall \<Rightarrow> writer \<Rightarrow> writer" where
  "w_call (CUint32 v) w = w_uint32 v w"
| "w_call (CInt32 v) w = w_int32 v w"
| "w_call (CSint32 v) w = w_sint32 v w"
| "w_call (CUint64 v) w = w_uint64 v w"
| "w_call (CInt64 v) w = w_uint64 v w"
| "w_call (CSint64 v) w = w_sint64 v w"
| "w_call (CBool b) w = w_bool b w"
| "w_call (CFixed32 v) w = w_fixed32 v w"
| "w_call (CSfixed32 v) w = w_fixed32 v w"
| "w_call (CFixed64 v) w = w_fixed64 v w"
| "w_call (CSfixed64 v) w = w_fixed64 v w"
| "w_call (CFloat f) w = w_float f w"
| "w_call (CDouble d) w = w_double d w"
| "w_call (CBytes bs) w = w_bytes bs w"
| "w_call (CString s) w = w_string s w"
| "w_call CFork w = w_fork w"
| "w_call CReset w = w_reset w"
| "w_call CLdelim w = w_ldelim w"

text \<open>The wire format, stated without the writer: what each value looks like.\<close>

fun wire :: "wcall \<Rightarrow> u8 list" where
  "wire (CUint32 v) = varint (nat (v mod 2 ^ 32))"
| "wire (CInt32 v) = varint (nat (if v < 0 then v mod 2 ^ 64 else v mod 2 ^ 32))"
| "wire (CSint32 v) = varint (nat (zigzag v))"
| "wire (CUint64 v) = varint (nat (v mod 2 ^ 64))"
| "wire (CInt64 v) = varint (nat (v mod 2 ^ 64))"
| "wire (CSint64 v) = varint (nat (zigzag v))"
| "wire (CBool b) = varint (of_bool b)"
| "wire (CFixed32 v) = bytes_of 4 (word_of_int v :: u32)"
| "wire (CSfixed32 v) = bytes_of 4 (word_of_int v :: u32)"
| "wire (CFixed64 v) = bytes_of 8 (word_of_int v :: u64)"
| "wire (CSfixed64 v) = bytes_of 8 (word_of_int v :: u64)"
| "wire (CFloat f) = bytes_of 4 f"
| "wire (CDouble d) = bytes_of 8 d"
| "wire (CBytes bs) = delimited bs"
| "wire (CString s) = delimited (utf8_bytes s)"
| "wire _ = []"

fun spec_call :: "wcall \<Rightarrow> u8 list list \<Rightarrow> u8 list list" where
  "spec_call CFork ls = [] # ls"
| "spec_call CReset ls = drop_level ls"
| "spec_call CLdelim ls = emit (delimited (hd ls)) (drop_level ls)"
| "spec_call c ls = emit (wire c) ls"

text \<open>The arguments of the declared types.\<close>

fun call_ok :: "wcall \<Rightarrow> bool" where
  "call_ok (CInt32 v) \<longleftrightarrow> - (2 ^ 31) \<le> v \<and> v < 2 ^ 31"
| "call_ok (CSint32 v) \<longleftrightarrow> - (2 ^ 31) \<le> v \<and> v < 2 ^ 31"
| "call_ok (CSint64 v) \<longleftrightarrow> - (2 ^ 63) \<le> v \<and> v < 2 ^ 63"
| "call_ok _ \<longleftrightarrow> True"

lemma w_call_spec:
  assumes "writer_ok w" "call_ok c"
  shows "writer_ok (w_call c w) \<and> levels (w_call c w) = spec_call c (levels w)"
proof (cases c)
  case (CInt32 v)
  then show ?thesis using w_int32_spec [OF assms(1), of v] assms(2) by simp
next
  case (CSint32 v)
  then show ?thesis using w_sint32_spec [OF assms(1), of v] assms(2) by simp
next
  case (CSint64 v)
  then show ?thesis using w_sint64_spec [OF assms(1), of v] assms(2) by simp
qed (use assms(1) w_uint32_spec w_uint64_spec w_bool_spec w_fixed32_spec [unfolded to_uint32_def]
    w_fixed64_spec w_float_spec w_double_spec w_bytes_spec w_string_spec w_fork_spec w_reset_spec w_ldelim_spec
    in \<open>simp_all\<close>)

lemma new_writer_ok: "writer_ok new_writer" "levels new_writer = [[]]"
  by (simp_all add: new_writer_def writer_ok_def ops_sized_def levels_def)

lemma w_calls_spec:
  assumes "writer_ok w" "\<forall>c \<in> set cs. call_ok c"
  shows "writer_ok (fold w_call cs w) \<and> levels (fold w_call cs w) = fold spec_call cs (levels w)"
  using assms
proof (induction cs arbitrary: w)
  case (Cons c cs)
  then show ?case using w_call_spec [of w c] by simp
qed simp

text \<open>C6: the queueing writer refines the direct construction of the bytes: for every sequence of
  calls with arguments of their types, nesting included, the buffer that \<open>finish\<close> returns is what
  appending the wire formats level by level gives, on a platform of either byte order.\<close>

lemma writer_refines_wire:
  assumes "\<forall>c \<in> set cs. call_ok c"
  shows "fst (w_finish le (fold w_call cs new_writer)) = hd (fold spec_call cs [[]])"
  using w_calls_spec [OF new_writer_ok(1) assms] new_writer_ok(2) by (simp add: w_finish_bytes)

lemma writer_refines_wire_witness:
  "fst (w_finish True (fold w_call [CUint32 10, CFork, CSint32 (-2), CString [0x41], CLdelim] new_writer))
   = [10, 3, 3, 1, 0x41]"
proof -
  have "hd (fold spec_call [CUint32 10, CFork, CSint32 (-2), CString [0x41], CLdelim] [[]]) = [10, 3, 3, 1, 0x41]"
    by (simp add: emit_def drop_level_def delimited_def varint.simps zigzag_def is_high_small utf8_unit_def
        byte_of_def)
  with writer_refines_wire [of "[CUint32 10, CFork, CSint32 (-2), CString [0x41], CLdelim]" True]
  show ?thesis by simp
qed

lemma from_number_m1: "from_number (-1) = \<lparr>lo = 0xFFFFFFFF, hi = 0xFFFFFFFF\<rparr>"
  by (simp add: from_number_def to_uint32_def mk_bits_def)

lemma write_m1:
  "write_varint64 \<lparr>lo = 0xFFFFFFFF, hi = 0xFFFFFFFF\<rparr> buf 0
   = (put buf 0 [255, 255, 255, 255, 255, 255, 255, 255, 255, 1], \<lparr>lo = 1, hi = 0\<rparr>)"
  "write_varint64 \<lparr>lo = 1, hi = 0\<rparr> buf 0 = (buf[0 := 1], \<lparr>lo = 1, hi = 0\<rparr>)"
  by (simp_all add: write_varint64.simps write_varint64_lo.simps)

lemma replicate_10: "replicate 10 x = [x, x, x, x, x, x, x, x, x, x]"
  by (simp add: numeral_eq_Suc)

text \<open>\<open>finish\<close> is not idempotent: it consumes the LongBits of a 64-bit varint, so calling it twice
  on a writer holding \<open>int32(-1)\<close> gives ten bytes and then a single 1 followed by zeros.\<close>

lemma finish_twice_differs:
  "let w = w_int32 (-1) new_writer; (b1, w1) = w_finish le w; (b2, w2) = w_finish le w1
   in b1 = [255, 255, 255, 255, 255, 255, 255, 255, 255, 1] \<and> b2 = [1, 0, 0, 0, 0, 0, 0, 0, 0, 0]"
  by (simp add: w_int32_def new_writer_def push_def from_number_m1 w_finish_def new_op_def write_m1 replicate_10)

end
