(* ===== verification/Reader.thy ===== *)
theory Reader
  imports LongBits Utf8 Float
begin

text \<open>
  The Reader of protobuf.js over a \<open>Uint8Array\<close>: a buffer and a position. Every read returns the
  value and the advanced reader or throws; a reader that has thrown is not used further, so the
  position it is left at is only kept where the message of the exception shows it. A byte past the
  end is \<open>undefined\<close>: 0 in bit operations, and not below 128, so that it never ends a varint.
\<close>

unbundle bit_operations_syntax

record reader =
  r_buf :: "u8 list"
  r_pos :: nat

abbreviation r_len :: "reader \<Rightarrow> nat" where
  "r_len r \<equiv> length (r_buf r)"

type_synonym 'a reads = "('a \<times> reader) res"

definition new_reader :: "u8 list \<Rightarrow> reader" where
  "new_reader buffer = \<lparr>r_buf = buffer, r_pos = 0\<rparr>"

definition index_out_of_range :: "reader \<Rightarrow> nat \<Rightarrow> js_error" where
  "index_out_of_range r write_length =
     IndexOutOfRange (r_pos r) (if write_length = 0 then 1 else write_length) (r_len r)"

text \<open>\<open>this.buf[i] < 128\<close>.\<close>

definition ends_at :: "u8 list \<Rightarrow> nat \<Rightarrow> bool" where
  "ends_at buf i \<longleftrightarrow> i < length buf \<and> buf ! i < 128"

section \<open>Varints\<close>

definition r_uint32 :: "reader \<Rightarrow> u32 reads" where
  "r_uint32 r =
     (let b = r_buf r; p = r_pos r; value = octet32 b p AND 127
      in if ends_at b p then Inr (value, r\<lparr>r_pos := p + 1\<rparr>)
         else let value = value OR push_bit 7 (octet32 b (p + 1) AND 127)
      in if ends_at b (p + 1) then Inr (value, r\<lparr>r_pos := p + 2\<rparr>)
         else let value = value OR push_bit 14 (octet32 b (p + 2) AND 127)
      in if ends_at b (p + 2) then Inr (value, r\<lparr>r_pos := p + 3\<rparr>)
         else let value = value OR push_bit 21 (octet32 b (p + 3) AND 127)
      in if ends_at b (p + 3) then Inr (value, r\<lparr>r_pos := p + 4\<rparr>)
         else let value = value OR push_bit 28 (octet32 b (p + 4) AND 15)
      in if ends_at b (p + 4) then Inr (value, r\<lparr>r_pos := p + 5\<rparr>)
         else if p + 10 > length b then Inl (index_out_of_range (r\<lparr>r_pos := length b\<rparr>) 10)
         else Inr (value, r\<lparr>r_pos := p + 10\<rparr>))"

definition r_int32 :: "reader \<Rightarrow> int reads" where
  "r_int32 r = bind_res (r_uint32 r) (\<lambda>(v, r). Inr (sint v, r))"

definition unzigzag32 :: "u32 \<Rightarrow> u32" where
  "unzigzag32 value = (drop_bit 1 value XOR - (value AND 1))"

definition r_sint32 :: "reader \<Rightarrow> int reads" where
  "r_sint32 r = bind_res (r_uint32 r) (\<lambda>(v, r). Inr (sint (unzigzag32 v), r))"

definition r_bool :: "reader \<Rightarrow> bool reads" where
  "r_bool r = bind_res (r_uint32 r) (\<lambda>(v, r). Inr (v \<noteq> 0, r))"

text \<open>
  The loops of \<open>readLongVarint\<close>: for every index, an optional bounds check, the update of the bits
  with the current byte, and the return when the byte is the last one (True).
\<close>

fun lv_for :: "bool \<Rightarrow> (nat \<Rightarrow> u32 \<Rightarrow> longbits \<Rightarrow> longbits) \<Rightarrow> nat list \<Rightarrow> longbits \<Rightarrow> reader
    \<Rightarrow> (bool \<times> longbits \<times> reader) res" where
  "lv_for check upd [] bits r = Inr (False, bits, r)"
| "lv_for check upd (i # is) bits r =
     (if check \<and> r_pos r \<ge> r_len r then Inl (index_out_of_range r 0)
      else let bits = upd i (octet32 (r_buf r) (r_pos r)) bits;
               last = ends_at (r_buf r) (r_pos r);
               r = r\<lparr>r_pos := r_pos r + 1\<rparr>
           in if last then Inr (True, bits, r) else lv_for check upd is bits r)"

definition lv_lo :: "nat \<Rightarrow> u32 \<Rightarrow> longbits \<Rightarrow> longbits" where
  "lv_lo i b bits = bits\<lparr>lo := lo bits OR push_bit (i * 7) (b AND 127)\<rparr>"

definition lv_mid :: "u32 \<Rightarrow> longbits \<Rightarrow> longbits" where
  "lv_mid b bits = bits\<lparr>lo := lo bits OR push_bit 28 (b AND 127), hi := hi bits OR drop_bit 4 (b AND 127)\<rparr>"

definition lv_hi :: "nat \<Rightarrow> u32 \<Rightarrow> longbits \<Rightarrow> longbits" where
  "lv_hi i b bits = bits\<lparr>hi := hi bits OR push_bit (i * 7 + 3) (b AND 127)\<rparr>"

text \<open>The 6th to 10th byte.\<close>

definition lv_finish :: "longbits \<Rightarrow> reader \<Rightarrow> longbits reads" where
  "lv_finish bits r =
     bind_res (lv_for (\<not> r_len r > r_pos r + 4) lv_hi [0..<5] bits r) (\<lambda>(ret, bits, r).
       if ret then Inr (bits, r) else Inl InvalidVarint)"

text \<open>The 5th byte, which fills both halves.\<close>

definition lv_middle :: "longbits \<Rightarrow> reader \<Rightarrow> longbits reads" where
  "lv_middle bits r =
     (let b = octet32 (r_buf r) (r_pos r); bits = lv_mid b bits; last = ends_at (r_buf r) (r_pos r);
          r = r\<lparr>r_pos := r_pos r + 1\<rparr>
      in if last then Inr (bits, r) else lv_finish bits r)"

text \<open>
  With at most four bytes left only three are checked against the end; the fourth is read
  without a check and ends the varint whatever it is.
\<close>

definition read_long_varint :: "reader \<Rightarrow> longbits reads" where
  "read_long_varint r =
     (if r_len r > r_pos r + 4 then
        bind_res (lv_for False lv_lo [0..<4] zero_bits r) (\<lambda>(ret, bits, r).
          if ret then Inr (bits, r) else lv_middle bits r)
      else
        bind_res (lv_for True lv_lo [0..<3] zero_bits r) (\<lambda>(ret, bits, r).
          if ret then Inr (bits, r)
          else Inr (lv_lo 3 (octet32 (r_buf r) (r_pos r)) bits, r\<lparr>r_pos := r_pos r + 1\<rparr>)))"

definition r_int64 :: "reader \<Rightarrow> int reads" where
  "r_int64 r = bind_res (read_long_varint r) (\<lambda>(b, r). Inr (to_number False b, r))"

definition r_uint64 :: "reader \<Rightarrow> int reads" where
  "r_uint64 r = bind_res (read_long_varint r) (\<lambda>(b, r). Inr (to_number True b, r))"

definition r_sint64 :: "reader \<Rightarrow> int reads" where
  "r_sint64 r = bind_res (read_long_varint r) (\<lambda>(b, r). Inr (to_number False (zz_decode b), r))"

section \<open>Fixed-width values\<close>

definition read_fixed32_end :: "u8 list \<Rightarrow> nat \<Rightarrow> u32" where
  "read_fixed32_end buf end' =
     (octet32 buf (end' - 4) OR push_bit 8 (octet32 buf (end' - 3)) OR push_bit 16 (octet32 buf (end' - 2))
      OR push_bit 24 (octet32 buf (end' - 1)))"

definition r_fixed32 :: "reader \<Rightarrow> u32 reads" where
  "r_fixed32 r =
     (if r_pos r + 4 > r_len r then Inl (index_out_of_range r 4)
      else Inr (read_fixed32_end (r_buf r) (r_pos r + 4), r\<lparr>r_pos := r_pos r + 4\<rparr>))"

definition r_sfixed32 :: "reader \<Rightarrow> int reads" where
  "r_sfixed32 r =
     (if r_pos r + 4 > r_len r then Inl (index_out_of_range r 4)
      else Inr (sint (read_fixed32_end (r_buf r) (r_pos r + 4)), r\<lparr>r_pos := r_pos r + 4\<rparr>))"

definition read_fixed64 :: "reader \<Rightarrow> longbits reads" where
  "read_fixed64 r =
     (if r_pos r + 8 > r_len r then Inl (index_out_of_range r 8)
      else Inr (mk_bits (read_fixed32_end (r_buf r) (r_pos r + 4)) (read_fixed32_end (r_buf r) (r_pos r + 8)),
                r\<lparr>r_pos := r_pos r + 8\<rparr>))"

definition r_fixed64 :: "reader \<Rightarrow> int reads" where
  "r_fixed64 r = bind_res (read_fixed64 r) (\<lambda>(b, r). Inr (to_number True b, r))"

definition r_sfixed64 :: "reader \<Rightarrow> int reads" where
  "r_sfixed64 r = bind_res (read_fixed64 r) (\<lambda>(b, r). Inr (to_number False b, r))"

definition r_float :: "bool \<Rightarrow> reader \<Rightarrow> u32 reads" where
  "r_float le r =
     (if r_pos r + 4 > r_len r then Inl (index_out_of_range r 4)
      else Inr (read_float_le le (r_buf r) (r_pos r), r\<lparr>r_pos := r_pos r + 4\<rparr>))"

text \<open>The exception of a truncated double says 4 where 8 bytes are missing.\<close>

definition r_double :: "bool \<Rightarrow> reader \<Rightarrow> u64 reads" where
  "r_double le r =
     (if r_pos r + 8 > r_len r then Inl (index_out_of_range r 4)
      else Inr (read_double_le le (r_buf r) (r_pos r), r\<lparr>r_pos := r_pos r + 8\<rparr>))"

section \<open>Length-delimited values and skipping\<close>

definition r_bytes :: "reader \<Rightarrow> u8 list reads" where
  "r_bytes r =
     bind_res (r_uint32 r) (\<lambda>(len, r).
       let len = unat len; start = r_pos r; end' = r_pos r + len
       in if end' > r_len r then Inl (index_out_of_range r len)
          else Inr (if start = end' then [] else take len (drop start (r_buf r)), r\<lparr>r_pos := r_pos r + len\<rparr>))"

definition r_string :: "reader \<Rightarrow> jsstring reads" where
  "r_string r = bind_res (r_bytes r) (\<lambda>(bytes, r). Inr (utf8_read bytes 0 (length bytes), r))"

definition r_skip :: "nat \<Rightarrow> reader \<Rightarrow> reader res" where
  "r_skip n r =
     (if r_pos r + n > r_len r then Inl (index_out_of_range r n)
      else Inr (r\<lparr>r_pos := r_pos r + n\<rparr>))"

text \<open>\<open>skip()\<close> without an argument: past a varint of any length.\<close>

function r_skip_varint :: "reader \<Rightarrow> reader res" where
  "r_skip_varint r =
     (if r_pos r \<ge> r_len r then Inl (index_out_of_range r 0)
      else let go = octet (r_buf r) (r_pos r) AND 128 \<noteq> 0; r' = r\<lparr>r_pos := r_pos r + 1\<rparr>
           in if go then r_skip_varint r' else Inr r')"
  by pat_completeness auto
termination
  by (relation "measure (\<lambda>r. r_len r - r_pos r)") auto

declare r_skip_varint.simps [simp del]

text \<open>
  \<open>skipType\<close>: the simple wire types, and the groups (wire type 3), whose loop calls
  \<open>skipType\<close> again for every field until the end-group tag.
\<close>

definition skip_simple :: "u32 \<Rightarrow> reader \<Rightarrow> reader res" where
  "skip_simple wire_type r =
     (if wire_type = 0 then r_skip_varint r
      else if wire_type = 1 then r_skip 8 r
      else if wire_type = 2 then bind_res (r_uint32 r) (\<lambda>(n, r). r_skip (unat n) r)
      else if wire_type = 5 then r_skip 4 r
      else Inl (InvalidWireType wire_type (r_pos r)))"

partial_function (option) skip_group :: "reader \<Rightarrow> reader res option" where
  "skip_group r =
     (case r_uint32 r of
        Inl e \<Rightarrow> Some (Inl e)
      | Inr (t, r) \<Rightarrow>
          if t AND 7 = 4 then Some (Inr r)
          else if t AND 7 = 3 then
            Option.bind (skip_group r) (\<lambda>res. case res of Inl e \<Rightarrow> Some (Inl e) | Inr r \<Rightarrow> skip_group r)
          else (case skip_simple (t AND 7) r of Inl e \<Rightarrow> Some (Inl e) | Inr r \<Rightarrow> skip_group r))"

definition skip_type :: "u32 \<Rightarrow> reader \<Rightarrow> reader res option" where
  "skip_type wire_type r = (if wire_type = 3 then skip_group r else Some (skip_simple wire_type r))"

end
