(* ===== verification/ReadBack.thy ===== *)
theory ReadBack
  imports Reader Wire
begin

text \<open>
  The reader on well-formed input: what it returns for the wire format of every value, where it
  leaves the position, and the facts about positions and errors that hold for every input.
\<close>

unbundle bit_operations_syntax

section \<open>The groups of a varint\<close>

lemma varint_len_pos [simp]: "0 < varint_len n" "varint_len n \<noteq> 0"
  by (subst varint_len.simps, simp)+

lemma varint_nth:
  "i < varint_len n \<Longrightarrow>
   varint n ! i = byte_of (n div 128 ^ i mod 128 + (if Suc i = varint_len n then 0 else 128))"
proof (induction n arbitrary: i rule: varint.induct)
  case (1 n)
  show ?case
  proof (cases "n < 128")
    case True
    then show ?thesis using 1(2) by (simp add: varint.simps [of n] varint_len.simps [of n])
  next
    case False
    then show ?thesis
      using 1 by (cases i) (auto simp add: varint.simps [of n] varint_len.simps [of n] div_mult2_eq)
  qed
qed

lemma varint_len_le: "varint_len n \<le> k \<longleftrightarrow> 0 < k \<and> n < 128 ^ k"
proof (induction n arbitrary: k rule: varint_len.induct)
  case (1 n)
  show ?case
  proof (cases "n < 128")
    case True
    then show ?thesis by (cases k) (auto simp: varint_len.simps [of n] intro: less_le_trans)
  next
    case False
    then have s: "varint_len n = Suc (varint_len (n div 128))" by (simp add: varint_len.simps [of n])
    show ?thesis
    proof (cases k)
      case (Suc j)
      then show ?thesis
        using 1 [OF False, of j] False s by (cases j) (auto simp: div_less_iff_less_mult mult.commute)
    qed (simp add: s)
  qed
qed

text \<open>A varint at the position: the low bits of its bytes and where it ends.\<close>

lemma varint_at:
  assumes "drop p buf = varint n @ post" "i < varint_len n"
  shows "octet32 buf (p + i) AND 127 = of_nat (take_bit 7 (drop_bit (7 * i) n))"
    "ends_at buf (p + i) \<longleftrightarrow> Suc i = varint_len n"
    "p + i < length buf"
proof -
  define q where "q = n div 128 ^ i mod 128"
  have q: "q < 128" by (simp add: q_def)
  have "128 ^ i = (2 :: nat) ^ (7 * i)" by (simp add: power_mult)
  then have t: "take_bit 7 (drop_bit (7 * i) n) = q"
    by (simp add: q_def take_bit_eq_mod drop_bit_eq_div)
  have l: "p + i < length buf"
    using arg_cong [OF assms(1), of length] assms(2) by (simp add: length_varint)
  have "drop p buf ! i = varint n ! i" using assms by (simp add: nth_append length_varint)
  then have b: "buf ! (p + i) = byte_of (q + (if Suc i = varint_len n then 0 else 128))"
    using l varint_nth [OF assms(2)] by (simp add: q_def)
  have u: "unat (buf ! (p + i)) = q + (if Suc i = varint_len n then 0 else 128)"
    unfolding b using q by (simp add: unat_byte_of)
  show "ends_at buf (p + i) \<longleftrightarrow> Suc i = varint_len n"
    using l u q by (auto simp: ends_at_def word_less_nat_alt)
  have "unat (octet32 buf (p + i) AND 127) = unat (buf ! (p + i)) AND 127"
    using l unsigned_less [of "buf ! (p + i)", where ?'a = nat]
    by (simp add: octet32_def unsigned_and_eq unsigned_ucast_eq take_bit_eq_mod)
  also have "\<dots> = q" using q by (simp add: u and_masks)
  finally show "octet32 buf (p + i) AND 127 = of_nat (take_bit 7 (drop_bit (7 * i) n))"
    using q by (simp add: t word_unat_eq_iff unat_of_nat)
  show "p + i < length buf" by (rule l)
qed

lemma groups_step:
  "of_nat (take_bit k n) OR push_bit k (of_nat (take_bit 7 (drop_bit k n))) = (of_nat (take_bit (k + 7) n) :: 'a::len word)"
proof (rule bit_word_eqI)
  fix i assume "i < LENGTH('a)"
  then show "bit (of_nat (take_bit k n) OR push_bit k (of_nat (take_bit 7 (drop_bit k n))) :: 'a word) i
      = bit (of_nat (take_bit (k + 7) n) :: 'a word) i"
    by (cases "i < k") (auto simp: bit_or_iff bit_push_bit_iff bit_of_nat_iff bit_take_bit_iff bit_drop_bit_eq)
qed

lemma groups_done: "varint_len n \<le> Suc k \<Longrightarrow> take_bit (7 * k + 7) n = n"
proof -
  assume "varint_len n \<le> Suc k"
  then have "n < 128 ^ Suc k" by (simp only: varint_len_le)
  moreover have "128 ^ Suc k = (2 :: nat) ^ (7 * k + 7)" by (simp add: power_mult power_add)
  ultimately show ?thesis by (simp add: take_bit_nat_eq_self_iff)
qed

section \<open>32-bit varints\<close>

text \<open>The value and the position for every varint of at most 64 bits, except those of 6 to 9 bytes.\<close>

lemma push_28_nibble: "push_bit 28 (x AND 15) = push_bit 28 (x AND 127 :: u32)"
proof -
  have m: "x AND 15 = take_bit 4 x" "x AND 127 = take_bit 7 x"
    by (simp_all add: take_bit_eq_mask mask_eq_exp_minus_1)
  show ?thesis unfolding m by (rule bit_word_eqI) (auto simp: bit_push_bit_iff bit_take_bit_iff)
qed

lemma r_uint32_steps:
  fixes b :: "u8 list" and p :: nat
  defines "g \<equiv> \<lambda>i. octet32 b (p + i) AND 127"
  defines "v1 \<equiv> g 0" and "v2 \<equiv> g 0 OR push_bit 7 (g 1)"
  defines "v3 \<equiv> g 0 OR push_bit 7 (g 1) OR push_bit 14 (g 2)"
  defines "v4 \<equiv> g 0 OR push_bit 7 (g 1) OR push_bit 14 (g 2) OR push_bit 21 (g 3)"
  defines "v5 \<equiv> g 0 OR push_bit 7 (g 1) OR push_bit 14 (g 2) OR push_bit 21 (g 3) OR push_bit 28 (g 4)"
  shows "r_uint32 \<lparr>r_buf = b, r_pos = p\<rparr> =
    (if ends_at b p then Inr (v1, \<lparr>r_buf = b, r_pos = p + 1\<rparr>)
     else if ends_at b (p + 1) then Inr (v2, \<lparr>r_buf = b, r_pos = p + 2\<rparr>)
     else if ends_at b (p + 2) then Inr (v3, \<lparr>r_buf = b, r_pos = p + 3\<rparr>)
     else if ends_at b (p + 3) then Inr (v4, \<lparr>r_buf = b, r_pos = p + 4\<rparr>)
     else if ends_at b (p + 4) then Inr (v5, \<lparr>r_buf = b, r_pos = p + 5\<rparr>)
     else if p + 10 > length b then Inl (IndexOutOfRange (length b) 10 (length b))
     else Inr (v5, \<lparr>r_buf = b, r_pos = p + 10\<rparr>))"
  unfolding r_uint32_def Let_def g_def v1_def v2_def v3_def v4_def v5_def
  by (simp only: push_28_nibble reader.simps add_0_right or.assoc index_out_of_range_def) simp

lemma r_uint32_varint:
  assumes d: "drop p b = varint n @ post" and l: "varint_len n \<le> 5 \<or> varint_len n = 10"
  shows "r_uint32 \<lparr>r_buf = b, r_pos = p\<rparr>
         = Inr (of_nat (take_bit 32 n), \<lparr>r_buf = b, r_pos = p + length (varint n)\<rparr>)"
proof -
  define g where "g i = octet32 b (p + i) AND 127" for i
  define T where "T k = (of_nat (take_bit k n) :: u32)" for k
  have g: "g i = of_nat (take_bit 7 (drop_bit (7 * i) n))" if "i < varint_len n" for i
    unfolding g_def by (rule varint_at(1) [OF d that])
  have e: "ends_at b (p + i) \<longleftrightarrow> Suc i = varint_len n" if "i < varint_len n" for i
    by (rule varint_at(2) [OF d that])
  have step: "T (7 * i) OR push_bit (7 * i) (g i) = T (7 * i + 7)" if "i < varint_len n" for i
    unfolding T_def g [OF that] by (rule groups_step)
  have t0: "g 0 = T 7" unfolding T_def g [OF varint_len_pos(1)] by simp
  have done': "T (7 * j + 7) = T 32" if "varint_len n \<le> Suc j" "7 * j + 7 \<le> 32" for j
  proof -
    have "take_bit 32 n = take_bit 32 (take_bit (7 * j + 7) n)" by (simp only: groups_done [OF that(1)])
    also have "\<dots> = take_bit (7 * j + 7) n" using that(2) by (simp only: take_bit_take_bit min.absorb2)
    finally show ?thesis by (simp only: T_def)
  qed
  have done5: "T 35 = T 32"
    unfolding T_def by (rule bit_word_eqI) (auto simp: bit_of_nat_iff bit_take_bit_iff)
  note s1 = step [of 1, simplified] and s2 = step [of 2, simplified] and s3 = step [of 3, simplified]
    and s4 = step [of 4, simplified]
  have lv: "length (varint n) = varint_len n" by (rule length_varint)
  have ten: "p + 10 \<le> length b" if "varint_len n = 10"
    using arg_cong [OF d, of length] that by (simp add: length_varint)
  note r = r_uint32_steps [of b p, folded g_def]
  consider "varint_len n = 1" | "varint_len n = 2" | "varint_len n = 3" | "varint_len n = 4"
    | "varint_len n = 5 \<or> varint_len n = 10"
    using l varint_len_pos [of n] by linarith
  then show ?thesis
  proof cases
    case 1
    then show ?thesis unfolding r lv T_def [symmetric] using e [of 0] t0 done' [of 0] by simp
  next
    case 2
    then show ?thesis unfolding r lv T_def [symmetric] using e [of 0] e [of 1] t0 s1 done' [of 1]
      by (simp add: or.assoc [symmetric])
  next
    case 3
    then show ?thesis unfolding r lv T_def [symmetric]
      using e [of 0] e [of 1] e [of 2] t0 s1 s2 done' [of 2] by (simp add: or.assoc [symmetric])
  next
    case 4
    then show ?thesis unfolding r lv T_def [symmetric]
      using e [of 0] e [of 1] e [of 2] e [of 3] t0 s1 s2 s3 done' [of 3] by (simp add: or.assoc [symmetric])
  next
    case 5
    then show ?thesis unfolding r lv T_def [symmetric]
      using e [of 0] e [of 1] e [of 2] e [of 3] e [of 4] t0 s1 s2 s3 s4 done5 ten
      by (auto simp add: or.assoc [symmetric])
  qed
qed

section \<open>64-bit varints\<close>

text \<open>Every step of \<open>readLongVarint\<close>, in whichever half it lands, adds one group to the value.\<close>

lemma and_127: "b AND 127 = take_bit 7 (b :: 'a::len word)"
  by (simp add: take_bit_eq_mask mask_eq_exp_minus_1)

lemma not_bit_32: "m \<ge> 32 \<Longrightarrow> \<not> bit (x :: u32) m"
  using bit_imp_le_length [of x m] by auto

lemma bits64_lv_lo:
  assumes "i \<le> 3"
  shows "bits64 (lv_lo i b bits) = bits64 bits OR push_bit (7 * i) (ucast (b AND 127))"
proof (rule bit_word_eqI)
  fix n assume "n < LENGTH(64)"
  then show "bit (bits64 (lv_lo i b bits)) n = bit (bits64 bits OR push_bit (7 * i) (ucast (b AND 127))) n"
    using assms by (auto simp: lv_lo_def bit_bits64 and_127 bit_or_iff bit_push_bit_iff bit_ucast_iff
        bit_take_bit_iff mult.commute)
qed

lemma bits64_lv_mid: "bits64 (lv_mid b bits) = bits64 bits OR push_bit 28 (ucast (b AND 127))"
proof (rule bit_word_eqI)
  fix n assume "n < LENGTH(64)"
  then show "bit (bits64 (lv_mid b bits)) n = bit (bits64 bits OR push_bit 28 (ucast (b AND 127))) n"
    by (cases "n < 28"; cases "n < 32"; cases "n < 35")
      (auto simp: lv_mid_def bit_bits64 and_127 bit_or_iff bit_push_bit_iff bit_ucast_iff
        bit_take_bit_iff bit_drop_bit_eq not_bit_32)
qed

lemma bits64_lv_hi:
  assumes "i \<le> 4"
  shows "bits64 (lv_hi i b bits) = bits64 bits OR push_bit (35 + 7 * i) (ucast (b AND 127))"
proof (rule bit_word_eqI)
  fix n assume "n < LENGTH(64)"
  then show "bit (bits64 (lv_hi i b bits)) n
      = bit (bits64 bits OR push_bit (35 + 7 * i) (ucast (b AND 127))) n"
    using assms by (cases "n < 32"; cases "35 + 7 * i \<le> n")
      (auto simp: lv_hi_def bit_bits64 and_127 bit_or_iff bit_push_bit_iff bit_ucast_iff
        bit_take_bit_iff mult.commute add.commute)
qed

text \<open>The state after \<open>k\<close> groups of the varint of \<open>n\<close> have been read.\<close>

definition after_groups :: "nat \<Rightarrow> nat \<Rightarrow> longbits \<Rightarrow> bool" where
  "after_groups n k bits \<longleftrightarrow> bits64 bits = of_nat (take_bit (7 * k) n)"

lemma ucast_of_unat: "ucast (x :: u32) = (of_nat (unat x) :: u64)"
  by simp

lemma after_groups_step:
  assumes d: "drop p b = varint n @ post" and k: "k < varint_len n" and a: "after_groups n k bits"
    and s: "bits64 bits' = bits64 bits OR push_bit (7 * k) (ucast (octet32 b (p + k) AND 127))"
  shows "after_groups n (Suc k) bits'"
proof -
  have "unat (of_nat (take_bit 7 (drop_bit (7 * k) n)) :: u32) = take_bit 7 (drop_bit (7 * k) n)"
  proof -
    have "take_bit 7 (drop_bit (7 * k) n) < 2 ^ 32"
      using take_bit_nat_less_exp [of 7 "drop_bit (7 * k) n"] by simp
    then show ?thesis by (simp add: unat_of_nat)
  qed
  then have "ucast (octet32 b (p + k) AND 127) = (of_nat (take_bit 7 (drop_bit (7 * k) n)) :: u64)"
    unfolding varint_at(1) [OF d k] ucast_of_unat by (simp only:)
  then show ?thesis
    using groups_step [of "7 * k" n, where 'a = 64] a s by (simp add: after_groups_def add.commute)
qed

lemma after_groups_all:
  assumes "after_groups n k bits" "k = varint_len n"
  shows "bits64 bits = of_nat n"
proof -
  have "0 < k" using assms(2) by simp
  then obtain j where "k = Suc j" by (cases k) auto
  then have "take_bit (7 * k) n = n" using groups_done [of n j] assms(2) by (simp add: add.commute)
  then show ?thesis using assms(1) by (simp add: after_groups_def)
qed

lemma lv_for_varint:
  assumes d: "drop p b = varint n @ post"
    and upd: "\<And>i bits x. a \<le> i \<Longrightarrow> i < c \<Longrightarrow>
      bits64 (upd i x bits) = bits64 bits OR push_bit (7 * (k0 + i)) (ucast (x AND 127))"
    and st: "a \<le> c" "k0 + a < varint_len n" "after_groups n (k0 + a) bits"
  shows "\<exists>bits'. lv_for check upd [a..<c] bits \<lparr>r_buf = b, r_pos = p + k0 + a\<rparr>
    = (if varint_len n \<le> k0 + c
       then Inr (True, bits', \<lparr>r_buf = b, r_pos = p + varint_len n\<rparr>)
       else Inr (False, bits', \<lparr>r_buf = b, r_pos = p + k0 + c\<rparr>))
    \<and> after_groups n (min (varint_len n) (k0 + c)) bits'"
  using upd st
proof (induction "c - a" arbitrary: a bits)
  case 0
  then show ?case by auto
next
  case (Suc m)
  then have ac: "a < c" by simp
  define bits1 where "bits1 = upd a (octet32 b (p + k0 + a)) bits"
  have pk: "p + k0 + a = p + (k0 + a)" by simp
  have l: "p + k0 + a < length b" "ends_at b (p + k0 + a) \<longleftrightarrow> Suc (k0 + a) = varint_len n"
    using varint_at(2, 3) [OF d Suc.prems(3)] by (simp_all only: pk)
  have g: "after_groups n (Suc (k0 + a)) bits1"
    by (rule after_groups_step [OF d Suc.prems(3, 4)]) (simp add: bits1_def Suc.prems(1) ac add.assoc)
  have u: "lv_for check upd [a..<c] bits \<lparr>r_buf = b, r_pos = p + k0 + a\<rparr>
    = (if Suc (k0 + a) = varint_len n then Inr (True, bits1, \<lparr>r_buf = b, r_pos = p + k0 + a + 1\<rparr>)
       else lv_for check upd [Suc a..<c] bits1 \<lparr>r_buf = b, r_pos = p + k0 + Suc a\<rparr>)"
    using l by (simp add: upt_conv_Cons [OF ac] bits1_def Let_def)
  show ?case
  proof (cases "Suc (k0 + a) = varint_len n")
    case True
    then show ?thesis unfolding u using g ac by (intro exI [of _ bits1]) auto
  next
    case False
    then have "k0 + Suc a < varint_len n" using Suc.prems(3) by simp
    moreover have "m = c - Suc a" using Suc.hyps(2) by simp
    ultimately show ?thesis unfolding u if_not_P [OF False]
      using Suc.hyps(1) [of "Suc a" bits1] Suc.prems(1) g ac by simp
  qed
qed

lemma read_long_varint_back:
  assumes d: "drop p b = varint n @ post" and n: "n < 2 ^ 64"
  shows "\<exists>bits. read_long_varint \<lparr>r_buf = b, r_pos = p\<rparr> = Inr (bits, \<lparr>r_buf = b, r_pos = p + length (varint n)\<rparr>)
           \<and> bits64 bits = of_nat n"
proof -
  let ?L = "varint_len n"
  have L10: "?L \<le> 10" using n less_trans [OF n, of "128 ^ 10"] by (simp add: varint_len_le)
  have pL: "p + ?L \<le> length b" using varint_at(3) [OF d, of "?L - 1"] varint_len_pos [of n] by linarith
  have z: "after_groups n 0 zero_bits" by (simp add: after_groups_def zero_bits_def bits64_def)
  have lo: "\<exists>bits'. lv_for check lv_lo [0..<c] zero_bits \<lparr>r_buf = b, r_pos = p\<rparr>
    = (if ?L \<le> c then Inr (True, bits', \<lparr>r_buf = b, r_pos = p + ?L\<rparr>)
       else Inr (False, bits', \<lparr>r_buf = b, r_pos = p + c\<rparr>))
    \<and> after_groups n (min ?L c) bits'" if "c \<le> 4" for check c
    using lv_for_varint [OF d, of 0 c lv_lo 0 zero_bits check] z that bits64_lv_lo
    by (simp cong: if_cong split del: if_split)
  have hi: "\<exists>bits'. lv_for check lv_hi [0..<5] bits \<lparr>r_buf = b, r_pos = p + 5\<rparr>
    = Inr (True, bits', \<lparr>r_buf = b, r_pos = p + ?L\<rparr>) \<and> after_groups n ?L bits'"
    if "after_groups n 5 bits" "5 < ?L" for check bits
    using lv_for_varint [OF d, of 0 5 lv_hi 5 bits check] that L10 bits64_lv_hi
    by (simp cong: if_cong split del: if_split)
  show ?thesis
  proof (cases "length b > p + 4")
    case True
    obtain bits4 where b4: "lv_for False lv_lo [0..<4] zero_bits \<lparr>r_buf = b, r_pos = p\<rparr>
      = (if ?L \<le> 4 then Inr (True, bits4, \<lparr>r_buf = b, r_pos = p + ?L\<rparr>)
         else Inr (False, bits4, \<lparr>r_buf = b, r_pos = p + 4\<rparr>))" "after_groups n (min ?L 4) bits4"
      using lo [of 4 False] by blast
    show ?thesis
    proof (cases "?L \<le> 4")
      case True
      then show ?thesis using b4 \<open>length b > p + 4\<close> after_groups_all [of n ?L bits4]
        by (simp add: read_long_varint_def lv_middle_def lv_finish_def Let_def length_varint)
    next
      case False
      define bits5 where "bits5 = lv_mid (octet32 b (p + 4)) bits4"
      have g5: "after_groups n 5 bits5"
        using after_groups_step [OF d, of 4 bits4 bits5] False b4(2) bits64_lv_mid by (simp add: bits5_def)
      have e: "ends_at b (p + 4) \<longleftrightarrow> 5 = ?L" using varint_at(2) [OF d, of 4] False by simp
      show ?thesis
      proof (cases "?L = 5")
        case True
        then show ?thesis using b4 \<open>length b > p + 4\<close> e after_groups_all [OF g5]
          by (simp add: read_long_varint_def lv_middle_def lv_finish_def Let_def length_varint bits5_def)
      next
        case no5: False
        have "5 < ?L" using False no5 by simp
        then obtain bitsL where "lv_for (\<not> length b > p + 5 + 4) lv_hi [0..<5] bits5 \<lparr>r_buf = b, r_pos = p + 5\<rparr>
          = Inr (True, bitsL, \<lparr>r_buf = b, r_pos = p + ?L\<rparr>)" "after_groups n ?L bitsL"
          using hi [OF g5] by blast
        then show ?thesis using b4 \<open>length b > p + 4\<close> e no5 False after_groups_all [of n ?L bitsL]
          by (simp add: read_long_varint_def lv_middle_def lv_finish_def Let_def length_varint bits5_def add.commute [of p])
      qed
    qed
  next
    case False
    then have L4: "?L \<le> 4" using pL by simp
    obtain bits3 where b3: "lv_for True lv_lo [0..<3] zero_bits \<lparr>r_buf = b, r_pos = p\<rparr>
      = (if ?L \<le> 3 then Inr (True, bits3, \<lparr>r_buf = b, r_pos = p + ?L\<rparr>)
         else Inr (False, bits3, \<lparr>r_buf = b, r_pos = p + 3\<rparr>))" "after_groups n (min ?L 3) bits3"
      using lo [of 3 True] by auto
    show ?thesis
    proof (cases "?L \<le> 3")
      case True
      then show ?thesis using b3 False after_groups_all [of n ?L bits3]
        by (simp add: read_long_varint_def lv_middle_def lv_finish_def Let_def length_varint)
    next
      case no3: False
      define bits4 where "bits4 = lv_lo 3 (octet32 b (p + 3)) bits3"
      have "after_groups n 4 bits4"
        using after_groups_step [OF d, of 3 bits3 bits4] no3 b3(2) bits64_lv_lo [of 3] by (simp add: bits4_def)
      moreover have "4 = ?L" using no3 L4 by simp
      ultimately show ?thesis using b3 False no3 L4 after_groups_all [of n 4 bits4]
        by (simp add: read_long_varint_def lv_middle_def lv_finish_def Let_def length_varint bits4_def)
    qed
  qed
qed

section \<open>Every value is read back\<close>

lemma unat_of_take_32: "unat (of_nat (take_bit 32 n) :: u32) = n mod 2 ^ 32"
  by (simp add: unat_of_nat take_bit_eq_mod)

lemma read_len:
  assumes "n < 2 ^ 32"
  shows "varint_len n \<le> 5 \<or> varint_len n = 10"
  using assms less_trans [OF assms, of "128 ^ 5"] by (simp add: varint_len_le)

lemma uint32_back:
  assumes "drop p b = varint n @ post" "n < 2 ^ 32"
  shows "r_uint32 \<lparr>r_buf = b, r_pos = p\<rparr> = Inr (of_nat n, \<lparr>r_buf = b, r_pos = p + length (varint n)\<rparr>)"
proof -
  have "take_bit 32 n = n" using assms(2) by (simp add: take_bit_nat_eq_self_iff)
  then show ?thesis using r_uint32_varint [OF assms(1) read_len [OF assms(2)]] by simp
qed

lemma sint32_of_int: "- (2 ^ 31) \<le> v \<Longrightarrow> v < 2 ^ 31 \<Longrightarrow> sint (word_of_int v :: u32) = v"
  by (simp add: signed_of_int signed_take_bit_int_eq_self_iff)

lemma int32_back:
  assumes "drop p b = wire (CInt32 v) @ post" "- (2 ^ 31) \<le> v" "v < 2 ^ 31"
  shows "r_int32 \<lparr>r_buf = b, r_pos = p\<rparr> = Inr (v, \<lparr>r_buf = b, r_pos = p + length (wire (CInt32 v))\<rparr>)"
proof -
  define n where "n = nat (if v < 0 then v mod 2 ^ 64 else v mod 2 ^ 32)"
  have d: "drop p b = varint n @ post" using assms(1) by (simp add: n_def)
  have l: "varint_len n \<le> 5 \<or> varint_len n = 10"
  proof (cases "v < 0")
    case True
    have "v mod 18446744073709551616 = v + 18446744073709551616"
      using True assms(2) mod_pos_pos_trivial [of "v + 18446744073709551616" 18446744073709551616] by simp
    then show ?thesis using True assms(2) varint_len_eq [of 9 n] by (simp add: n_def)
  next
    case False
    then show ?thesis using assms(3) by (intro read_len) (simp add: n_def)
  qed
  have "int n mod 2 ^ 32 = v mod 2 ^ 32"
  proof (cases "v < 0")
    case True
    have "v mod 2 ^ 64 mod 2 ^ 32 = v mod 2 ^ 32" by (simp add: mod_mod_cancel)
    with True show ?thesis by (simp add: n_def)
  qed (simp add: n_def)
  then have "(of_nat (take_bit 32 n) :: u32) = word_of_int v"
    by (simp add: word_uint_eq_iff uint_word_of_int unsigned_of_nat take_bit_eq_mod zmod_int)
  then have "sint (of_nat (take_bit 32 n) :: u32) = v" using sint32_of_int [OF assms(2, 3)] by simp
  then show ?thesis
    using r_uint32_varint [OF d l] by (simp add: r_int32_def n_def)
qed

lemma unzigzag32_zigzag: "unzigzag32 (zigzag32 v) = to_uint32 v"
proof (rule bit_word_eqI)
  fix n assume "n < LENGTH(32)"
  then show "bit (unzigzag32 (zigzag32 v)) n = bit (to_uint32 v) n"
    by (cases "n = 31") (auto simp: unzigzag32_def zigzag32_def minus_lsb signed_drop_31 bit_xor_iff
        bit_push_bit_iff bit_drop_bit_eq simp del: push_bit_Suc drop_bit_Suc One_nat_def)
qed

lemma sint32_back:
  assumes "drop p b = wire (CSint32 v) @ post" "- (2 ^ 31) \<le> v" "v < 2 ^ 31"
  shows "r_sint32 \<lparr>r_buf = b, r_pos = p\<rparr> = Inr (v, \<lparr>r_buf = b, r_pos = p + length (wire (CSint32 v))\<rparr>)"
proof -
  have z: "uint (zigzag32 v) = zigzag v" by (simp only: zigzag32_uint sint_to_uint32 [OF assms(2, 3)])
  then have u: "unat (zigzag32 v) = nat (zigzag v)" by (simp add: unat_eq_nat_uint)
  have lt: "nat (zigzag v) < 2 ^ 32" using assms(2, 3) by (simp add: zigzag_def nat_less_iff)
  have "of_nat (nat (zigzag v)) = zigzag32 v" unfolding u [symmetric] by simp
  then show ?thesis
    using uint32_back [of p b "nat (zigzag v)" post] assms(1) lt
    by (simp add: r_sint32_def unzigzag32_zigzag sint_to_uint32 [OF assms(2, 3), simplified])
qed

lemma bool_back:
  assumes "drop p b = wire (CBool v) @ post"
  shows "r_bool \<lparr>r_buf = b, r_pos = p\<rparr> = Inr (v, \<lparr>r_buf = b, r_pos = p + length (wire (CBool v))\<rparr>)"
  using uint32_back [of p b "of_bool v" post] assms by (cases v) (simp_all add: r_bool_def)

lemma long_value:
  assumes "drop p b = varint (nat (v mod 2 ^ 64)) @ post"
  obtains bits where "read_long_varint \<lparr>r_buf = b, r_pos = p\<rparr>
      = Inr (bits, \<lparr>r_buf = b, r_pos = p + length (varint (nat (v mod 2 ^ 64)))\<rparr>)"
    "bits64 bits = word_of_int v"
proof -
  have "nat (v mod 2 ^ 64) < 2 ^ 64" by (simp add: nat_less_iff)
  moreover have "(of_nat (nat (v mod 2 ^ 64)) :: u64) = word_of_int v"
    by (simp add: word_uint_eq_iff uint_word_of_int unsigned_of_nat take_bit_eq_mod zmod_int)
  ultimately show ?thesis using read_long_varint_back [OF assms] that by auto
qed

lemma sint64_of_int: "- (2 ^ 63) \<le> v \<Longrightarrow> v < 2 ^ 63 \<Longrightarrow> sint (word_of_int v :: u64) = v"
  by (simp add: signed_of_int signed_take_bit_int_eq_self_iff)

text \<open>Safe integers: those a double holds exactly with their neighbours.\<close>

definition safe_int :: "int \<Rightarrow> bool" where
  "safe_int v \<longleftrightarrow> \<bar>v\<bar> < 2 ^ 53"

lemma safe_intD: "safe_int v \<Longrightarrow> - (2 ^ 63) \<le> v \<and> v < 2 ^ 63 \<and> round_double v = v"
  by (auto simp: safe_int_def round_double_exact)

lemma int64_back:
  assumes "drop p b = wire (CInt64 v) @ post" "safe_int v"
  shows "r_int64 \<lparr>r_buf = b, r_pos = p\<rparr> = Inr (v, \<lparr>r_buf = b, r_pos = p + length (wire (CInt64 v))\<rparr>)"
proof -
  note s = safe_intD [OF assms(2)]
  obtain bits where "read_long_varint \<lparr>r_buf = b, r_pos = p\<rparr>
      = Inr (bits, \<lparr>r_buf = b, r_pos = p + length (varint (nat (v mod 2 ^ 64)))\<rparr>)"
    "bits64 bits = word_of_int v"
    by (rule long_value [of p b v post]) (use assms(1) in simp_all)
  then show ?thesis using s sint64_of_int [of v] by (simp add: r_int64_def to_number_eq)
qed

lemma uint64_back:
  assumes "drop p b = wire (CUint64 v) @ post" "safe_int v" "0 \<le> v"
  shows "r_uint64 \<lparr>r_buf = b, r_pos = p\<rparr> = Inr (v, \<lparr>r_buf = b, r_pos = p + length (wire (CUint64 v))\<rparr>)"
proof -
  note s = safe_intD [OF assms(2)]
  obtain bits where "read_long_varint \<lparr>r_buf = b, r_pos = p\<rparr>
      = Inr (bits, \<lparr>r_buf = b, r_pos = p + length (varint (nat (v mod 2 ^ 64)))\<rparr>)"
    "bits64 bits = word_of_int v"
    by (rule long_value [of p b v post]) (use assms(1) in simp_all)
  moreover have "v mod 18446744073709551616 = v" using s assms(3) by simp
  ultimately show ?thesis using s by (simp add: r_uint64_def to_number_eq uint_word_of_int)
qed

lemma sint64_back:
  assumes "drop p b = wire (CSint64 v) @ post" "safe_int v"
  shows "r_sint64 \<lparr>r_buf = b, r_pos = p\<rparr> = Inr (v, \<lparr>r_buf = b, r_pos = p + length (wire (CSint64 v))\<rparr>)"
proof -
  note s = safe_intD [OF assms(2)]
  let ?b = "from_number v"
  have sv: "sint (bits64 ?b) = v" using s sint64_of_int [of v] by (simp add: bits64_from_number)
  have z: "uint (bits64 (zz_encode ?b)) = zigzag v" by (simp only: zigzag_bits sv)
  then have u: "unat (bits64 (zz_encode ?b)) = nat (zigzag v)" by (simp add: unat_eq_nat_uint)
  have lt: "nat (zigzag v) < 2 ^ 64" using u unsigned_less [of "bits64 (zz_encode ?b)", where ?'a = nat] by simp
  obtain bits where r: "read_long_varint \<lparr>r_buf = b, r_pos = p\<rparr>
      = Inr (bits, \<lparr>r_buf = b, r_pos = p + length (varint (nat (zigzag v)))\<rparr>)"
    "bits64 bits = of_nat (nat (zigzag v))"
    using read_long_varint_back [of p b "nat (zigzag v)" post] assms(1) lt by auto
  have "bits64 bits = bits64 (zz_encode ?b)" using r(2) unfolding u [symmetric] by simp
  then have "bits = zz_encode ?b" by (metis bits64_inj mk_bits_eta)
  then show ?thesis using r(1) s sv by (simp add: r_sint64_def zz_decode_encode to_number_eq)
qed

lemma fixed32_end: "read_fixed32_end b (p + 4) = read_uint_le b p"
  by (simp add: read_fixed32_end_def read_uint_le_def numeral_eq_Suc)

lemma room: "drop p b = bs @ post \<Longrightarrow> bs \<noteq> [] \<Longrightarrow> p + length bs \<le> length b"
proof -
  assume *: "drop p b = bs @ post" "bs \<noteq> []"
  have "length b - p = length bs + length post" using arg_cong [OF *(1), of length] by simp
  moreover have "0 < length bs" using *(2) by simp
  ultimately show ?thesis by linarith
qed

lemma fixed32_back:
  assumes "drop p b = wire (CFixed32 v) @ post"
  shows "r_fixed32 \<lparr>r_buf = b, r_pos = p\<rparr>
    = Inr (word_of_int v, \<lparr>r_buf = b, r_pos = p + length (wire (CFixed32 v))\<rparr>)"
  using room [OF assms] assms read_uint_le_word [of p b "word_of_int v" post]
  by (simp add: r_fixed32_def fixed32_end bytes_of_4)

lemma sfixed32_back:
  assumes "drop p b = wire (CSfixed32 v) @ post" "- (2 ^ 31) \<le> v" "v < 2 ^ 31"
  shows "r_sfixed32 \<lparr>r_buf = b, r_pos = p\<rparr> = Inr (v, \<lparr>r_buf = b, r_pos = p + length (wire (CSfixed32 v))\<rparr>)"
  using room [OF assms(1)] assms read_uint_le_word [of p b "word_of_int v" post]
  by (simp add: r_sfixed32_def fixed32_end bytes_of_4 sint32_of_int)

lemma fixed64_bits:
  assumes "drop p b = bytes_of 8 w @ post"
  shows "\<exists>bits. read_fixed64 \<lparr>r_buf = b, r_pos = p\<rparr> = Inr (bits, \<lparr>r_buf = b, r_pos = p + 8\<rparr>) \<and> bits64 bits = w"
proof -
  define x where "x = mk_bits (ucast w) (ucast (drop_bit 32 w))"
  have "bits64 x = w" unfolding x_def
    by (rule bit_word_eqI) (auto simp: bit_bits64 bit_ucast_iff bit_drop_bit_eq)
  then have d: "drop p b = bytes_of 4 (lo x) @ bytes_of 4 (hi x) @ post"
    using assms bytes_of_bits64 [of x] by simp
  have d2: "drop (p + 4) b = bytes_of 4 (hi x) @ post"
    using arg_cong [OF d, of "drop 4"] by (simp add: add.commute)
  have r: "p + 8 \<le> length b" using room [OF assms] by (simp add: bytes_of_8)
  have "p + 8 = p + 4 + 4" by simp
  then have "read_fixed32_end b (p + 8) = hi x" using read_uint_le_word [OF d2] by (simp only: fixed32_end)
  moreover have "read_fixed32_end b (p + 4) = lo x" using read_uint_le_word [OF d] by (simp only: fixed32_end)
  ultimately show ?thesis using r \<open>bits64 x = w\<close> by (simp add: read_fixed64_def mk_bits_eta)
qed

lemma fixed64_back:
  assumes "drop p b = wire (CFixed64 v) @ post" "safe_int v" "0 \<le> v"
  shows "r_fixed64 \<lparr>r_buf = b, r_pos = p\<rparr> = Inr (v, \<lparr>r_buf = b, r_pos = p + length (wire (CFixed64 v))\<rparr>)"
proof -
  note s = safe_intD [OF assms(2)]
  obtain bits where "read_fixed64 \<lparr>r_buf = b, r_pos = p\<rparr> = Inr (bits, \<lparr>r_buf = b, r_pos = p + 8\<rparr>)"
    "bits64 bits = word_of_int v"
    using fixed64_bits [of p b "word_of_int v" post] assms(1) by auto
  moreover have "v mod 18446744073709551616 = v" using s assms(3) by simp
  ultimately show ?thesis using s by (simp add: r_fixed64_def to_number_eq uint_word_of_int)
qed

lemma sfixed64_back:
  assumes "drop p b = wire (CSfixed64 v) @ post" "safe_int v"
  shows "r_sfixed64 \<lparr>r_buf = b, r_pos = p\<rparr> = Inr (v, \<lparr>r_buf = b, r_pos = p + length (wire (CSfixed64 v))\<rparr>)"
proof -
  note s = safe_intD [OF assms(2)]
  obtain bits where "read_fixed64 \<lparr>r_buf = b, r_pos = p\<rparr> = Inr (bits, \<lparr>r_buf = b, r_pos = p + 8\<rparr>)"
    "bits64 bits = word_of_int v"
    using fixed64_bits [of p b "word_of_int v" post] assms(1) by auto
  then show ?thesis using s sint64_of_int [of v] by (simp add: r_sfixed64_def to_number_eq)
qed

lemma float_back:
  assumes "drop p b = wire (CFloat v) @ post"
  shows "r_float le \<lparr>r_buf = b, r_pos = p\<rparr> = Inr (v, \<lparr>r_buf = b, r_pos = p + length (wire (CFloat v))\<rparr>)"
proof -
  have d: "drop p b = bytes_of 4 v @ post" using assms by simp
  show ?thesis using room [OF d] read_slice [OF d length_bytes_of]
    by (simp add: r_float_def read_float_le_slice of_bytes_of bytes_of_4 [of v] del: of_bytes.simps)
      (simp add: bytes_of_4 [symmetric] of_bytes_of del: of_bytes.simps)
qed

lemma double_back:
  assumes "drop p b = wire (CDouble v) @ post"
  shows "r_double le \<lparr>r_buf = b, r_pos = p\<rparr> = Inr (v, \<lparr>r_buf = b, r_pos = p + length (wire (CDouble v))\<rparr>)"
proof -
  have d: "drop p b = bytes_of 8 v @ post" using assms by simp
  have "p + 8 \<le> length b" using room [OF d] by (simp add: bytes_of_8)
  then show ?thesis using read_slice [OF d length_bytes_of]
    by (simp add: r_double_def read_double_le_slice of_bytes_of)
qed

lemma bytes_back:
  assumes "drop p b = delimited bs @ post" "length bs < 2 ^ 32"
  shows "r_bytes \<lparr>r_buf = b, r_pos = p\<rparr> = Inr (bs, \<lparr>r_buf = b, r_pos = p + length (delimited bs)\<rparr>)"
proof -
  let ?q = "p + length (varint (length bs))"
  have d: "drop p b = varint (length bs) @ bs @ post" using assms by (simp add: delimited_def)
  have "drop ?q b = bs @ post" using arg_cong [OF d, of "drop (length (varint (length bs)))"] by (simp add: add.commute)
  moreover from this have "?q + length bs \<le> length b" if "bs \<noteq> []" using room that by blast
  moreover have "?q \<le> length b" using room [OF d] by simp
  ultimately show ?thesis
    using uint32_back [OF d assms(2)] assms(2)
    by (cases "bs = []") (simp_all add: r_bytes_def delimited_def unat_of_nat Let_def)
qed

lemma string_back:
  assumes "drop p b = delimited (utf8_bytes s) @ post" "utf8_length s < 2 ^ 32" "utf8_safe s"
  shows "r_string \<lparr>r_buf = b, r_pos = p\<rparr> = Inr (s, \<lparr>r_buf = b, r_pos = p + length (delimited (utf8_bytes s))\<rparr>)"
  using bytes_back [OF assms(1)] assms(2) utf8_read_bytes [of 0 "utf8_bytes s" s "[]"] assms(3)
  by (simp add: r_string_def utf8_length_bytes)

section \<open>Positions on arbitrary input\<close>

text \<open>
  What every successful read does to the reader: the buffer is the same, the position advances;
  except for \<open>readLongVarint\<close> it also stays within the buffer.
\<close>

definition advances :: "reader \<Rightarrow> reader \<Rightarrow> bool" where
  "advances r r' \<longleftrightarrow> r_buf r' = r_buf r \<and> r_pos r < r_pos r'"

definition advances_in :: "reader \<Rightarrow> reader \<Rightarrow> bool" where
  "advances_in r r' \<longleftrightarrow> advances r r' \<and> r_pos r' \<le> r_len r"

lemma ends_at_less: "ends_at b i \<Longrightarrow> i < length b"
  by (simp add: ends_at_def)

lemma r_uint32_in: "r_uint32 r = Inr (v, r') \<Longrightarrow> advances_in r r'"
proof -
  assume a: "r_uint32 r = Inr (v, r')"
  obtain b p where r: "r = \<lparr>r_buf = b, r_pos = p\<rparr>" by (cases r)
  show ?thesis using a unfolding r r_uint32_steps
    by (auto simp: advances_in_def advances_def split: if_splits dest: ends_at_less)
qed

lemma lv_for_pos:
  "lv_for check upd is bits r = Inr (ret, bits', r') \<Longrightarrow>
   r_buf r' = r_buf r \<and> r_pos r \<le> r_pos r' \<and> r_pos r' \<le> r_pos r + length is
   \<and> (is \<noteq> [] \<longrightarrow> r_pos r < r_pos r')"
proof (induction check upd "is" bits r rule: lv_for.induct)
  case (2 check upd i "is" bits r)
  then show ?case by (fastforce simp: Let_def split: if_splits)
qed simp

lemma lv_finish_pos: "lv_finish bits r = Inr (bits', r') \<Longrightarrow> r_buf r' = r_buf r \<and> r_pos r < r_pos r' \<and> r_pos r' \<le> r_pos r + 5"
  unfolding lv_finish_def bind_res_eq_Inr
  by (auto split: if_splits dest!: lv_for_pos)

lemma lv_middle_pos: "lv_middle bits r = Inr (bits', r') \<Longrightarrow> r_buf r' = r_buf r \<and> r_pos r < r_pos r' \<and> r_pos r' \<le> r_pos r + 6"
  by (auto simp: lv_middle_def Let_def split: if_splits dest!: lv_finish_pos)

lemma read_long_pos:
  assumes "read_long_varint r = Inr (bits, r')"
  shows "r_buf r' = r_buf r \<and> r_pos r < r_pos r' \<and> r_pos r' \<le> r_pos r + 10"
proof (cases "r_len r > r_pos r + 4")
  case True
  obtain x where l: "lv_for False lv_lo [0..<4] zero_bits r = Inr x"
    using assms True by (cases "lv_for False lv_lo [0..<4] zero_bits r") (simp_all add: read_long_varint_def)
  obtain ret bits1 r1 where x: "x = (ret, bits1, r1)" by (cases x)
  show ?thesis using lv_for_pos [OF l [unfolded x]] assms True lv_middle_pos [of bits1 r1 bits r']
    by (cases ret) (simp_all add: read_long_varint_def l x)
next
  case False
  obtain x where l: "lv_for True lv_lo [0..<3] zero_bits r = Inr x"
    using assms False by (cases "lv_for True lv_lo [0..<3] zero_bits r") (simp_all add: read_long_varint_def)
  obtain ret bits1 r1 where x: "x = (ret, bits1, r1)" by (cases x)
  show ?thesis using lv_for_pos [OF l [unfolded x]] assms False
    by (cases ret) (auto simp: read_long_varint_def l x)
qed

lemma read_long_advances: "read_long_varint r = Inr (bits, r') \<Longrightarrow> advances r r'"
  using read_long_pos by (simp add: advances_def)

lemma r_skip_pos: "r_skip n r = Inr r' \<Longrightarrow> r_buf r' = r_buf r \<and> r_pos r' = r_pos r + n \<and> r_pos r' \<le> r_len r"
  by (auto simp: r_skip_def split: if_splits)

lemma r_skip_varint_in: "r_skip_varint r = Inr r' \<Longrightarrow> advances_in r r'"
proof (induction r rule: r_skip_varint.induct)
  case (1 r)
  then show ?case
    by (subst (asm) (2) r_skip_varint.simps) (fastforce simp: advances_in_def advances_def Let_def split: if_splits)
qed

lemma skip_simple_in: "skip_simple wt r = Inr r' \<Longrightarrow> advances_in r r'"
proof -
  assume "skip_simple wt r = Inr r'"
  then consider "r_skip_varint r = Inr r'" | n where "n \<in> {4, 8}" "r_skip n r = Inr r'"
    | v r1 where "r_uint32 r = Inr (v, r1)" "r_skip (unat v) r1 = Inr r'"
    by (auto simp: skip_simple_def bind_res_eq_Inr split: if_splits)
  then show ?thesis
  proof cases
    case 1
    then show ?thesis by (rule r_skip_varint_in)
  next
    case 2
    then show ?thesis using r_skip_pos [of n r r'] by (auto simp: advances_in_def advances_def)
  next
    case 3
    then show ?thesis using r_uint32_in [of r] r_skip_pos [of "unat v" r1 r']
      by (auto simp: advances_in_def advances_def)
  qed
qed

lemma advances_in_trans: "advances_in r r1 \<Longrightarrow> advances_in r1 r2 \<Longrightarrow> advances_in r r2"
  by (simp add: advances_in_def advances_def)

lemma skip_group_in: "\<exists>res. skip_group r = Some res \<and> (\<forall>r'. res = Inr r' \<longrightarrow> advances_in r r')"
proof (induction "r_len r - r_pos r" arbitrary: r rule: less_induct)
  case less
  show ?case
  proof (cases "r_uint32 r")
    case (Inl e)
    then show ?thesis by (subst skip_group.simps) simp
  next
    case (Inr tr)
    obtain t r1 where t: "r_uint32 r = Inr (t, r1)" using Inr by (cases tr) simp
    have a1: "advances_in r r1" using r_uint32_in [OF t] .
    have smaller: "\<exists>res. skip_group r2 = Some res \<and> (\<forall>r'. res = Inr r' \<longrightarrow> advances_in r r')"
      if "advances_in r r2" for r2
    proof -
      have "r_len r2 - r_pos r2 < r_len r - r_pos r"
        using that by (auto simp: advances_in_def advances_def)
      from less [OF this] obtain res where "skip_group r2 = Some res" "\<forall>r'. res = Inr r' \<longrightarrow> advances_in r2 r'"
        by blast
      then show ?thesis using advances_in_trans [OF that] by blast
    qed
    consider "t AND 7 = 4" | "t AND 7 \<noteq> 4" "t AND 7 = 3" | "t AND 7 \<noteq> 4" "t AND 7 \<noteq> 3" by blast
    then show ?thesis
    proof cases
      case 1
      then show ?thesis using t a1 by (subst skip_group.simps) simp
    next
      case 2
      obtain res where res: "skip_group r1 = Some res" "\<forall>r'. res = Inr r' \<longrightarrow> advances_in r r'"
        using smaller [OF a1] by blast
      show ?thesis
      proof (cases res)
        case (Inl e)
        then show ?thesis using t 2 res by (subst skip_group.simps) simp
      next
        case (Inr r2)
        then have "skip_group r = skip_group r2" using t 2 res by (subst skip_group.simps) simp
        then show ?thesis using smaller [of r2] res(2) Inr by simp
      qed
    next
      case 3
      show ?thesis
      proof (cases "skip_simple (t AND 7) r1")
        case (Inr r2)
        then have "advances_in r r2" using skip_simple_in [OF Inr] a1 by (auto simp: advances_in_def advances_def)
        moreover have "skip_group r = skip_group r2" using t 3 Inr by (subst skip_group.simps) simp
        ultimately show ?thesis using smaller [of r2] by simp
      next
        case (Inl e)
        then show ?thesis using t 3 by (subst skip_group.simps) simp
      qed
    qed
  qed
qed

lemma skip_type_in:
  "\<exists>res. skip_type wt r = Some res \<and> (\<forall>r'. res = Inr r' \<longrightarrow> advances_in r r')"
  using skip_group_in [of r] skip_simple_in [of wt r] by (simp add: skip_type_def)

text \<open>C30: skipping an unknown field always returns, whatever the bytes and however deep the groups
  nest, and when it succeeds the reader has advanced and is still inside its buffer.\<close>

lemma skip_type_returns:
  "\<exists>res. skip_type wt r = Some res \<and> (\<forall>r'. res = Inr r' \<longrightarrow> advances_in r r')"
  by (rule skip_type_in)

lemma skip_type_returns_witness:
  "\<exists>res. skip_type 3 (new_reader [8, 1, 12, 99]) = Some res \<and> (\<forall>r'. res = Inr r' \<longrightarrow> advances_in (new_reader [8, 1, 12, 99]) r')"
  by (rule skip_type_returns)

section \<open>Truncated and oversized varints\<close>

text \<open>C33: a truncated 32-bit varint never goes unnoticed: if fewer than ten bytes are left and each
  has its continuation bit set, \<open>uint32\<close> throws the RangeError and nothing else.\<close>

lemma uint32_truncated:
  assumes "\<forall>x \<in> set (drop p b). 128 \<le> x" "length b < p + 10"
  shows "r_uint32 \<lparr>r_buf = b, r_pos = p\<rparr> = Inl (IndexOutOfRange (length b) 10 (length b))"
proof -
  have "\<not> ends_at b (p + i)" for i
  proof
    assume e: "ends_at b (p + i)"
    then have "b ! (p + i) \<in> set (drop p b)"
      unfolding in_set_conv_nth by (intro exI [of _ i]) (auto simp: ends_at_def)
    with assms(1) e show False by (auto simp: ends_at_def not_less [symmetric])
  qed
  from this [of 0] this [of 1] this [of 2] this [of 3] this [of 4] show ?thesis
    unfolding r_uint32_steps using assms(2) by simp
qed

lemma uint32_truncated_witness:
  "r_uint32 \<lparr>r_buf = [8, 0x80, 0xFF], r_pos = 1\<rparr> = Inl (IndexOutOfRange 3 10 3)"
  using uint32_truncated [of 1 "[8, 0x80, 0xFF]"] by simp

lemma low_seven: "ucast (k :: u8) AND 127 = (of_nat (unat k mod 128) :: u32)"
proof -
  have "unat (ucast k AND 127 :: u32) = unat k AND 127"
    using unsigned_less [of k, where ?'a = nat] by (simp add: unsigned_and_eq unsigned_ucast_eq take_bit_eq_mod)
  also have "\<dots> = unat k mod 128" by (simp add: and_masks)
  finally show ?thesis by (simp add: word_unat_eq_iff unat_of_nat)
qed

lemma four_groups:
  fixes n :: nat
  assumes "a < 128" "b < 128" "c < 128" "d < 128" and n: "n = a + b * 2 ^ 7 + c * 2 ^ 14 + d * 2 ^ 21"
  shows "n < 2 ^ 28" "take_bit 7 n = a" "take_bit 7 (drop_bit 7 n) = b" "take_bit 7 (drop_bit 14 n) = c"
    "take_bit 7 (drop_bit 21 n) = d"
proof -
  show "n < 2 ^ 28" using assms by simp
  have s: "(e + 128 * m) div 128 = m \<and> (e + 128 * m) mod 128 = e" if "e < 128" for e m :: nat
    using that by simp
  have e: "n = a + 128 * (b + 128 * (c + 128 * d))" using n by simp
  have 1: "n div 128 = b + 128 * (c + 128 * d)" "n mod 128 = a" using s [OF assms(1)] unfolding e by blast+
  have 2: "n div 128 div 128 = c + 128 * d" "n div 128 mod 128 = b" using s [OF assms(2)] unfolding 1 by blast+
  have 3: "n div 128 div 128 div 128 = d" "n div 128 div 128 mod 128 = c" using s [OF assms(3)] unfolding 2 by blast+
  have p: "(2 :: nat) ^ 7 = 128" "(2 :: nat) ^ 14 = 128 * 128" "(2 :: nat) ^ 21 = 128 * 128 * 128" by simp_all
  have q: "d mod 128 = d" using assms(4) by simp
  show "take_bit 7 n = a" "take_bit 7 (drop_bit 7 n) = b" "take_bit 7 (drop_bit 14 n) = c" "take_bit 7 (drop_bit 21 n) = d"
    unfolding take_bit_eq_mod drop_bit_eq_div p div_mult2_eq 1(2) 2(2) 3 q by (rule refl)+
qed

text \<open>\<open>readLongVarint\<close> does not check the fourth of four or fewer remaining bytes. Of a 64-bit varint cut off after
  three bytes it returns the 21 bits read so far, with the reader one byte past the end; of one cut off after four, the
  28 bits, whatever the continuation bit of the fourth says. No exception is thrown.\<close>

lemma long_varint_truncation_missed:
  assumes "128 \<le> x" "128 \<le> y" "128 \<le> z" "length w \<le> 1"
  shows "\<exists>b. read_long_varint \<lparr>r_buf = pre @ x # y # z # w, r_pos = length pre\<rparr>
      = Inr (b, \<lparr>r_buf = pre @ x # y # z # w, r_pos = length pre + 4\<rparr>) \<and>
    to_number True b = int (unat x mod 128 + unat y mod 128 * 2 ^ 7 + unat z mod 128 * 2 ^ 14
      + (case w of [] \<Rightarrow> 0 | v # _ \<Rightarrow> unat v mod 128 * 2 ^ 21))"
proof -
  let ?buf = "pre @ x # y # z # w" and ?p = "length pre"
  let ?v = "octet32 (x # y # z # w) 3"
  have o: "octet32 ?buf ?p = ucast x" "octet32 ?buf (?p + 1) = ucast y" "octet32 ?buf (?p + 2) = ucast z" "octet32 ?buf (?p + 3) = ?v"
    by (simp_all add: octet32_def nth_append)
  have e: "\<not> ends_at ?buf ?p" "\<not> ends_at ?buf (?p + 1)" "\<not> ends_at ?buf (?p + 2)"
    using assms(1-3) by (simp_all add: ends_at_def nth_append not_less)
  define b where "b = lv_lo 3 ?v (lv_lo 2 (ucast z) (lv_lo 1 (ucast y) (lv_lo 0 (ucast x) zero_bits)))"
  have l: "length ?buf - ?p \<le> 4" using assms(4) by simp
  have r: "read_long_varint \<lparr>r_buf = ?buf, r_pos = ?p\<rparr> = Inr (b, \<lparr>r_buf = ?buf, r_pos = ?p + 4\<rparr>)"
    using l o e by (simp add: read_long_varint_def upt_rec b_def numeral_2_eq_2 numeral_3_eq_3)
  define d where "d = (case w of [] \<Rightarrow> 0 | v # _ \<Rightarrow> unat v mod 128)"
  have d: "d < 128" by (simp add: d_def split: list.split)
  define N where "N = unat x mod 128 + unat y mod 128 * 2 ^ 7 + unat z mod 128 * 2 ^ 14 + d * 2 ^ 21"
  have seven: "unat (k :: u8) mod 128 < 128" for k by simp
  note N = four_groups [OF seven seven seven d N_def]
  have m: "ucast (k :: u8) AND 127 = (of_nat (unat k mod 128) :: u32)" for k
    by (rule low_seven)
  have v: "?v AND 127 = of_nat d"
    using assms(4) by (cases w) (simp_all add: octet32_def m d_def)
  have "lo b = of_nat (take_bit 28 N)"
    using groups_step [of 7 N, where ?'a = 32] groups_step [of 14 N, where ?'a = 32] groups_step [of 21 N, where ?'a = 32]
    by (simp add: b_def lv_lo_def zero_bits_def mk_bits_def m v N(2-5) [symmetric])
  then have "lo b = of_nat N" using take_bit_nat_eq_self [OF N(1)] by simp
  moreover have "hi b = 0" by (simp add: b_def lv_lo_def zero_bits_def mk_bits_def)
  moreover have "uint (of_nat N :: u32) = int N" using N(1) by (simp add: unsigned_of_nat take_bit_nat_eq_self)
  ultimately have "uint (bits64 b) = int N" by (simp add: bits64_uint)
  then have "to_number True b = int N" using N(1) round_double_exact [of "int N"] by (simp add: to_number_eq)
  moreover have "N = unat x mod 128 + unat y mod 128 * 2 ^ 7 + unat z mod 128 * 2 ^ 14
      + (case w of [] \<Rightarrow> 0 | v # _ \<Rightarrow> unat v mod 128 * 2 ^ 21)"
    by (simp add: N_def d_def split: list.split)
  ultimately show ?thesis using r by auto
qed

lemma long_varint_truncation_missed_witness:
  "\<exists>b. read_long_varint \<lparr>r_buf = [1, 0x81, 0x80, 0x80], r_pos = 1\<rparr>
      = Inr (b, \<lparr>r_buf = [1, 0x81, 0x80, 0x80], r_pos = 5\<rparr>) \<and> to_number True b = 1"
  using long_varint_truncation_missed [of "0x81" "0x80" "0x80" "[]" "[1]"] by simp

text \<open>A varint of six bytes where a 32-bit value is expected is not skipped correctly: \<open>uint32\<close>
  takes ten bytes, swallowing the four that follow it.\<close>

lemma uint32_six_byte_overrun:
  "r_uint32 \<lparr>r_buf = [0x81, 0x80, 0x80, 0x80, 0x80, 0, 1, 2, 3, 4, 5], r_pos = 0\<rparr>
   = Inr (1, \<lparr>r_buf = [0x81, 0x80, 0x80, 0x80, 0x80, 0, 1, 2, 3, 4, 5], r_pos = 10\<rparr>)"
  unfolding r_uint32_steps by (simp add: ends_at_def octet32_def)

end
