(* ===== verification/Types.thy ===== *)
theory Types
  imports ReadBack
begin

text \<open>
  The type tables of protobuf.js, the values that the generated code handles and the reflected
  fields and message types it is generated from. The type names of the array \<open>s\<close> are the
  constructors of \<open>scalar\<close>; a message type refers to another by its index in the list of types.
\<close>

section \<open>The type tables\<close>

datatype scalar =
    TDouble | TFloat | TInt32 | TUint32 | TSint32 | TFixed32 | TSfixed32
  | TInt64 | TUint64 | TSint64 | TFixed64 | TSfixed64 | TBool | TString | TBytes

definition s_names :: "scalar list" where
  "s_names = [TDouble, TFloat, TInt32, TUint32, TSint32, TFixed32, TSfixed32,
     TInt64, TUint64, TSint64, TFixed64, TSfixed64, TBool, TString, TBytes]"

text \<open>The loop \<open>while (i < values.length) o[s[i + offset]] = values[i++]\<close>.\<close>

fun bake_loop :: "'v list \<Rightarrow> nat \<Rightarrow> (scalar, 'v) props \<Rightarrow> (scalar, 'v) props" where
  "bake_loop [] i o' = o'"
| "bake_loop (v # vs) i o' = bake_loop vs (i + 1) (prop_set o' (s_names ! i) v)"

definition bake :: "'v list \<Rightarrow> nat \<Rightarrow> (scalar, 'v) props" where
  "bake values offset = bake_loop values offset []"

definition types_basic :: "(scalar, nat) props" where
  "types_basic = bake [1, 5, 0, 0, 0, 5, 5, 0, 0, 0, 1, 1, 0, 2, 2] 0"

definition types_long :: "(scalar, nat) props" where
  "types_long = bake [0, 0, 0, 1, 1] 7"

definition types_mapKey :: "(scalar, nat) props" where
  "types_mapKey = bake [0, 0, 0, 5, 5, 0, 0, 0, 1, 1, 0, 2] 2"

definition types_packed :: "(scalar, nat) props" where
  "types_packed = bake [1, 5, 0, 0, 0, 5, 5, 0, 0, 0, 1, 1, 0] 0"

section \<open>Values\<close>

text \<open>
  JavaScript values as the generated code sees them. Integers are exact; a value of a float or
  double field is its IEEE bit pattern. An object lists its own properties in insertion order.
\<close>

datatype jsval =
    JUndef
  | JNull
  | JNum int
  | JF32 u32
  | JF64 u64
  | JBool bool
  | JStr jsstring
  | JBytes "u8 list"
  | JArr "jsval list"
  | JObj "(jsstring \<times> jsval) list"

definition nullish :: "jsval \<Rightarrow> bool" where
  "nullish v \<longleftrightarrow> v = JUndef \<or> v = JNull"

text \<open>The default values; index 15 of the array has no name and is stored under \<open>undefined\<close>.\<close>

definition types_defaults :: "(scalar, jsval) props" where
  "types_defaults = bake [JF64 0, JF32 0, JNum 0, JNum 0, JNum 0, JNum 0, JNum 0,
     JNum 0, JNum 0, JNum 0, JNum 0, JNum 0, JBool False, JStr [], JArr []] 0"

lemma types_basic_eq:
  "types_basic = [(TDouble, 1), (TFloat, 5), (TInt32, 0), (TUint32, 0), (TSint32, 0), (TFixed32, 5),
     (TSfixed32, 5), (TInt64, 0), (TUint64, 0), (TSint64, 0), (TFixed64, 1), (TSfixed64, 1),
     (TBool, 0), (TString, 2), (TBytes, 2)]"
  by (simp add: types_basic_def bake_def s_names_def)

lemma types_long_eq: "types_long = [(TInt64, 0), (TUint64, 0), (TSint64, 0), (TFixed64, 1), (TSfixed64, 1)]"
  by (simp add: types_long_def bake_def s_names_def)

lemma types_mapKey_eq:
  "types_mapKey = [(TInt32, 0), (TUint32, 0), (TSint32, 0), (TFixed32, 5), (TSfixed32, 5), (TInt64, 0),
     (TUint64, 0), (TSint64, 0), (TFixed64, 1), (TSfixed64, 1), (TBool, 0), (TString, 2)]"
  by (simp add: types_mapKey_def bake_def s_names_def)

lemma types_packed_eq:
  "types_packed = [(TDouble, 1), (TFloat, 5), (TInt32, 0), (TUint32, 0), (TSint32, 0), (TFixed32, 5),
     (TSfixed32, 5), (TInt64, 0), (TUint64, 0), (TSint64, 0), (TFixed64, 1), (TSfixed64, 1), (TBool, 0)]"
  by (simp add: types_packed_def bake_def s_names_def)

lemmas type_tables = types_basic_eq types_long_eq types_mapKey_eq types_packed_eq

section \<open>Reflected fields and types\<close>

datatype ftype = Basic scalar | EnumType | MessageType nat

text \<open>
  A field as \<open>resolve\<close> leaves it: \<open>f_default\<close> is what the prototype of a message supplies (an empty
  object when the value is an object), \<open>f_values\<close> the names and values of the enum that it refers to, \<open>f_part_of\<close>
  the oneof that it belongs to and \<open>f_type_default\<close> the default of its type. A map field has a key type and is not repeated.
\<close>

record field =
  f_name :: jsstring
  f_id :: nat
  f_type :: ftype
  f_required :: bool
  f_repeated :: bool
  f_packed :: bool
  f_key :: "scalar option"
  f_default :: jsval
  f_values :: "(jsstring \<times> int) list"
  f_part_of :: "jsstring option"
  f_type_default :: jsval

record mtype =
  t_full_name :: jsstring
  t_fields :: "field list"
  t_group :: bool

type_synonym schema = "mtype list"

text \<open>\<open>field.resolvedType instanceof Enum ? "uint32" : field.type\<close>, None for a message type.\<close>

definition codec_type :: "field \<Rightarrow> scalar option" where
  "codec_type f = (case f_type f of Basic t \<Rightarrow> Some t | EnumType \<Rightarrow> Some TUint32 | MessageType k \<Rightarrow> None)"

text \<open>A property read: own, or the default on the prototype.\<close>

definition get_prop :: "field \<Rightarrow> (jsstring \<times> jsval) list \<Rightarrow> jsval" where
  "get_prop f m = (case prop_get m (f_name f) of Some v \<Rightarrow> v | None \<Rightarrow> f_default f)"

definition has_own :: "(jsstring \<times> jsval) list \<Rightarrow> jsstring \<Rightarrow> bool" where
  "has_own m k \<longleftrightarrow> prop_get m k \<noteq> None"

section \<open>Outcomes\<close>

text \<open>
  An outcome is None where the run leaves the model (a value that JavaScript would coerce, or fuel
  that does not suffice), and otherwise what the code returns or throws.
\<close>

type_synonym 'a outcome = "'a res option"

definition obind :: "'a outcome \<Rightarrow> ('a \<Rightarrow> 'b outcome) \<Rightarrow> 'b outcome" where
  "obind m f = (case m of None \<Rightarrow> None | Some (Inl e) \<Rightarrow> Some (Inl e) | Some (Inr x) \<Rightarrow> f x)"

lemma obind_simps [simp]:
  "obind None f = None" "obind (Some (Inl e)) f = Some (Inl e)" "obind (Some (Inr x)) f = f x"
  by (simp_all add: obind_def)

fun ofold :: "('a \<Rightarrow> 's \<Rightarrow> 's outcome) \<Rightarrow> 'a list \<Rightarrow> 's \<Rightarrow> 's outcome" where
  "ofold f [] s = Some (Inr s)"
| "ofold f (x # xs) s = obind (f x s) (ofold f xs)"

section \<open>Property keys\<close>

text \<open>The decimal string of an integer, as it becomes a property key, and its value.\<close>

fun dec_digits :: "nat \<Rightarrow> jsstring" where
  "dec_digits n = (if n < 10 then [of_nat (48 + n)] else dec_digits (n div 10) @ [of_nat (48 + n mod 10)])"

declare dec_digits.simps [simp del]

definition dec_of_int :: "int \<Rightarrow> jsstring" where
  "dec_of_int v = (if v < 0 then 45 # dec_digits (nat (- v)) else dec_digits (nat v))"

definition is_digit :: "u16 \<Rightarrow> bool" where
  "is_digit c \<longleftrightarrow> 48 \<le> c \<and> c \<le> 57"

definition digits_value :: "jsstring \<Rightarrow> nat" where
  "digits_value s = foldl (\<lambda>n c. n * 10 + (unat c - 48)) 0 s"

definition int_of_dec :: "jsstring \<Rightarrow> int option" where
  "int_of_dec s =
     (case s of
        [] \<Rightarrow> None
      | c # cs \<Rightarrow>
          if c = 45 then (if cs \<noteq> [] \<and> list_all is_digit cs then Some (- int (digits_value cs)) else None)
          else if list_all is_digit s then Some (int (digits_value s)) else None)"

lemma digits_value_snoc: "digits_value (s @ [c]) = digits_value s * 10 + (unat c - 48)"
  by (simp add: digits_value_def)

lemma digit_facts:
  assumes "d < 10"
  shows "is_digit (of_nat (48 + d))" "unat (of_nat (48 + d) :: u16) = 48 + d"
proof -
  show u: "unat (of_nat (48 + d) :: u16) = 48 + d"
    using assms by (simp only: unat_of_nat) simp
  show "is_digit (of_nat (48 + d))" using u assms by (simp add: is_digit_def word_le_nat_alt)
qed

lemma dec_digits_value: "digits_value (dec_digits n) = n \<and> list_all is_digit (dec_digits n) \<and> dec_digits n \<noteq> []"
proof (induction n rule: dec_digits.induct)
  case (1 n)
  show ?case
  proof (cases "n < 10")
    case True
    then show ?thesis using digit_facts [of n] by (subst (1 2 3) dec_digits.simps) (simp add: digits_value_def)
  next
    case False
    have "n mod 10 < 10" by simp
    note d = digit_facts [OF this]
    from False 1 [OF False] d show ?thesis
      by (subst (1 2 3) dec_digits.simps) (simp add: digits_value_snoc)
  qed
qed

lemma int_of_dec_of_int: "int_of_dec (dec_of_int v) = Some v"
proof -
  have m: "\<not> is_digit 45" by (simp add: is_digit_def)
  obtain c cs where c: "dec_digits (nat \<bar>v\<bar>) = c # cs" using dec_digits_value [of "nat \<bar>v\<bar>"] by (cases "dec_digits (nat \<bar>v\<bar>)") auto
  then have "c \<noteq> 45" using dec_digits_value [of "nat \<bar>v\<bar>"] m by auto
  then show ?thesis using dec_digits_value [of "nat \<bar>v\<bar>"] c
    by (cases "v < 0") (auto simp: dec_of_int_def int_of_dec_def)
qed

end
