(* ===== verification/Codec.thy ===== *)
theory Codec
  imports Types
begin

text \<open>
  The code that \<open>encoder\<close> and \<open>decoder\<close> of protobuf.js generate for a message type: the generated
  function is a sequence of statements per field, which \<open>encode_field\<close> and \<open>decode_field\<close> give for
  the field's rule. Sub-messages recurse into the generated code of their type, so both take fuel;
  that it suffices is proved with the properties.
\<close>

unbundle bit_operations_syntax

section \<open>Scalars\<close>

text \<open>\<open>w.<type>(v)\<close>, for a value of the kind that the type is meant for.\<close>

definition scalar_call :: "scalar \<Rightarrow> jsval \<Rightarrow> wcall option" where
  "scalar_call t v =
     (case t of
        TDouble \<Rightarrow> (case v of JF64 d \<Rightarrow> Some (CDouble d) | _ \<Rightarrow> None)
      | TFloat \<Rightarrow> (case v of JF32 f \<Rightarrow> Some (CFloat f) | _ \<Rightarrow> None)
      | TInt32 \<Rightarrow> (case v of JNum v \<Rightarrow> Some (CInt32 v) | _ \<Rightarrow> None)
      | TUint32 \<Rightarrow> (case v of JNum v \<Rightarrow> Some (CUint32 v) | _ \<Rightarrow> None)
      | TSint32 \<Rightarrow> (case v of JNum v \<Rightarrow> Some (CSint32 v) | _ \<Rightarrow> None)
      | TFixed32 \<Rightarrow> (case v of JNum v \<Rightarrow> Some (CFixed32 v) | _ \<Rightarrow> None)
      | TSfixed32 \<Rightarrow> (case v of JNum v \<Rightarrow> Some (CSfixed32 v) | _ \<Rightarrow> None)
      | TInt64 \<Rightarrow> (case v of JNum v \<Rightarrow> Some (CInt64 v) | _ \<Rightarrow> None)
      | TUint64 \<Rightarrow> (case v of JNum v \<Rightarrow> Some (CUint64 v) | _ \<Rightarrow> None)
      | TSint64 \<Rightarrow> (case v of JNum v \<Rightarrow> Some (CSint64 v) | _ \<Rightarrow> None)
      | TFixed64 \<Rightarrow> (case v of JNum v \<Rightarrow> Some (CFixed64 v) | _ \<Rightarrow> None)
      | TSfixed64 \<Rightarrow> (case v of JNum v \<Rightarrow> Some (CSfixed64 v) | _ \<Rightarrow> None)
      | TBool \<Rightarrow> (case v of JBool b \<Rightarrow> Some (CBool b) | _ \<Rightarrow> None)
      | TString \<Rightarrow> (case v of JStr s \<Rightarrow> Some (CString s) | _ \<Rightarrow> None)
      | TBytes \<Rightarrow> (case v of JBytes bs \<Rightarrow> Some (CBytes bs) | _ \<Rightarrow> None))"

definition write_scalar :: "scalar \<Rightarrow> jsval \<Rightarrow> writer \<Rightarrow> writer outcome" where
  "write_scalar t v w = map_option (\<lambda>c. Inr (w_call c w)) (scalar_call t v)"

definition rmap :: "('a \<Rightarrow> jsval) \<Rightarrow> 'a reads \<Rightarrow> jsval reads" where
  "rmap g m = bind_res m (\<lambda>(v, r). Inr (g v, r))"

text \<open>\<open>r.<type>()\<close>.\<close>

fun read_scalar :: "bool \<Rightarrow> scalar \<Rightarrow> reader \<Rightarrow> jsval reads" where
  "read_scalar le TDouble r = rmap JF64 (r_double le r)"
| "read_scalar le TFloat r = rmap JF32 (r_float le r)"
| "read_scalar le TInt32 r = rmap JNum (r_int32 r)"
| "read_scalar le TUint32 r = rmap (\<lambda>v. JNum (uint v)) (r_uint32 r)"
| "read_scalar le TSint32 r = rmap JNum (r_sint32 r)"
| "read_scalar le TFixed32 r = rmap (\<lambda>v. JNum (uint v)) (r_fixed32 r)"
| "read_scalar le TSfixed32 r = rmap JNum (r_sfixed32 r)"
| "read_scalar le TInt64 r = rmap JNum (r_int64 r)"
| "read_scalar le TUint64 r = rmap JNum (r_uint64 r)"
| "read_scalar le TSint64 r = rmap JNum (r_sint64 r)"
| "read_scalar le TFixed64 r = rmap JNum (r_fixed64 r)"
| "read_scalar le TSfixed64 r = rmap JNum (r_sfixed64 r)"
| "read_scalar le TBool r = rmap JBool (r_bool r)"
| "read_scalar le TString r = rmap JStr (r_string r)"
| "read_scalar le TBytes r = rmap JBytes (r_bytes r)"

text \<open>
  A key of a map field is the name of a property, a string, which the writer's operations coerce:
  to a number by parsing it, to a boolean by being non-empty.
\<close>

definition write_key :: "scalar \<Rightarrow> jsstring \<Rightarrow> writer \<Rightarrow> writer outcome" where
  "write_key t k w =
     (case t of
        TString \<Rightarrow> Some (Inr (w_string k w))
      | TBool \<Rightarrow> Some (Inr (w_bool (k \<noteq> []) w))
      | _ \<Rightarrow> (case int_of_dec k of None \<Rightarrow> None | Some v \<Rightarrow> write_scalar t (JNum v) w))"

text \<open>A decoded key becomes a property name.\<close>

fun key_string :: "jsval \<Rightarrow> jsstring option" where
  "key_string (JNum v) = Some (dec_of_int v)"
| "key_string (JBool b) = Some (if b then js ''true'' else js ''false'')"
| "key_string (JStr s) = Some s"
| "key_string _ = None"

text \<open>
  \<open>Object.keys\<close>: the names that are canonical array indices first, in ascending order, then the
  others in insertion order.
\<close>

definition array_index :: "jsstring \<Rightarrow> nat option" where
  "array_index k =
     (case int_of_dec k of
        Some v \<Rightarrow> if 0 \<le> v \<and> v < 4294967295 \<and> dec_of_int v = k then Some (nat v) else None
      | None \<Rightarrow> None)"

definition object_keys :: "(jsstring \<times> 'v) list \<Rightarrow> jsstring list" where
  "object_keys ps =
     (let ks = map fst ps
      in sort_key (\<lambda>k. the (array_index k)) (filter (\<lambda>k. array_index k \<noteq> None) ks)
         @ filter (\<lambda>k. array_index k = None) ks)"

section \<open>Encoding\<close>

text \<open>\<open>(id << 3 | wireType) >>> 0\<close>.\<close>

definition tag :: "nat \<Rightarrow> nat \<Rightarrow> u32" where
  "tag i wt = (push_bit 3 (of_nat i) OR of_nat wt)"

definition w_tag :: "nat \<Rightarrow> nat \<Rightarrow> writer \<Rightarrow> writer" where
  "w_tag i wt w = w_uint32 (uint (tag i wt)) w"

definition basic_wire :: "scalar \<Rightarrow> nat" where
  "basic_wire t = the (prop_get types_basic t)"

definition wreturn :: "writer outcome \<Rightarrow> (writer \<Rightarrow> writer) \<Rightarrow> writer outcome" where
  "wreturn m g = obind m (\<lambda>w. Some (Inr (g w)))"

text \<open>
  \<open>genTypePartial\<close>: a group is written between a start and an end tag, any other message as a
  length-delimited field. \<open>enc T v w\<close> is \<open>types[i].encode(v, w)\<close>.
\<close>

definition encode_message ::
    "schema \<Rightarrow> (mtype \<Rightarrow> jsval \<Rightarrow> writer \<Rightarrow> writer outcome) \<Rightarrow> nat \<Rightarrow> nat \<Rightarrow> jsval \<Rightarrow> writer \<Rightarrow> writer outcome" where
  "encode_message sc enc i k v w =
     (let T = sc ! k
      in if t_group T then wreturn (enc T v (w_tag i 3 w)) (w_tag i 4)
         else wreturn (enc T v (w_fork (w_tag i 2 w))) w_ldelim)"

text \<open>One element of a repeated field that is not packed, or the value of a singular one.\<close>

definition encode_element ::
    "schema \<Rightarrow> (mtype \<Rightarrow> jsval \<Rightarrow> writer \<Rightarrow> writer outcome) \<Rightarrow> field \<Rightarrow> jsval \<Rightarrow> writer \<Rightarrow> writer outcome" where
  "encode_element sc enc f v w =
     (case f_type f of
        MessageType k \<Rightarrow> encode_message sc enc (f_id f) k v w
      | _ \<Rightarrow> (let t = the (codec_type f) in write_scalar t v (w_tag (f_id f) (basic_wire t) w)))"

definition encode_map_entry ::
    "schema \<Rightarrow> (mtype \<Rightarrow> jsval \<Rightarrow> writer \<Rightarrow> writer outcome) \<Rightarrow> field \<Rightarrow> scalar \<Rightarrow> (jsstring \<times> jsval) list
     \<Rightarrow> jsstring \<Rightarrow> writer \<Rightarrow> writer outcome" where
  "encode_map_entry sc enc f kt ps key w =
     (let w = w_uint32 (int (8 OR the (prop_get types_mapKey kt))) (w_fork (w_tag (f_id f) 2 w));
          v = the (prop_get ps key)
      in obind (write_key kt key w) (\<lambda>w.
           case f_type f of
             MessageType k \<Rightarrow> wreturn (enc (sc ! k) v (w_fork (w_uint32 18 w))) (\<lambda>w. w_ldelim (w_ldelim w))
           | _ \<Rightarrow> (let t = the (codec_type f)
                   in wreturn (write_scalar t v (w_uint32 (int (16 OR basic_wire t)) w)) w_ldelim)))"

definition encode_field ::
    "schema \<Rightarrow> (mtype \<Rightarrow> jsval \<Rightarrow> writer \<Rightarrow> writer outcome) \<Rightarrow> (jsstring \<times> jsval) list \<Rightarrow> field
     \<Rightarrow> writer \<Rightarrow> writer outcome" where
  "encode_field sc enc m f w =
     (let v = get_prop f m
      in case f_key f of
           Some kt \<Rightarrow>
             if nullish v \<or> \<not> has_own m (f_name f) then Some (Inr w)
             else (case v of
                     JObj ps \<Rightarrow> ofold (encode_map_entry sc enc f kt ps) (object_keys ps) w
                   | _ \<Rightarrow> None)
         | None \<Rightarrow>
             if f_repeated f then
               if nullish v then Some (Inr w)
               else (case v of
                       JArr vs \<Rightarrow>
                         if vs = [] then Some (Inr w)
                         else (case codec_type f of
                                 Some t \<Rightarrow>
                                   if f_packed f \<and> prop_get types_packed t \<noteq> None
                                   then wreturn (ofold (write_scalar t) vs (w_fork (w_tag (f_id f) 2 w))) w_ldelim
                                   else ofold (encode_element sc enc f) vs w
                               | None \<Rightarrow> ofold (encode_element sc enc f) vs w)
                     | _ \<Rightarrow> None)
             else if \<not> f_required f \<and> (nullish v \<or> \<not> has_own m (f_name f)) then Some (Inr w)
             else encode_element sc enc f v w)"

text \<open>
  The generated \<open>encode(m, w)\<close>. Reading a field of \<open>null\<close> or \<open>undefined\<close> throws a TypeError; a type
  without fields reads nothing.
\<close>

fun encode :: "nat \<Rightarrow> schema \<Rightarrow> mtype \<Rightarrow> jsval \<Rightarrow> writer \<Rightarrow> writer outcome" where
  "encode 0 sc T v w = None"
| "encode (Suc n) sc T v w =
     (let fields = sort_key f_id (t_fields T)
      in if fields = [] then Some (Inr w)
         else if nullish v then Some (Inl (JsTypeError (f_name (hd fields))))
         else case v of
                JObj m \<Rightarrow> ofold (encode_field sc (encode n sc) m) fields w
              | _ \<Rightarrow> None)"

section \<open>The constructor of a message\<close>

text \<open>\<open>new this.ctor\<close>, as \<open>Class.generate\<close> makes it: maps and arrays are initialised as own properties.\<close>

definition new_message :: "mtype \<Rightarrow> (jsstring \<times> jsval) list" where
  "new_message T =
     fold (\<lambda>f m. if f_key f \<noteq> None then own_put m (f_name f) (JObj [])
                 else if f_repeated f then own_put m (f_name f) (JArr []) else m) (t_fields T) []"

section \<open>Decoding\<close>

text \<open>The loop \<open>while (r.pos < c2) push(r.<type>())\<close>.\<close>

partial_function (option) read_while :: "(reader \<Rightarrow> 'v reads) \<Rightarrow> nat \<Rightarrow> reader \<Rightarrow> ('v list \<times> reader) outcome" where
  "read_while rd c r =
     (if r_pos r < c then
        (case rd r of
           Inl e \<Rightarrow> Some (Inl e)
         | Inr (v, r) \<Rightarrow>
             Option.bind (read_while rd c r) (\<lambda>res.
               case res of Inl e \<Rightarrow> Some (Inl e) | Inr (vs, r) \<Rightarrow> Some (Inr (v # vs, r))))
      else Some (Inr ([], r)))"

definition lift_read :: "'a reads \<Rightarrow> ('a \<Rightarrow> reader \<Rightarrow> 'b outcome) \<Rightarrow> 'b outcome" where
  "lift_read m g = (case m of Inl e \<Rightarrow> Some (Inl e) | Inr (v, r) \<Rightarrow> g v r)"

text \<open>
  The value of a field that is not packed: \<open>dec T r None\<close> is \<open>types[i].decode(r)\<close> of a group,
  \<open>dec T r (Some l)\<close> is \<open>types[i].decode(r, l)\<close>.
\<close>

definition decode_element ::
    "bool \<Rightarrow> schema \<Rightarrow> (mtype \<Rightarrow> reader \<Rightarrow> nat option \<Rightarrow> (jsval \<times> reader) outcome) \<Rightarrow> field \<Rightarrow> reader
     \<Rightarrow> (jsval \<times> reader) outcome" where
  "decode_element le sc dec f r =
     (case f_type f of
        MessageType k \<Rightarrow>
          (if t_group (sc ! k) then dec (sc ! k) r None
           else lift_read (r_uint32 r) (\<lambda>l r. dec (sc ! k) r (Some (unat l))))
      | _ \<Rightarrow> Some (read_scalar le (the (codec_type f)) r))"

definition decode_map_entry ::
    "bool \<Rightarrow> schema \<Rightarrow> (mtype \<Rightarrow> reader \<Rightarrow> nat option \<Rightarrow> (jsval \<times> reader) outcome) \<Rightarrow> field \<Rightarrow> scalar
     \<Rightarrow> (jsstring \<times> jsval) list \<Rightarrow> reader \<Rightarrow> ((jsstring \<times> jsval) list \<times> reader) outcome" where
  "decode_map_entry le sc dec f kt m r =
     (case r_skip_varint r of
        Inl e \<Rightarrow> Some (Inl e)
      | Inr r \<Rightarrow>
          (let r = r\<lparr>r_pos := r_pos r + 1\<rparr>;
               ps = (case prop_get m (f_name f) of Some (JObj ps) \<Rightarrow> ps | _ \<Rightarrow> [])
           in lift_read (read_scalar le kt r) (\<lambda>k r.
                let r = r\<lparr>r_pos := r_pos r + 1\<rparr>
                in obind (case f_type f of
                            MessageType j \<Rightarrow> lift_read (r_uint32 r) (\<lambda>l r. dec (sc ! j) r (Some (unat l)))
                          | _ \<Rightarrow> Some (read_scalar le (the (codec_type f)) r))
                     (\<lambda>(v, r). case key_string k of
                        None \<Rightarrow> None
                      | Some ks \<Rightarrow> Some (Inr (own_put m (f_name f) (JObj (own_put ps ks v)), r))))))"

definition decode_field ::
    "bool \<Rightarrow> schema \<Rightarrow> (mtype \<Rightarrow> reader \<Rightarrow> nat option \<Rightarrow> (jsval \<times> reader) outcome) \<Rightarrow> field \<Rightarrow> u32
     \<Rightarrow> (jsstring \<times> jsval) list \<Rightarrow> reader \<Rightarrow> ((jsstring \<times> jsval) list \<times> reader) outcome" where
  "decode_field le sc dec f t m r =
     (case f_key f of
        Some kt \<Rightarrow> decode_map_entry le sc dec f kt m r
      | None \<Rightarrow>
          if f_repeated f then
            let old = (case prop_get m (f_name f) of Some (JArr vs) \<Rightarrow> vs | _ \<Rightarrow> [])
            in case codec_type f of
                 Some st \<Rightarrow>
                   if prop_get types_packed st \<noteq> None \<and> t AND 7 = 2 then
                     lift_read (r_uint32 r) (\<lambda>l r.
                       obind (read_while (read_scalar le st) (unat l + r_pos r) r) (\<lambda>(vs, r).
                         Some (Inr (own_put m (f_name f) (JArr (old @ vs)), r))))
                   else obind (decode_element le sc dec f r) (\<lambda>(v, r).
                          Some (Inr (own_put m (f_name f) (JArr (old @ [v])), r)))
               | None \<Rightarrow> obind (decode_element le sc dec f r) (\<lambda>(v, r).
                          Some (Inr (own_put m (f_name f) (JArr (old @ [v])), r)))
          else obind (decode_element le sc dec f r) (\<lambda>(v, r). Some (Inr (own_put m (f_name f) v, r))))"

text \<open>The check of the required fields, in the order of the type's field array.\<close>

definition missing_required :: "mtype \<Rightarrow> (jsstring \<times> jsval) list \<Rightarrow> jsstring option" where
  "missing_required T m =
     map_option f_name (find (\<lambda>f. f_required f \<and> \<not> has_own m (f_name f)) (t_fields T))"

text \<open>
  The generated \<open>decode(r, l)\<close>: the loop over the tags up to the end \<open>c\<close>, which a group leaves at
  its end-group tag. It starts with what the constructor makes.
\<close>

fun decode_loop :: "nat \<Rightarrow> bool \<Rightarrow> schema \<Rightarrow> mtype \<Rightarrow> nat \<Rightarrow> (jsstring \<times> jsval) list \<Rightarrow> reader
    \<Rightarrow> ((jsstring \<times> jsval) list \<times> reader) outcome"
  and decode :: "nat \<Rightarrow> bool \<Rightarrow> schema \<Rightarrow> mtype \<Rightarrow> reader \<Rightarrow> nat option \<Rightarrow> (jsval \<times> reader) outcome" where
  "decode_loop 0 le sc T c m r = None"
| "decode_loop (Suc n) le sc T c m r =
     (if r_pos r < c then
        lift_read (r_uint32 r) (\<lambda>t r.
          if t_group T \<and> t AND 7 = 4 then Some (Inr (m, r))
          else obind
                 (case find (\<lambda>f. f_id f = unat (drop_bit 3 t)) (t_fields T) of
                    Some f \<Rightarrow> decode_field le sc (\<lambda>T r l. decode n le sc T r l) f t m r
                  | None \<Rightarrow> map_option (\<lambda>res. case res of Inl e \<Rightarrow> Inl e | Inr r \<Rightarrow> Inr (m, r))
                             (skip_type (t AND 7) r))
                 (\<lambda>(m, r). decode_loop n le sc T c m r))
      else Some (Inr (m, r)))"
| "decode 0 le sc T r l = None"
| "decode (Suc n) le sc T r l =
     obind (decode_loop n le sc T (case l of None \<Rightarrow> r_len r | Some k \<Rightarrow> r_pos r + k) (new_message T) r) (\<lambda>(m, r).
       case missing_required T m of
         Some name \<Rightarrow> Some (Inl (MissingRequired name))
       | None \<Rightarrow> Some (Inr (JObj m, r)))"

end
