(* ===== verification/CodecBack.thy ===== *)
theory CodecBack
  imports Codec
begin

text \<open>
  What the generated encoder appends to the writer and what the generated decoder makes of it.
  The interface between the loops of the generated code and the values they read and write is the
  locale \<open>value_codec\<close>; every scalar type is an instance of it.
\<close>

unbundle bit_operations_syntax

section \<open>The interface of a value\<close>

text \<open>
  An encoding and a read operation: a value that is \<open>ok\<close> is read back wherever its bytes stand, and
  a successful read moves the reader forward.
\<close>

locale value_codec =
  fixes enc :: "'v \<Rightarrow> u8 list" and rd :: "reader \<Rightarrow> 'v reads" and ok :: "'v \<Rightarrow> bool"
  assumes reads_back: "ok v \<Longrightarrow> drop p b = enc v @ post \<Longrightarrow>
      rd \<lparr>r_buf = b, r_pos = p\<rparr> = Inr (v, \<lparr>r_buf = b, r_pos = p + length (enc v)\<rparr>)"
    and forward: "rd r = Inr (v, r') \<Longrightarrow> advances r r'"
begin

lemma enc_nonempty: "ok v \<Longrightarrow> enc v \<noteq> []"
  using reads_back [of v 0 "enc v @ []" "[]"] forward [of "\<lparr>r_buf = enc v, r_pos = 0\<rparr>" v]
  by (auto simp: advances_def)

lemma read_while_back:
  "\<forall>v \<in> set vs. ok v \<Longrightarrow> drop p b = concat (map enc vs) @ post \<Longrightarrow>
   read_while rd (p + length (concat (map enc vs))) \<lparr>r_buf = b, r_pos = p\<rparr>
   = Some (Inr (vs, \<lparr>r_buf = b, r_pos = p + length (concat (map enc vs))\<rparr>))"
proof (induction vs arbitrary: p)
  case Nil
  then show ?case by (subst read_while.simps) simp
next
  case (Cons v vs)
  let ?q = "p + length (enc v)"
  have v: "ok v" "drop p b = enc v @ concat (map enc vs) @ post" using Cons.prems by simp_all
  have "drop ?q b = concat (map enc vs) @ post"
    using arg_cong [OF v(2), of "drop (length (enc v))"] by (simp add: add.commute)
  from Cons.IH [OF _ this] Cons.prems(1) enc_nonempty [OF v(1)] show ?case
    by (subst read_while.simps) (simp add: reads_back [OF v] add.assoc)
qed

lemma read_while_returns:
  "\<exists>res. read_while rd c r = Some res \<and> (\<forall>vs r'. res = Inr (vs, r') \<longrightarrow> r_buf r' = r_buf r \<and> r_pos r \<le> r_pos r')"
proof (induction "c - r_pos r" arbitrary: r rule: less_induct)
  case less
  show ?case
  proof (cases "r_pos r < c")
    case False
    then show ?thesis by (subst read_while.simps) simp
  next
    case True
    show ?thesis
    proof (cases "rd r")
      case (Inl e)
      then show ?thesis using True by (subst read_while.simps) simp
    next
      case (Inr x)
      obtain v r1 where x: "x = (v, r1)" by (cases x)
      have a: "advances r r1" using forward Inr x by blast
      then have "c - r_pos r1 < c - r_pos r" using True by (auto simp: advances_def)
      from less [OF this] obtain res where res: "read_while rd c r1 = Some res"
        "\<forall>vs r'. res = Inr (vs, r') \<longrightarrow> r_buf r' = r_buf r1 \<and> r_pos r1 \<le> r_pos r'" by blast
      show ?thesis
        using True Inr x res a by (subst read_while.simps) (cases res; force simp: advances_def)
    qed
  qed
qed

end

section \<open>The scalar types\<close>

definition wire_val :: "scalar \<Rightarrow> jsval \<Rightarrow> u8 list" where
  "wire_val t v = (case scalar_call t v of Some c \<Rightarrow> wire c | None \<Rightarrow> [])"

text \<open>The values of a type that survive the trip.\<close>

definition val_ok :: "scalar \<Rightarrow> jsval \<Rightarrow> bool" where
  "val_ok t v =
     (case scalar_call t v of
        None \<Rightarrow> False
      | Some c \<Rightarrow>
          (case c of
             CUint32 v \<Rightarrow> 0 \<le> v \<and> v < 2 ^ 32
           | CInt32 v \<Rightarrow> - (2 ^ 31) \<le> v \<and> v < 2 ^ 31
           | CSint32 v \<Rightarrow> - (2 ^ 31) \<le> v \<and> v < 2 ^ 31
           | CFixed32 v \<Rightarrow> 0 \<le> v \<and> v < 2 ^ 32
           | CSfixed32 v \<Rightarrow> - (2 ^ 31) \<le> v \<and> v < 2 ^ 31
           | CUint64 v \<Rightarrow> 0 \<le> v \<and> safe_int v
           | CInt64 v \<Rightarrow> safe_int v
           | CSint64 v \<Rightarrow> safe_int v
           | CFixed64 v \<Rightarrow> 0 \<le> v \<and> safe_int v
           | CSfixed64 v \<Rightarrow> safe_int v
           | CBytes bs \<Rightarrow> length bs < 2 ^ 32
           | CString s \<Rightarrow> utf8_length s < 2 ^ 32 \<and> utf8_safe s
           | _ \<Rightarrow> True))"

lemma string_wire_back:
  "drop p b = wire (CString s) @ post \<Longrightarrow> utf8_length s < 2 ^ 32 \<Longrightarrow> utf8_safe s \<Longrightarrow>
   r_string \<lparr>r_buf = b, r_pos = p\<rparr> = Inr (s, \<lparr>r_buf = b, r_pos = p + length (wire (CString s))\<rparr>)"
  using string_back by simp

lemma bytes_wire_back:
  "drop p b = wire (CBytes bs) @ post \<Longrightarrow> length bs < 2 ^ 32 \<Longrightarrow>
   r_bytes \<lparr>r_buf = b, r_pos = p\<rparr> = Inr (bs, \<lparr>r_buf = b, r_pos = p + length (wire (CBytes bs))\<rparr>)"
  using bytes_back by simp

lemma scalar_back:
  assumes "val_ok t v" "drop p b = wire_val t v @ post"
  shows "read_scalar le t \<lparr>r_buf = b, r_pos = p\<rparr> = Inr (v, \<lparr>r_buf = b, r_pos = p + length (wire_val t v)\<rparr>)"
proof -
  obtain c where c: "scalar_call t v = Some c" using assms(1) by (auto simp: val_ok_def split: option.splits)
  have d: "drop p b = wire c @ post" using assms(2) c by (simp add: wire_val_def)
  have u32: "nat (x mod 4294967296) = nat x" "uint (word_of_int x :: u32) = x" "(of_nat (nat x) :: u32) = word_of_int x"
    if "0 \<le> x" "x < 4294967296" for x :: int
    using that by (simp_all add: uint_word_of_int)
  show ?thesis
  proof (cases t)
    case TUint32
    then obtain x where x: "v = JNum x" "c = CUint32 x" using c by (auto simp: scalar_call_def split: jsval.splits)
    then have b: "0 \<le> x" "x < 4294967296" using assms(1) TUint32 by (simp_all add: val_ok_def scalar_call_def)
    show ?thesis using uint32_back [of p b "nat x" post] d b
      by (simp add: TUint32 x u32 [OF b] rmap_def wire_val_def scalar_call_def nat_less_iff)
  next
    case TFixed32
    then obtain x where x: "v = JNum x" "c = CFixed32 x" using c by (auto simp: scalar_call_def split: jsval.splits)
    then have b: "0 \<le> x" "x < 4294967296" using assms(1) TFixed32 by (simp_all add: val_ok_def scalar_call_def)
    show ?thesis using fixed32_back [of p b x post] d b
      by (simp add: TFixed32 x u32 [OF b] rmap_def wire_val_def scalar_call_def)
  qed (use assms(1) c d in \<open>auto simp: val_ok_def scalar_call_def wire_val_def rmap_def int32_back sint32_back
    sfixed32_back int64_back uint64_back sint64_back fixed64_back sfixed64_back float_back double_back bool_back
    bytes_wire_back string_wire_back simp del: wire.simps split: jsval.splits\<close>)
qed

lemma rmap_Inr: "rmap g m = Inr (v, r') \<Longrightarrow> \<exists>x. m = Inr (x, r')"
  by (auto simp: rmap_def bind_res_eq_Inr)

lemma fixed_forward:
  "r_fixed32 r = Inr (a, r') \<Longrightarrow> advances r r'" "r_sfixed32 r = Inr (i, r') \<Longrightarrow> advances r r'"
  "r_float le r = Inr (a, r') \<Longrightarrow> advances r r'" "r_double le r = Inr (d, r') \<Longrightarrow> advances r r'"
  "r_fixed64 r = Inr (i, r') \<Longrightarrow> advances r r'" "r_sfixed64 r = Inr (i, r') \<Longrightarrow> advances r r'"
  by (auto simp: r_fixed32_def r_sfixed32_def r_float_def r_double_def r_fixed64_def r_sfixed64_def
      read_fixed64_def advances_def bind_res_eq_Inr split: if_splits)

lemma varint_forward:
  "r_int32 r = Inr (i, r') \<Longrightarrow> advances r r'" "r_sint32 r = Inr (i, r') \<Longrightarrow> advances r r'"
  "r_bool r = Inr (x, r') \<Longrightarrow> advances r r'" "r_uint32 r = Inr (a, r') \<Longrightarrow> advances r r'"
  "r_int64 r = Inr (i, r') \<Longrightarrow> advances r r'" "r_uint64 r = Inr (i, r') \<Longrightarrow> advances r r'"
  "r_sint64 r = Inr (i, r') \<Longrightarrow> advances r r'"
  by (auto simp: r_int32_def r_sint32_def r_bool_def r_int64_def r_uint64_def r_sint64_def bind_res_eq_Inr
      advances_in_def dest!: r_uint32_in read_long_advances)

lemma delimited_forward:
  "r_bytes r = Inr (bs, r') \<Longrightarrow> advances r r'" "r_string r = Inr (s, r') \<Longrightarrow> advances r r'"
  by (auto simp: r_bytes_def r_string_def bind_res_eq_Inr Let_def advances_def advances_in_def
      split: if_splits dest!: r_uint32_in)

lemma read_scalar_forward: "read_scalar le t r = Inr (v, r') \<Longrightarrow> advances r r'"
  by (cases t) (auto dest!: rmap_Inr dest: fixed_forward varint_forward delimited_forward)

interpretation scalar: value_codec "wire_val t" "read_scalar le t" "val_ok t" for t le
  by unfold_locales (rule scalar_back read_scalar_forward; assumption)+

text \<open>A tag is the 32-bit value that the encoder writes in front of every field.\<close>

interpretation tag32: value_codec "\<lambda>t. varint (unat t)" r_uint32 "\<lambda>t. True"
proof unfold_locales
  fix t :: u32 and p b post
  have "unat t < 2 ^ 32" using unsigned_less [of t, where ?'a = nat] by simp
  then show "drop p b = varint (unat t) @ post \<Longrightarrow>
      r_uint32 \<lparr>r_buf = b, r_pos = p\<rparr> = Inr (t, \<lparr>r_buf = b, r_pos = p + length (varint (unat t))\<rparr>)"
    using uint32_back [of p b "unat t" post] by simp
next
  show "r_uint32 r = Inr (v, r') \<Longrightarrow> advances r r'" for r v r' by (rule varint_forward)
qed

section \<open>What the encoder appends\<close>

text \<open>An operation on the writer that appends the given bytes to the innermost level.\<close>

definition appends :: "(writer \<Rightarrow> writer outcome) \<Rightarrow> u8 list \<Rightarrow> bool" where
  "appends g bs \<longleftrightarrow>
     (\<forall>w. writer_ok w \<longrightarrow> (\<exists>w'. g w = Some (Inr w') \<and> writer_ok w' \<and> levels w' = emit bs (levels w)))"

lemma appends_Nil: "appends (\<lambda>w. Some (Inr w)) []"
  by (simp add: appends_def emit_def levels_def)

lemma levels_not_Nil: "levels w \<noteq> []"
  by (simp add: levels_def)

lemma appends_bind:
  assumes "appends g as" "appends h bs"
  shows "appends (\<lambda>w. obind (g w) h) (as @ bs)"
  unfolding appends_def
proof (intro allI impI)
  fix w assume "writer_ok w"
  then obtain w1 where 1: "g w = Some (Inr w1)" "writer_ok w1" "levels w1 = emit as (levels w)"
    using assms(1) by (auto simp: appends_def)
  then obtain w2 where "h w1 = Some (Inr w2)" "writer_ok w2" "levels w2 = emit bs (levels w1)"
    using assms(2) by (auto simp: appends_def)
  with 1 show "\<exists>w'. obind (g w) h = Some (Inr w') \<and> writer_ok w' \<and> levels w' = emit (as @ bs) (levels w)"
    by (simp add: emit_emit)
qed

lemma appends_ofold:
  assumes "\<And>x. x \<in> set xs \<Longrightarrow> appends (f x) (g x)"
  shows "appends (ofold f xs) (concat (map g xs))"
  using assms
proof (induction xs)
  case Nil
  then show ?case using appends_Nil by (simp add: appends_def)
next
  case (Cons x xs)
  then have "appends (\<lambda>w. obind (f x w) (ofold f xs)) (g x @ concat (map g xs))"
    by (intro appends_bind) simp_all
  then show ?case by (simp add: appends_def)
qed

lemma appends_comp:
  assumes "\<And>w. writer_ok w \<Longrightarrow> writer_ok (k w) \<and> levels (k w) = emit as (levels w)" "appends g bs"
  shows "appends (\<lambda>w. g (k w)) (as @ bs)"
  using assms unfolding appends_def by (metis emit_emit)

lemma appends_fork:
  assumes "appends g bs"
  shows "appends (\<lambda>w. wreturn (g (w_fork w)) w_ldelim) (delimited bs)"
  unfolding appends_def
proof (intro allI impI)
  fix w assume w: "writer_ok w"
  then have f: "writer_ok (w_fork w)" "levels (w_fork w) = [] # levels w" using w_fork_spec by simp_all
  then obtain w1 where 1: "g (w_fork w) = Some (Inr w1)" "writer_ok w1" "levels w1 = bs # levels w"
    using assms by (auto simp: appends_def emit_def)
  then have "writer_ok (w_ldelim w1) \<and> levels (w_ldelim w1) = emit (delimited bs) (levels w)"
    using w_ldelim_spec [of w1] levels_not_Nil [of w] by (simp add: drop_level_def)
  with 1 show "\<exists>w'. wreturn (g (w_fork w)) w_ldelim = Some (Inr w') \<and> writer_ok w'
      \<and> levels w' = emit (delimited bs) (levels w)" by (simp add: wreturn_def)
qed

definition tag_bytes :: "nat \<Rightarrow> nat \<Rightarrow> u8 list" where
  "tag_bytes i wt = varint (unat (tag i wt))"

lemma w_uint32_word:
  assumes "writer_ok w"
  shows "writer_ok (w_uint32 (uint (t :: u32)) w) \<and> levels (w_uint32 (uint t) w) = emit (varint (unat t)) (levels w)"
proof -
  have "nat (uint t mod 2 ^ 32) = unat t"
    using uint32_lt [of t] by (simp only: unat_eq_nat_uint mod_pos_pos_trivial uint_ge_0) simp
  then show ?thesis using w_uint32_spec [OF assms, of "uint t"] by (simp only: simp_thms)
qed

lemma w_tag_spec:
  "writer_ok w \<Longrightarrow> writer_ok (w_tag i wt w) \<and> levels (w_tag i wt w) = emit (tag_bytes i wt) (levels w)"
  unfolding w_tag_def tag_bytes_def by (rule w_uint32_word)

lemma appends_scalar:
  assumes "val_ok t v"
  shows "appends (write_scalar t v) (wire_val t v)"
proof -
  obtain c where c: "scalar_call t v = Some c" using assms by (auto simp: val_ok_def split: option.splits)
  then have "call_ok c" "spec_call c = emit (wire c)"
    using assms by (cases c; auto simp: val_ok_def scalar_call_def safe_int_def fun_eq_iff
        split: scalar.splits jsval.splits)+
  then show ?thesis using w_call_spec [of _ c] c
    by (simp add: appends_def write_scalar_def wire_val_def)
qed

section \<open>Fuel\<close>

text \<open>More fuel does not change an outcome.\<close>

definition extends_dec :: "('t \<Rightarrow> 'r \<Rightarrow> 'l \<Rightarrow> 'x option) \<Rightarrow> ('t \<Rightarrow> 'r \<Rightarrow> 'l \<Rightarrow> 'x option) \<Rightarrow> bool" where
  "extends_dec d d' \<longleftrightarrow> (\<forall>T r l x. d T r l = Some x \<longrightarrow> d' T r l = Some x)"

lemma extends_decD: "extends_dec d d' \<Longrightarrow> d T r l = Some x \<Longrightarrow> d' T r l = Some x"
  by (simp add: extends_dec_def)

lemma obind_Some_iff:
  "obind m f = Some x \<longleftrightarrow> (\<exists>e. m = Some (Inl e) \<and> x = Inl e) \<or> (\<exists>y. m = Some (Inr y) \<and> f y = Some x)"
  by (auto simp: obind_def split: option.splits sum.splits)

lemma obind_mono:
  assumes "obind m f = Some x" "\<And>z. m = Some z \<Longrightarrow> m' = Some z" "\<And>y z. f y = Some z \<Longrightarrow> f' y = Some z"
  shows "obind m' f' = Some x"
  using assms by (auto simp: obind_Some_iff)

lemma lift_read_Some_iff:
  "lift_read m f = Some x \<longleftrightarrow> (\<exists>e. m = Inl e \<and> x = Inl e) \<or> (\<exists>v r. m = Inr (v, r) \<and> f v r = Some x)"
  by (auto simp: lift_read_def split: sum.splits)

lemma decode_element_mono:
  "extends_dec d d' \<Longrightarrow> decode_element le sc d f r = Some x \<Longrightarrow> decode_element le sc d' f r = Some x"
  by (auto simp: decode_element_def lift_read_Some_iff dest: extends_decD split: ftype.splits if_splits)

lemma decode_map_entry_mono:
  assumes "extends_dec d d'" "decode_map_entry le sc d f kt m r = Some x"
  shows "decode_map_entry le sc d' f kt m r = Some x"
proof (cases "r_skip_varint r")
  case (Inr r1)
  show ?thesis using assms Inr
    by (cases "f_type f") (auto simp: decode_map_entry_def Let_def lift_read_Some_iff obind_Some_iff dest: extends_decD)
qed (use assms in \<open>simp add: decode_map_entry_def\<close>)

lemma decode_field_mono:
  assumes "extends_dec d d'" "decode_field le sc d f t m r = Some x"
  shows "decode_field le sc d' f t m r = Some x"
proof (cases "f_key f")
  case (Some kt)
  then show ?thesis using assms decode_map_entry_mono by (simp add: decode_field_def)
next
  case None
  have e: "obind (decode_element le sc d' f r) g = Some x" if "obind (decode_element le sc d f r) g = Some x" for g
    using that decode_element_mono [OF assms(1)] unfolding obind_Some_iff by blast
  show ?thesis using assms(2) None e
    by (auto simp: decode_field_def Let_def split: if_splits option.splits)
qed

lemma decode_mono_Suc:
  "(decode_loop n le sc T c m r = Some x \<longrightarrow> decode_loop (Suc n) le sc T c m r = Some x)
   \<and> (decode n le sc T r' l = Some y \<longrightarrow> decode (Suc n) le sc T r' l = Some y)"
proof (induction n arbitrary: T c m r x r' l y)
  case (Suc n)
  have d: "extends_dec (\<lambda>T r l. decode n le sc T r l) (\<lambda>T r l. decode (Suc n) le sc T r l)"
    using Suc by (simp add: extends_dec_def)
  note f = decode_field_mono [OF d]
  have l: "decode_loop n le sc T c m r = Some x \<Longrightarrow> decode_loop (Suc n) le sc T c m r = Some x" for T c m r x
    using Suc by (simp only: simp_thms)
  have "decode_loop (Suc (Suc n)) le sc T c m r = Some x" if a: "decode_loop (Suc n) le sc T c m r = Some x"
  proof (cases "r_pos r < c")
    case True
    show ?thesis
    proof (cases "r_uint32 r")
      case (Inl e)
      then show ?thesis using a True by (simp add: lift_read_def)
    next
      case (Inr y)
      obtain t r1 where y: "y = (t, r1)" by (cases y)
      show ?thesis
      proof (cases "t_group T \<and> t AND 7 = 4")
        case True
        then show ?thesis using a \<open>r_pos r < c\<close> Inr y by (simp add: lift_read_def)
      next
        case False
        let ?step = "\<lambda>n. case find (\<lambda>f. f_id f = unat (drop_bit 3 t)) (t_fields T) of
            Some f \<Rightarrow> decode_field le sc (\<lambda>T r l. decode n le sc T r l) f t m r1
          | None \<Rightarrow> map_option (\<lambda>res. case res of Inl e \<Rightarrow> Inl e | Inr r \<Rightarrow> Inr (m, r)) (skip_type (t AND 7) r1)"
        have u: "decode_loop (Suc k) le sc T c m r = obind (?step k) (\<lambda>(m, r). decode_loop k le sc T c m r)" for k
          using \<open>r_pos r < c\<close> Inr y False by (subst decode_loop.simps) (auto simp: lift_read_def)
        have s: "?step n = Some z \<Longrightarrow> ?step (Suc n) = Some z" for z
          using f by (auto split: option.splits)
        show ?thesis unfolding u
        proof (rule obind_mono)
          show "obind (?step n) (\<lambda>(m, r). decode_loop n le sc T c m r) = Some x" using a unfolding u .
          show "?step n = Some z \<Longrightarrow> ?step (Suc n) = Some z" for z by (rule s)
          show "(case y of (m, r) \<Rightarrow> decode_loop n le sc T c m r) = Some z \<Longrightarrow>
              (case y of (m, r) \<Rightarrow> decode_loop (Suc n) le sc T c m r) = Some z" for y z
            using l by (cases y) (simp only: prod.case)
        qed
      qed
    qed
  qed (use a in simp)
  moreover have "decode (Suc (Suc n)) le sc T r' l = Some y" if "decode (Suc n) le sc T r' l = Some y"
    using that l unfolding decode.simps(2) obind_Some_iff by blast
  ultimately show ?case by blast
qed simp

lemma decode_loop_mono: "decode_loop n le sc T c m r = Some x \<Longrightarrow> n \<le> k \<Longrightarrow> decode_loop k le sc T c m r = Some x"
  by (induction k) (auto simp del: decode_loop.simps simp: le_Suc_eq decode_mono_Suc)

lemma decode_mono: "decode n le sc T r l = Some x \<Longrightarrow> n \<le> k \<Longrightarrow> decode k le sc T r l = Some x"
  by (induction k) (auto simp del: decode.simps simp: le_Suc_eq decode_mono_Suc)

end
