(* ===== verification/DecodeTotal.thy ===== *)
theory DecodeTotal
  imports CodecBack
begin

text \<open>
  The schemas that the reflection builds, and the proof that the generated decoder returns on every
  input: the fuel that a buffer needs is twice its length.
\<close>

unbundle bit_operations_syntax

section \<open>Schemas\<close>

definition field_wf :: "schema \<Rightarrow> field \<Rightarrow> bool" where
  "field_wf sc f \<longleftrightarrow>
     f_id f < 2 ^ 29 \<and> \<not> (f_repeated f \<and> f_key f \<noteq> None)
     \<and> (case f_type f of MessageType k \<Rightarrow> k < length sc | _ \<Rightarrow> True)
     \<and> (case f_key f of Some kt \<Rightarrow> prop_get types_mapKey kt \<noteq> None | None \<Rightarrow> True)"

definition type_wf :: "schema \<Rightarrow> mtype \<Rightarrow> bool" where
  "type_wf sc T \<longleftrightarrow> distinct (map f_id (t_fields T)) \<and> distinct (map f_name (t_fields T)) \<and> list_all (field_wf sc) (t_fields T)"

definition schema_wf :: "schema \<Rightarrow> bool" where
  "schema_wf sc \<longleftrightarrow> list_all (type_wf sc) sc"

lemma type_wf_nth: "schema_wf sc \<Longrightarrow> k < length sc \<Longrightarrow> type_wf sc (sc ! k)"
  by (simp add: schema_wf_def list_all_length)

section \<open>Runs that return\<close>

text \<open>A run that returns or throws, and leaves the reader on the same buffer and not before \<open>r\<close>.\<close>

definition returns :: "reader \<Rightarrow> ('a \<times> reader) outcome \<Rightarrow> bool" where
  "returns r x \<longleftrightarrow> (\<exists>y. x = Some y \<and> (\<forall>v r'. y = Inr (v, r') \<longrightarrow> r_buf r' = r_buf r \<and> r_pos r \<le> r_pos r'))"

lemma returns_error [simp, intro]: "returns r (Some (Inl e))"
  by (simp add: returns_def)

lemma returns_value [simp]: "returns r (Some (Inr (v, r'))) \<longleftrightarrow> r_buf r' = r_buf r \<and> r_pos r \<le> r_pos r'"
  by (simp add: returns_def)

lemma returns_obind:
  assumes "returns r m" "\<And>v r'. m = Some (Inr (v, r')) \<Longrightarrow> r_buf r' = r_buf r \<Longrightarrow> r_pos r \<le> r_pos r' \<Longrightarrow> returns r (f (v, r'))"
  shows "returns r (obind m f)"
proof -
  obtain y where y: "m = Some y" "\<And>v r'. y = Inr (v, r') \<Longrightarrow> r_buf r' = r_buf r \<and> r_pos r \<le> r_pos r'"
    using assms(1) unfolding returns_def by blast
  show ?thesis
  proof (cases y)
    case (Inr x)
    then obtain v r' where "y = Inr (v, r')" by (cases x) simp
    with assms(2) [of v r'] y(2) [of v r'] y(1) show ?thesis by simp
  qed (simp add: y(1))
qed

lemma returns_lift_read:
  assumes "\<And>v r'. m = Inr (v, r') \<Longrightarrow> returns r (f v r')"
  shows "returns r (lift_read m f)"
proof (cases m)
  case (Inr x)
  with assms show ?thesis by (cases x) (simp add: lift_read_def)
qed (simp add: lift_read_def)

lemma returns_later: "returns r' x \<Longrightarrow> r_buf r' = r_buf r \<Longrightarrow> r_pos r \<le> r_pos r' \<Longrightarrow> returns r x"
  unfolding returns_def by (metis le_trans)

lemma returns_advances: "returns r' x \<Longrightarrow> advances r r' \<Longrightarrow> returns r x"
  by (erule returns_later) (simp_all add: advances_def)

lemma returns_read: "(\<And>v r'. m = Inr (v, r') \<Longrightarrow> advances r r') \<Longrightarrow> returns r (Some m)"
proof (cases m)
  case (Inr x)
  assume "\<And>v r'. m = Inr (v, r') \<Longrightarrow> advances r r'"
  with Inr show ?thesis by (cases x) (simp add: advances_def)
qed simp

text \<open>The generated code of the sub-messages returns on every reader that has advanced.\<close>

definition dec_returns :: "schema \<Rightarrow> reader \<Rightarrow> (mtype \<Rightarrow> reader \<Rightarrow> nat option \<Rightarrow> (jsval \<times> reader) outcome) \<Rightarrow> bool" where
  "dec_returns sc r dec \<longleftrightarrow>
     (\<forall>j r' l. j < length sc \<longrightarrow> r_buf r' = r_buf r \<longrightarrow> r_pos r \<le> r_pos r' \<longrightarrow> returns r' (dec (sc ! j) r' l))"

lemma dec_returnsD:
  "dec_returns sc r dec \<Longrightarrow> j < length sc \<Longrightarrow> r_buf r' = r_buf r \<Longrightarrow> r_pos r \<le> r_pos r' \<Longrightarrow> returns r' (dec (sc ! j) r' l)"
  by (simp add: dec_returns_def)

lemma length_delimited_returns:
  assumes "dec_returns sc r0 dec" "j < length sc" "r_buf r = r_buf r0" "r_pos r0 \<le> r_pos r"
  shows "returns r (lift_read (r_uint32 r) (\<lambda>l r. dec (sc ! j) r (Some (unat l))))"
proof (rule returns_lift_read)
  fix l r' assume "r_uint32 r = Inr (l, r')"
  then have a: "advances r r'" by (rule varint_forward)
  then have "returns r' (dec (sc ! j) r' (Some (unat l)))"
    using assms by (intro dec_returnsD [OF assms(1, 2)]) (simp_all add: advances_def)
  then show "returns r (dec (sc ! j) r' (Some (unat l)))" by (rule returns_advances [OF _ a])
qed

lemma decode_element_returns:
  assumes "field_wf sc f" "dec_returns sc r dec"
  shows "returns r (decode_element le sc dec f r)"
proof (cases "f_type f")
  case (MessageType k)
  then have "k < length sc" using assms(1) by (simp add: field_wf_def)
  then show ?thesis using MessageType length_delimited_returns [OF assms(2)] dec_returnsD [OF assms(2)]
    by (simp add: decode_element_def)
qed (simp_all add: decode_element_def returns_read read_scalar_forward)

lemma map_key_string:
  "read_scalar le kt r = Inr (v, r') \<Longrightarrow> prop_get types_mapKey kt \<noteq> None \<Longrightarrow> key_string v \<noteq> None"
  by (cases kt) (auto simp: type_tables rmap_def bind_res_eq_Inr)

lemma decode_map_entry_returns:
  assumes "field_wf sc f" "f_key f = Some kt" "dec_returns sc r dec"
  shows "returns r (decode_map_entry le sc dec f kt m r)"
proof (cases "r_skip_varint r")
  case (Inr r1)
  then have a1: "advances r r1" using r_skip_varint_in by (simp add: advances_in_def)
  let ?r1 = "r1\<lparr>r_pos := r_pos r1 + 1\<rparr>"
  have kt: "prop_get types_mapKey kt \<noteq> None" using assms(1, 2) by (simp add: field_wf_def)
  show ?thesis unfolding decode_map_entry_def Inr sum.case Let_def
  proof (rule returns_lift_read)
    fix k r2 assume k: "read_scalar le kt ?r1 = Inr (k, r2)"
    let ?r2 = "r2\<lparr>r_pos := r_pos r2 + 1\<rparr>"
    obtain ks where ks: "key_string k = Some ks" using map_key_string [OF k kt] by blast
    have a2: "r_buf ?r2 = r_buf r" "r_pos r \<le> r_pos ?r2"
      using a1 read_scalar_forward [OF k] by (simp_all add: advances_def)
    have "returns ?r2 (case f_type f of MessageType j \<Rightarrow> lift_read (r_uint32 ?r2) (\<lambda>l r. dec (sc ! j) r (Some (unat l)))
        | _ \<Rightarrow> Some (read_scalar le (the (codec_type f)) ?r2))"
      using assms(1) length_delimited_returns [OF assms(3) _ a2]
      by (auto simp: field_wf_def returns_read read_scalar_forward split: ftype.splits)
    from returns_later [OF this a2] show "returns r (obind (case f_type f of
          MessageType j \<Rightarrow> lift_read (r_uint32 ?r2) (\<lambda>l r. dec (sc ! j) r (Some (unat l)))
        | _ \<Rightarrow> Some (read_scalar le (the (codec_type f)) ?r2))
        (\<lambda>(v, r). case key_string k of None \<Rightarrow> None
           | Some ks \<Rightarrow> Some (Inr (own_put m (f_name f) (JObj (own_put
                (case prop_get m (f_name f) of Some (JObj ps) \<Rightarrow> ps | _ \<Rightarrow> []) ks v)), r))))"
      by (rule returns_obind) (simp add: ks)
  qed
qed (simp add: decode_map_entry_def)

lemma decode_field_returns:
  assumes "field_wf sc f" "dec_returns sc r dec"
  shows "returns r (decode_field le sc dec f t m r)"
proof (cases "f_key f")
  case (Some kt)
  then show ?thesis using decode_map_entry_returns [OF assms(1) Some assms(2)] by (simp add: decode_field_def)
next
  case None
  have e: "returns r (obind (decode_element le sc dec f r) (\<lambda>(v, r). Some (Inr (g v, r))))" for g :: "jsval \<Rightarrow> (jsstring \<times> jsval) list"
    by (rule returns_obind [OF decode_element_returns [OF assms]]) simp
  have p: "returns r (lift_read (r_uint32 r) (\<lambda>l r.
        obind (read_while (read_scalar le st) (unat l + r_pos r) r) (\<lambda>(vs, r). Some (Inr (g vs, r)))))"
    for st and g :: "jsval list \<Rightarrow> (jsstring \<times> jsval) list"
  proof (rule returns_lift_read)
    fix l r1 assume "r_uint32 r = Inr (l, r1)"
    then have a: "advances r r1" by (rule varint_forward)
    have "returns r1 (read_while (read_scalar le st) (unat l + r_pos r1) r1)"
      using scalar.read_while_returns [of le st "unat l + r_pos r1" r1] by (auto simp: returns_def)
    then have "returns r1 (obind (read_while (read_scalar le st) (unat l + r_pos r1) r1) (\<lambda>(vs, r). Some (Inr (g vs, r))))"
      by (rule returns_obind) simp
    then show "returns r (obind (read_while (read_scalar le st) (unat l + r_pos r1) r1) (\<lambda>(vs, r). Some (Inr (g vs, r))))"
      by (rule returns_advances [OF _ a])
  qed
  from e p None show ?thesis by (auto simp: decode_field_def Let_def split: option.splits)
qed

section \<open>Enough fuel\<close>

definition left :: "reader \<Rightarrow> nat" where
  "left r = r_len r - r_pos r"

lemma decode_enough_fuel:
  assumes "schema_wf sc"
  shows "type_wf sc T \<Longrightarrow>
     (2 * left r + 1 \<le> n \<longrightarrow> returns r (decode_loop n le sc T c m r))
     \<and> (2 * left r + 2 \<le> n \<longrightarrow> returns r (decode n le sc T r l))"
proof (induction n arbitrary: T c m r l)
  case (Suc n)
  have "returns r (decode_loop (Suc n) le sc T c m r)" if n: "2 * left r + 1 \<le> Suc n"
  proof (cases "r_pos r < c")
    case True
    show ?thesis unfolding decode_loop.simps if_P [OF True]
    proof (rule returns_lift_read)
      fix t r1 assume "r_uint32 r = Inr (t, r1)"
      then have a: "advances_in r r1" by (rule r_uint32_in)
      then have l1: "2 * left r1 + 2 \<le> n" using n by (auto simp: left_def advances_in_def advances_def)
      have later: "2 * left r2 + 2 \<le> n" if "r_buf r2 = r_buf r1" "r_pos r1 \<le> r_pos r2" for r2 :: reader
        using that l1 by (auto simp: left_def)
      have d: "dec_returns sc r1 (\<lambda>T r l. decode n le sc T r l)"
        unfolding dec_returns_def using Suc.IH type_wf_nth [OF assms] later by blast
      have "returns r1 (case find (\<lambda>f. f_id f = unat (drop_bit 3 t)) (t_fields T) of
                    Some f \<Rightarrow> decode_field le sc (\<lambda>T r l. decode n le sc T r l) f t m r1
                  | None \<Rightarrow> map_option (\<lambda>res. case res of Inl e \<Rightarrow> Inl e | Inr r \<Rightarrow> Inr (m, r)) (skip_type (t AND 7) r1))"
      proof (cases "find (\<lambda>f. f_id f = unat (drop_bit 3 t)) (t_fields T)")
        case None
        obtain res where "skip_type (t AND 7) r1 = Some res" "\<forall>r'. res = Inr r' \<longrightarrow> advances_in r1 r'"
          using skip_type_in by blast
        then show ?thesis using None by (cases res) (auto simp: advances_in_def advances_def)
      next
        case (Some f)
        then have "field_wf sc f" using Suc.prems by (auto simp: find_Some_iff type_wf_def list_all_length)
        then show ?thesis using Some decode_field_returns [OF _ d] by simp
      qed
      then have "returns r1 (obind (case find (\<lambda>f. f_id f = unat (drop_bit 3 t)) (t_fields T) of
                    Some f \<Rightarrow> decode_field le sc (\<lambda>T r l. decode n le sc T r l) f t m r1
                  | None \<Rightarrow> map_option (\<lambda>res. case res of Inl e \<Rightarrow> Inl e | Inr r \<Rightarrow> Inr (m, r)) (skip_type (t AND 7) r1))
           (\<lambda>(m, r). decode_loop n le sc T c m r))"
      proof (rule returns_obind)
        fix m2 and r2 :: reader assume b: "r_buf r2 = r_buf r1" "r_pos r1 \<le> r_pos r2"
        then have "returns r2 (decode_loop n le sc T c m2 r2)" using Suc.IH [OF Suc.prems] later [OF b] by simp
        then show "returns r1 (case (m2, r2) of (m, r) \<Rightarrow> decode_loop n le sc T c m r)"
          using returns_later [OF _ b] by simp
      qed
      from returns_advances [OF this] a show "returns r (if t_group T \<and> t AND 7 = 4 then Some (Inr (m, r1)) else
          obind (case find (\<lambda>f. f_id f = unat (drop_bit 3 t)) (t_fields T) of
                    Some f \<Rightarrow> decode_field le sc (\<lambda>T r l. decode n le sc T r l) f t m r1
                  | None \<Rightarrow> map_option (\<lambda>res. case res of Inl e \<Rightarrow> Inl e | Inr r \<Rightarrow> Inr (m, r)) (skip_type (t AND 7) r1))
           (\<lambda>(m, r). decode_loop n le sc T c m r))"
        by (simp add: advances_in_def advances_def)
    qed
  qed simp
  moreover have "returns r (decode (Suc n) le sc T r l)" if n: "2 * left r + 2 \<le> Suc n"
  proof -
    have "returns r (decode_loop n le sc T (case l of None \<Rightarrow> r_len r | Some k \<Rightarrow> r_pos r + k) (new_message T) r)"
      using Suc.IH [OF Suc.prems] n by simp
    then show ?thesis unfolding decode.simps
      by (rule returns_obind) (simp split: option.splits)
  qed
  ultimately show ?case by blast
qed simp

lemma decode_some:
  assumes "schema_wf sc" "type_wf sc T" "2 * length bs + 2 \<le> n"
  shows "\<exists>res. decode n le sc T (new_reader bs) l = Some res"
proof -
  have "returns (new_reader bs) (decode n le sc T (new_reader bs) l)"
    using decode_enough_fuel [OF assms(1, 2), of "new_reader bs" n] assms(3) by (simp add: left_def new_reader_def)
  then show ?thesis by (auto simp: returns_def)
qed

end
