(* ===== verification/RoundTrip.thy ===== *)
theory RoundTrip
  imports DecodeTotal
begin

text \<open>
  Messages: what a value of a message type is, the bytes it stands for, and the proof that the
  generated encoder writes these bytes and the generated decoder reads the value back from them.
\<close>

unbundle bit_operations_syntax

section \<open>Values of a type\<close>

text \<open>The value that a key stands for in its wire type.\<close>

definition key_val :: "scalar \<Rightarrow> jsstring \<Rightarrow> jsval" where
  "key_val kt k =
     (case kt of TString \<Rightarrow> JStr k | TBool \<Rightarrow> JBool (k \<noteq> []) | _ \<Rightarrow> JNum (the (int_of_dec k)))"

text \<open>The keys that survive: those that are the property name of the value they stand for.\<close>

definition key_ok :: "scalar \<Rightarrow> jsstring \<Rightarrow> bool" where
  "key_ok kt k \<longleftrightarrow>
     val_ok kt (key_val kt k) \<and> key_string (key_val kt k) = Some k
     \<and> (kt = TString \<or> kt = TBool \<or> int_of_dec k \<noteq> None)"

text \<open>What is written for a field: a single value, a packed array or an entry of a map.\<close>

datatype item = Element jsval | Packed "jsval list" | Entry jsstring jsval

definition is_packed :: "field \<Rightarrow> bool" where
  "is_packed f \<longleftrightarrow> f_packed f \<and> (case codec_type f of Some t \<Rightarrow> prop_get types_packed t \<noteq> None | None \<Rightarrow> False)"

definition field_items :: "(jsstring \<times> jsval) list \<Rightarrow> field \<Rightarrow> item list" where
  "field_items m f =
     (case prop_get m (f_name f) of
        None \<Rightarrow> []
      | Some v \<Rightarrow>
          if f_key f \<noteq> None then
            (case v of JObj ps \<Rightarrow> map (\<lambda>k. Entry k (the (prop_get ps k))) (object_keys ps) | _ \<Rightarrow> [])
          else if f_repeated f then
            (case v of JArr vs \<Rightarrow> if vs = [] then [] else if is_packed f then [Packed vs] else map Element vs
             | _ \<Rightarrow> [])
          else [Element v])"

definition elem_ok :: "(mtype \<Rightarrow> jsval \<Rightarrow> bool) \<Rightarrow> schema \<Rightarrow> field \<Rightarrow> jsval \<Rightarrow> bool" where
  "elem_ok mo sc f v = (case f_type f of MessageType k \<Rightarrow> mo (sc ! k) v | _ \<Rightarrow> val_ok (the (codec_type f)) v)"

text \<open>
  A value of a field: an object with distinct keys, an array (which may only be missing when its
  default is not written), or a single value, which a required field must have.
\<close>

definition field_ok :: "(mtype \<Rightarrow> jsval \<Rightarrow> bool) \<Rightarrow> schema \<Rightarrow> (jsstring \<times> jsval) list \<Rightarrow> field \<Rightarrow> bool" where
  "field_ok mo sc m f \<longleftrightarrow>
     (case prop_get m (f_name f) of
        None \<Rightarrow> \<not> f_required f \<and> (f_repeated f \<longrightarrow> nullish (f_default f) \<or> f_default f = JArr [])
      | Some v \<Rightarrow>
          if f_key f \<noteq> None then
            (case v of
               JObj ps \<Rightarrow> \<not> f_required f \<and> distinct (map fst ps)
                 \<and> list_all (\<lambda>(k, v). key_ok (the (f_key f)) k \<and> elem_ok mo sc f v) ps
             | _ \<Rightarrow> False)
          else if f_repeated f then
            (case v of JArr vs \<Rightarrow> \<not> f_required f \<and> list_all (elem_ok mo sc f) vs | _ \<Rightarrow> False)
          else \<not> nullish v \<and> elem_ok mo sc f v)"

text \<open>The fuel bounds the depth to which messages are nested.\<close>

fun msg_ok :: "nat \<Rightarrow> schema \<Rightarrow> mtype \<Rightarrow> jsval \<Rightarrow> bool" where
  "msg_ok (Suc n) sc T (JObj m) = list_all (field_ok (msg_ok n sc) sc m) (t_fields T)"
| "msg_ok _ sc T _ = False"

text \<open>
  Names that an object must not have as a property: an assignment to \<open>__proto__\<close> changes the prototype, and the generated
  code calls \<open>hasOwnProperty\<close> of the message.
\<close>

definition plain_name :: "jsstring \<Rightarrow> bool" where
  "plain_name k \<longleftrightarrow> k \<noteq> js ''__proto__'' \<and> k \<noteq> js ''hasOwnProperty''"

fun plain_keys :: "jsval \<Rightarrow> bool" where
  "plain_keys (JObj m) \<longleftrightarrow> list_all (\<lambda>(k, v). plain_name k \<and> plain_keys v) m"
| "plain_keys (JArr vs) \<longleftrightarrow> list_all plain_keys vs"
| "plain_keys v \<longleftrightarrow> True"

definition plain_type :: "mtype \<Rightarrow> bool" where
  "plain_type T \<longleftrightarrow> list_all (\<lambda>f. plain_name (f_name f)) (t_fields T)"

lemma plain_put: "plain_name k \<Longrightarrow> own_put ps k v = prop_set ps k v"
  by (simp add: plain_name_def own_put_def)

lemma plain_prop: "plain_keys (JObj m) \<Longrightarrow> prop_get m k = Some v \<Longrightarrow> plain_name k \<and> plain_keys v"
  by (auto simp: list_all_iff dest!: map_of_SomeD)

section \<open>The bytes of a message\<close>

definition elem_bytes :: "(mtype \<Rightarrow> jsval \<Rightarrow> u8 list) \<Rightarrow> schema \<Rightarrow> field \<Rightarrow> jsval \<Rightarrow> u8 list" where
  "elem_bytes mb sc f v =
     (case f_type f of
        MessageType k \<Rightarrow>
          if t_group (sc ! k) then tag_bytes (f_id f) 3 @ mb (sc ! k) v @ tag_bytes (f_id f) 4
          else tag_bytes (f_id f) 2 @ delimited (mb (sc ! k) v)
      | _ \<Rightarrow> (let t = the (codec_type f) in tag_bytes (f_id f) (basic_wire t) @ wire_val t v))"

definition entry_bytes :: "(mtype \<Rightarrow> jsval \<Rightarrow> u8 list) \<Rightarrow> schema \<Rightarrow> field \<Rightarrow> jsstring \<Rightarrow> jsval \<Rightarrow> u8 list" where
  "entry_bytes mb sc f k v =
     (let kt = the (f_key f) in
      tag_bytes (f_id f) 2 @
      delimited
        (varint (8 OR the (prop_get types_mapKey kt)) @ wire_val kt (key_val kt k) @
         (case f_type f of
            MessageType k \<Rightarrow> varint 18 @ delimited (mb (sc ! k) v)
          | _ \<Rightarrow> (let t = the (codec_type f) in varint (16 OR basic_wire t) @ wire_val t v))))"

definition item_bytes :: "(mtype \<Rightarrow> jsval \<Rightarrow> u8 list) \<Rightarrow> schema \<Rightarrow> field \<Rightarrow> item \<Rightarrow> u8 list" where
  "item_bytes mb sc f it =
     (case it of
        Element v \<Rightarrow> elem_bytes mb sc f v
      | Packed vs \<Rightarrow> tag_bytes (f_id f) 2 @ delimited (concat (map (wire_val (the (codec_type f))) vs))
      | Entry k v \<Rightarrow> entry_bytes mb sc f k v)"

definition field_bytes :: "(mtype \<Rightarrow> jsval \<Rightarrow> u8 list) \<Rightarrow> schema \<Rightarrow> (jsstring \<times> jsval) list \<Rightarrow> field \<Rightarrow> u8 list" where
  "field_bytes mb sc m f = concat (map (item_bytes mb sc f) (field_items m f))"

fun msg_bytes :: "nat \<Rightarrow> schema \<Rightarrow> mtype \<Rightarrow> jsval \<Rightarrow> u8 list" where
  "msg_bytes (Suc n) sc T (JObj m) = concat (map (field_bytes (msg_bytes n sc) sc m) (sort_key f_id (t_fields T)))"
| "msg_bytes _ sc T _ = []"

section \<open>The value that comes back\<close>

text \<open>
  The properties that the constructor makes, then those that were written, in the order of the field ids; the keys of a map
  come in the order in which \<open>Object.keys\<close> lists them.
\<close>

definition elem_norm :: "(mtype \<Rightarrow> jsval \<Rightarrow> jsval) \<Rightarrow> schema \<Rightarrow> field \<Rightarrow> jsval \<Rightarrow> jsval" where
  "elem_norm nm sc f v = (case f_type f of MessageType k \<Rightarrow> nm (sc ! k) v | _ \<Rightarrow> v)"

definition field_norm ::
    "(mtype \<Rightarrow> jsval \<Rightarrow> jsval) \<Rightarrow> schema \<Rightarrow> (jsstring \<times> jsval) list \<Rightarrow> field \<Rightarrow> jsval option" where
  "field_norm nm sc m f =
     (case prop_get m (f_name f) of
        None \<Rightarrow> None
      | Some v \<Rightarrow>
          if f_key f \<noteq> None then
            (case v of
               JObj ps \<Rightarrow> if ps = [] then None
                           else Some (JObj (map (\<lambda>k. (k, elem_norm nm sc f (the (prop_get ps k)))) (object_keys ps)))
             | _ \<Rightarrow> None)
          else if f_repeated f then
            (case v of JArr vs \<Rightarrow> if vs = [] then None else Some (JArr (map (elem_norm nm sc f) vs)) | _ \<Rightarrow> None)
          else Some (elem_norm nm sc f v))"

definition set_field :: "field \<Rightarrow> jsval option \<Rightarrow> (jsstring \<times> jsval) list \<Rightarrow> (jsstring \<times> jsval) list" where
  "set_field f r m = (case r of Some x \<Rightarrow> prop_set m (f_name f) x | None \<Rightarrow> m)"

fun msg_norm :: "nat \<Rightarrow> schema \<Rightarrow> mtype \<Rightarrow> jsval \<Rightarrow> jsval" where
  "msg_norm (Suc n) sc T (JObj m) =
     JObj (fold (\<lambda>f. set_field f (field_norm (msg_norm n sc) sc m f)) (sort_key f_id (t_fields T)) (new_message T))"
| "msg_norm _ sc T v = v"

lemma set_field_other: "k \<noteq> f_name f \<Longrightarrow> prop_get (set_field f r m) k = prop_get m k"
  by (simp add: set_field_def split: option.splits)

lemma set_field_same: "prop_get (set_field f r m) (f_name f) = (case r of Some v \<Rightarrow> Some v | None \<Rightarrow> prop_get m (f_name f))"
  by (simp add: set_field_def split: option.splits)

lemma fold_set_other: "k \<notin> f_name ` set fs \<Longrightarrow> prop_get (fold (\<lambda>f. set_field f (t f)) fs d) k = prop_get d k"
  by (induction fs arbitrary: d) (simp_all add: set_field_other)

lemma fold_set_field:
  "distinct (map f_name fs) \<Longrightarrow> f \<in> set fs \<Longrightarrow>
    prop_get (fold (\<lambda>f. set_field f (t f)) fs d) (f_name f) = (case t f of Some v \<Rightarrow> Some v | None \<Rightarrow> prop_get d (f_name f))"
proof (induction fs arbitrary: d)
  case (Cons g fs)
  show ?case
  proof (cases "f = g")
    case True
    then have "f_name f \<notin> f_name ` set fs" using Cons.prems by auto
    then show ?thesis unfolding True by (simp add: fold_set_other set_field_same)
  next
    case False
    then have "f_name f \<noteq> f_name g" "f \<in> set fs" using Cons.prems by (auto simp: image_iff)
    then show ?thesis using Cons by (simp add: set_field_other split: option.split)
  qed
qed simp

section \<open>Encoding\<close>

lemma appends_eq: "appends g bs \<Longrightarrow> (\<And>w. h w = g w) \<Longrightarrow> as = bs \<Longrightarrow> appends h as"
  by (simp add: appends_def)

lemma appends_tag: "appends g bs \<Longrightarrow> appends (\<lambda>w. g (w_tag i wt w)) (tag_bytes i wt @ bs)"
  by (rule appends_comp [OF w_tag_spec])

lemma appends_last:
  assumes "\<And>w. writer_ok w \<Longrightarrow> writer_ok (k w) \<and> levels (k w) = emit bs (levels w)" "appends g as"
  shows "appends (\<lambda>w. wreturn (g w) k) (as @ bs)"
proof -
  have "appends (\<lambda>w. Some (Inr (k w))) bs" using assms(1) by (simp add: appends_def)
  then show ?thesis unfolding wreturn_def by (rule appends_bind [OF assms(2)])
qed

lemma appends_uint32:
  assumes "appends g bs" "0 \<le> v" "v < 2 ^ 32"
  shows "appends (\<lambda>w. g (w_uint32 v w)) (varint (nat v) @ bs)"
proof (rule appends_comp [OF _ assms(1)])
  fix w assume "writer_ok w"
  then show "writer_ok (w_uint32 v w) \<and> levels (w_uint32 v w) = emit (varint (nat v)) (levels w)"
    using w_uint32_spec [of w v] assms(2, 3) by (simp only: mod_pos_pos_trivial simp_thms)
qed

lemma appends_element:
  assumes "elem_ok mo sc f v" "\<And>k. f_type f = MessageType k \<Longrightarrow> mo (sc ! k) v \<Longrightarrow> appends (enc (sc ! k) v) (mb (sc ! k) v)"
  shows "appends (encode_element sc enc f v) (elem_bytes mb sc f v)"
proof (cases "f_type f")
  case (MessageType k)
  then have a: "appends (enc (sc ! k) v) (mb (sc ! k) v)" using assms by (simp add: elem_ok_def)
  note d = encode_element_def encode_message_def elem_bytes_def
  have "appends (\<lambda>w. wreturn (enc (sc ! k) v w) (w_tag (f_id f) 4)) (mb (sc ! k) v @ tag_bytes (f_id f) 4)"
    by (rule appends_last [OF w_tag_spec a])
  from appends_tag [OF this, of "f_id f" 3] appends_tag [OF appends_fork [OF a], of "f_id f" 2]
  show ?thesis
    by (cases "t_group (sc ! k)") (simp_all add: appends_def MessageType d)
qed (use assms(1) appends_tag [OF appends_scalar, of "the (codec_type f)" v "f_id f" "basic_wire (the (codec_type f))"]
  in \<open>simp_all add: appends_def encode_element_def elem_bytes_def elem_ok_def Let_def\<close>)

lemma key_ok_not_bad: "key_ok kt k \<Longrightarrow> write_key kt k w = write_scalar kt (key_val kt k) w"
  by (cases kt) (auto simp: write_key_def write_scalar_def key_val_def key_ok_def scalar_call_def split: option.splits)

lemma small_tags:
  "prop_get types_mapKey kt = Some x \<Longrightarrow> 8 OR x < 16" "16 OR basic_wire t < 32"
proof -
  show "prop_get types_mapKey kt = Some x \<Longrightarrow> 8 OR x < 16" by (cases kt) (auto simp: type_tables)
  show "16 OR basic_wire t < 32" by (cases t) (simp_all add: basic_wire_def type_tables)
qed

lemma obind_obind: "obind (obind m f) g = obind m (\<lambda>x. obind (f x) g)"
  by (auto simp: obind_def split: option.splits sum.splits)

lemma appends_entry:
  assumes "field_wf sc f" "f_key f = Some kt" "key_ok kt k" "elem_ok mo sc f v" "prop_get ps k = Some v"
    "\<And>j. f_type f = MessageType j \<Longrightarrow> mo (sc ! j) v \<Longrightarrow> appends (enc (sc ! j) v) (mb (sc ! j) v)"
  shows "appends (encode_map_entry sc enc f kt ps k) (entry_bytes mb sc f k v)"
proof -
  obtain x where x: "prop_get types_mapKey kt = Some x" using assms(1, 2) by (auto simp: field_wf_def)
  let ?val = "case f_type f of MessageType j \<Rightarrow> \<lambda>w. wreturn (enc (sc ! j) v (w_fork (w_uint32 18 w))) w_ldelim
    | _ \<Rightarrow> \<lambda>w. write_scalar (the (codec_type f)) v (w_uint32 (int (16 OR basic_wire (the (codec_type f)))) w)"
  let ?vb = "case f_type f of MessageType j \<Rightarrow> varint 18 @ delimited (mb (sc ! j) v)
    | _ \<Rightarrow> varint (16 OR basic_wire (the (codec_type f))) @ wire_val (the (codec_type f)) v"
  have v: "appends ?val ?vb"
  proof (cases "f_type f")
    case (MessageType j)
    then have "appends (enc (sc ! j) v) (mb (sc ! j) v)" using assms(4, 6) by (simp add: elem_ok_def)
    from appends_uint32 [OF appends_fork [OF this], of 18] show ?thesis using MessageType by simp
  qed (use assms(4) small_tags(2) [of "the (codec_type f)"]
    appends_uint32 [OF appends_scalar, of "the (codec_type f)" v "int (16 OR basic_wire (the (codec_type f)))"]
    in \<open>simp_all add: elem_ok_def del: of_nat_or_eq\<close>)
  have k: "appends (write_key kt k) (wire_val kt (key_val kt k))"
    using appends_scalar [of kt "key_val kt k"] assms(3) key_ok_not_bad [OF assms(3)]
    by (simp add: appends_def key_ok_def)
  have "appends (\<lambda>w. obind (write_key kt k (w_uint32 (int (8 OR x)) w)) ?val)
      (varint (nat (int (8 OR x))) @ wire_val kt (key_val kt k) @ ?vb)"
    using small_tags(1) [OF x] by (intro appends_uint32 appends_bind k v) (simp_all del: of_nat_or_eq)
  from appends_tag [OF appends_fork [OF this], of "f_id f" 2] show ?thesis
    by (cases "f_type f") (simp_all add: appends_def encode_map_entry_def entry_bytes_def x assms(2, 5)
        wreturn_def obind_obind Let_def nat_int del: of_nat_or_eq)
qed

lemma set_object_keys [simp]: "set (object_keys ps) = set (map fst ps)"
  by (auto simp: object_keys_def Let_def)

lemma distinct_object_keys: "distinct (map fst ps) \<Longrightarrow> distinct (object_keys ps)"
  by (auto simp: object_keys_def Let_def)

lemma elem_ok_not_nullish: "elem_ok mo sc f v \<Longrightarrow> (\<And>k. \<not> mo (sc ! k) v \<or> \<not> nullish v) \<Longrightarrow> \<not> nullish v"
  by (cases "f_type f") (auto simp: elem_ok_def val_ok_def scalar_call_def nullish_def split: scalar.splits)

text \<open>The entries of a map that the encoder visits, and that they are good.\<close>

lemma map_entry_ok:
  assumes "field_ok mo sc m f" "f_key f = Some kt" "prop_get m (f_name f) = Some (JObj ps)" "k \<in> set (object_keys ps)"
  shows "\<exists>v. prop_get ps k = Some v \<and> key_ok kt k \<and> elem_ok mo sc f v"
proof -
  obtain v where "prop_get ps k = Some v" using assms(4) by (auto simp: map_of_eq_None_iff dest: weak_map_of_SomeI)
  moreover from map_of_SomeD [OF this] have "key_ok kt k \<and> elem_ok mo sc f v"
    using assms(1, 2, 3) by (auto simp: field_ok_def list_all_iff)
  ultimately show ?thesis by blast
qed

lemma appends_field:
  assumes "field_wf sc f" "field_ok mo sc m f"
    "\<And>j v. f_type f = MessageType j \<Longrightarrow> mo (sc ! j) v \<Longrightarrow> appends (enc (sc ! j) v) (mb (sc ! j) v)"
  shows "appends (encode_field sc enc m f) (field_bytes mb sc m f)"
proof -
  note d = encode_field_def field_bytes_def field_items_def get_prop_def has_own_def field_ok_def item_bytes_def
  have e: "elem_ok mo sc f v \<Longrightarrow> appends (encode_element sc enc f v) (elem_bytes mb sc f v)" for v
    by (rule appends_element) (use assms(3) in blast)+
  show ?thesis
  proof (cases "prop_get m (f_name f)")
    case None
    then have "encode_field sc enc m f w = Some (Inr w)" for w
      using assms(2) by (cases "f_key f"; cases "f_repeated f") (auto simp: d nullish_def)
    then show ?thesis using None appends_Nil by (simp add: appends_def field_bytes_def field_items_def)
  next
    case own: (Some v)
    show ?thesis
    proof (cases "f_key f")
      case (Some kt)
      then obtain ps where ps: "v = JObj ps" using assms(2) own by (auto simp: field_ok_def split: jsval.splits)
      have "appends (ofold (encode_map_entry sc enc f kt ps) (object_keys ps))
          (concat (map (\<lambda>k. entry_bytes mb sc f k (the (prop_get ps k))) (object_keys ps)))"
      proof (rule appends_ofold)
        fix k assume "k \<in> set (object_keys ps)"
        then obtain v' where v': "prop_get ps k = Some v'" "key_ok kt k" "elem_ok mo sc f v'"
          using map_entry_ok [OF assms(2) Some] own ps by blast
        show "appends (encode_map_entry sc enc f kt ps k) (entry_bytes mb sc f k (the (prop_get ps k)))"
          using appends_entry [OF assms(1) Some v'(2, 3, 1)] assms(3) v'(1) by simp
      qed
      then show ?thesis using own ps Some by (simp add: appends_def d nullish_def comp_def)
    next
      case None
      show ?thesis
      proof (cases "f_repeated f")
        case False
        then have v: "elem_ok mo sc f v" "\<not> nullish v" using assms(2) own None by (simp_all add: field_ok_def)
        then show ?thesis using e [OF v(1)] own None False by (simp add: appends_def d)
      next
        case True
        then obtain vs where vs: "v = JArr vs" "list_all (elem_ok mo sc f) vs"
          using assms(2) own None by (auto simp: field_ok_def split: jsval.splits)
        have es: "appends (ofold (encode_element sc enc f) vs) (concat (map (elem_bytes mb sc f) vs))"
          using vs(2) by (intro appends_ofold e) (simp add: list_all_iff)
        show ?thesis
        proof (cases "vs = []")
          case True
          then show ?thesis using own None vs \<open>f_repeated f\<close> appends_Nil by (simp add: appends_def d nullish_def)
        next
          case ne: False
          show ?thesis
          proof (cases "is_packed f")
            case False
            then show ?thesis using own None vs \<open>f_repeated f\<close> ne es
              by (auto simp: appends_def d nullish_def is_packed_def comp_def split: option.splits)
          next
            case True
            then obtain t where t: "codec_type f = Some t" "f_packed f" "prop_get types_packed t \<noteq> None"
              by (auto simp: is_packed_def split: option.splits)
            then have "\<forall>x \<in> set vs. val_ok t x"
              using vs(2) by (auto simp: list_all_iff elem_ok_def codec_type_def split: ftype.splits)
            then have "appends (ofold (write_scalar t) vs) (concat (map (wire_val t) vs))"
              by (intro appends_ofold appends_scalar) blast
            from appends_tag [OF appends_fork [OF this], of "f_id f" 2] show ?thesis
              using own None vs \<open>f_repeated f\<close> ne t True by (simp add: appends_def d nullish_def)
          qed
        qed
      qed
    qed
  qed
qed

lemma appends_message:
  assumes "schema_wf sc"
  shows "type_wf sc T \<Longrightarrow> msg_ok n sc T v \<Longrightarrow> appends (encode n sc T v) (msg_bytes n sc T v)"
proof (induction n arbitrary: T v)
  case (Suc n)
  then obtain m where m: "v = JObj m" by (cases v) simp_all
  have f: "appends (encode_field sc (encode n sc) m f) (field_bytes (msg_bytes n sc) sc m f)"
    if "f \<in> set (sort_key f_id (t_fields T))" for f
  proof (rule appends_field)
    show "field_wf sc f" "field_ok (msg_ok n sc) sc m f"
      using that Suc.prems m by (simp_all add: type_wf_def list_all_iff)
    then show "appends (encode n sc (sc ! j) v) (msg_bytes n sc (sc ! j) v)"
      if "f_type f = MessageType j" "msg_ok n sc (sc ! j) v" for j v
      using Suc.IH [OF _ that(2)] type_wf_nth [OF assms] that(1) by (simp add: field_wf_def)
  qed
  have a: "appends (ofold (encode_field sc (encode n sc) m) (sort_key f_id (t_fields T)))
      (concat (map (field_bytes (msg_bytes n sc) sc m) (sort_key f_id (t_fields T))))"
    by (rule appends_ofold [OF f])
  have "encode (Suc n) sc T v w = ofold (encode_field sc (encode n sc) m) (sort_key f_id (t_fields T)) w" for w
    by (cases "sort_key f_id (t_fields T)") (simp_all add: m nullish_def Let_def)
  with a show ?case by (simp add: appends_def m)
qed simp

lemma encode_writes_bytes:
  assumes "schema_wf sc" "type_wf sc T" "msg_ok n sc T v"
  shows "\<exists>w. encode n sc T v new_writer = Some (Inr w) \<and> fst (w_finish le w) = msg_bytes n sc T v"
proof -
  have o: "writer_ok new_writer" "levels new_writer = [[]]"
    by (simp_all add: new_writer_def writer_ok_def ops_sized_def levels_def)
  then obtain w where "encode n sc T v new_writer = Some (Inr w)" "writer_ok w" "levels w = [msg_bytes n sc T v]"
    using appends_message [OF assms] by (auto simp: appends_def emit_def)
  then show ?thesis using w_finish_bytes [of w le] by auto
qed

section \<open>Decoding\<close>

text \<open>The effect of an item on the message that the decoder builds.\<close>

definition add_item :: "(mtype \<Rightarrow> jsval \<Rightarrow> jsval) \<Rightarrow> schema \<Rightarrow> field \<Rightarrow> item \<Rightarrow> (jsstring \<times> jsval) list \<Rightarrow> (jsstring \<times> jsval) list" where
  "add_item nm sc f it m =
     (let arr = (case prop_get m (f_name f) of Some (JArr vs) \<Rightarrow> vs | _ \<Rightarrow> []);
          obj = (case prop_get m (f_name f) of Some (JObj ps) \<Rightarrow> ps | _ \<Rightarrow> [])
      in own_put m (f_name f)
           (case it of
              Element v \<Rightarrow> if f_repeated f then JArr (arr @ [elem_norm nm sc f v]) else elem_norm nm sc f v
            | Packed vs \<Rightarrow> JArr (arr @ vs)
            | Entry k v \<Rightarrow> JObj (own_put obj k (elem_norm nm sc f v))))"

lemma bit_less_exp: "bit (k :: nat) n \<Longrightarrow> k < 2 ^ m \<Longrightarrow> n < m"
  by (metis bit_take_bit_iff take_bit_nat_eq_self)

lemma tag_facts:
  assumes "i < 2 ^ 29" "wt < 8"
  shows "unat (drop_bit 3 (tag i wt)) = i" "tag i wt AND 7 = of_nat wt"
proof -
  have w: "bit wt n \<Longrightarrow> n < 3" for n using bit_less_exp [of wt n 3] assms(2) by simp
  have i: "bit i n \<Longrightarrow> n < 29" for n using bit_less_exp [OF _ assms(1)] .
  have "drop_bit 3 (tag i wt) = (of_nat i :: u32)"
  proof (rule bit_word_eqI)
    fix n assume "n < LENGTH(32)"
    then show "bit (drop_bit 3 (tag i wt)) n = bit (of_nat i :: u32) n"
      using w [of "3 + n"] i [of n]
      by (auto simp: tag_def bit_drop_bit_eq bit_or_iff bit_push_bit_iff bit_of_nat_iff)
  qed
  moreover have "i < 2 ^ 32" using assms(1) by simp
  ultimately show "unat (drop_bit 3 (tag i wt)) = i" by (simp add: unsigned_of_nat take_bit_nat_eq_self)
  have m: "7 = (mask 3 :: u32)" by (simp add: mask_eq_exp_minus_1)
  show "tag i wt AND 7 = of_nat wt"
  proof (rule bit_word_eqI)
    fix n assume "n < LENGTH(32)"
    then show "bit (tag i wt AND 7) n = bit (of_nat wt :: u32) n"
      using w [of n] unfolding m
      by (auto simp: tag_def bit_and_iff bit_or_iff bit_push_bit_iff bit_of_nat_iff bit_mask_iff)
  qed
qed

lemma drop_app: "drop p b = xs @ ys \<Longrightarrow> drop (p + length xs) b = ys"
  by (metis add.commute append_eq_conv_conj drop_drop)

lemma tag_read:
  "drop p b = tag_bytes i wt @ post \<Longrightarrow>
   r_uint32 \<lparr>r_buf = b, r_pos = p\<rparr> = Inr (tag i wt, \<lparr>r_buf = b, r_pos = p + length (tag_bytes i wt)\<rparr>)"
  using tag32.reads_back [of p b "tag i wt" post] by (simp add: tag_bytes_def)

lemma delimited_read:
  assumes "drop p b = delimited bs @ post" "length b < 2 ^ 32"
  shows "length (delimited bs) = length (varint (length bs)) + length bs"
    "r_uint32 \<lparr>r_buf = b, r_pos = p\<rparr> = Inr (of_nat (length bs), \<lparr>r_buf = b, r_pos = p + length (varint (length bs))\<rparr>)"
    "unat (of_nat (length bs) :: u32) = length bs"
    "drop (p + length (varint (length bs))) b = bs @ post"
proof -
  have "length (drop p b) = length (delimited bs @ post)" using assms(1) by simp
  then have l: "length bs < 2 ^ 32" using assms(2) by (simp add: delimited_def)
  then have d: "delimited bs = varint (length bs) @ bs" by (simp add: delimited_def)
  then show "length (delimited bs) = length (varint (length bs)) + length bs" by simp
  have e: "drop p b = varint (length bs) @ bs @ post" using assms(1) d by simp
  show "r_uint32 \<lparr>r_buf = b, r_pos = p\<rparr> = Inr (of_nat (length bs), \<lparr>r_buf = b, r_pos = p + length (varint (length bs))\<rparr>)"
    using uint32_back [OF e l] .
  show "unat (of_nat (length bs) :: u32) = length bs" using l by (simp add: unsigned_of_nat take_bit_nat_eq_self)
  show "drop (p + length (varint (length bs))) b = bs @ post" by (rule drop_app [OF e])
qed

text \<open>The decoder of a type makes \<open>v'\<close> of the bytes, alone or in front of an end-group tag.\<close>

definition msg_back :: "bool \<Rightarrow> schema \<Rightarrow> mtype \<Rightarrow> u8 list \<Rightarrow> jsval \<Rightarrow> bool" where
  "msg_back le sc T bs v' \<longleftrightarrow>
     (\<forall>b p post. drop p b = bs @ post \<longrightarrow> length b < 2 ^ 32 \<longrightarrow>
        (\<exists>n. decode n le sc T \<lparr>r_buf = b, r_pos = p\<rparr> (Some (length bs))
             = Some (Inr (v', \<lparr>r_buf = b, r_pos = p + length bs\<rparr>))))
     \<and> (\<forall>b p post i. t_group T \<longrightarrow> i < 2 ^ 29 \<longrightarrow> drop p b = bs @ tag_bytes i 4 @ post \<longrightarrow> length b < 2 ^ 32 \<longrightarrow>
        (\<exists>n. decode n le sc T \<lparr>r_buf = b, r_pos = p\<rparr> None
             = Some (Inr (v', \<lparr>r_buf = b, r_pos = p + length bs + length (tag_bytes i 4)\<rparr>))))"

lemma msg_back_delimited:
  assumes "msg_back le sc T bs v'" "drop p b = delimited bs @ post" "length b < 2 ^ 32"
  shows "\<exists>n. lift_read (r_uint32 \<lparr>r_buf = b, r_pos = p\<rparr>) (\<lambda>l r. decode n le sc T r (Some (unat l)))
             = Some (Inr (v', \<lparr>r_buf = b, r_pos = p + length (delimited bs)\<rparr>))"
proof -
  note d = delimited_read [OF assms(2, 3)]
  obtain n where "decode n le sc T \<lparr>r_buf = b, r_pos = p + length (varint (length bs))\<rparr> (Some (length bs))
      = Some (Inr (v', \<lparr>r_buf = b, r_pos = p + length (varint (length bs)) + length bs\<rparr>))"
    using assms(1, 3) d(4) unfolding msg_back_def by blast
  then show ?thesis using d(1-3) by (auto simp: lift_read_def add.assoc)
qed

definition elem_wire :: "schema \<Rightarrow> field \<Rightarrow> nat" where
  "elem_wire sc f =
     (case f_type f of MessageType k \<Rightarrow> if t_group (sc ! k) then 3 else 2 | _ \<Rightarrow> basic_wire (the (codec_type f)))"

definition elem_payload :: "(mtype \<Rightarrow> jsval \<Rightarrow> u8 list) \<Rightarrow> schema \<Rightarrow> field \<Rightarrow> jsval \<Rightarrow> u8 list" where
  "elem_payload mb sc f v =
     (case f_type f of
        MessageType k \<Rightarrow>
          if t_group (sc ! k) then mb (sc ! k) v @ tag_bytes (f_id f) 4 else delimited (mb (sc ! k) v)
      | _ \<Rightarrow> wire_val (the (codec_type f)) v)"

lemma elem_bytes_eq: "elem_bytes mb sc f v = tag_bytes (f_id f) (elem_wire sc f) @ elem_payload mb sc f v"
  by (simp add: elem_bytes_def elem_wire_def elem_payload_def Let_def split: ftype.splits)

lemma element_back:
  assumes "field_wf sc f" "elem_ok mo sc f v" "drop p b = elem_payload mb sc f v @ post" "length b < 2 ^ 32"
    "\<And>k. f_type f = MessageType k \<Longrightarrow> mo (sc ! k) v \<Longrightarrow> msg_back le sc (sc ! k) (mb (sc ! k) v) (nm (sc ! k) v)"
  shows "\<exists>n. decode_element le sc (decode n le sc) f \<lparr>r_buf = b, r_pos = p\<rparr>
             = Some (Inr (elem_norm nm sc f v, \<lparr>r_buf = b, r_pos = p + length (elem_payload mb sc f v)\<rparr>))"
proof (cases "f_type f")
  case (MessageType k)
  note d = decode_element_def elem_payload_def elem_norm_def MessageType
  have b: "msg_back le sc (sc ! k) (mb (sc ! k) v) (nm (sc ! k) v)"
    using assms(2, 5) MessageType by (simp add: elem_ok_def)
  show ?thesis
  proof (cases "t_group (sc ! k)")
    case True
    obtain n where "decode n le sc (sc ! k) \<lparr>r_buf = b, r_pos = p\<rparr> None
        = Some (Inr (nm (sc ! k) v, \<lparr>r_buf = b, r_pos = p + length (mb (sc ! k) v) + length (tag_bytes (f_id f) 4)\<rparr>))"
    proof -
      have i: "f_id f < 2 ^ 29" using assms(1) by (simp add: field_wf_def)
      have e: "drop p b = mb (sc ! k) v @ tag_bytes (f_id f) 4 @ post" using assms(3) True by (simp add: d)
      show ?thesis using b True i e assms(4) that unfolding msg_back_def by blast
    qed
    then show ?thesis using True by (auto simp: d add.assoc)
  next
    case False
    then show ?thesis using msg_back_delimited [OF b, of p b post] assms(3, 4) by (simp add: d)
  qed
qed (use assms(2, 3) scalar.reads_back [of "the (codec_type f)" v p b post le]
  in \<open>simp_all add: decode_element_def elem_payload_def elem_norm_def elem_ok_def\<close>)

lemma skip_varint_back:
  "drop p b = varint n @ post \<Longrightarrow> r_skip_varint \<lparr>r_buf = b, r_pos = p\<rparr> = Inr \<lparr>r_buf = b, r_pos = p + length (varint n)\<rparr>"
proof (induction n arbitrary: p rule: varint.induct)
  case (1 n)
  have u: "octet b p AND 128 \<noteq> 0 \<longleftrightarrow> 128 \<le> x" if "drop p b = byte_of x # ys" "x < 256" for x ys
  proof -
    have p: "p < length b" "b ! p = byte_of x"
      using that(1) by (metis drop_all list.distinct(1) not_le) (metis that(1) nth_via_drop)
    have "octet b p = x" using p that(2) by (simp add: octet_def byte_of_def unsigned_of_nat take_bit_nat_eq_self)
    moreover have "x AND 128 \<noteq> 0 \<longleftrightarrow> bit x 7"
      using and_exp_eq_0_iff_not_bit [of x 7] by simp
    moreover have "bit x 7 \<longleftrightarrow> odd (x div 128)" by (simp add: bit_iff_odd)
    moreover have "x div 128 < 2" using that(2) by (intro less_mult_imp_div_less) simp
    moreover have "y < 2 \<Longrightarrow> odd y \<longleftrightarrow> y \<noteq> 0" for y :: nat by (cases y) auto
    moreover have "x div 128 \<noteq> 0 \<longleftrightarrow> 128 \<le> x" by (simp add: div_eq_0_iff not_less)
    ultimately show ?thesis by simp
  qed
  show ?case
  proof (cases "n < 128")
    case True
    then have d: "drop p b = byte_of n # post" using 1(2) by (simp add: varint.simps)
    then have "p < length b" by (metis drop_all list.distinct(1) not_le)
    then show ?thesis using u [OF d] True by (subst r_skip_varint.simps) (simp add: varint.simps)
  next
    case False
    then have d: "drop p b = byte_of (n mod 128 + 128) # varint (n div 128) @ post"
      using 1(2) by (simp add: varint.simps [of n])
    then have "p < length b" by (metis drop_all list.distinct(1) not_le)
    moreover have "drop (p + 1) b = varint (n div 128) @ post"
      using drop_app [of p b "[byte_of (n mod 128 + 128)]"] d by simp
    ultimately show ?thesis using u [OF d] False 1(1) [OF False]
      by (subst r_skip_varint.simps) (simp add: varint.simps [of n])
  qed
qed

text \<open>Entries: the decoder skips the length and the two tags by position.\<close>

lemma entry_tags:
  "prop_get types_mapKey kt = Some x \<Longrightarrow> length (varint (8 OR x)) = 1"
  "length (varint (16 OR basic_wire t)) = 1" "length (varint 18) = 1"
  using small_tags(1) [of kt x] small_tags(2) [of t] by (simp_all add: varint.simps)

lemma key_string_read: "key_ok kt k \<Longrightarrow> key_string (key_val kt k) = Some k"
  by (simp add: key_ok_def)

lemma entry_back:
  assumes f: "field_wf sc f" "f_key f = Some kt" and v: "key_ok kt k" "elem_ok mo sc f v"
    and d: "drop p b = entry_bytes mb sc f k v @ post" "length b < 2 ^ 32"
    and m: "\<And>k. f_type f = MessageType k \<Longrightarrow> mo (sc ! k) v \<Longrightarrow> msg_back le sc (sc ! k) (mb (sc ! k) v) (nm (sc ! k) v)"
  shows "\<exists>n. decode_map_entry le sc (decode n le sc) f kt acc \<lparr>r_buf = b, r_pos = p + length (tag_bytes (f_id f) 2)\<rparr>
     = Some (Inr (add_item nm sc f (Entry k v) acc, \<lparr>r_buf = b, r_pos = p + length (entry_bytes mb sc f k v)\<rparr>))"
proof -
  obtain x where x: "prop_get types_mapKey kt = Some x" using f by (auto simp: field_wf_def)
  let ?R = "\<lambda>q. \<lparr>r_buf = b, r_pos = q\<rparr>"
  let ?k = "wire_val kt (key_val kt k)"
  define vt where "vt = (case f_type f of MessageType j \<Rightarrow> varint 18 | _ \<Rightarrow> varint (16 OR basic_wire (the (codec_type f))))"
  define vb where "vb = (case f_type f of MessageType j \<Rightarrow> delimited (mb (sc ! j) v) | _ \<Rightarrow> wire_val (the (codec_type f)) v)"
  define bs where "bs = varint (8 OR x) @ ?k @ vt @ vb"
  have e: "entry_bytes mb sc f k v = tag_bytes (f_id f) 2 @ delimited bs"
    by (simp add: entry_bytes_def bs_def vt_def vb_def f(2) x Let_def split: ftype.splits)
  have vt: "length vt = 1" by (simp add: vt_def entry_tags split: ftype.splits)
  define q where "q = p + length (tag_bytes (f_id f) 2)"
  have d1: "drop q b = delimited bs @ post" unfolding q_def by (rule drop_app) (use d(1) e in simp)
  note l = delimited_read [OF d1 d(2)]
  define q1 where "q1 = q + length (varint (length bs))"
  have "length bs < 2 ^ 32" using arg_cong [OF d1, of length] d(2) by (simp add: delimited_def)
  then have "drop q b = varint (length bs) @ bs @ post" using d1 by (simp add: delimited_def)
  from skip_varint_back [OF this] have skip: "r_skip_varint (?R q) = Inr (?R q1)" by (simp add: q1_def)
  have d2: "drop (q1 + 1) b = ?k @ vt @ vb @ post"
    using drop_app [of q1 b "varint (8 OR x)"] l(4) entry_tags(1) [OF x] by (simp add: bs_def q1_def)
  define q2 where "q2 = q1 + 1 + length ?k"
  have rk: "read_scalar le kt (?R (q1 + 1)) = Inr (key_val kt k, ?R q2)"
    using scalar.reads_back [OF _ d2] v(1) by (simp add: key_ok_def q2_def)
  have "drop q2 b = vt @ vb @ post" unfolding q2_def by (rule drop_app [OF d2])
  from drop_app [OF this] have d3: "drop (q2 + 1) b = vb @ post" using vt by simp
  have end': "p + length (entry_bytes mb sc f k v) = q2 + 1 + length vb"
    using l(1) vt entry_tags(1) [OF x] by (simp add: e q_def q1_def q2_def bs_def)
  have "\<exists>n. (case f_type f of MessageType j \<Rightarrow> lift_read (r_uint32 (?R (q2 + 1))) (\<lambda>l r. decode n le sc (sc ! j) r (Some (unat l)))
                 | _ \<Rightarrow> Some (read_scalar le (the (codec_type f)) (?R (q2 + 1))))
       = Some (Inr (elem_norm nm sc f v, ?R (q2 + 1 + length vb)))"
  proof (cases "f_type f")
    case (MessageType j)
    then have "msg_back le sc (sc ! j) (mb (sc ! j) v) (nm (sc ! j) v)" using v(2) m by (simp add: elem_ok_def)
    from msg_back_delimited [OF this _ d(2), of "q2 + 1" post] show ?thesis
      using d3 MessageType by (simp add: vb_def elem_norm_def)
  qed (use d3 v(2) scalar.reads_back [of "the (codec_type f)" v "q2 + 1" b post le]
    in \<open>simp_all add: vb_def elem_norm_def elem_ok_def\<close>)
  then obtain n where n: "(case f_type f of MessageType j \<Rightarrow> lift_read (r_uint32 (?R (q2 + 1))) (\<lambda>l r. decode n le sc (sc ! j) r (Some (unat l)))
                 | _ \<Rightarrow> Some (read_scalar le (the (codec_type f)) (?R (q2 + 1))))
       = Some (Inr (elem_norm nm sc f v, ?R (q2 + 1 + length vb)))" by blast
  have "decode_map_entry le sc (decode n le sc) f kt acc (?R q)
      = Some (Inr (add_item nm sc f (Entry k v) acc, ?R (q2 + 1 + length vb)))"
    using skip rk n key_string_read [OF v(1)]
    by (cases "f_type f") (simp_all add: decode_map_entry_def Let_def lift_read_def [of "Inr z" for z] add_item_def)
  then show ?thesis unfolding end' q_def by blast
qed

definition item_ok :: "(mtype \<Rightarrow> jsval \<Rightarrow> bool) \<Rightarrow> schema \<Rightarrow> field \<Rightarrow> item \<Rightarrow> bool" where
  "item_ok mo sc f it =
     (case it of
        Element v \<Rightarrow> f_key f = None \<and> elem_ok mo sc f v
      | Packed vs \<Rightarrow> f_key f = None \<and> f_repeated f \<and> is_packed f \<and> (\<forall>v \<in> set vs. elem_ok mo sc f v)
      | Entry k v \<Rightarrow> (\<exists>kt. f_key f = Some kt \<and> key_ok kt k) \<and> elem_ok mo sc f v)"

definition item_wire :: "schema \<Rightarrow> field \<Rightarrow> item \<Rightarrow> nat" where
  "item_wire sc f it = (case it of Element v \<Rightarrow> elem_wire sc f | _ \<Rightarrow> 2)"

fun item_vals :: "item \<Rightarrow> jsval list" where
  "item_vals (Element v) = [v]"
| "item_vals (Packed vs) = []"
| "item_vals (Entry k v) = [v]"

lemma basic_wire_cases: "basic_wire t < 8" "basic_wire t \<noteq> 4" "prop_get types_packed t \<noteq> None \<Longrightarrow> basic_wire t \<noteq> 2"
  by (cases t; simp add: basic_wire_def type_tables)+

lemma basic_wire_not_3: "basic_wire t \<noteq> 3"
  by (cases t; simp add: basic_wire_def type_tables)

lemma item_wire_ok: "item_wire sc f it < 8" "item_wire sc f it \<noteq> 4"
  using basic_wire_cases by (auto simp: item_wire_def elem_wire_def split: item.splits ftype.splits)

lemma small_word_eq: "n < 8 \<Longrightarrow> k < 8 \<Longrightarrow> (of_nat n :: u32) = of_nat k \<longleftrightarrow> n = k"
  by (simp add: word_unat_eq_iff unsigned_of_nat take_bit_nat_eq_self)

lemma packed_back:
  assumes "is_packed f" "f_key f = None" "f_repeated f" "\<forall>v \<in> set vs. elem_ok mo sc f v" "f_id f < 2 ^ 29"
    "drop p b = delimited (concat (map (wire_val (the (codec_type f))) vs)) @ post" "length b < 2 ^ 32"
  shows "decode_field le sc dec f (tag (f_id f) 2) acc \<lparr>r_buf = b, r_pos = p\<rparr>
    = Some (Inr (add_item nm sc f (Packed vs) acc,
        \<lparr>r_buf = b, r_pos = p + length (delimited (concat (map (wire_val (the (codec_type f))) vs)))\<rparr>))"
proof -
  obtain t where t: "codec_type f = Some t" "prop_get types_packed t \<noteq> None"
    using assms(1) by (auto simp: is_packed_def split: option.splits)
  have ok: "\<forall>v \<in> set vs. val_ok t v"
    using assms(4) t by (auto simp: elem_ok_def codec_type_def split: ftype.splits)
  let ?bs = "concat (map (wire_val t) vs)"
  have d: "drop p b = delimited ?bs @ post" using assms(6) t by simp
  note l = delimited_read [OF d assms(7)]
  have "read_while (read_scalar le t) (p + length (varint (length ?bs)) + length ?bs)
      \<lparr>r_buf = b, r_pos = p + length (varint (length ?bs))\<rparr>
      = Some (Inr (vs, \<lparr>r_buf = b, r_pos = p + length (varint (length ?bs)) + length ?bs\<rparr>))"
    by (rule scalar.read_while_back [OF ok l(4)])
  moreover have "tag (f_id f) 2 AND 7 = 2" using tag_facts(2) [OF assms(5), of 2] by simp
  ultimately show ?thesis using t assms(2, 3) l
    by (simp add: decode_field_def add_item_def lift_read_def Let_def add.commute)
qed

lemma item_back:
  assumes f: "field_wf sc f" and ok: "item_ok mo sc f it"
    and d: "drop p b = item_bytes mb sc f it @ post" "length b < 2 ^ 32"
    and m: "\<And>k v. v \<in> set (item_vals it) \<Longrightarrow> f_type f = MessageType k \<Longrightarrow> mo (sc ! k) v \<Longrightarrow>
      msg_back le sc (sc ! k) (mb (sc ! k) v) (nm (sc ! k) v)"
  shows "\<exists>n p1. r_uint32 \<lparr>r_buf = b, r_pos = p\<rparr> = Inr (tag (f_id f) (item_wire sc f it), \<lparr>r_buf = b, r_pos = p1\<rparr>)
     \<and> decode_field le sc (decode n le sc) f (tag (f_id f) (item_wire sc f it)) acc \<lparr>r_buf = b, r_pos = p1\<rparr>
       = Some (Inr (add_item nm sc f it acc, \<lparr>r_buf = b, r_pos = p + length (item_bytes mb sc f it)\<rparr>))"
proof (cases it)
  case (Element v)
  then have v: "f_key f = None" "elem_ok mo sc f v" using ok by (simp_all add: item_ok_def)
  have d1: "drop p b = tag_bytes (f_id f) (elem_wire sc f) @ elem_payload mb sc f v @ post"
    using d(1) Element by (simp add: item_bytes_def elem_bytes_eq)
  let ?p = "p + length (tag_bytes (f_id f) (elem_wire sc f))"
  obtain n where n: "decode_element le sc (decode n le sc) f \<lparr>r_buf = b, r_pos = ?p\<rparr>
      = Some (Inr (elem_norm nm sc f v, \<lparr>r_buf = b, r_pos = ?p + length (elem_payload mb sc f v)\<rparr>))"
    using element_back [where mo = mo and nm = nm and le = le, OF f v(2) drop_app [OF d1] d(2)] m [of v] Element
    by (simp only: item_vals.simps list.set simp_thms insert_iff empty_iff) blast
  have "prop_get types_packed st = None \<or> tag (f_id f) (elem_wire sc f) AND 7 \<noteq> 2" if "codec_type f = Some st" for st
  proof (rule disjCI)
    have i: "f_id f < 2 ^ 29" using f by (simp add: field_wf_def)
    assume "\<not> tag (f_id f) (elem_wire sc f) AND 7 \<noteq> 2"
    then have "(of_nat (elem_wire sc f) :: u32) = of_nat 2"
      using tag_facts(2) [OF i, of "elem_wire sc f"] item_wire_ok(1) [of sc f it] Element by (simp add: item_wire_def)
    then have "elem_wire sc f = 2"
      using small_word_eq [of "elem_wire sc f" 2] item_wire_ok(1) [of sc f it] Element by (simp add: item_wire_def)
    then have "basic_wire st = 2" using that by (auto simp: elem_wire_def codec_type_def split: ftype.splits)
    then show "prop_get types_packed st = None" using basic_wire_cases(3) by blast
  qed
  then have "decode_field le sc (decode n le sc) f (tag (f_id f) (elem_wire sc f)) acc \<lparr>r_buf = b, r_pos = ?p\<rparr>
      = Some (Inr (add_item nm sc f it acc, \<lparr>r_buf = b, r_pos = ?p + length (elem_payload mb sc f v)\<rparr>))"
    using n v(1) Element by (auto simp: decode_field_def add_item_def Let_def split: option.splits)
  then show ?thesis using tag_read [OF d1] Element by (auto simp: item_wire_def item_bytes_def elem_bytes_eq add.assoc)
next
  case (Packed vs)
  then have v: "f_key f = None" "f_repeated f" "is_packed f" "\<forall>v \<in> set vs. elem_ok mo sc f v"
    using ok by (simp_all add: item_ok_def)
  let ?bs = "concat (map (wire_val (the (codec_type f))) vs)"
  have d1: "drop p b = tag_bytes (f_id f) 2 @ delimited ?bs @ post" using d(1) Packed by (simp add: item_bytes_def)
  have i: "f_id f < 2 ^ 29" using f by (simp add: field_wf_def)
  from packed_back [OF v(3, 1, 2, 4) i drop_app [OF d1] d(2)] tag_read [OF d1] show ?thesis
    by (auto simp: Packed item_wire_def item_bytes_def add.assoc)
next
  case (Entry k v)
  then obtain kt where kt: "f_key f = Some kt" "key_ok kt k" and v: "elem_ok mo sc f v" using ok by (auto simp: item_ok_def)
  have d0: "drop p b = entry_bytes mb sc f k v @ post" using d(1) Entry by (simp add: item_bytes_def)
  then obtain rest where d1: "drop p b = tag_bytes (f_id f) 2 @ rest" by (auto simp: entry_bytes_def Let_def)
  obtain n where "decode_map_entry le sc (decode n le sc) f kt acc \<lparr>r_buf = b, r_pos = p + length (tag_bytes (f_id f) 2)\<rparr>
     = Some (Inr (add_item nm sc f (Entry k v) acc, \<lparr>r_buf = b, r_pos = p + length (entry_bytes mb sc f k v)\<rparr>))"
    using entry_back [where nm = nm and le = le and acc = acc, OF f kt v d0 d(2)] m [of v] Entry
    by (simp only: item_vals.simps list.set simp_thms insert_iff empty_iff) blast
  then show ?thesis using tag_read [OF d1] Entry kt(1) by (auto simp: item_wire_def item_bytes_def decode_field_def)
qed

text \<open>Items of other fields can be skipped, unless they are groups.\<close>

definition skippable :: "schema \<Rightarrow> field \<Rightarrow> bool" where
  "skippable sc f \<longleftrightarrow> (case f_type f of MessageType k \<Rightarrow> \<not> t_group (sc ! k) | _ \<Rightarrow> True)"

lemma skip_delimited:
  assumes "drop p b = delimited bs @ post" "length b < 2 ^ 32"
  shows "skip_simple 2 \<lparr>r_buf = b, r_pos = p\<rparr> = Inr \<lparr>r_buf = b, r_pos = p + length (delimited bs)\<rparr>"
proof -
  note l = delimited_read [OF assms]
  have "p + length (varint (length bs)) + length bs \<le> length b"
    using room [OF assms(1)] l(1) by (cases "delimited bs") (simp_all add: delimited_def)
  then show ?thesis using l by (simp add: skip_simple_def r_skip_def)
qed

lemma skip_scalar:
  assumes "val_ok t v" "drop p b = wire_val t v @ post" "length b < 2 ^ 32"
  shows "skip_simple (of_nat (basic_wire t)) \<lparr>r_buf = b, r_pos = p\<rparr> = Inr \<lparr>r_buf = b, r_pos = p + length (wire_val t v)\<rparr>"
proof -
  obtain c where c: "scalar_call t v = Some c" using assms(1) by (auto simp: val_ok_def split: option.splits)
  then have d: "drop p b = wire c @ post" and w: "wire_val t v = wire c" using assms(2) by (simp_all add: wire_val_def)
  have n: "wire c \<noteq> []" using scalar.enc_nonempty [OF assms(1)] w by simp
  note r = room [OF d n]
  show ?thesis
    using c d r skip_varint_back [of p b _ post] skip_delimited [OF _ assms(3), of p _ post] unfolding w
    by (cases t) (auto simp: scalar_call_def basic_wire_def type_tables skip_simple_def r_skip_def bytes_of_4 bytes_of_8
        split: jsval.splits)
qed

lemma item_skip:
  assumes f: "field_wf sc f" and ok: "item_ok mo sc f it" and s: "skippable sc f"
    and d: "drop p b = item_bytes mb sc f it @ post" "length b < 2 ^ 32"
  shows "\<exists>p1. r_uint32 \<lparr>r_buf = b, r_pos = p\<rparr> = Inr (tag (f_id f) (item_wire sc f it), \<lparr>r_buf = b, r_pos = p1\<rparr>)
     \<and> skip_type (of_nat (item_wire sc f it)) \<lparr>r_buf = b, r_pos = p1\<rparr>
       = Some (Inr \<lparr>r_buf = b, r_pos = p + length (item_bytes mb sc f it)\<rparr>)"
proof -
  obtain pl where pl: "item_bytes mb sc f it = tag_bytes (f_id f) (item_wire sc f it) @ pl"
    "item_wire sc f it = 2 \<and> (\<exists>bs. pl = delimited bs)
     \<or> (\<exists>t v. val_ok t v \<and> pl = wire_val t v \<and> item_wire sc f it = basic_wire t)"
  proof (cases it)
    case (Element v)
    then show ?thesis using that [of "elem_payload mb sc f v"] ok s
      by (cases "f_type f") (auto simp: item_bytes_def elem_bytes_eq item_wire_def elem_payload_def elem_wire_def
          item_ok_def elem_ok_def skippable_def)
  qed (use that in \<open>auto simp: item_bytes_def item_wire_def entry_bytes_def Let_def\<close>)
  have d1: "drop p b = tag_bytes (f_id f) (item_wire sc f it) @ pl @ post" using d(1) pl(1) by simp
  note t = tag_read [OF d1] and d2 = drop_app [OF d1]
  have "skip_simple (of_nat (item_wire sc f it)) \<lparr>r_buf = b, r_pos = p + length (tag_bytes (f_id f) (item_wire sc f it))\<rparr>
      = Inr \<lparr>r_buf = b, r_pos = p + length (item_bytes mb sc f it)\<rparr>"
    using pl(2) skip_delimited [OF _ d(2)] skip_scalar [OF _ _ d(2)] d2 pl(1) by (auto simp: add.assoc)
  moreover have "(of_nat (item_wire sc f it) :: u32) \<noteq> 3"
    using pl(2) small_word_eq [of "item_wire sc f it" 3] item_wire_ok(1) [of sc f it]
    by (auto simp: basic_wire_def) (metis basic_wire_def basic_wire_not_3)
  ultimately show ?thesis using t by (auto simp: skip_type_def)
qed

text \<open>The loop over the tags, for a sequence of items of fields of the type.\<close>

definition items_bytes :: "(mtype \<Rightarrow> jsval \<Rightarrow> u8 list) \<Rightarrow> schema \<Rightarrow> (field \<times> item) list \<Rightarrow> u8 list" where
  "items_bytes mb sc its = concat (map (\<lambda>(f, it). item_bytes mb sc f it) its)"

definition add_items :: "(mtype \<Rightarrow> jsval \<Rightarrow> jsval) \<Rightarrow> schema \<Rightarrow> (field \<times> item) list \<Rightarrow> (jsstring \<times> jsval) list \<Rightarrow> (jsstring \<times> jsval) list" where
  "add_items nm sc its m = fold (\<lambda>(f, it). add_item nm sc f it) its m"

lemma find_field:
  assumes "type_wf sc T" "f \<in> set (t_fields T)"
  shows "find (\<lambda>g. f_id g = f_id f) (t_fields T) = Some f"
proof -
  have "find (\<lambda>g. f_id g = f_id f) fs = Some f" if "distinct (map f_id fs)" "f \<in> set fs" for fs
    using that by (induction fs) auto
  then show ?thesis using assms by (simp add: type_wf_def)
qed

definition known :: "mtype \<Rightarrow> field \<times> item \<Rightarrow> bool" where
  "known T = (\<lambda>(f, it). f \<in> set (t_fields T))"

text \<open>
  An item of a field of the type whose message, if it holds one, is read back, or of a field with an id
  that the type does not have.
\<close>

definition item_readable ::
    "bool \<Rightarrow> (mtype \<Rightarrow> jsval \<Rightarrow> bool) \<Rightarrow> (mtype \<Rightarrow> jsval \<Rightarrow> u8 list) \<Rightarrow> (mtype \<Rightarrow> jsval \<Rightarrow> jsval) \<Rightarrow> schema
     \<Rightarrow> mtype \<Rightarrow> field \<Rightarrow> item \<Rightarrow> bool" where
  "item_readable le mo mb nm sc T f it \<longleftrightarrow> item_ok mo sc f it \<and> field_wf sc f \<and>
     (if f \<in> set (t_fields T) then
        \<forall>v \<in> set (item_vals it). \<forall>k. f_type f = MessageType k \<longrightarrow> mo (sc ! k) v \<longrightarrow>
          msg_back le sc (sc ! k) (mb (sc ! k) v) (nm (sc ! k) v)
      else f_id f \<notin> set (map f_id (t_fields T)) \<and> skippable sc f)"

text \<open>One step of the loop: the field is decoded or skipped.\<close>

lemma step_item:
  assumes T: "type_wf sc T" and it: "item_readable le mo mb nm sc T f it"
    and d: "drop p b = item_bytes mb sc f it @ post" "length b < 2 ^ 32" and c: "p + length (item_bytes mb sc f it) \<le> c"
    and next': "decode_loop n2 le sc T c (if f \<in> set (t_fields T) then add_item nm sc f it m else m)
      \<lparr>r_buf = b, r_pos = p + length (item_bytes mb sc f it)\<rparr> = Some x"
  shows "\<exists>n. decode_loop n le sc T c m \<lparr>r_buf = b, r_pos = p\<rparr> = Some x"
proof -
  have ok: "item_ok mo sc f it" and wf: "field_wf sc f" using it by (simp_all add: item_readable_def)
  let ?t = "tag (f_id f) (item_wire sc f it)"
  have t: "?t AND 7 = of_nat (item_wire sc f it)" "unat (drop_bit 3 ?t) = f_id f" "?t AND 7 \<noteq> 4"
    using tag_facts [of "f_id f" "item_wire sc f it"] wf item_wire_ok [of sc f it] small_word_eq [of "item_wire sc f it" 4]
    by (simp_all add: field_wf_def)
  have "item_bytes mb sc f it \<noteq> []"
    by (auto simp: item_bytes_def elem_bytes_eq entry_bytes_def tag_bytes_def Let_def split: item.splits)
  then have "0 < length (item_bytes mb sc f it)" by simp
  then have p: "p < c" using c by linarith
  let ?q = "p + length (item_bytes mb sc f it)"
  let ?step = "\<lambda>n r. case find (\<lambda>g. f_id g = f_id f) (t_fields T) of
      Some g \<Rightarrow> decode_field le sc (decode n le sc) g ?t m r
    | None \<Rightarrow> map_option (\<lambda>res. case res of Inl e \<Rightarrow> Inl e | Inr r \<Rightarrow> Inr (m, r)) (skip_type (?t AND 7) r)"
  let ?m = "if f \<in> set (t_fields T) then add_item nm sc f it m else m"
  obtain n1 p1 where 1: "r_uint32 \<lparr>r_buf = b, r_pos = p\<rparr> = Inr (?t, \<lparr>r_buf = b, r_pos = p1\<rparr>)"
     "?step (max n1 n2) \<lparr>r_buf = b, r_pos = p1\<rparr> = Some (Inr (?m, \<lparr>r_buf = b, r_pos = ?q\<rparr>))"
  proof (cases "f \<in> set (t_fields T)")
    case True
    then have m: "\<And>k v. v \<in> set (item_vals it) \<Longrightarrow> f_type f = MessageType k \<Longrightarrow> mo (sc ! k) v \<Longrightarrow>
        msg_back le sc (sc ! k) (mb (sc ! k) v) (nm (sc ! k) v)"
      using it by (simp add: item_readable_def)
    obtain n1 p1 where 1: "r_uint32 \<lparr>r_buf = b, r_pos = p\<rparr> = Inr (?t, \<lparr>r_buf = b, r_pos = p1\<rparr>)"
       "decode_field le sc (decode n1 le sc) f ?t m \<lparr>r_buf = b, r_pos = p1\<rparr>
         = Some (Inr (add_item nm sc f it m, \<lparr>r_buf = b, r_pos = ?q\<rparr>))"
      using item_back [where acc = m and nm = nm and le = le, OF wf ok d m] by blast
    have "decode_field le sc (decode (max n1 n2) le sc) f ?t m \<lparr>r_buf = b, r_pos = p1\<rparr>
         = Some (Inr (add_item nm sc f it m, \<lparr>r_buf = b, r_pos = ?q\<rparr>))"
      using decode_mono [OF _ max.cobounded1] by (intro decode_field_mono [OF _ 1(2)]) (unfold extends_dec_def, blast)
    then show ?thesis using that [OF 1(1), of n1] find_field [OF T True] True by simp
  next
    case False
    then have n: "find (\<lambda>g. f_id g = f_id f) (t_fields T) = None" "skippable sc f"
      using it by (simp_all add: item_readable_def find_None_iff image_iff) metis
    obtain p1 where "r_uint32 \<lparr>r_buf = b, r_pos = p\<rparr> = Inr (?t, \<lparr>r_buf = b, r_pos = p1\<rparr>)"
      "skip_type (?t AND 7) \<lparr>r_buf = b, r_pos = p1\<rparr> = Some (Inr \<lparr>r_buf = b, r_pos = ?q\<rparr>)"
      using item_skip [OF wf ok n(2) d] unfolding t(1) by blast
    then show ?thesis using that [of p1 0] n(1) False by simp
  qed
  have "decode_loop (max n1 n2) le sc T c ?m \<lparr>r_buf = b, r_pos = ?q\<rparr> = Some x"
    using decode_loop_mono [OF next' max.cobounded2] .
  then have "decode_loop (Suc (max n1 n2)) le sc T c m \<lparr>r_buf = b, r_pos = p\<rparr> = Some x"
    using 1 p t(2, 3) by (simp add: lift_read_def)
  then show ?thesis by blast
qed

lemma loop_items:
  assumes T: "type_wf sc T"
  shows "\<forall>(f, it) \<in> set its. item_readable le mo mb nm sc T f it \<Longrightarrow>
    drop p b = items_bytes mb sc its @ post \<Longrightarrow> length b < 2 ^ 32 \<Longrightarrow>
    p + length (items_bytes mb sc its) \<le> c \<Longrightarrow>
    decode_loop n le sc T c (add_items nm sc (filter (known T) its) m) \<lparr>r_buf = b, r_pos = p + length (items_bytes mb sc its)\<rparr> = Some x \<Longrightarrow>
    \<exists>n. decode_loop n le sc T c m \<lparr>r_buf = b, r_pos = p\<rparr> = Some x"
proof (induction its arbitrary: p m)
  case Nil
  then show ?case by (auto simp: items_bytes_def add_items_def)
next
  case (Cons fit its)
  obtain f it where fit: "fit = (f, it)" by (cases fit)
  let ?q = "p + length (item_bytes mb sc f it)"
  let ?m = "if f \<in> set (t_fields T) then add_item nm sc f it m else m"
  have l: "length (items_bytes mb sc ((f, it) # its)) = length (item_bytes mb sc f it) + length (items_bytes mb sc its)"
    by (simp add: items_bytes_def)
  have d: "drop p b = item_bytes mb sc f it @ items_bytes mb sc its @ post"
    using Cons.prems(2) fit by (simp add: items_bytes_def)
  have "\<exists>n. decode_loop n le sc T c ?m \<lparr>r_buf = b, r_pos = ?q\<rparr> = Some x"
  proof (rule Cons.IH)
    show "drop ?q b = items_bytes mb sc its @ post" by (rule drop_app [OF d])
    show "?q + length (items_bytes mb sc its) \<le> c" using Cons.prems(4) l by (simp add: fit)
    show "decode_loop n le sc T c (add_items nm sc (filter (known T) its) ?m)
        \<lparr>r_buf = b, r_pos = ?q + length (items_bytes mb sc its)\<rparr> = Some x"
      using Cons.prems(5) l by (cases "f \<in> set (t_fields T)") (simp_all add: fit add_items_def known_def add.assoc)
    show "length b < 2 ^ 32" by (rule Cons.prems)
  qed (use Cons.prems(1) in simp)
  then obtain n2 where 2: "decode_loop n2 le sc T c ?m \<lparr>r_buf = b, r_pos = ?q\<rparr> = Some x" by blast
  show ?case
    by (rule step_item [where mo = mo, OF T _ d Cons.prems(3) _ 2]) (use Cons.prems(1, 4) l in \<open>simp_all add: fit\<close>)
qed

section \<open>The value that the items build\<close>

lemma prop_set_again [simp]: "prop_set (prop_set acc k x) k y = prop_set acc k y"
  by (induction acc) auto

lemma prop_set_same: "prop_get acc k = Some x \<Longrightarrow> prop_set acc k x = acc"
  by (induction acc) (auto split: if_splits)

text \<open>What the constructor gives to a field.\<close>

definition initial :: "field \<Rightarrow> (jsstring \<times> jsval) list \<Rightarrow> bool" where
  "initial f acc \<longleftrightarrow> (if f_key f \<noteq> None then prop_get acc (f_name f) = Some (JObj [])
     else f_repeated f \<longrightarrow> prop_get acc (f_name f) = Some (JArr []))"

lemma initial_cong: "prop_get acc' (f_name f) = prop_get acc (f_name f) \<Longrightarrow> initial f acc' = initial f acc"
  by (simp add: initial_def)

lemma initial_new:
  assumes "plain_type T" "distinct (map f_name (t_fields T))" "f \<in> set (t_fields T)"
  shows "initial f (new_message T)"
proof -
  let ?t = "\<lambda>f. if f_key f \<noteq> None then Some (JObj []) else if f_repeated f then Some (JArr []) else None"
  have "fold (\<lambda>f m. if f_key f \<noteq> None then own_put m (f_name f) (JObj []) else if f_repeated f then own_put m (f_name f) (JArr []) else m) fs d
      = fold (\<lambda>f. set_field f (?t f)) fs d" if "list_all (\<lambda>f. plain_name (f_name f)) fs" for fs d
    using that by (induction fs arbitrary: d) (simp_all add: plain_put set_field_def)
  then have "new_message T = fold (\<lambda>f. set_field f (?t f)) (t_fields T) []"
    using assms(1) by (simp add: new_message_def plain_type_def)
  then show ?thesis using fold_set_field [OF assms(2, 3), of ?t "[]"] by (simp add: initial_def split: if_splits)
qed

lemma fold_elements:
  assumes "f_repeated f" "prop_get acc (f_name f) = Some (JArr us)" "plain_name (f_name f)"
  shows "fold (add_item nm sc f) (map Element vs) acc = prop_set acc (f_name f) (JArr (us @ map (elem_norm nm sc f) vs))"
  using assms
proof (induction vs arbitrary: acc us)
  case Nil
  then show ?case by (simp add: prop_set_same)
next
  case (Cons v vs)
  from Cons show ?case by (simp add: add_item_def plain_put)
qed

lemma fold_entries:
  assumes "prop_get acc (f_name f) = Some (JObj ps)" "distinct (map fst ps @ ks)" "plain_name (f_name f)" "list_all plain_name ks"
  shows "fold (add_item nm sc f) (map (\<lambda>k. Entry k (g k)) ks) acc
    = prop_set acc (f_name f) (JObj (ps @ map (\<lambda>k. (k, elem_norm nm sc f (g k))) ks))"
  using assms
proof (induction ks arbitrary: acc ps)
  case Nil
  then show ?case by (simp add: prop_set_same)
next
  case (Cons k ks)
  have "prop_set ps k v = ps @ [(k, v)]" for v using Cons.prems(2) by (intro prop_set_new) auto
  with Cons show ?case by (simp add: add_item_def plain_put)
qed

lemma add_field_items:
  assumes "field_ok mo sc m f" "plain_keys (JObj m)" "plain_name (f_name f)" "initial f acc" "\<not> (f_repeated f \<and> f_key f \<noteq> None)"
  shows "fold (add_item nm sc f) (field_items m f) acc = set_field f (field_norm nm sc m f) acc"
proof -
  note d = field_items_def field_norm_def field_ok_def set_field_def
  show ?thesis
  proof (cases "prop_get m (f_name f)")
    case None
    then show ?thesis by (simp add: d)
  next
    case own: (Some v)
    show ?thesis
    proof (cases "f_key f")
      case (Some kt)
      then obtain q where q: "v = JObj q" "distinct (map fst q)" using assms(1) own by (auto simp: field_ok_def split: jsval.splits)
      have "plain_keys (JObj q)" using plain_prop [OF assms(2) own] q(1) by simp
      then have k: "list_all plain_name (object_keys q)" by (auto simp: list_all_iff)
      have "prop_get acc (f_name f) = Some (JObj [])" using assms(4) Some by (simp add: initial_def)
      from fold_entries [OF this _ assms(3) k, of nm sc "\<lambda>k. the (prop_get q k)"] distinct_object_keys [OF q(2)]
      have "fold (add_item nm sc f) (map (\<lambda>k. Entry k (the (prop_get q k))) (object_keys q)) acc
          = prop_set acc (f_name f) (JObj (map (\<lambda>k. (k, elem_norm nm sc f (the (prop_get q k)))) (object_keys q)))" by simp
      then show ?thesis using own q Some by (cases "q = []") (simp_all add: d object_keys_def)
    next
      case None
      show ?thesis
      proof (cases "f_repeated f")
        case True
        then obtain vs where vs: "v = JArr vs" using assms(1) own None by (auto simp: field_ok_def split: jsval.splits)
        have i: "prop_get acc (f_name f) = Some (JArr [])" using assms(4) None True by (simp add: initial_def)
        show ?thesis
        proof (cases "is_packed f")
          case True
          then have "elem_norm nm sc f = id" by (auto simp: is_packed_def codec_type_def elem_norm_def fun_eq_iff split: ftype.splits)
          then show ?thesis using own None vs True \<open>f_repeated f\<close> i by (simp add: d add_item_def plain_put [OF assms(3)])
        next
          case False
          then show ?thesis using own None vs True fold_elements [OF True i assms(3), of nm sc vs] by (simp add: d)
        qed
      next
        case False
        then show ?thesis using own None by (simp add: d add_item_def plain_put [OF assms(3)])
      qed
    qed
  qed
qed

definition msg_items :: "mtype \<Rightarrow> (jsstring \<times> jsval) list \<Rightarrow> (field \<times> item) list" where
  "msg_items T m = concat (map (\<lambda>f. map (Pair f) (field_items m f)) (sort_key f_id (t_fields T)))"

lemma msg_items_bytes: "items_bytes (msg_bytes n sc) sc (msg_items T m) = msg_bytes (Suc n) sc T (JObj m)"
proof -
  have "concat (map (\<lambda>(f, it). item_bytes mb sc f it) (concat (map (\<lambda>f. map (Pair f) (field_items m f)) fs)))
      = concat (map (field_bytes mb sc m) fs)" for fs mb
    by (induction fs) (simp_all add: field_bytes_def comp_def)
  then show ?thesis by (simp add: items_bytes_def msg_items_def)
qed

lemma field_items_ok:
  assumes "field_ok mo sc m f" "it \<in> set (field_items m f)"
  shows "item_ok mo sc f it"
proof -
  obtain v where own: "prop_get m (f_name f) = Some v" using assms(2)
    by (cases "prop_get m (f_name f)") (simp_all add: field_items_def)
  show ?thesis
  proof (cases "f_key f")
    case (Some kt)
    then obtain ps where ps: "v = JObj ps" using assms(1) own by (auto simp: field_ok_def split: jsval.splits)
    then obtain k where k: "k \<in> set (object_keys ps)" "it = Entry k (the (prop_get ps k))"
      using assms(2) own Some by (auto simp: field_items_def)
    then obtain v' where "prop_get ps k = Some v'" "key_ok kt k" "elem_ok mo sc f v'"
      using map_entry_ok [OF assms(1) Some own [unfolded ps]] by blast
    then show ?thesis using k(2) Some by (simp add: item_ok_def)
  next
    case None
    then show ?thesis using assms own
      by (auto simp: field_items_def field_ok_def item_ok_def list_all_iff split: if_splits jsval.splits)
  qed
qed

lemma add_items_fields:
  assumes "\<And>f. f \<in> set fs \<Longrightarrow> field_wf sc f \<and> field_ok mo sc m f \<and> plain_name (f_name f) \<and> initial f acc" "plain_keys (JObj m)"
    "distinct (map f_name fs)"
  shows "add_items nm sc (concat (map (\<lambda>f. map (Pair f) (field_items m f)) fs)) acc
    = fold (\<lambda>f. set_field f (field_norm nm sc m f)) fs acc"
  using assms
proof (induction fs arbitrary: acc)
  case (Cons f fs)
  have "fold (\<lambda>(f, it). add_item nm sc f it) (map (Pair f) its) acc = fold (add_item nm sc f) its acc" for its
    by (simp add: fold_map comp_def)
  moreover have "fold (add_item nm sc f) (field_items m f) acc = set_field f (field_norm nm sc m f) acc"
    by (rule add_field_items [where mo = mo]) (use Cons.prems(1) [of f] Cons.prems(2) in \<open>simp_all add: field_wf_def\<close>)
  moreover have "add_items nm sc (concat (map (\<lambda>f. map (Pair f) (field_items m f)) fs)) (set_field f (field_norm nm sc m f) acc)
      = fold (\<lambda>f. set_field f (field_norm nm sc m f)) fs (set_field f (field_norm nm sc m f) acc)"
  proof (rule Cons.IH)
    fix g assume g: "g \<in> set fs"
    then have "f_name g \<noteq> f_name f" using Cons.prems(3) by (auto simp: image_iff)
    then have "initial g (set_field f (field_norm nm sc m f) acc) = initial g acc" by (intro initial_cong set_field_other)
    then show "field_wf sc g \<and> field_ok mo sc m g \<and> plain_name (f_name g) \<and> initial g (set_field f (field_norm nm sc m f) acc)"
      using Cons.prems(1) [of g] g by simp
  qed (use Cons.prems in simp_all)
  ultimately show ?case by (simp add: add_items_def)
qed (simp add: add_items_def)

text \<open>The values inside a value with plain keys.\<close>

definition plain_ok :: "nat \<Rightarrow> schema \<Rightarrow> mtype \<Rightarrow> jsval \<Rightarrow> bool" where
  "plain_ok n sc T v \<longleftrightarrow> msg_ok n sc T v \<and> plain_keys v"

lemma field_plain_ok:
  assumes "field_ok (msg_ok n sc) sc m f" "plain_keys (JObj m)"
  shows "field_ok (plain_ok n sc) sc m f"
proof (cases "prop_get m (f_name f)")
  case None
  then show ?thesis using assms(1) by (simp add: field_ok_def)
next
  case (Some v)
  have e: "elem_ok (plain_ok n sc) sc f x" if "elem_ok (msg_ok n sc) sc f x" "plain_keys x" for x
    using that by (auto simp: elem_ok_def plain_ok_def split: ftype.splits)
  have "plain_keys v" using plain_prop [OF assms(2) Some] by simp
  then show ?thesis using assms(1) Some e
    by (cases v) (auto simp: field_ok_def list_all_iff split: if_splits dest!: bspec)
qed

lemma msg_ok_object: "msg_ok n sc T v \<Longrightarrow> \<exists>m. v = JObj m"
  by (cases n; cases v) simp_all

lemma map_sort_key_distinct: "distinct (map g xs) \<Longrightarrow> distinct (map g (sort_key h xs))"
  by (simp add: distinct_map)

lemma norm_has_required:
  assumes "\<And>f. f \<in> set (t_fields T) \<Longrightarrow> field_ok mo sc m f" "distinct (map f_name (t_fields T))"
  shows "missing_required T (fold (\<lambda>f. set_field f (field_norm nm sc m f)) (sort_key f_id (t_fields T)) d) = None"
proof -
  let ?m = "fold (\<lambda>f. set_field f (field_norm nm sc m f)) (sort_key f_id (t_fields T)) d"
  have "has_own ?m (f_name f)" if f: "f \<in> set (t_fields T)" "f_required f" for f
  proof -
    obtain v where v: "prop_get m (f_name f) = Some v" "f_key f = None" "\<not> f_repeated f"
      using assms(1) [OF f(1)] f(2) by (auto simp: field_ok_def split: option.splits if_splits jsval.splits)
    then have "field_norm nm sc m f = Some (elem_norm nm sc f v)" by (simp add: field_norm_def)
    then show ?thesis
      using fold_set_field [OF map_sort_key_distinct [OF assms(2), of f_id], of f "field_norm nm sc m" d] f(1) by (simp add: has_own_def)
  qed
  then show ?thesis by (auto simp: missing_required_def find_None_iff)
qed

lemma loop_stop: "\<not> r_pos r < c \<Longrightarrow> decode_loop (Suc n) le sc T c m r = Some (Inr (m, r))"
  by simp

lemma sort_key_filter_unique:
  assumes "distinct (map h xs)" "distinct (map h ys)" "set ys \<subseteq> set xs"
  shows "filter (\<lambda>x. x \<in> set ys) (sort_key h xs) = sort_key h ys"
proof -
  let ?l = "filter (\<lambda>x. x \<in> set ys) (sort_key h xs)"
  have "sorted (map h ?l)" using sorted_filter [of h "sort_key h xs"] by simp
  moreover have "set ?l = set ys" using assms(3) by auto
  moreover have "inj_on h (set ys)" using assms(2) by (simp add: distinct_map)
  moreover have "distinct ?l" using assms(1) by (simp add: distinct_map)
  ultimately show ?thesis
    using assms(2) by (intro map_sorted_distinct_set_unique [where f = h]) (auto simp: distinct_map)
qed

text \<open>The loop over a message of a type \<open>T'\<close> with the decoder of a type \<open>T\<close> that has fewer fields.\<close>

lemma loop_message:
  assumes T: "type_wf sc T" "type_wf sc T'" "set (t_fields T) \<subseteq> set (t_fields T')"
    and sk: "\<forall>f \<in> set (t_fields T'). f \<notin> set (t_fields T) \<longrightarrow> skippable sc f"
    and ok: "msg_ok (Suc n) sc T' (JObj m)"
    and pl: "plain_type T" "plain_keys (JObj m)"
    and nested: "\<forall>f \<in> set (t_fields T). \<forall>k v. f_type f = MessageType k \<longrightarrow> plain_ok n sc (sc ! k) v \<longrightarrow>
      msg_back le sc (sc ! k) (msg_bytes n sc (sc ! k) v) (msg_norm n sc (sc ! k) v)"
    and d: "drop p b = msg_bytes (Suc n) sc T' (JObj m) @ post" "length b < 2 ^ 32"
      "p + length (msg_bytes (Suc n) sc T' (JObj m)) \<le> c"
    and next': "decode_loop k le sc T c (fold (\<lambda>f. set_field f (field_norm (msg_norm n sc) sc m f)) (sort_key f_id (t_fields T)) (new_message T))
      \<lparr>r_buf = b, r_pos = p + length (msg_bytes (Suc n) sc T' (JObj m))\<rparr> = Some x"
  shows "\<exists>k. decode_loop k le sc T c (new_message T) \<lparr>r_buf = b, r_pos = p\<rparr> = Some x"
proof -
  let ?mo = "plain_ok n sc" let ?nm = "msg_norm n sc" let ?mb = "msg_bytes n sc"
  let ?its = "msg_items T' m"
  let ?fs = "sort_key f_id (t_fields T)"
  have fok: "field_wf sc f \<and> field_ok ?mo sc m f" if "f \<in> set (t_fields T')" for f
    using T(2) ok that pl(2) field_plain_ok by (simp add: type_wf_def list_all_iff)
  have fs: "filter (\<lambda>f. f \<in> set (t_fields T)) (sort_key f_id (t_fields T')) = ?fs"
    using T by (intro sort_key_filter_unique) (simp_all add: type_wf_def)
  have "filter (known T) (concat (map (\<lambda>f. map (Pair f) (field_items m f)) fs))
      = concat (map (\<lambda>f. map (Pair f) (field_items m f)) (filter (\<lambda>f. f \<in> set (t_fields T)) fs))" for fs
    by (induction fs) (auto simp: known_def filter_map comp_def)
  then have kn: "filter (known T) ?its = concat (map (\<lambda>f. map (Pair f) (field_items m f)) ?fs)"
    by (simp add: msg_items_def fs)
  have ids: "f_id f \<notin> set (map f_id (t_fields T))" if "f \<in> set (t_fields T')" "f \<notin> set (t_fields T)" for f
    using that T(2, 3) by (auto simp: type_wf_def distinct_map inj_on_def)
  have items: "\<forall>(f, it) \<in> set ?its. item_readable le ?mo ?mb ?nm sc T f it"
  proof (intro ballI, clarify)
    fix f it assume "(f, it) \<in> set ?its"
    then have f: "f \<in> set (t_fields T')" and it: "it \<in> set (field_items m f)" by (auto simp: msg_items_def)
    have "item_ok ?mo sc f it" using field_items_ok it fok [OF f] by blast
    then show "item_readable le ?mo ?mb ?nm sc T f it"
      using fok [OF f] nested ids [OF f] sk f by (auto simp: item_readable_def)
  qed
  have add: "add_items ?nm sc (filter (known T) ?its) (new_message T) = fold (\<lambda>f. set_field f (field_norm ?nm sc m f)) ?fs (new_message T)"
  proof -
    have dn: "distinct (map f_name (t_fields T))" using T(1) by (simp add: type_wf_def)
    have "field_wf sc f \<and> field_ok ?mo sc m f \<and> plain_name (f_name f) \<and> initial f (new_message T)" if "f \<in> set ?fs" for f
      using that fok T(3) pl(1) initial_new [OF pl(1) dn, of f] by (auto simp: plain_type_def list_all_iff)
    from add_items_fields [OF this pl(2) map_sort_key_distinct [OF dn], where nm = ?nm] show ?thesis
      unfolding kn .
  qed
  show ?thesis
    by (rule loop_items [OF T(1) items, unfolded msg_items_bytes, OF d next' [folded add]])
qed

lemma message_back:
  assumes "schema_wf sc" "list_all plain_type sc"
  shows "type_wf sc T \<Longrightarrow> plain_type T \<Longrightarrow> plain_ok n sc T v \<Longrightarrow> msg_back le sc T (msg_bytes n sc T v) (msg_norm n sc T v)"
proof (induction n arbitrary: T v)
  case (Suc n)
  have ok: "msg_ok (Suc n) sc T v" using Suc.prems(3) by (simp add: plain_ok_def)
  obtain m where m: "v = JObj m" using msg_ok_object [OF ok] by blast
  have pk: "plain_keys (JObj m)" using Suc.prems(3) m by (simp add: plain_ok_def)
  let ?norm = "fold (\<lambda>f. set_field f (field_norm (msg_norm n sc) sc m f)) (sort_key f_id (t_fields T)) (new_message T)"
  have fok: "field_wf sc f \<and> field_ok (msg_ok n sc) sc m f" if "f \<in> set (t_fields T)" for f
    using Suc.prems(1) ok m that by (simp add: type_wf_def list_all_iff)
  have nested: "\<forall>f \<in> set (t_fields T). \<forall>k v. f_type f = MessageType k \<longrightarrow> plain_ok n sc (sc ! k) v \<longrightarrow>
      msg_back le sc (sc ! k) (msg_bytes n sc (sc ! k) v) (msg_norm n sc (sc ! k) v)"
  proof (intro ballI allI impI)
    fix f k v assume f: "f \<in> set (t_fields T)" "f_type f = MessageType k" "plain_ok n sc (sc ! k) v"
    have "k < length sc" using fok [OF f(1)] f(2) by (simp add: field_wf_def)
    then show "msg_back le sc (sc ! k) (msg_bytes n sc (sc ! k) v) (msg_norm n sc (sc ! k) v)"
      using Suc.IH [OF type_wf_nth [OF assms(1)] _ f(3)] assms(2) by (simp add: list_all_length)
  qed
  have miss: "missing_required T ?norm = None"
    by (rule norm_has_required [where mo = "msg_ok n sc"]) (use fok Suc.prems(1) in \<open>simp_all add: type_wf_def\<close>)
  have "\<forall>f \<in> set (t_fields T). f \<notin> set (t_fields T) \<longrightarrow> skippable sc f" by simp
  note loop = loop_message [OF Suc.prems(1, 1) order_refl this ok [unfolded m] Suc.prems(2) pk nested, folded m]
  show ?case unfolding msg_back_def
  proof (intro conjI allI impI)
    fix b p post
    assume d: "drop p b = msg_bytes (Suc n) sc T v @ post" and l: "length b < 2 ^ 32"
    let ?q = "p + length (msg_bytes (Suc n) sc T v)"
    obtain k where "decode_loop k le sc T ?q (new_message T) \<lparr>r_buf = b, r_pos = p\<rparr> = Some (Inr (?norm, \<lparr>r_buf = b, r_pos = ?q\<rparr>))"
      using loop [OF d l order_refl loop_stop [where n = 0]] by auto
    then have "decode (Suc k) le sc T \<lparr>r_buf = b, r_pos = p\<rparr> (Some (length (msg_bytes (Suc n) sc T v)))
        = Some (Inr (msg_norm (Suc n) sc T v, \<lparr>r_buf = b, r_pos = ?q\<rparr>))"
      using miss m by simp
    then show "\<exists>k. decode k le sc T \<lparr>r_buf = b, r_pos = p\<rparr> (Some (length (msg_bytes (Suc n) sc T v)))
        = Some (Inr (msg_norm (Suc n) sc T v, \<lparr>r_buf = b, r_pos = ?q\<rparr>))" by blast
  next
    fix b p post and i :: nat
    assume g: "t_group T" and i: "i < 2 ^ 29" and l: "length b < 2 ^ 32"
      and d: "drop p b = msg_bytes (Suc n) sc T v @ tag_bytes i 4 @ post"
    let ?q = "p + length (msg_bytes (Suc n) sc T v)"
    let ?r = "\<lparr>r_buf = b, r_pos = ?q + length (tag_bytes i 4)\<rparr>"
    have d1: "drop ?q b = tag_bytes i 4 @ post" by (rule drop_app [OF d])
    have lt: "?q < length b" using d1 by (cases "?q < length b") (simp_all add: tag_bytes_def)
    have "decode_loop (Suc 0) le sc T (length b) ?norm \<lparr>r_buf = b, r_pos = ?q\<rparr> = Some (Inr (?norm, ?r))"
      using lt g tag_read [OF d1] tag_facts(2) [OF i, of 4] by (simp add: lift_read_def)
    then obtain k where "decode_loop k le sc T (length b) (new_message T) \<lparr>r_buf = b, r_pos = p\<rparr> = Some (Inr (?norm, ?r))"
      using loop [OF d l less_imp_le [OF lt]] by blast
    then have "decode (Suc k) le sc T \<lparr>r_buf = b, r_pos = p\<rparr> None = Some (Inr (msg_norm (Suc n) sc T v, ?r))"
      using miss m by simp
    then show "\<exists>k. decode k le sc T \<lparr>r_buf = b, r_pos = p\<rparr> None = Some (Inr (msg_norm (Suc n) sc T v, ?r))" by blast
  qed
qed (simp add: plain_ok_def)

section \<open>Properties of the generated code\<close>

text \<open>C9: the generated decoder returns on every input: with fuel for twice the length of the buffer it
  yields a message or an exception, whatever the bytes and the length argument are.\<close>

theorem decode_returns:
  assumes "schema_wf sc" "type_wf sc T" "2 * length bs + 2 \<le> n"
  shows "\<exists>res. decode n le sc T (new_reader bs) l = Some res"
  by (rule decode_some [OF assms])

definition pt_field :: "string \<Rightarrow> nat \<Rightarrow> ftype \<Rightarrow> field" where
  "pt_field name i t =
     \<lparr>f_name = js name, f_id = i, f_type = t, f_required = False, f_repeated = False, f_packed = False,
      f_key = None, f_default = JUndef, f_values = [], f_part_of = None, f_type_default = JNull\<rparr>"

definition point :: mtype where
  "point = \<lparr>t_full_name = js ''.Point'', t_fields = [pt_field ''y'' 2 (Basic TSint32), pt_field ''x'' 1 (Basic TUint32),
     pt_field ''n'' 3 (MessageType 0)], t_group = False\<rparr>"

lemma point_wf: "schema_wf [point]" "type_wf [point] point"
  by (simp_all add: schema_wf_def type_wf_def point_def field_wf_def pt_field_def js_simps)

lemma decode_returns_witness: "\<exists>res. decode 8 True [point] point (new_reader [8, 0xFF, 0x1B]) None = Some res"
  using decode_returns [OF point_wf, of "[8, 0xFF, 0x1B]" 8] by simp

lemma written_and_read:
  assumes "schema_wf sc" "type_wf sc T" "msg_ok n sc T v" "list_all plain_type (T # sc)" "plain_keys v" "length (msg_bytes n sc T v) < 2 ^ 32"
  shows "\<exists>w. encode n sc T v new_writer = Some (Inr w) \<and> fst (w_finish le w) = msg_bytes n sc T v
    \<and> decode (2 * length (msg_bytes n sc T v) + 2) le' sc T (new_reader (fst (w_finish le w))) None
      = Some (Inr (msg_norm n sc T v, \<lparr>r_buf = msg_bytes n sc T v, r_pos = length (msg_bytes n sc T v)\<rparr>))"
proof -
  obtain w where w: "encode n sc T v new_writer = Some (Inr w)" "fst (w_finish le w) = msg_bytes n sc T v"
    using encode_writes_bytes [OF assms(1, 2, 3)] by blast
  let ?b = "msg_bytes n sc T v"
  let ?x = "Inr (msg_norm n sc T v, \<lparr>r_buf = ?b, r_pos = length ?b\<rparr>)"
  obtain k where "decode k le' sc T (new_reader ?b) (Some (length ?b)) = Some ?x"
  proof -
    have "msg_back le' sc T ?b (msg_norm n sc T v)" by (rule message_back) (use assms in \<open>simp_all add: plain_ok_def\<close>)
    from conjunct1 [OF this [unfolded msg_back_def], THEN spec [of _ ?b], THEN spec [of _ 0], THEN spec [of _ "[]"]]
    show ?thesis using assms(6) that by (auto simp: new_reader_def)
  qed
  moreover have "decode k le' sc T (new_reader ?b) None = decode k le' sc T (new_reader ?b) (Some (length ?b))"
    by (cases k) (simp_all add: new_reader_def)
  ultimately have k: "decode k le' sc T (new_reader ?b) None = Some ?x" by simp
  obtain res where res: "decode (2 * length ?b + 2) le' sc T (new_reader ?b) None = Some res"
    using decode_some [OF assms(1, 2) order_refl] by blast
  have "res = ?x"
    using decode_mono [OF k max.cobounded1, of "2 * length ?b + 2"] decode_mono [OF res max.cobounded2, of k] by simp
  then show ?thesis using w res by (auto simp del: decode.simps decode_loop.simps encode.simps msg_norm.simps)
qed

text \<open>C1: round trip of messages: every well-formed value of a type - nested messages, groups, packed and
  unpacked arrays, maps - is written by the generated encoder as exactly the bytes of its fields, and
  the generated decoder reads from them the message that the constructor makes, with its empty arrays and maps, and in it
  every field that was written, in the order of the ids. The names \<open>__proto__\<close> and \<open>hasOwnProperty\<close> are excluded.\<close>

theorem message_roundtrip:
  assumes "schema_wf sc" "type_wf sc T" "msg_ok n sc T v" "list_all plain_type (T # sc)" "plain_keys v" "length (msg_bytes n sc T v) < 2 ^ 32"
  shows "\<exists>w. encode n sc T v new_writer = Some (Inr w) \<and> fst (w_finish le w) = msg_bytes n sc T v
    \<and> decode (2 * length (msg_bytes n sc T v) + 2) le' sc T (new_reader (fst (w_finish le w))) None
      = Some (Inr (msg_norm n sc T v, \<lparr>r_buf = msg_bytes n sc T v, r_pos = length (msg_bytes n sc T v)\<rparr>))"
  by (rule written_and_read [OF assms])

definition pt_value :: jsval where
  "pt_value = JObj [(js ''x'', JNum 5), (js ''n'', JObj [(js ''y'', JNum (-1))])]"

lemmas pt_defs = pt_value_def point_def pt_field_def js_simps codec_type_def

lemma point_sorted:
  "sort_key f_id (t_fields point) = [pt_field ''x'' 1 (Basic TUint32), pt_field ''y'' 2 (Basic TSint32), pt_field ''n'' 3 (MessageType 0)]"
  by (simp add: point_def pt_field_def)

lemma point_new: "new_message point = []"
  by (simp add: new_message_def point_def pt_field_def)

lemma point_group: "\<not> t_group point"
  by (simp add: point_def)

lemma pt_value_ok: "msg_ok (Suc (Suc 0)) [point] point pt_value"
  by (simp add: pt_defs field_ok_def elem_ok_def val_ok_def scalar_call_def nullish_def)

lemma pt_plain: "list_all plain_type [point, point]" "plain_keys pt_value"
  by (simp_all add: plain_type_def plain_name_def pt_defs)

lemma pt_inner_bytes: "msg_bytes (Suc 0) [point] point (JObj [(js ''y'', JNum (-1))]) = [16, 1]"
  by (simp add: point_sorted pt_field_def js_simps codec_type_def field_bytes_def field_items_def item_bytes_def
      elem_bytes_def tag_bytes_def tag_def basic_wire_def type_tables wire_val_def scalar_call_def
      varint.simps byte_of_def zigzag_def)

lemma pt_value_bytes: "msg_bytes (Suc (Suc 0)) [point] point pt_value = [8, 5, 26, 2, 16, 1]"
  using pt_inner_bytes point_group
  by (simp add: point_sorted pt_value_def pt_field_def js_simps codec_type_def field_bytes_def field_items_def item_bytes_def
      elem_bytes_def tag_bytes_def tag_def basic_wire_def type_tables wire_val_def scalar_call_def
      delimited_def varint.simps byte_of_def del: msg_bytes.simps(1) add: msg_bytes.simps(1) [of "Suc 0"])

lemma pt_value_norm: "msg_norm (Suc (Suc 0)) [point] point pt_value = pt_value"
  by (simp add: point_sorted point_new pt_value_def pt_field_def js_simps field_norm_def elem_norm_def set_field_def)

lemma message_roundtrip_witness:
  "\<exists>w. encode (Suc (Suc 0)) [point] point pt_value new_writer = Some (Inr w) \<and> fst (w_finish True w) = [8, 5, 26, 2, 16, 1]
    \<and> decode (2 * length [8, 5, 26, 2, 16, 1 :: u8] + 2) True [point] point (new_reader (fst (w_finish True w))) None
      = Some (Inr (pt_value, \<lparr>r_buf = [8, 5, 26, 2, 16, 1], r_pos = length [8, 5, 26, 2, 16, 1 :: u8]\<rparr>))"
proof -
  have "length [8, 5, 26, 2, 16, 1 :: u8] < 2 ^ 32" by simp
  from message_roundtrip [OF point_wf pt_value_ok pt_plain, unfolded pt_value_bytes pt_value_norm, OF this] show ?thesis .
qed


definition point_v1 :: mtype where
  "point_v1 = \<lparr>t_full_name = js ''.Point'', t_fields = [pt_field ''x'' 1 (Basic TUint32)], t_group = False\<rparr>"


text \<open>Fields of an enum type are coded as \<open>uint32\<close>, so a negative enum value comes back as a
  large positive number.\<close>

theorem negative_enum_changes:
  assumes "f_type f = EnumType" "- (2 ^ 31) \<le> v" "v < 0"
  shows "\<exists>w. encode_element sc enc f (JNum v) new_writer = Some (Inr w)
     \<and> decode_element le' sc dec f \<lparr>r_buf = fst (w_finish le w), r_pos = length (tag_bytes (f_id f) 0)\<rparr>
       = Some (Inr (JNum (v + 2 ^ 32), \<lparr>r_buf = fst (w_finish le w), r_pos = length (fst (w_finish le w))\<rparr>))"
proof -
  let ?v = "JNum (v + 2 ^ 32)"
  have t: "codec_type f = Some TUint32" using assms(1) by (simp add: codec_type_def)
  have ok: "val_ok TUint32 ?v" using assms(2, 3) by (simp add: val_ok_def scalar_call_def)
  have "to_uint32 v = to_uint32 (v + 2 ^ 32)" by (simp add: to_uint32_def)
  then have same: "encode_element sc enc f (JNum v) w = encode_element sc enc f ?v w" for w
    using assms(1) t by (simp add: encode_element_def write_scalar_def scalar_call_def w_uint32_def)
  have o: "writer_ok new_writer" "levels new_writer = [[]]"
    by (simp_all add: new_writer_def writer_ok_def ops_sized_def levels_def)
  let ?b = "tag_bytes (f_id f) 0 @ wire_val TUint32 ?v"
  have "elem_bytes mb sc f ?v = ?b" for mb
    using assms(1) t by (simp add: elem_bytes_def basic_wire_def type_tables)
  then have "appends (encode_element sc enc f ?v) ?b"
    using appends_element [where mo = "\<lambda>_ _. False" and mb = "\<lambda>_ _. []" and sc = sc and f = f and v = ?v and enc = enc] ok t assms(1)
    by (simp add: elem_ok_def)
  then obtain w where w: "encode_element sc enc f ?v new_writer = Some (Inr w)" "writer_ok w" "levels w = [?b]"
    using o by (auto simp: appends_def emit_def)
  then have b: "fst (w_finish le w) = ?b" using w_finish_bytes [of w le] by simp
  have "decode_element le' sc dec f \<lparr>r_buf = ?b, r_pos = length (tag_bytes (f_id f) 0)\<rparr>
      = Some (Inr (?v, \<lparr>r_buf = ?b, r_pos = length ?b\<rparr>))"
    using scalar_back [OF ok, of "length (tag_bytes (f_id f) 0)" ?b "[]" le'] assms(1) t by (simp add: decode_element_def)
  then show ?thesis using w(1) b same by auto
qed

lemma negative_enum_changes_witness:
  "\<exists>w. encode_element [] (\<lambda>_ _ _. None) (pt_field ''e'' 1 EnumType) (JNum (-1)) new_writer = Some (Inr w)
     \<and> decode_element True [] (\<lambda>_ _ _. None) (pt_field ''e'' 1 EnumType)
         \<lparr>r_buf = fst (w_finish True w), r_pos = length (tag_bytes (f_id (pt_field ''e'' 1 EnumType)) 0)\<rparr>
       = Some (Inr (JNum 4294967295, \<lparr>r_buf = fst (w_finish True w), r_pos = length (fst (w_finish True w))\<rparr>))"
  using negative_enum_changes [of "pt_field ''e'' 1 EnumType" "-1" "[]" "\<lambda>_ _ _. None" True "\<lambda>_ _ _. None" True]
  by (simp add: pt_field_def)

text \<open>A map with boolean keys does not survive: the property name \<open>false\<close> is a non-empty string,
  so the encoder writes it as true.\<close>

lemma false_key_becomes_true:
  "write_key TBool (js ''false'') w = Some (Inr (w_bool True w)) \<and> key_string (JBool True) = Some (js ''true'')"
  by (simp add: write_key_def js_simps)

end
