(* ===== verification/Emitter.thy ===== *)
theory Emitter
  imports JsPrelude
begin

text \<open>
  The EventEmitter of protobuf.js. The listener arrays are shared between the table of listeners
  and a running \<open>emit\<close>, so they are kept in a store of arrays and the table holds their indices. The table is
  a plain object, which inherits the members of Object.prototype. What a listener does when it is called is the
  parameter \<open>run\<close>, which may change the emitter.
\<close>

text \<open>The context of a listener is the emitter itself where none, or a falsy one, was given.\<close>

datatype 'c ctx = This | Context 'c

definition or_this :: "'c option \<Rightarrow> 'c ctx" where
  "or_this ctx = (case ctx of None \<Rightarrow> This | Some c \<Rightarrow> Context c)"

record ('f, 'c) listener =
  l_fn :: 'f
  l_ctx :: "'c ctx"

record ('f, 'c) emitter =
  e_table :: "(jsstring, nat) props"
  e_arrays :: "('f, 'c) listener list list"

definition new_emitter :: "('f, 'c) emitter" where
  "new_emitter = \<lparr>e_table = [], e_arrays = []\<rparr>"

text \<open>
  The names that the table inherits, with the property \<open>length\<close> of the functions; \<open>__proto__\<close> gives an object without one,
  over which no loop runs.
\<close>

definition inherited_length :: "jsstring \<Rightarrow> nat option" where
  "inherited_length evt =
     (if evt \<notin> set proto_names then None
      else if evt \<in> {js ''toString'', js ''toLocaleString'', js ''valueOf'', js ''__proto__''} then Some 0
      else if evt \<in> {js ''__defineGetter__'', js ''__defineSetter__''} then Some 2 else Some 1)"

text \<open>\<open>this._listeners[evt] = []\<close>: a fresh array.\<close>

definition set_fresh :: "jsstring \<Rightarrow> ('f, 'c) emitter \<Rightarrow> ('f, 'c) emitter" where
  "set_fresh evt em = em\<lparr>e_table := prop_set (e_table em) evt (length (e_arrays em)), e_arrays := e_arrays em @ [[]]\<rparr>"

text \<open>\<open>on\<close> throws for an inherited name, since what it finds there has no \<open>push\<close>.\<close>

definition em_on :: "jsstring \<Rightarrow> 'f \<Rightarrow> 'c option \<Rightarrow> ('f, 'c) emitter \<Rightarrow> ('f, 'c) emitter res" where
  "em_on evt fn ctx em =
     (if prop_get (e_table em) evt = None \<and> inherited_length evt \<noteq> None then Inl (JsTypeError (js ''push''))
      else
        let em = (if prop_get (e_table em) evt = None then set_fresh evt em else em);
            a = the (prop_get (e_table em) evt)
        in Inr (em\<lparr>e_arrays := (e_arrays em)[a := e_arrays em ! a @ [\<lparr>l_fn = fn, l_ctx = or_this ctx\<rparr>]]\<rparr>))"

text \<open>
  \<open>off()\<close> drops the table, \<open>off(evt)\<close> replaces the array, \<open>off(evt, fn)\<close> removes the listener from the
  array in place and throws a TypeError when the event was never registered. \<open>off("__proto__")\<close> replaces the
  prototype of the table, which is not modelled.
\<close>

definition em_off_all :: "('f, 'c) emitter \<Rightarrow> ('f, 'c) emitter" where
  "em_off_all em = em\<lparr>e_table := []\<rparr>"

definition em_off_fn :: "jsstring \<Rightarrow> 'f \<Rightarrow> ('f, 'c) emitter \<Rightarrow> ('f, 'c) emitter res" where
  "em_off_fn evt fn em =
     (case prop_get (e_table em) evt of
        None \<Rightarrow>
          (case inherited_length evt of
             None \<Rightarrow> Inl (JsTypeError (js ''length''))
           | Some n \<Rightarrow> if n = 0 then Inr em else Inl (JsTypeError (js ''fn'')))
      | Some a \<Rightarrow> Inr (em\<lparr>e_arrays := (e_arrays em)[a := splice_while (\<lambda>l. l_fn l = fn) 0 (e_arrays em ! a)]\<rparr>))"

definition em_off :: "jsstring option \<Rightarrow> 'f option \<Rightarrow> ('f, 'c) emitter \<Rightarrow> ('f, 'c) emitter res option" where
  "em_off evt fn em =
     (case evt of
        None \<Rightarrow> Some (Inr (em_off_all em))
      | Some evt \<Rightarrow>
          (case fn of
             None \<Rightarrow> if evt = js ''__proto__'' then None else Some (Inr (set_fresh evt em))
           | Some fn \<Rightarrow> Some (em_off_fn evt fn em)))"

text \<open>
  The loop of \<open>emit\<close> over the array that was looked up before the first call: it reads the length
  and the elements again after every call. It need not end, a listener may register itself.
\<close>

partial_function (option) emit_loop ::
    "('f \<Rightarrow> 'c ctx \<Rightarrow> ('f, 'c) emitter \<Rightarrow> ('f, 'c) emitter) \<Rightarrow> nat \<Rightarrow> nat \<Rightarrow> ('f, 'c) emitter
     \<Rightarrow> (('f \<times> 'c ctx) list \<times> ('f, 'c) emitter) option" where
  "emit_loop run a i em =
     (if i < length (e_arrays em ! a) then
        (let l = e_arrays em ! a ! i
         in Option.bind (emit_loop run a (i + 1) (run (l_fn l) (l_ctx l) em)) (\<lambda>(calls, em).
              Some ((l_fn l, l_ctx l) # calls, em)))
      else Some ([], em))"

definition em_emit ::
    "('f \<Rightarrow> 'c ctx \<Rightarrow> ('f, 'c) emitter \<Rightarrow> ('f, 'c) emitter) \<Rightarrow> jsstring \<Rightarrow> ('f, 'c) emitter
     \<Rightarrow> (('f \<times> 'c ctx) list \<times> ('f, 'c) emitter) res option" where
  "em_emit run evt em =
     (case prop_get (e_table em) evt of
        None \<Rightarrow>
          Some (case inherited_length evt of
                  None \<Rightarrow> Inr ([], em) | Some n \<Rightarrow> if n = 0 then Inr ([], em) else Inl (JsTypeError (js ''fn'')))
      | Some a \<Rightarrow> map_option Inr (emit_loop run a 0 em))"

section \<open>The abstract emitter: the listeners of every event\<close>

text \<open>The table only holds indices of arrays, and no array serves two events.\<close>

definition em_ok :: "('f, 'c) emitter \<Rightarrow> bool" where
  "em_ok em \<longleftrightarrow> (\<forall>e a. prop_get (e_table em) e = Some a \<longrightarrow> a < length (e_arrays em))
     \<and> (\<forall>e e' a. prop_get (e_table em) e = Some a \<longrightarrow> prop_get (e_table em) e' = Some a \<longrightarrow> e = e')"

definition listeners :: "('f, 'c) emitter \<Rightarrow> jsstring \<Rightarrow> ('f, 'c) listener list" where
  "listeners em e = (case prop_get (e_table em) e of None \<Rightarrow> [] | Some a \<Rightarrow> e_arrays em ! a)"

lemma new_emitter_ok [simp]: "em_ok new_emitter" "listeners new_emitter e = []"
  by (simp_all add: em_ok_def new_emitter_def listeners_def)

lemma set_fresh_spec:
  assumes "em_ok em"
  shows "em_ok (set_fresh e em)" "listeners (set_fresh e em) = (listeners em)(e := [])"
proof -
  have l: "a < length (e_arrays em)" if "prop_get (e_table em) x = Some a" for x a
    using assms that by (auto simp: em_ok_def)
  show "em_ok (set_fresh e em)" using assms l
    unfolding em_ok_def set_fresh_def by (auto simp: less_Suc_eq split: if_splits dest!: l)
  show "listeners (set_fresh e em) = (listeners em)(e := [])"
    using l by (fastforce simp: listeners_def set_fresh_def fun_eq_iff nth_append split: option.splits)
qed

lemma array_update_spec:
  assumes "em_ok em" "prop_get (e_table em) e = Some a"
  shows "em_ok (em\<lparr>e_arrays := (e_arrays em)[a := xs]\<rparr>)"
    "listeners (em\<lparr>e_arrays := (e_arrays em)[a := xs]\<rparr>) = (listeners em)(e := xs)"
proof -
  have "a < length (e_arrays em)" using assms by (auto simp: em_ok_def)
  moreover have "prop_get (e_table em) e' = Some a \<Longrightarrow> e' = e" for e' using assms by (auto simp: em_ok_def)
  ultimately show "em_ok (em\<lparr>e_arrays := (e_arrays em)[a := xs]\<rparr>)"
    "listeners (em\<lparr>e_arrays := (e_arrays em)[a := xs]\<rparr>) = (listeners em)(e := xs)"
    using assms by (auto simp: em_ok_def listeners_def fun_eq_iff nth_list_update split: option.splits)
qed

text \<open>An event whose name the table has or does not inherit.\<close>

definition event_ok :: "('f, 'c) emitter \<Rightarrow> jsstring \<Rightarrow> bool" where
  "event_ok em e \<longleftrightarrow> prop_get (e_table em) e \<noteq> None \<or> inherited_length e = None"

lemma em_on_spec:
  assumes "em_ok em" "event_ok em e"
  shows "\<exists>em'. em_on e f c em = Inr em' \<and> em_ok em' \<and> prop_get (e_table em') e \<noteq> None
    \<and> listeners em' = (listeners em)(e := listeners em e @ [\<lparr>l_fn = f, l_ctx = or_this c\<rparr>])"
proof -
  define em1 where "em1 = (if prop_get (e_table em) e = None then set_fresh e em else em)"
  have 1: "em_ok em1" "listeners em1 = listeners em"
    using assms(1) set_fresh_spec [OF assms(1), of e] by (auto simp: em1_def listeners_def fun_eq_iff)
  obtain a where a: "prop_get (e_table em1) e = Some a"
    by (cases "prop_get (e_table em) e") (auto simp: em1_def set_fresh_def)
  have "em_on e f c em = Inr (em1\<lparr>e_arrays := (e_arrays em1)[a := listeners em1 e @ [\<lparr>l_fn = f, l_ctx = or_this c\<rparr>]]\<rparr>)"
    using a assms(2) by (simp add: em_on_def em1_def [symmetric] listeners_def event_ok_def)
  then show ?thesis using array_update_spec [OF 1(1) a] 1(2) a by simp
qed

lemma em_off_fn_spec:
  assumes "em_ok em" "prop_get (e_table em) e \<noteq> None"
  shows "\<exists>em'. em_off_fn e f em = Inr em' \<and> em_ok em'
    \<and> listeners em' = (listeners em)(e := filter (\<lambda>l. l_fn l \<noteq> f) (listeners em e))"
proof -
  obtain a where a: "prop_get (e_table em) e = Some a" using assms(2) by blast
  show ?thesis using array_update_spec [OF assms(1) a] a by (auto simp: em_off_fn_def splice_while_0 listeners_def)
qed

lemma emit_loop_pure:
  "\<forall>l \<in> set (drop i (e_arrays em ! a)). run (l_fn l) (l_ctx l) em = em \<Longrightarrow>
   emit_loop run a i em = Some (map (\<lambda>l. (l_fn l, l_ctx l)) (drop i (e_arrays em ! a)), em)"
proof (induction "length (e_arrays em ! a) - i" arbitrary: i rule: less_induct)
  case less
  show ?case
  proof (cases "i < length (e_arrays em ! a)")
    case True
    then have d: "drop i (e_arrays em ! a) = e_arrays em ! a ! i # drop (i + 1) (e_arrays em ! a)"
      by (simp add: Cons_nth_drop_Suc)
    then show ?thesis using True less.hyps [of "i + 1"] less.prems
      by (subst emit_loop.simps) (simp add: Let_def)
  qed (subst emit_loop.simps, simp)
qed


text \<open>The emitter after two registrations.\<close>

definition two_listeners :: "(nat, nat) emitter" where
  "two_listeners = \<lparr>e_table = [(js ''a'', 0)], e_arrays = [[\<lparr>l_fn = 3, l_ctx = This\<rparr>, \<lparr>l_fn = 2, l_ctx = Context 7\<rparr>]]\<rparr>"

lemma two_registrations:
  "bind_res (em_on (js ''a'') 3 None new_emitter) (em_on (js ''a'') 2 (Some 7)) = Inr two_listeners"
  by (simp add: em_on_def new_emitter_def set_fresh_def two_listeners_def inherited_length_def proto_names_def or_this_def js_simps)

lemma two_listeners_ok: "em_ok two_listeners" "listeners two_listeners (js ''a'') = [\<lparr>l_fn = 3, l_ctx = This\<rparr>, \<lparr>l_fn = 2, l_ctx = Context 7\<rparr>]"
  by (simp_all add: em_ok_def listeners_def two_listeners_def js_simps split: if_splits)


text \<open>C38: a listener that unregisters itself while it is called shifts the array under the running
  \<open>emit\<close>, so the listener after it is not called.\<close>

theorem emit_skips_after_self_removal:
  assumes "em_ok em" "listeners em e = l1 # l2 # ls" "l_fn l1 \<notin> l_fn ` set (l2 # ls)"
    and "run = (\<lambda>f c em. if f = l_fn l1 then (case em_off_fn e f em of Inr em' \<Rightarrow> em' | Inl _ \<Rightarrow> em) else em)"
  shows "\<exists>em'. em_emit run e em = Some (Inr ((l_fn l1, l_ctx l1) # map (\<lambda>l. (l_fn l, l_ctx l)) ls, em'))
    \<and> listeners em' e = l2 # ls"
proof -
  obtain a where a: "prop_get (e_table em) e = Some a" "e_arrays em ! a = l1 # l2 # ls"
    using assms(2) by (auto simp: listeners_def split: option.splits)
  have f: "filter (\<lambda>l. l_fn l \<noteq> l_fn l1) (l1 # l2 # ls) = l2 # ls"
    using assms(3) by (auto simp: filter_id_conv image_iff)
  have len: "a < length (e_arrays em)" using assms(1) a by (auto simp: em_ok_def)
  define em' where "em' = em\<lparr>e_arrays := (e_arrays em)[a := l2 # ls]\<rparr>"
  have r: "run (l_fn l1) (l_ctx l1) em = em'"
    using a f by (simp add: assms(4) em_off_fn_def splice_while_0 em'_def)
  have arr: "e_arrays em' ! a = l2 # ls" using len by (simp add: em'_def)
  have pure: "\<forall>l \<in> set (drop 1 (e_arrays em' ! a)). run (l_fn l) (l_ctx l) em' = em'"
    using assms(3) arr by (auto simp: assms(4) image_iff)
  have "emit_loop run a 0 em = Some ((l_fn l1, l_ctx l1) # map (\<lambda>l. (l_fn l, l_ctx l)) ls, em')"
    using a r emit_loop_pure [of 1 em' a run] pure arr by (subst emit_loop.simps) (simp add: Let_def)
  moreover have "listeners em' e = l2 # ls" using a arr by (simp add: listeners_def em'_def len)
  ultimately show ?thesis using a by (simp add: em_emit_def)
qed

lemma emit_skips_after_self_removal_witness:
  "\<exists>em'. em_emit (\<lambda>f c em. if f = 3 then (case em_off_fn (js ''a'') f em of Inr em' \<Rightarrow> em' | Inl _ \<Rightarrow> em) else em) (js ''a'')
     two_listeners = Some (Inr ([(3, This)], em')) \<and> listeners em' (js ''a'') = [\<lparr>l_fn = 2, l_ctx = Context 7\<rparr>]"
  using emit_skips_after_self_removal [OF two_listeners_ok _ refl] by simp

text \<open>\<open>off(evt, fn)\<close> for an event that was never registered throws instead of doing nothing.\<close>

lemma off_unregistered_throws:
  "em_off (Some (js ''a'')) (Some f) (new_emitter :: ('f, 'c) emitter) = Some (Inl (JsTypeError (js ''length'')))"
  by (simp add: em_off_def em_off_fn_def new_emitter_def inherited_length_def proto_names_def js_simps)

text \<open>An event named like a member of Object.prototype cannot be registered, and emitting it may throw.\<close>

lemma inherited_event_throws:
  "em_on (js ''constructor'') f c new_emitter = Inl (JsTypeError (js ''push''))
   \<and> em_emit run (js ''constructor'') (new_emitter :: ('f, 'c) emitter) = Some (Inl (JsTypeError (js ''fn'')))"
  by (simp add: em_on_def em_emit_def new_emitter_def inherited_length_def proto_names_def js_simps)

end
