(* ===== verification/Rpc.thy ===== *)
theory Rpc
  imports JsPrelude
begin

text \<open>
  The runtime service of protobuf.js. The RPC implementation, the listeners and the callbacks belong
  to the user; what the service does to them is recorded as the sequence of its effects. While one of them runs it
  may use the service again, so what the service has left to do when it returns is kept on a stack. The message
  constructors' encoder and decoder are parameters.
\<close>

datatype ('m, 'p) effect =
    Invoke "'m option" "u8 list option"      \<comment> \<open>a call of rpcImpl, with nulls at the end\<close>
  | EmitData 'p 'm
  | EmitError js_error 'm
  | EmitEnd
  | OffAll
  | Callback "js_error option" "'p option"
  | LaterCallback js_error                   \<comment> \<open>the callback from a timer\<close>
  | EndedCallback                            \<comment> \<open>the callback from a timer, with the error that the service has ended\<close>

text \<open>The calls of user code that have not returned.\<close>

datatype ('m, 'p) frame =
    InImpl 'm                                \<comment> \<open>rpcImpl, in the try block of rpcCall\<close>
  | Closing                                  \<comment> \<open>rpcImpl with nulls, in end\<close>
  | AfterEnd                                 \<comment> \<open>the listeners of the event end\<close>
  | Answering "js_error option" "'p option"  \<comment> \<open>the listeners of error or data, in rpcCallback\<close>
  | Failing js_error                         \<comment> \<open>the listeners of error, in the catch clause of rpcCall\<close>

record ('m, 'p) rpc =
  rpc_live :: bool
  rpc_stack :: "('m, 'p) frame list"
  rpc_log :: "('m, 'p) effect list"

definition new_rpc :: "('m, 'p) rpc" where
  "new_rpc = \<lparr>rpc_live = True, rpc_stack = [], rpc_log = []\<rparr>"

definition emit_log :: "('m, 'p) effect \<Rightarrow> ('m, 'p) rpc \<Rightarrow> ('m, 'p) rpc" where
  "emit_log e s = s\<lparr>rpc_log := rpc_log s @ [e]\<rparr>"

definition calling :: "('m, 'p) frame \<Rightarrow> ('m, 'p) effect \<Rightarrow> ('m, 'p) rpc \<Rightarrow> ('m, 'p) rpc" where
  "calling f e s = emit_log e (s\<lparr>rpc_stack := f # rpc_stack s\<rparr>)"

text \<open>
  \<open>end\<close> tells the transport of the end before it forgets it, so that a transport that ends the service from this call
  finds it live.
\<close>

definition rpc_close :: "('m, 'p) rpc \<Rightarrow> ('m, 'p) rpc" where
  "rpc_close s = calling AfterEnd EmitEnd (s\<lparr>rpc_live := False\<rparr>)"

definition rpc_end :: "bool \<Rightarrow> ('m, 'p) rpc \<Rightarrow> ('m, 'p) rpc" where
  "rpc_end ended_by_rpc s =
     (if rpc_live s then (if ended_by_rpc then rpc_close s else calling Closing (Invoke None None) s) else s)"

text \<open>
  A response is null, an instance of the response type or something to be decoded. \<open>dec\<close> is \<open>decode\<close>
  or \<open>decodeDelimited\<close> of the response constructor.
\<close>

datatype 'p response = NullResponse | Message 'p | Encoded "u8 list"

definition rpc_callback ::
    "(u8 list \<Rightarrow> 'p res) \<Rightarrow> 'm \<Rightarrow> js_error option \<Rightarrow> 'p response \<Rightarrow> ('m, 'p) rpc \<Rightarrow> ('m, 'p) rpc" where
  "rpc_callback dec mth err response s =
     (case err of
        Some e \<Rightarrow> calling (Answering (Some e) None) (EmitError e mth) s
      | None \<Rightarrow>
          (case response of
             NullResponse \<Rightarrow> rpc_end True s
           | Message p \<Rightarrow> calling (Answering None (Some p)) (EmitData p mth) s
           | Encoded b \<Rightarrow>
               (case dec b of
                  Inl e \<Rightarrow> calling (Answering (Some e) None) (EmitError e mth) s
                | Inr p \<Rightarrow> calling (Answering None (Some p)) (EmitData p mth) s)))"

text \<open>
  \<open>rpcCall\<close> with a callback: \<open>enc\<close> is \<open>encode\<close> or \<open>encodeDelimited\<close> of the request constructor followed by
  \<open>finish\<close>, None stands for a request that is not specified.
\<close>

definition rpc_failed :: "'m \<Rightarrow> js_error \<Rightarrow> ('m, 'p) rpc \<Rightarrow> ('m, 'p) rpc" where
  "rpc_failed mth e s = calling (Failing e) (EmitError e mth) s"

definition rpc_call :: "('q \<Rightarrow> u8 list res) \<Rightarrow> 'm \<Rightarrow> 'q option \<Rightarrow> ('m, 'p) rpc \<Rightarrow> ('m, 'p) rpc res" where
  "rpc_call enc mth request s =
     (case request of
        None \<Rightarrow> Inl (JsTypeError (js ''request must be specified''))
      | Some q \<Rightarrow>
          Inr (if \<not> rpc_live s then emit_log EndedCallback s
               else (case enc q of
                       Inl e \<Rightarrow> rpc_failed mth e s
                     | Inr b \<Rightarrow> calling (InImpl mth) (Invoke (Some mth) (Some b)) s)))"

text \<open>The innermost call of user code returns or throws; what is thrown goes on to the user code outside of it.\<close>

definition rpc_return :: "('m, 'p) rpc \<Rightarrow> ('m, 'p) rpc" where
  "rpc_return s =
     (case rpc_stack s of
        [] \<Rightarrow> s
      | f # fs \<Rightarrow>
          (let s = s\<lparr>rpc_stack := fs\<rparr>
           in case f of
                InImpl mth \<Rightarrow> s
              | Closing \<Rightarrow> rpc_close s
              | AfterEnd \<Rightarrow> emit_log OffAll s
              | Answering e p \<Rightarrow> emit_log (Callback e p) s
              | Failing e \<Rightarrow> emit_log (LaterCallback e) s))"

definition rpc_throw :: "js_error \<Rightarrow> ('m, 'p) rpc \<Rightarrow> ('m, 'p) rpc" where
  "rpc_throw e s =
     (case rpc_stack s of
        [] \<Rightarrow> s
      | f # fs \<Rightarrow> (let s = s\<lparr>rpc_stack := fs\<rparr> in case f of InImpl mth \<Rightarrow> rpc_failed mth e s | _ \<Rightarrow> s))"

section \<open>Runs of a service\<close>

text \<open>
  \<open>re\<close>: the service may be used while the transport is told of the end; \<open>thr\<close>: user code may throw.
\<close>

definition usable :: "bool \<Rightarrow> ('m, 'p) rpc \<Rightarrow> bool" where
  "usable re s \<longleftrightarrow> re \<or> Closing \<notin> set (rpc_stack s)"

inductive rpc_step :: "bool \<Rightarrow> bool \<Rightarrow> ('q \<Rightarrow> u8 list res) \<Rightarrow> (u8 list \<Rightarrow> 'p res) \<Rightarrow> ('m, 'p) rpc \<Rightarrow> ('m, 'p) rpc \<Rightarrow> bool" for re thr enc dec where
  call: "usable re s \<Longrightarrow> rpc_call enc mth request s = Inr s' \<Longrightarrow> rpc_step re thr enc dec s s'"
| callback: "usable re s \<Longrightarrow> rpc_step re thr enc dec s (rpc_callback dec mth err response s)"
| end': "usable re s \<Longrightarrow> rpc_step re thr enc dec s (rpc_end ended_by_rpc s)"
| return: "rpc_step re thr enc dec s (rpc_return s)"
| throw: "thr \<Longrightarrow> rpc_step re thr enc dec s (rpc_throw e s)"

inductive rpc_reachable :: "bool \<Rightarrow> bool \<Rightarrow> ('q \<Rightarrow> u8 list res) \<Rightarrow> (u8 list \<Rightarrow> 'p res) \<Rightarrow> ('m, 'p) rpc \<Rightarrow> bool" for re thr enc dec where
  start: "rpc_reachable re thr enc dec new_rpc"
| step: "rpc_reachable re thr enc dec s \<Longrightarrow> rpc_step re thr enc dec s s' \<Longrightarrow> rpc_reachable re thr enc dec s'"

inductive_cases rpc_stepE: "rpc_step re thr enc dec s s'"

lemmas rpc_defs = rpc_call_def rpc_callback_def rpc_end_def rpc_close_def rpc_return_def rpc_throw_def rpc_failed_def calling_def emit_log_def

text \<open>Nothing invokes the implementation after the end.\<close>

fun quiet_after_end :: "bool \<Rightarrow> ('m, 'p) effect list \<Rightarrow> bool" where
  "quiet_after_end live [] \<longleftrightarrow> True"
| "quiet_after_end live (EmitEnd # es) \<longleftrightarrow> quiet_after_end False es"
| "quiet_after_end live (Invoke m b # es) \<longleftrightarrow> live \<and> quiet_after_end live es"
| "quiet_after_end live (e # es) \<longleftrightarrow> quiet_after_end live es"

definition ended :: "('m, 'p) effect list \<Rightarrow> bool" where
  "ended es \<longleftrightarrow> EmitEnd \<in> set es"

lemma quiet_append: "quiet_after_end live (es @ fs) \<longleftrightarrow> quiet_after_end live es \<and> quiet_after_end (live \<and> \<not> ended es) fs"
proof (induction live es rule: quiet_after_end.induct)
qed (auto simp: ended_def)

definition end_inv :: "bool \<Rightarrow> ('m, 'p) rpc \<Rightarrow> bool" where
  "end_inv re s \<longleftrightarrow> quiet_after_end True (rpc_log s) \<and> (rpc_live s \<longleftrightarrow> \<not> ended (rpc_log s))
     \<and> (\<not> re \<longrightarrow> count_list (rpc_log s) EmitEnd \<le> 1
          \<and> (Closing \<in> set (rpc_stack s) \<longrightarrow> rpc_live s \<and> hd (rpc_stack s) = Closing \<and> Closing \<notin> set (tl (rpc_stack s))))"

lemma count_end: "EmitEnd \<notin> set es \<Longrightarrow> count_list es EmitEnd = 0"
  by (simp add: count_list_0_iff)

lemma end_inv_step: "rpc_step re thr enc dec s s' \<Longrightarrow> end_inv re s \<Longrightarrow> end_inv re s'"
proof (erule rpc_stepE)
  fix mth request assume "usable re s" "rpc_call enc mth request s = Inr s'" "end_inv re s"
  then show ?thesis
    by (auto simp: end_inv_def usable_def rpc_defs quiet_append ended_def split: option.splits if_splits sum.splits)
next
  fix mth err response assume "usable re s" "s' = rpc_callback dec mth err response s" "end_inv re s"
  then show ?thesis
    by (auto simp: end_inv_def usable_def rpc_defs quiet_append ended_def count_end split: option.splits sum.splits response.splits)
next
  fix b assume "usable re s" "s' = rpc_end b s" "end_inv re s"
  then show ?thesis by (auto simp: end_inv_def usable_def rpc_defs quiet_append ended_def count_end)
next
  assume "s' = rpc_return s" "end_inv re s"
  then show ?thesis
    by (cases "rpc_stack s")
      (auto simp: end_inv_def rpc_defs quiet_append ended_def count_end Let_def split: frame.splits)
next
  fix e assume "s' = rpc_throw e s" "end_inv re s"
  then show ?thesis
    by (cases "rpc_stack s") (auto simp: end_inv_def rpc_defs quiet_append ended_def Let_def split: frame.splits)
qed

lemma end_inv_reachable: "rpc_reachable re thr enc dec s \<Longrightarrow> end_inv re s"
  by (induction rule: rpc_reachable.induct) (auto simp: end_inv_step, simp add: end_inv_def new_rpc_def ended_def)

text \<open>C23: in every run of a service the implementation is never invoked after the event \<open>end\<close>, the service is live
  exactly until then, and \<open>end\<close> is emitted at most once, unless the service is used again from the call that tells
  the transport of the end.\<close>

theorem rpc_ends_once:
  assumes "rpc_reachable re thr enc dec s"
  shows "quiet_after_end True (rpc_log s) \<and> (rpc_live s \<longleftrightarrow> \<not> ended (rpc_log s))
    \<and> (\<not> re \<longrightarrow> count_list (rpc_log s) EmitEnd \<le> 1)"
  using end_inv_reachable [OF assms] by (simp add: end_inv_def)

lemma rpc_ends_once_witness:
  "let s = rpc_end True (rpc_return (rpc_end False (new_rpc :: (nat, nat) rpc)))
   in quiet_after_end True (rpc_log s) \<and> \<not> rpc_live s \<and> rpc_log s = [Invoke None None, EmitEnd]"
proof -
  let ?s1 = "rpc_return (rpc_end False (new_rpc :: (nat, nat) rpc))"
  have "rpc_reachable False False (\<lambda>q :: nat. Inr []) (\<lambda>b. Inr 0) ?s1"
    by (rule rpc_reachable.step [OF rpc_reachable.step [OF rpc_reachable.start rpc_step.end'] rpc_step.return])
      (simp add: usable_def new_rpc_def)
  then have "rpc_reachable False False (\<lambda>q :: nat. Inr []) (\<lambda>b. Inr 0) (rpc_end True ?s1)"
    by (rule rpc_reachable.step [OF _ rpc_step.end']) (simp add: usable_def rpc_defs new_rpc_def)
  from rpc_ends_once [OF this] show ?thesis by (simp add: rpc_defs new_rpc_def)
qed

text \<open>A transport that answers with the end of the stream when it is told of the end makes the service emit \<open>end\<close> twice.\<close>

lemma reentrant_end_twice:
  "rpc_log (rpc_return (rpc_return (rpc_callback dec mth None NullResponse (rpc_end False new_rpc))))
   = [Invoke None None, EmitEnd, OffAll, EmitEnd]"
  by (simp add: rpc_defs new_rpc_def)

section \<open>Answers\<close>

text \<open>
  An answer is what the callback gets, an error or a response. The events announce answers, the callbacks deliver them, and a call
  of listeners on the stack has one to deliver when it returns.
\<close>

definition announced :: "('m, 'p) effect \<Rightarrow> (js_error option \<times> 'p option) list" where
  "announced e = (case e of EmitData p mth \<Rightarrow> [(None, Some p)] | EmitError x mth \<Rightarrow> [(Some x, None)] | _ \<Rightarrow> [])"

definition delivered :: "('m, 'p) effect \<Rightarrow> (js_error option \<times> 'p option) list" where
  "delivered e = (case e of Callback x p \<Rightarrow> [(x, p)] | LaterCallback x \<Rightarrow> [(Some x, None)] | _ \<Rightarrow> [])"

definition awaited :: "('m, 'p) frame \<Rightarrow> (js_error option \<times> 'p option) list" where
  "awaited f = (case f of Answering x p \<Rightarrow> [(x, p)] | Failing x \<Rightarrow> [(Some x, None)] | _ \<Rightarrow> [])"

definition due :: "('m, 'p) rpc \<Rightarrow> js_error option \<times> 'p option \<Rightarrow> nat" where
  "due s a = count_list (concat (map delivered (rpc_log s))) a + count_list (concat (map awaited (rpc_stack s))) a"

definition said :: "('m, 'p) rpc \<Rightarrow> js_error option \<times> 'p option \<Rightarrow> nat" where
  "said s a = count_list (concat (map announced (rpc_log s))) a"

lemma due_step:
  "rpc_step re thr enc dec s s' \<Longrightarrow> due s a \<le> said s a \<and> (\<not> thr \<longrightarrow> due s a = said s a)
    \<Longrightarrow> due s' a \<le> said s' a \<and> (\<not> thr \<longrightarrow> due s' a = said s' a)"
proof (erule rpc_stepE)
  note d = due_def said_def announced_def delivered_def awaited_def
  assume i: "due s a \<le> said s a \<and> (\<not> thr \<longrightarrow> due s a = said s a)"
  show ?thesis if "rpc_call enc mth request s = Inr s'" for mth request
    using i that by (auto simp: d rpc_defs split: option.splits if_splits sum.splits)
  show ?thesis if "s' = rpc_callback dec mth err response s" for mth err response
    using i that by (auto simp: d rpc_defs split: option.splits sum.splits response.splits)
  show ?thesis if "s' = rpc_end b s" for b
    using i that by (auto simp: d rpc_defs)
  show ?thesis if "s' = rpc_return s"
    using i that by (cases "rpc_stack s") (auto simp: d rpc_defs Let_def split: frame.splits)
  show ?thesis if "s' = rpc_throw e s" thr for e
    using i that by (cases "rpc_stack s") (auto simp: d rpc_defs Let_def split: frame.splits)
qed



text \<open>
  A transport that answers before it returns hands what the callback throws to the try block of \<open>rpcCall\<close>, which calls the
  callback again.
\<close>

lemma throwing_callback_called_again:
  assumes "enc q = Inr b" "rpc_call enc mth (Some q) new_rpc = Inr s"
  shows "rpc_log (rpc_return (rpc_throw e (rpc_return (rpc_callback dec mth None (Message p) s))))
    = [Invoke (Some mth) (Some b), EmitData p mth, Callback None (Some p), EmitError e mth, LaterCallback e]"
  using assms by (auto simp: rpc_defs new_rpc_def)

end
