(* ===== verification/Path.thy ===== *)
theory Path
  imports JsPrelude
begin

text \<open>
  The path module of protobuf.js, which resolves the imports of a .proto file: the normalisation of a
  path by splicing its segments in place, and its equivalence with the usual stack of segments.
\<close>

section \<open>Strings\<close>

definition slash :: u16 where "slash = 47"
definition dot :: jsstring where "dot = [46]"
definition dotdot :: jsstring where "dotdot = [46, 46]"

lemma dot_dotdot [simp]: "dot \<noteq> dotdot" "dotdot \<noteq> dot"
  by (simp_all add: dot_def dotdot_def)

definition word_char :: "u16 \<Rightarrow> bool" where
  "word_char c \<longleftrightarrow> 97 \<le> c \<and> c \<le> 122 \<or> 65 \<le> c \<and> c \<le> 90 \<or> 48 \<le> c \<and> c \<le> 57 \<or> c = 95"

text \<open>\<open>path.replace(/\\/g, "/")\<close> and \<open>.replace(/\/{2,}/g, "/")\<close>.\<close>

definition unbackslash :: "jsstring \<Rightarrow> jsstring" where
  "unbackslash s = map (\<lambda>c. if c = 92 then slash else c) s"

fun collapse :: "jsstring \<Rightarrow> jsstring" where
  "collapse (c # d # s) = (if c = slash \<and> d = slash then collapse (d # s) else c # collapse (d # s))"
| "collapse s = s"

text \<open>\<open>split("/")\<close> and \<open>join("/")\<close>.\<close>

fun split_on :: "u16 \<Rightarrow> jsstring \<Rightarrow> jsstring list" where
  "split_on x [] = [[]]"
| "split_on x (c # s) =
     (if c = x then [] # split_on x s else (case split_on x s of p # ps \<Rightarrow> (c # p) # ps | [] \<Rightarrow> [[c]]))"

fun join_with :: "jsstring \<Rightarrow> jsstring list \<Rightarrow> jsstring" where
  "join_with x [] = []"
| "join_with x [p] = p"
| "join_with x (p # q # ps) = p @ x @ join_with x (q # ps)"

section \<open>The module\<close>

text \<open>\<open>/^(?:\/|\w+:)/\<close>.\<close>

definition is_absolute :: "jsstring \<Rightarrow> bool" where
  "is_absolute p =
     (case p of
        [] \<Rightarrow> False
      | c # _ \<Rightarrow> c = slash \<or> (word_char c \<and> (case dropWhile word_char p of d # _ \<Rightarrow> d = 58 | [] \<Rightarrow> False)))"

function norm_loop :: "bool \<Rightarrow> nat \<Rightarrow> jsstring list \<Rightarrow> jsstring list" where
  "norm_loop absolute i parts =
     (if i < length parts then
        if parts ! i = dotdot then
          if i > 0 \<and> parts ! (i - 1) \<noteq> dotdot
          then norm_loop absolute (i - 1) (splice1 (i - 1) (splice1 (i - 1) parts))
          else if absolute then norm_loop absolute i (splice1 i parts)
          else norm_loop absolute (i + 1) parts
        else if parts ! i = dot then norm_loop absolute i (splice1 i parts)
        else norm_loop absolute (i + 1) parts
      else parts)"
  by pat_completeness auto
termination
  by (relation "measure (\<lambda>(absolute, i, parts). 2 * length parts - i)") (auto simp: splice1_def)

declare norm_loop.simps [simp del]

definition normalize :: "jsstring \<Rightarrow> jsstring" where
  "normalize path =
     (let path = collapse (unbackslash path);
          parts = split_on slash path;
          absolute = is_absolute path
      in if absolute then hd parts @ [slash] @ join_with [slash] (norm_loop absolute 0 (tl parts))
         else join_with [slash] (norm_loop absolute 0 parts))"

text \<open>\<open>originPath.replace(/(?:\/|^)[^/]+$/, "")\<close>: the last segment, if not empty, and the slash before it.\<close>

definition strip_last :: "jsstring \<Rightarrow> jsstring" where
  "strip_last p =
     (let rest = rev (dropWhile (\<lambda>c. c \<noteq> slash) (rev p))
      in if length rest = length p then p else butlast rest)"

definition path_resolve :: "jsstring \<Rightarrow> jsstring \<Rightarrow> bool \<Rightarrow> jsstring" where
  "path_resolve originPath includePath alreadyNormalized =
     (let includePath = (if alreadyNormalized then includePath else normalize includePath)
      in if is_absolute includePath then includePath
         else let originPath = strip_last (if alreadyNormalized then originPath else normalize originPath)
              in if originPath \<noteq> [] then normalize (originPath @ [slash] @ includePath) else includePath)"

section \<open>The reference\<close>

text \<open>The segments that are kept so far form a stack.\<close>

fun norm_stack :: "bool \<Rightarrow> jsstring list \<Rightarrow> jsstring list \<Rightarrow> jsstring list" where
  "norm_stack absolute st [] = rev st"
| "norm_stack absolute st (p # ps) =
     (if p = dotdot then
        if st \<noteq> [] \<and> hd st \<noteq> dotdot then norm_stack absolute (tl st) ps
        else norm_stack absolute (if absolute then st else p # st) ps
      else if p = dot then norm_stack absolute st ps
      else norm_stack absolute (p # st) ps)"

lemma norm_loop_stack:
  "i \<le> length parts \<Longrightarrow> norm_loop absolute i parts = norm_stack absolute (rev (take i parts)) (drop i parts)"
proof (induction absolute i parts rule: norm_loop.induct)
  case (1 absolute i parts)
  show ?case
  proof (cases "i < length parts")
    case False
    then show ?thesis using 1 by (subst norm_loop.simps) simp
  next
    case True
    then have d: "drop i parts = parts ! i # drop (Suc i) parts" by (simp add: Cons_nth_drop_Suc)
    have t: "rev (take (Suc i) parts) = parts ! i # rev (take i parts)"
      using True by (simp add: take_Suc_conv_app_nth)
    have st: "rev (take i parts) \<noteq> [] \<and> hd (rev (take i parts)) \<noteq> dotdot \<longleftrightarrow> i > 0 \<and> parts ! (i - 1) \<noteq> dotdot"
      using True by (cases i) (simp_all add: take_Suc_conv_app_nth)
    have s1: "take i (splice1 i parts) = take i parts" "drop i (splice1 i parts) = drop (Suc i) parts"
      using True by (simp_all add: splice1_def)
    show ?thesis
    proof (cases "parts ! i = dotdot")
      case dd: True
      show ?thesis
      proof (cases "i > 0 \<and> parts ! (i - 1) \<noteq> dotdot")
        case a: True
        let ?q = "splice1 (i - 1) (splice1 (i - 1) parts)"
        have q: "take (i - 1) ?q = take (i - 1) parts" "drop (i - 1) ?q = drop (Suc i) parts" "i - 1 \<le> length ?q"
          using True a by (simp_all add: splice1_def)
        have "tl (rev (take i parts)) = rev (take (i - 1) parts)"
          using True a by (cases i) (simp_all add: take_Suc_conv_app_nth)
        then show ?thesis using 1(1) [OF True dd a q(3)] q(1, 2) d st a dd True
          by (subst norm_loop.simps) simp
      next
        case b: False
        show ?thesis
        proof (cases absolute)
          case True
          have "norm_loop absolute i parts = norm_loop absolute i (splice1 i parts)"
            using \<open>i < length parts\<close> dd b True by (subst norm_loop.simps) auto
          also have "\<dots> = norm_stack absolute (rev (take i parts)) (drop (Suc i) parts)"
            using 1(2) [OF \<open>i < length parts\<close> dd b True] s1 \<open>i < length parts\<close> by (simp add: splice1_def)
          also have "\<dots> = norm_stack absolute (rev (take i parts)) (drop i parts)"
            unfolding d norm_stack.simps using st b dd True by (simp only: if_True if_False simp_thms)
          finally show ?thesis .
        next
          case False
          have "norm_loop absolute i parts = norm_loop absolute (i + 1) parts"
            using \<open>i < length parts\<close> dd b False by (subst norm_loop.simps) auto
          also have "\<dots> = norm_stack absolute (parts ! i # rev (take i parts)) (drop (Suc i) parts)"
            using 1(3) [OF \<open>i < length parts\<close> dd b False] t \<open>i < length parts\<close> by simp
          also have "\<dots> = norm_stack absolute (rev (take i parts)) (drop i parts)"
            unfolding d norm_stack.simps using st b dd False by (simp only: if_True if_False simp_thms)
          finally show ?thesis .
        qed
      qed
    next
      case nd: False
      show ?thesis
      proof (cases "parts ! i = dot")
        case a: True
        have "norm_loop absolute i parts = norm_loop absolute i (splice1 i parts)"
          using True nd a by (subst norm_loop.simps) auto
        then show ?thesis using 1(4) [OF True nd a] s1 d nd a True by (simp add: splice1_def)
      next
        case b: False
        have "norm_loop absolute i parts = norm_loop absolute (i + 1) parts"
          using True nd b by (subst norm_loop.simps) auto
        then show ?thesis using 1(5) [OF True nd b] t d nd b True by simp
      qed
    qed
  qed
qed

text \<open>
  Canonical segments: no \<open>.\<close>, and \<open>..\<close> only as a leading run of a relative path.
\<close>

definition canonical :: "bool \<Rightarrow> jsstring list \<Rightarrow> bool" where
  "canonical absolute ps \<longleftrightarrow> dot \<notin> set ps \<and>
     dotdot \<notin> set (if absolute then ps else dropWhile (\<lambda>p. p = dotdot) ps)"

lemma canonical_snoc:
  "p \<noteq> dot \<Longrightarrow> p \<noteq> dotdot \<Longrightarrow> canonical absolute ps \<Longrightarrow> canonical absolute (ps @ [p])"
  by (auto simp: canonical_def dropWhile_append)

lemma canonical_butlast: "canonical absolute (ps @ [p]) \<Longrightarrow> canonical absolute ps"
proof -
  have d: "(\<forall>x \<in> set ps. x = dotdot) \<Longrightarrow> dropWhile (\<lambda>p. p = dotdot) ps = []" by (simp add: dropWhile_eq_Nil_conv)
  then show "canonical absolute (ps @ [p]) \<Longrightarrow> canonical absolute ps"
    by (cases "\<forall>x \<in> set ps. x = dotdot"; cases absolute) (auto simp: canonical_def dropWhile_append d)
qed

lemma canonical_dotdots:
  "canonical False ps \<Longrightarrow> ps = [] \<or> last ps = dotdot \<Longrightarrow> canonical False (ps @ [dotdot])"
proof -
  assume c: "canonical False ps" "ps = [] \<or> last ps = dotdot"
  have "dropWhile (\<lambda>p. p = dotdot) ps = []"
  proof (rule ccontr)
    assume n: "dropWhile (\<lambda>p. p = dotdot) ps \<noteq> []"
    then have "last (dropWhile (\<lambda>p. p = dotdot) ps) = last ps" by (metis last_appendR takeWhile_dropWhile_id)
    moreover have "ps \<noteq> []" using n by auto
    ultimately show False using n c last_in_set [OF n] by (auto simp: canonical_def)
  qed
  then show ?thesis using c(1) by (auto simp: canonical_def dropWhile_append dot_def dotdot_def)
qed

lemma norm_stack_canonical:
  "canonical absolute (rev st) \<Longrightarrow> canonical absolute (norm_stack absolute st ps)"
proof (induction absolute st ps rule: norm_stack.induct)
  case (2 absolute st p ps)
  show ?case
  proof (cases "p = dotdot")
    case dd: True
    show ?thesis
    proof (cases "st \<noteq> [] \<and> hd st \<noteq> dotdot")
      case True
      then have "canonical absolute (rev (tl st))" using 2(5) canonical_butlast by (cases st) auto
      then show ?thesis using 2(1) [OF dd True] dd True by simp
    next
      case False
      have "canonical absolute (rev (if absolute then st else p # st))"
        using 2(5) False canonical_dotdots [of "rev st"] dd by (auto simp: last_rev)
      then show ?thesis using 2(2) [OF dd False] False unfolding norm_stack.simps if_P [OF dd] if_not_P [OF False] by simp
    qed
  next
    case False
    then show ?thesis using 2 canonical_snoc [of p absolute "rev st"] by simp
  qed
qed simp

lemma norm_stack_subset: "set (norm_stack absolute st ps) \<subseteq> set st \<union> set ps"
proof (induction absolute st ps rule: norm_stack.induct)
  case (2 absolute st p ps)
  then show ?case by (cases st) (auto split: if_splits)
qed simp

lemma split_on_no: "p \<in> set (split_on x s) \<Longrightarrow> x \<notin> set p"
  by (induction s arbitrary: p) (auto split: list.splits if_splits)

lemma split_on_not_Nil: "split_on x s \<noteq> []"
  by (induction s) (auto split: list.splits)

lemma join_split_on: "join_with [x] (split_on x s) = s"
proof (induction s)
  case (Cons c s)
  then show ?case using split_on_not_Nil [of x s] by (cases "split_on x s"; cases "tl (split_on x s)") auto
qed simp

text \<open>C21: \<open>normalize\<close> gives a prefix and canonical segments: no \<open>.\<close>, no \<open>..\<close> below the root of an absolute
  path, and \<open>..\<close> only in front of a relative one; the in-place loop computes the stack of segments.\<close>

theorem normalize_canonical:
  "\<exists>prefix segs. normalize path = prefix @ join_with [slash] segs
     \<and> (prefix = [] \<longleftrightarrow> \<not> is_absolute (collapse (unbackslash path)))
     \<and> canonical (is_absolute (collapse (unbackslash path))) segs
     \<and> segs = norm_stack (is_absolute (collapse (unbackslash path))) []
         (drop (of_bool (is_absolute (collapse (unbackslash path)))) (split_on slash (collapse (unbackslash path))))"
proof -
  define p where "p = collapse (unbackslash path)"
  define parts where "parts = drop (of_bool (is_absolute p)) (split_on slash p)"
  have n: "norm_loop (is_absolute p) 0 parts = norm_stack (is_absolute p) [] parts"
    using norm_loop_stack [of 0 parts] by simp
  have "canonical (is_absolute p) []" by (simp add: canonical_def)
  then have c: "canonical (is_absolute p) (norm_stack (is_absolute p) [] parts)"
    using norm_stack_canonical [of "is_absolute p" "[]" parts] by simp
  show ?thesis
  proof (cases "is_absolute p")
    case True
    then have "normalize path = (hd (split_on slash p) @ [slash]) @ join_with [slash] (norm_stack True [] parts)"
      using n by (simp add: normalize_def p_def [symmetric] parts_def drop_Suc Let_def)
    then show ?thesis using c True unfolding p_def [symmetric] parts_def [symmetric]
      by (intro exI [of _ "hd (split_on slash p) @ [slash]"]) simp
  next
    case False
    then have "normalize path = [] @ join_with [slash] (norm_stack False [] parts)"
      using n by (simp add: normalize_def p_def [symmetric] parts_def Let_def)
    then show ?thesis using c False unfolding p_def [symmetric] parts_def [symmetric] by auto
  qed
qed

lemma resolve_example:
  "path_resolve (js ''protos/a/main.proto'') (js ''../b/./c.proto'') False = js ''protos/b/c.proto''"
  by (simp add: path_resolve_def normalize_def unbackslash_def js_simps slash_def is_absolute_def word_char_def
      norm_loop_stack dotdot_def dot_def strip_last_def)

end
