(* ===== verification/Verify.thy ===== *)
theory Verify
  imports DecodeTotal
begin

text \<open>
  The code that \<open>verifier\<close> of protobuf.js generates for a message type: a function that returns null for
  a valid plain object and the reason otherwise.
\<close>

unbundle bit_operations_syntax

section \<open>Numbers\<close>

text \<open>
  The integer that a double or float stands for, if it is one: a normal number is an integer when no
  bit of its significand lies below the binary point.
\<close>

definition ieee_integer :: "nat \<Rightarrow> nat \<Rightarrow> nat \<Rightarrow> nat \<Rightarrow> int option" where
  "ieee_integer mbits ebits bias bits =
     (let m = bits mod 2 ^ mbits;
          e = bits div 2 ^ mbits mod 2 ^ ebits;
          s = (if bits div 2 ^ (mbits + ebits) mod 2 = 1 then -1 else 1);
          one = bias + mbits
      in if e = 0 then (if m = 0 then Some 0 else None)
         else if e = 2 ^ ebits - 1 then None
         else if one \<le> e then Some (s * int ((2 ^ mbits + m) * 2 ^ (e - one)))
         else if bias \<le> e \<and> m mod 2 ^ (one - e) = 0 then Some (s * int ((2 ^ mbits + m) div 2 ^ (one - e)))
         else None)"

text \<open>\<open>Number.isInteger\<close>, with the integer.\<close>

definition as_integer :: "jsval \<Rightarrow> int option" where
  "as_integer v =
     (case v of
        JNum i \<Rightarrow> Some i
      | JF32 b \<Rightarrow> ieee_integer 23 8 127 (unat b)
      | JF64 b \<Rightarrow> ieee_integer 52 11 1023 (unat b)
      | _ \<Rightarrow> None)"

definition is_integer :: "jsval \<Rightarrow> bool" where
  "is_integer v \<longleftrightarrow> as_integer v \<noteq> None"

definition is_number :: "jsval \<Rightarrow> bool" where
  "is_number v = (case v of JNum _ \<Rightarrow> True | JF32 _ \<Rightarrow> True | JF64 _ \<Rightarrow> True | _ \<Rightarrow> False)"

section \<open>The regular expressions of the keys\<close>

text \<open>\<open>-?(?:0|[1-9][0-9]*)\<close>, the whole string.\<close>

definition decimal_key :: "jsstring \<Rightarrow> bool" where
  "decimal_key k =
     (let d = (case k of c # cs \<Rightarrow> if c = 45 then cs else k | [] \<Rightarrow> [])
      in d = [48] \<or> (d \<noteq> [] \<and> hd d \<noteq> 48 \<and> list_all is_digit d))"

definition key32_re :: "jsstring \<Rightarrow> bool" where
  "key32_re k \<longleftrightarrow> decimal_key k"

text \<open>
  \<open>/^(?:[\\x00-\\xff]{8}|-?(?:0|[1-9][0-9]*))$/\<close>: with the doubled backslashes the class consists of the
  backslash, x, the characters from 0 to the backslash and f.
\<close>

definition key64_class :: "u16 \<Rightarrow> bool" where
  "key64_class c \<longleftrightarrow> c = 92 \<or> c = 120 \<or> 48 \<le> c \<and> c \<le> 92 \<or> c = 102"

definition key64_re :: "jsstring \<Rightarrow> bool" where
  "key64_re k \<longleftrightarrow> length k = 8 \<and> list_all key64_class k \<or> decimal_key k"

fun substring_of :: "jsstring \<Rightarrow> jsstring \<Rightarrow> bool" where
  "substring_of t [] \<longleftrightarrow> t = []"
| "substring_of t (c # s) \<longleftrightarrow> take (length t) (c # s) = t \<or> substring_of t s"

text \<open>\<open>/^true|false|0|1$/\<close>: the anchors bind to the first and to the last alternative only.\<close>

definition key2_re :: "jsstring \<Rightarrow> bool" where
  "key2_re k \<longleftrightarrow> take 4 k = js ''true'' \<or> substring_of (js ''false'') k \<or> substring_of (js ''0'') k
     \<or> (k \<noteq> [] \<and> last k = 49)"

section \<open>The generated verifier\<close>

text \<open>\<open>invalid(field, expected)\<close>.\<close>

definition scalar_name :: "scalar \<Rightarrow> jsstring" where
  "scalar_name t =
     (case t of
        TDouble \<Rightarrow> js ''double'' | TFloat \<Rightarrow> js ''float'' | TInt32 \<Rightarrow> js ''int32'' | TUint32 \<Rightarrow> js ''uint32''
      | TSint32 \<Rightarrow> js ''sint32'' | TFixed32 \<Rightarrow> js ''fixed32'' | TSfixed32 \<Rightarrow> js ''sfixed32'' | TInt64 \<Rightarrow> js ''int64''
      | TUint64 \<Rightarrow> js ''uint64'' | TSint64 \<Rightarrow> js ''sint64'' | TFixed64 \<Rightarrow> js ''fixed64'' | TSfixed64 \<Rightarrow> js ''sfixed64''
      | TBool \<Rightarrow> js ''bool'' | TString \<Rightarrow> js ''string'' | TBytes \<Rightarrow> js ''bytes'')"

definition invalid :: "field \<Rightarrow> jsstring \<Rightarrow> jsstring" where
  "invalid f expected =
     f_name f @ js '': '' @ expected @
     (if f_repeated f \<and> expected \<noteq> js ''array'' then js ''[]''
      else case f_key f of
             Some kt \<Rightarrow> if expected \<noteq> js ''object'' then js ''{k:'' @ scalar_name kt @ js ''}'' else []
           | None \<Rightarrow> []) @ js '' expected''"

text \<open>The checks return None for null and the reason otherwise.\<close>

definition reject :: "bool \<Rightarrow> jsstring \<Rightarrow> jsstring option" where
  "reject ok reason = (if ok then None else Some reason)"

definition verify_scalar :: "field \<Rightarrow> scalar \<Rightarrow> jsval \<Rightarrow> jsstring option" where
  "verify_scalar f t v =
     (if t \<in> {TInt32, TUint32, TSint32, TFixed32, TSfixed32} then reject (is_integer v) (invalid f (js ''integer''))
      else if t \<in> {TInt64, TUint64, TSint64, TFixed64, TSfixed64} then
        reject (is_integer v \<or>
                (case v of
                   JObj ps \<Rightarrow> (case (prop_get ps (js ''low''), prop_get ps (js ''high'')) of
                                 (Some l, Some h) \<Rightarrow> is_integer l \<and> is_integer h | _ \<Rightarrow> False)
                 | _ \<Rightarrow> False))
          (invalid f (js ''integer|Long''))
      else if t \<in> {TFloat, TDouble} then reject (is_number v) (invalid f (js ''number''))
      else if t = TBool then reject (case v of JBool _ \<Rightarrow> True | _ \<Rightarrow> False) (invalid f (js ''boolean''))
      else if t = TString then reject (case v of JStr _ \<Rightarrow> True | _ \<Rightarrow> False) (invalid f (js ''string''))
      else reject (case v of
                     JBytes _ \<Rightarrow> True | JArr _ \<Rightarrow> True | JStr _ \<Rightarrow> True
                   | JObj ps \<Rightarrow> (case prop_get ps (js ''length'') of Some l \<Rightarrow> is_number l | None \<Rightarrow> False)
                   | _ \<Rightarrow> False)
             (invalid f (js ''buffer'')))"

text \<open>\<open>genVerifyValue\<close>; \<open>ver T v\<close> is \<open>types[i].verify(v)\<close>.\<close>

definition verify_value ::
    "schema \<Rightarrow> (mtype \<Rightarrow> jsval \<Rightarrow> jsstring option option) \<Rightarrow> field \<Rightarrow> jsval \<Rightarrow> jsstring option option" where
  "verify_value sc ver f v =
     (case f_type f of
        EnumType \<Rightarrow> Some (reject (case as_integer v of Some i \<Rightarrow> i \<in> snd ` set (f_values f) | None \<Rightarrow> False) (invalid f (js ''enum value'')))
      | MessageType k \<Rightarrow> map_option (map_option (\<lambda>e. f_name f @ js ''.'' @ e)) (ver (sc ! k) v)
      | Basic t \<Rightarrow> Some (verify_scalar f t v))"

text \<open>\<open>genVerifyKey\<close>.\<close>

definition verify_key :: "field \<Rightarrow> scalar \<Rightarrow> jsstring \<Rightarrow> jsstring option" where
  "verify_key f kt k =
     (if kt \<in> {TInt32, TUint32, TSint32, TFixed32, TSfixed32} then reject (key32_re k) (invalid f (js ''integer key''))
      else if kt \<in> {TInt64, TUint64, TSint64, TFixed64, TSfixed64} then reject (key64_re k) (invalid f (js ''integer|Long key''))
      else if kt = TBool then reject (key2_re k) (invalid f (js ''boolean key''))
      else None)"

text \<open>A sequence of checks stops at the first one that gives a reason.\<close>

fun first_reason :: "('a \<Rightarrow> jsstring option option) \<Rightarrow> 'a list \<Rightarrow> jsstring option option" where
  "first_reason g [] = Some None"
| "first_reason g (x # xs) = (case g x of None \<Rightarrow> None | Some (Some e) \<Rightarrow> Some (Some e) | Some None \<Rightarrow> first_reason g xs)"

definition then_check :: "jsstring option option \<Rightarrow> jsstring option option \<Rightarrow> jsstring option option" where
  "then_check a b = (case a of Some None \<Rightarrow> b | _ \<Rightarrow> a)"

text \<open>
  The checks of one field: a reason, or the object \<open>p\<close> of the oneofs that have been seen. A field
  of a oneof only looks for the mark when a field before it belongs to the same oneof.
\<close>

definition verify_field ::
    "schema \<Rightarrow> (mtype \<Rightarrow> jsval \<Rightarrow> jsstring option option) \<Rightarrow> (jsstring \<times> jsval) list \<Rightarrow> field \<Rightarrow> jsstring list
     \<Rightarrow> (jsstring option \<times> jsstring list) option" where
  "verify_field sc ver m f p =
     (let v = get_prop f m
      in if \<not> f_required f \<and> (nullish v \<or> \<not> has_own m (f_name f)) then Some (None, p)
         else case f_key f of
           Some kt \<Rightarrow>
             (case v of
                JObj ps \<Rightarrow>
                  map_option (\<lambda>e. (e, p))
                    (first_reason (\<lambda>k. then_check (Some (verify_key f kt k)) (verify_value sc ver f (the (prop_get ps k)))) (object_keys ps))
              | JArr _ \<Rightarrow> None
              | JBytes _ \<Rightarrow> None
              | _ \<Rightarrow> Some (Some (invalid f (js ''object'')), p))
         | None \<Rightarrow>
             if f_repeated f then
               (case v of
                  JArr vs \<Rightarrow> map_option (\<lambda>e. (e, p)) (first_reason (verify_value sc ver f) vs)
                | _ \<Rightarrow> Some (Some (invalid f (js ''array'')), p))
             else (case f_part_of f of
                     Some o' \<Rightarrow>
                       if o' \<in> set p then Some (Some (o' @ js '': multiple values''), p)
                       else map_option (\<lambda>e. (e, o' # p)) (verify_value sc ver f v)
                   | None \<Rightarrow> map_option (\<lambda>e. (e, p)) (verify_value sc ver f v)))"

fun verify_fields ::
    "schema \<Rightarrow> (mtype \<Rightarrow> jsval \<Rightarrow> jsstring option option) \<Rightarrow> (jsstring \<times> jsval) list \<Rightarrow> field list \<Rightarrow> jsstring list
     \<Rightarrow> jsstring option option" where
  "verify_fields sc ver m [] p = Some None"
| "verify_fields sc ver m (f # fs) p =
     (case verify_field sc ver m f p of
        None \<Rightarrow> None
      | Some (Some e, _) \<Rightarrow> Some (Some e)
      | Some (None, p) \<Rightarrow> verify_fields sc ver m fs p)"

text \<open>The generated \<open>verify(m)\<close>, with fuel for the nesting of messages; an array is not modelled as a message.\<close>

fun verify :: "nat \<Rightarrow> schema \<Rightarrow> mtype \<Rightarrow> jsval \<Rightarrow> jsstring option option" where
  "verify 0 sc T v = None"
| "verify (Suc n) sc T v =
     (case v of
        JObj m \<Rightarrow> verify_fields sc (verify n sc) m (t_fields T) []
      | JArr _ \<Rightarrow> if t_fields T = [] then Some None else None
      | JBytes _ \<Rightarrow> if t_fields T = [] then Some None else None
      | _ \<Rightarrow> Some (Some (js ''object expected'')))"

section \<open>Properties\<close>

text \<open>What is set: a field that is required, or present with a value.\<close>

definition field_set :: "(jsstring \<times> jsval) list \<Rightarrow> field \<Rightarrow> bool" where
  "field_set m f \<longleftrightarrow> f_required f \<or> (\<not> nullish (get_prop f m) \<and> has_own m (f_name f))"

lemma verify_fields_oneof:
  assumes "verify_fields sc ver m fs p = Some None" "f \<in> set fs" "field_set m f" "f_key f = None" "\<not> f_repeated f"
    "f_part_of f = Some o'"
  shows "o' \<notin> set p"
  using assms
proof (induction fs arbitrary: p)
  case (Cons g gs)
  show ?case
  proof (cases "f = g")
    case True
    show ?thesis
    proof
      assume "o' \<in> set p"
      then have "verify_field sc ver m g p = Some (Some (o' @ js '': multiple values''), p)"
        using Cons.prems True by (auto simp: verify_field_def field_set_def Let_def)
      then show False using Cons.prems(1) by simp
    qed
  next
    case False
    obtain q where q: "verify_field sc ver m g p = Some (None, q)" "verify_fields sc ver m gs q = Some None"
      using Cons.prems(1) by (auto split: option.splits prod.splits)
    have "set p \<subseteq> set q" using q(1) by (auto simp: verify_field_def Let_def split: if_splits option.splits jsval.splits)
    then show ?thesis using Cons.IH [OF q(2)] Cons.prems False by auto
  qed
qed simp

text \<open>C17: a message that the verifier accepts has at most one field set of every oneof.\<close>

theorem verified_oneof_exclusive:
  assumes "verify n sc T (JObj m) = Some None" "t_fields T = fs @ f # gs @ g # hs"
    and "f_part_of f = Some o'" "f_key f = None" "\<not> f_repeated f"
    and "f_part_of g = Some o'" "f_key g = None" "\<not> f_repeated g"
  shows "\<not> (field_set m f \<and> field_set m g)"
proof
  assume s: "field_set m f \<and> field_set m g"
  obtain n' where "verify_fields sc (verify n' sc) m (fs @ f # gs @ g # hs) [] = Some None"
    using assms(1, 2) by (cases n) auto
  moreover have "\<exists>p. verify_fields sc ver m xs p = Some None" if "verify_fields sc ver m (ys @ xs) q = Some None" for ver xs ys q
    using that by (induction ys arbitrary: q) (auto split: option.splits prod.splits)
  ultimately obtain p where p: "verify_fields sc (verify n' sc) m (f # gs @ g # hs) p = Some None" by blast
  then obtain q where q: "verify_field sc (verify n' sc) m f p = Some (None, q)"
    "verify_fields sc (verify n' sc) m (gs @ g # hs) q = Some None"
    by (auto split: option.splits prod.splits)
  have "o' \<in> set q"
    using q(1) s assms(3, 4, 5) by (auto simp: verify_field_def field_set_def Let_def split: if_splits option.splits)
  moreover have "o' \<notin> set q" by (rule verify_fields_oneof [OF q(2), of g]) (use s assms in auto)
  ultimately show False by contradiction
qed

definition choice_field :: "string \<Rightarrow> nat \<Rightarrow> field" where
  "choice_field name i =
     \<lparr>f_name = js name, f_id = i, f_type = Basic TInt32, f_required = False, f_repeated = False, f_packed = False,
      f_key = None, f_default = JNum 0, f_values = [], f_part_of = Some (js ''c''), f_type_default = JNum 0\<rparr>"

lemma verified_oneof_exclusive_witness:
  "verify 1 [] \<lparr>t_full_name = [], t_fields = [choice_field ''a'' 1, choice_field ''b'' 2], t_group = False\<rparr>
     (JObj [(js ''b'', JNum 7)]) = Some None
   \<and> \<not> (field_set [(js ''b'', JNum 7)] (choice_field ''a'' 1) \<and> field_set [(js ''b'', JNum 7)] (choice_field ''b'' 2))"
proof -
  let ?T = "\<lparr>t_full_name = [], t_fields = [choice_field ''a'' 1, choice_field ''b'' 2], t_group = False\<rparr>"
  have 1: "verify 1 [] ?T (JObj [(js ''b'', JNum 7)]) = Some None"
    by (simp add: choice_field_def js_simps verify_field_def get_prop_def has_own_def nullish_def verify_value_def
        verify_scalar_def reject_def is_integer_def as_integer_def)
  from verified_oneof_exclusive [OF this, of "[]" "choice_field ''a'' 1" "[]" "choice_field ''b'' 2" "[]" "js ''c''"] 1
  show ?thesis by (simp add: choice_field_def)
qed

text \<open>The pattern for 64-bit map keys has doubled backslashes and matches other characters than the
  hash of a 64-bit value is made of: the hash of 0, eight NUL characters, is rejected as a key.\<close>

lemma key64_rejects_hash: "\<not> key64_re (to_hash zero_bits) \<and> key64_re (js ''xxA:@f0Z'')"
  by (simp add: key64_re_def to_hash_def hash_char_def zero_bits_def mk_bits_def decimal_key_def key64_class_def js_simps is_digit_def)

text \<open>The alternatives of the pattern for boolean keys are anchored one by one, so keys that only start
  or end like a boolean are accepted.\<close>

lemma key2_accepts_fragments:
  "key2_re (js ''truest'') \<and> key2_re (js ''no falsehood'') \<and> key2_re (js ''x0y'') \<and> key2_re (js ''21'') \<and> \<not> key2_re (js ''1x'')"
  by (simp add: key2_re_def js_simps)

end
