(* ===== verification/VerifyOk.thy ===== *)
theory VerifyOk
  imports Verify RoundTrip
begin

text \<open>
  The values that the encoder and the decoder handle are accepted by the verifier, when their enum values
  are declared and no two fields of a oneof are set.
\<close>

lemma dec_digits_key: "dec_digits n = [48] \<or> (dec_digits n \<noteq> [] \<and> hd (dec_digits n) \<noteq> 48)"
proof (induction n rule: dec_digits.induct)
  case (1 n)
  show ?case
  proof (cases "n < 10")
    case True
    then have "n = 0 \<or> (of_nat (48 + n) :: u16) \<noteq> 48" using digit_facts(2) [of n] by (auto simp: word_unat_eq_iff)
    then show ?thesis using True by (subst (1 2 3) dec_digits.simps) auto
  next
    case False
    have "dec_digits (n div 10) \<noteq> [48]"
    proof
      assume "dec_digits (n div 10) = [48]"
      then have "n div 10 = 0" using dec_digits_value [of "n div 10"] by (simp add: digits_value_def)
      then show False using False by simp
    qed
    then have "dec_digits (n div 10) \<noteq> [] \<and> hd (dec_digits (n div 10)) \<noteq> 48" using 1 [OF False] by blast
    then show ?thesis using False by (subst (1 2 3) dec_digits.simps) simp
  qed
qed

lemma decimal_key_dec: "decimal_key (dec_of_int v)"
proof -
  have d: "list_all is_digit (dec_digits n)" "dec_digits n \<noteq> []" for n using dec_digits_value by blast+
  have "\<not> is_digit 45" by (simp add: is_digit_def)
  then have "dec_digits n = c # cs \<Longrightarrow> c \<noteq> 45" for n c cs
    using d [of n] by auto
  then show ?thesis using dec_digits_key [of "nat \<bar>v\<bar>"] d [of "nat \<bar>v\<bar>"]
    by (cases "dec_digits (nat \<bar>v\<bar>)") (auto simp: decimal_key_def dec_of_int_def Let_def)
qed

lemma verify_scalar_ok: "val_ok t v \<Longrightarrow> verify_scalar f t v = None"
  by (cases t) (auto simp: val_ok_def scalar_call_def verify_scalar_def reject_def is_integer_def as_integer_def
      is_number_def split: jsval.splits)

lemma verify_key_ok: "key_ok kt k \<Longrightarrow> verify_key f kt k = None"
proof -
  assume k: "key_ok kt k"
  have "decimal_key k" if "kt \<noteq> TString" "kt \<noteq> TBool"
    using k that decimal_key_dec by (cases kt) (auto simp: key_ok_def key_val_def val_ok_def scalar_call_def)
  moreover have "kt = TBool \<Longrightarrow> key2_re k"
    using k by (auto simp: key_ok_def key_val_def key2_re_def js_simps split: if_splits)
  ultimately show ?thesis
    by (cases kt) (simp_all add: verify_key_def reject_def key32_re_def key64_re_def)
qed

section \<open>Declared enum values and exclusive oneofs\<close>

definition field_vals :: "(jsstring \<times> jsval) list \<Rightarrow> field \<Rightarrow> jsval list" where
  "field_vals m f =
     (case prop_get m (f_name f) of
        None \<Rightarrow> []
      | Some v \<Rightarrow>
          if f_key f \<noteq> None then (case v of JObj ps \<Rightarrow> map snd ps | _ \<Rightarrow> [])
          else if f_repeated f then (case v of JArr vs \<Rightarrow> vs | _ \<Rightarrow> [])
          else [v])"

definition elem_declared :: "(mtype \<Rightarrow> jsval \<Rightarrow> bool) \<Rightarrow> schema \<Rightarrow> field \<Rightarrow> jsval \<Rightarrow> bool" where
  "elem_declared dc sc f v =
     (case f_type f of
        EnumType \<Rightarrow> (case v of JNum i \<Rightarrow> i \<in> snd ` set (f_values f) | _ \<Rightarrow> False)
      | MessageType k \<Rightarrow> dc (sc ! k) v
      | _ \<Rightarrow> True)"

definition in_oneof :: "(jsstring \<times> jsval) list \<Rightarrow> jsstring \<Rightarrow> field \<Rightarrow> bool" where
  "in_oneof m o' f \<longleftrightarrow> f_part_of f = Some o' \<and> f_key f = None \<and> \<not> f_repeated f \<and> field_set m f"

fun oneofs_ok :: "(jsstring \<times> jsval) list \<Rightarrow> field list \<Rightarrow> bool" where
  "oneofs_ok m [] \<longleftrightarrow> True"
| "oneofs_ok m (f # fs) \<longleftrightarrow> (\<forall>o'. in_oneof m o' f \<longrightarrow> list_all (\<lambda>g. \<not> in_oneof m o' g) fs) \<and> oneofs_ok m fs"

fun declared :: "nat \<Rightarrow> schema \<Rightarrow> mtype \<Rightarrow> jsval \<Rightarrow> bool" where
  "declared (Suc n) sc T (JObj m) \<longleftrightarrow>
     list_all (\<lambda>f. list_all (elem_declared (declared n sc) sc f) (field_vals m f)) (t_fields T) \<and> oneofs_ok m (t_fields T)"
| "declared _ sc T _ = False"

lemma verify_value_ok:
  assumes "elem_ok mo sc f v" "elem_declared dc sc f v"
    "\<And>k. f_type f = MessageType k \<Longrightarrow> mo (sc ! k) v \<Longrightarrow> dc (sc ! k) v \<Longrightarrow> ver (sc ! k) v = Some None"
  shows "verify_value sc ver f v = Some None"
  using assms verify_scalar_ok
  by (cases "f_type f") (auto simp: verify_value_def elem_ok_def elem_declared_def reject_def as_integer_def codec_type_def split: jsval.splits)

lemma first_reason_None: "(\<And>x. x \<in> set xs \<Longrightarrow> g x = Some None) \<Longrightarrow> first_reason g xs = Some None"
  by (induction xs) simp_all

lemma verify_field_ok:
  assumes ok: "field_ok mo sc m f" and dc: "list_all (elem_declared dc sc f) (field_vals m f)"
    and ver: "\<And>k v. f_type f = MessageType k \<Longrightarrow> mo (sc ! k) v \<Longrightarrow> dc (sc ! k) v \<Longrightarrow> ver (sc ! k) v = Some None"
    and p: "\<And>o'. in_oneof m o' f \<Longrightarrow> o' \<notin> set p"
  shows "\<exists>q. verify_field sc ver m f p = Some (None, q) \<and> set q \<subseteq> set p \<union> {o'. in_oneof m o' f}"
proof (cases "field_set m f")
  case False
  then show ?thesis by (auto simp: verify_field_def field_set_def Let_def)
next
  case set': True
  show ?thesis
  proof (cases "prop_get m (f_name f)")
    case None
    then show ?thesis using ok set' by (simp add: field_ok_def field_set_def has_own_def)
  next
    case own: (Some v)
    have v: "verify_value sc ver f x = Some None" if "elem_ok mo sc f x" "elem_declared dc sc f x" for x
      using verify_value_ok [OF that] ver by blast
    have s: "\<not> (\<not> f_required f \<and> (nullish (get_prop f m) \<or> \<not> has_own m (f_name f)))" using set' by (simp add: field_set_def)
    have g: "get_prop f m = v" using own by (simp add: get_prop_def)
    show ?thesis
    proof (cases "f_key f")
      case (Some kt)
      then obtain ps where ps: "v = JObj ps" using ok own by (auto simp: field_ok_def split: jsval.splits)
      have "first_reason (\<lambda>k. then_check (Some (verify_key f kt k)) (verify_value sc ver f (the (prop_get ps k)))) (object_keys ps) = Some None"
      proof (rule first_reason_None)
        fix k assume "k \<in> set (object_keys ps)"
        then obtain x where x: "prop_get ps k = Some x" "key_ok kt k" "elem_ok mo sc f x"
          using map_entry_ok [OF ok Some own [unfolded ps]] by blast
        have "elem_declared dc sc f x"
          using dc own ps Some map_of_SomeD [OF x(1)] by (force simp: field_vals_def list_all_iff)
        then show "then_check (Some (verify_key f kt k)) (verify_value sc ver f (the (prop_get ps k))) = Some None"
          using x v verify_key_ok by (simp add: then_check_def)
      qed
      then show ?thesis using s g ps Some by (auto simp: verify_field_def Let_def)
    next
      case None
      show ?thesis
      proof (cases "f_repeated f")
        case True
        then obtain vs where vs: "v = JArr vs" "list_all (elem_ok mo sc f) vs" using ok own None by (auto simp: field_ok_def split: jsval.splits)
        have "first_reason (verify_value sc ver f) vs = Some None"
          by (rule first_reason_None) (use vs dc own None True v in \<open>auto simp: field_vals_def list_all_iff\<close>)
        then show ?thesis using s g vs True None by (auto simp: verify_field_def Let_def)
      next
        case False
        then have "verify_value sc ver f v = Some None"
          using v ok own None dc by (auto simp: field_ok_def field_vals_def)
        then show ?thesis using s g None False set' p
          by (cases "f_part_of f") (auto simp: verify_field_def Let_def in_oneof_def)
      qed
    qed
  qed
qed

lemma verify_fields_ok:
  assumes "\<And>f. f \<in> set fs \<Longrightarrow> field_ok mo sc m f \<and> list_all (elem_declared dc sc f) (field_vals m f)"
    and "\<And>f k v. f \<in> set fs \<Longrightarrow> f_type f = MessageType k \<Longrightarrow> mo (sc ! k) v \<Longrightarrow> dc (sc ! k) v \<Longrightarrow> ver (sc ! k) v = Some None"
    and "oneofs_ok m fs" "\<And>o' f. o' \<in> set p \<Longrightarrow> f \<in> set fs \<Longrightarrow> \<not> in_oneof m o' f"
  shows "verify_fields sc ver m fs p = Some None"
  using assms
proof (induction fs arbitrary: p)
  case (Cons f fs)
  obtain q where q: "verify_field sc ver m f p = Some (None, q)" "set q \<subseteq> set p \<union> {o'. in_oneof m o' f}"
    using verify_field_ok [of mo sc m f dc ver p] Cons.prems by (metis list.set_intros(1))
  have "verify_fields sc ver m fs q = Some None"
  proof (rule Cons.IH)
    show "\<not> in_oneof m o' g" if "o' \<in> set q" "g \<in> set fs" for o' g
      using that q(2) Cons.prems(3) Cons.prems(4) [of o' g] by (auto simp: list_all_iff)
  qed (use Cons.prems in \<open>auto\<close>)
  then show ?case using q(1) by simp
qed simp



end
