(* ===== verification/Convert.thy ===== *)
theory Convert
  imports VerifyOk
begin

text \<open>
  The conversions between messages and plain objects that \<open>converter\<close> of protobuf.js generates for a
  message type, and the constructor that \<open>Class.generate\<close> makes.
\<close>

unbundle bit_operations_syntax

section \<open>JavaScript conversions\<close>

text \<open>None where the conversion is not modelled: parsing a string as a number, printing a float.\<close>

definition js_number :: "jsval \<Rightarrow> jsval option" where
  "js_number d =
     (case d of
        JNum i \<Rightarrow> Some (JNum i) | JF32 b \<Rightarrow> Some (JF32 b) | JF64 b \<Rightarrow> Some (JF64 b)
      | JBool b \<Rightarrow> Some (JNum (of_bool b)) | JNull \<Rightarrow> Some (JNum 0)
      | JUndef \<Rightarrow> Some (JF64 0x7FF8000000000000) | _ \<Rightarrow> None)"

definition js_int :: "jsval \<Rightarrow> int option" where
  "js_int d =
     (case d of JBool b \<Rightarrow> Some (of_bool b) | JNull \<Rightarrow> Some 0 | JUndef \<Rightarrow> Some 0 | _ \<Rightarrow> as_integer d)"

definition js_string :: "jsval \<Rightarrow> jsstring option" where
  "js_string d =
     (case d of
        JStr s \<Rightarrow> Some s | JNum i \<Rightarrow> Some (dec_of_int i) | JBool b \<Rightarrow> Some (if b then js ''true'' else js ''false'')
      | JUndef \<Rightarrow> Some (js ''undefined'') | JNull \<Rightarrow> Some (js ''null'') | _ \<Rightarrow> None)"

definition js_truthy :: "jsval \<Rightarrow> bool" where
  "js_truthy d =
     (case d of
        JUndef \<Rightarrow> False | JNull \<Rightarrow> False | JNum i \<Rightarrow> i \<noteq> 0 | JBool b \<Rightarrow> b | JStr s \<Rightarrow> s \<noteq> []
      | JF32 b \<Rightarrow> let a = unat b mod 2 ^ 31 in 0 < a \<and> a \<le> 255 * 2 ^ 23
      | JF64 b \<Rightarrow> let a = unat b mod 2 ^ 63 in 0 < a \<and> a \<le> 2047 * 2 ^ 52
      | _ \<Rightarrow> True)"

text \<open>\<open>typeof d === "object"\<close>.\<close>

definition is_object :: "jsval \<Rightarrow> bool" where
  "is_object d = (case d of JNull \<Rightarrow> True | JArr _ \<Rightarrow> True | JBytes _ \<Rightarrow> True | JObj _ \<Rightarrow> True | _ \<Rightarrow> False)"

definition own_or_undef :: "(jsstring \<times> 'v) list \<Rightarrow> jsstring \<Rightarrow> 'v \<Rightarrow> 'v" where
  "own_or_undef ps k u = (case prop_get ps k of Some v \<Rightarrow> v | None \<Rightarrow> u)"

text \<open>Values that are computed: an outcome of None is outside the model.\<close>

definition given :: "'a option \<Rightarrow> 'a outcome" where
  "given = map_option Inr"

definition is_coll :: "field \<Rightarrow> bool" where
  "is_coll f \<longleftrightarrow> f_key f \<noteq> None \<or> f_repeated f"

section \<open>fromObject\<close>

text \<open>
  \<open>genValuePartial_fromObject\<close>: the value that is assigned, or None when the generated code assigns
  nothing. \<open>frm T d\<close> is \<open>types[i].fromObject(d)\<close>.
\<close>

definition from_long :: "scalar \<Rightarrow> jsval \<Rightarrow> jsval option outcome" where
  "from_long t d =
     (case d of
        JStr s \<Rightarrow> given (map_option (\<lambda>i. Some (JNum (round_double i))) (int_of_dec s))
      | JNum i \<Rightarrow> Some (Inr (Some (JNum i)))
      | JF32 b \<Rightarrow> Some (Inr (Some (JF32 b)))
      | JF64 b \<Rightarrow> Some (Inr (Some (JF64 b)))
      | JNull \<Rightarrow> Some (Inl (JsTypeError (js ''low'')))
      | JObj ps \<Rightarrow>
          given (case (js_int (own_or_undef ps (js ''low'') JUndef), js_int (own_or_undef ps (js ''high'') JUndef)) of
                   (Some l, Some h) \<Rightarrow> Some (Some (JNum (to_number (t = TUint64) (mk_bits (to_uint32 l) (to_uint32 h)))))
                 | _ \<Rightarrow> None)
      | JArr _ \<Rightarrow> None
      | JBytes _ \<Rightarrow> None
      | _ \<Rightarrow> Some (Inr None))"

definition from_bytes :: "jsval \<Rightarrow> jsval option outcome" where
  "from_bytes d =
     (case d of
        JStr s \<Rightarrow> (case base64_decode s (replicate (nat \<lfloor>base64_length s\<rfloor>) 0) 0 of
                     (buf, Inl e) \<Rightarrow> Some (Inl e) | (buf, Inr n) \<Rightarrow> Some (Inr (Some (JBytes buf))))
      | JBytes bs \<Rightarrow> Some (Inr (if bs \<noteq> [] then Some d else None))
      | JArr vs \<Rightarrow> Some (Inr (if vs \<noteq> [] then Some d else None))
      | JObj ps \<Rightarrow> Some (Inr (if js_truthy (own_or_undef ps (js ''length'') JUndef) then Some d else None))
      | JNull \<Rightarrow> Some (Inl (JsTypeError (js ''length'')))
      | JUndef \<Rightarrow> Some (Inl (JsTypeError (js ''length'')))
      | _ \<Rightarrow> Some (Inr None))"

definition from_scalar :: "scalar \<Rightarrow> jsval \<Rightarrow> jsval option outcome" where
  "from_scalar t d =
     (if t \<in> {TDouble, TFloat} then given (map_option Some (js_number d))
      else if t \<in> {TUint32, TFixed32} then given (map_option (\<lambda>i. Some (JNum (uint (to_uint32 i)))) (js_int d))
      else if t \<in> {TInt32, TSint32, TSfixed32} then given (map_option (\<lambda>i. Some (JNum (sint (to_uint32 i)))) (js_int d))
      else if t \<in> {TInt64, TUint64, TSint64, TFixed64, TSfixed64} then from_long t d
      else if t = TBytes then from_bytes d
      else if t = TString then given (map_option (\<lambda>s. Some (JStr s)) (js_string d))
      else Some (Inr (Some (JBool (js_truthy d)))))"

text \<open>The switch over the names and values of an enum, whose default label only repeated fields have.\<close>

definition from_enum :: "field \<Rightarrow> jsval \<Rightarrow> jsval option" where
  "from_enum f d =
     (case find (\<lambda>(name, i). d = JStr name \<or> as_integer d = Some i) (f_values f) of
        Some (name, i) \<Rightarrow> Some (JNum i)
      | None \<Rightarrow>
          if f_repeated f \<and> (\<exists>(name, i) \<in> set (f_values f). f_type_default f = JNum i)
          then Some (f_type_default f) else None)"

definition object_expected :: "mtype \<Rightarrow> field \<Rightarrow> js_error" where
  "object_expected T f = JsTypeError (t_full_name T @ js ''.'' @ f_name f @ js '': object expected'')"

definition from_value ::
    "schema \<Rightarrow> (mtype \<Rightarrow> jsval \<Rightarrow> jsval outcome) \<Rightarrow> mtype \<Rightarrow> field \<Rightarrow> jsval \<Rightarrow> jsval option outcome" where
  "from_value sc frm T f d =
     (case f_type f of
        EnumType \<Rightarrow> Some (Inr (from_enum f d))
      | MessageType k \<Rightarrow>
          if \<not> is_object d then Some (Inl (object_expected T f))
          else obind (frm (sc ! k) d) (\<lambda>v. Some (Inr (Some v)))
      | Basic t \<Rightarrow> from_scalar t d)"

text \<open>The statements of one field. An element of an array that is not assigned would leave a hole.\<close>

definition from_field ::
    "schema \<Rightarrow> (mtype \<Rightarrow> jsval \<Rightarrow> jsval outcome) \<Rightarrow> mtype \<Rightarrow> (jsstring \<times> jsval) list \<Rightarrow> field
     \<Rightarrow> (jsstring \<times> jsval) list \<Rightarrow> (jsstring \<times> jsval) list outcome" where
  "from_field sc frm T d f m =
     (let v = own_or_undef d (f_name f) JUndef
      in if f_key f \<noteq> None then
           if \<not> js_truthy v then Some (Inr m)
           else if \<not> is_object v then Some (Inl (object_expected T f))
           else (case v of
                   JObj ps \<Rightarrow>
                     obind (ofold (\<lambda>k acc. obind (from_value sc frm T f (the (prop_get ps k))) (\<lambda>r.
                              Some (Inr (case r of Some x \<Rightarrow> own_put acc k x | None \<Rightarrow> acc)))) (object_keys ps) [])
                       (\<lambda>acc. Some (Inr (own_put m (f_name f) (JObj acc))))
                 | _ \<Rightarrow> None)
         else if f_repeated f then
           if \<not> js_truthy v then Some (Inr m)
           else (case v of
                   JArr vs \<Rightarrow>
                     obind (ofold (\<lambda>x acc. obind (from_value sc frm T f x) (\<lambda>r.
                              case r of Some y \<Rightarrow> Some (Inr (acc @ [y])) | None \<Rightarrow> None)) vs [])
                       (\<lambda>acc. Some (Inr (own_put m (f_name f) (JArr acc))))
                 | _ \<Rightarrow> Some (Inl (JsTypeError (t_full_name T @ js ''.'' @ f_name f @ js '': array expected''))))
         else if f_type f \<noteq> EnumType \<and> nullish v then Some (Inr m)
         else obind (from_value sc frm T f v) (\<lambda>r. Some (Inr (case r of Some x \<Rightarrow> own_put m (f_name f) x | None \<Rightarrow> m))))"

text \<open>
  A repeated enum field prints the label \<open>default:\<close> in front of every name that has the default value, and two such
  labels are a syntax error of the generated code.
\<close>

definition one_default :: "field \<Rightarrow> bool" where
  "one_default f \<longleftrightarrow>
     \<not> (f_type f = EnumType \<and> f_repeated f) \<or> length (filter (\<lambda>(name, i). f_type_default f = JNum i) (f_values f)) \<le> 1"

text \<open>The generated \<open>fromObject(d)\<close> for a value that is not yet an instance of the message class.\<close>

fun from_object :: "nat \<Rightarrow> schema \<Rightarrow> mtype \<Rightarrow> jsval \<Rightarrow> jsval outcome" where
  "from_object 0 sc T d = None"
| "from_object (Suc n) sc T d =
     (if \<not> list_all one_default (t_fields T) then Some (Inl (JsSyntaxError (js ''default'')))
      else if t_fields T = [] then Some (Inr (JObj []))
      else case d of
             JObj dm \<Rightarrow> obind (ofold (from_field sc (from_object n sc) T dm) (t_fields T) (new_message T)) (\<lambda>m. Some (Inr (JObj m)))
           | JNull \<Rightarrow> Some (Inl (JsTypeError (f_name (hd (t_fields T)))))
           | JUndef \<Rightarrow> Some (Inl (JsTypeError (f_name (hd (t_fields T)))))
           | _ \<Rightarrow> None)"

section \<open>toObject\<close>

datatype as_type = AsIs | AsString | AsNumber | AsArray

record options =
  o_longs :: as_type
  o_enums :: as_type
  o_bytes :: as_type
  o_arrays :: bool
  o_objects :: bool
  o_defaults :: bool
  o_oneofs :: bool

text \<open>\<open>types[i].values[v]\<close> of an enum: the last name given to the value.\<close>

definition enum_name :: "field \<Rightarrow> jsval \<Rightarrow> jsval" where
  "enum_name f v =
     (case find (\<lambda>(name, i). v = JNum i) (rev (f_values f)) of Some (name, i) \<Rightarrow> JStr name | None \<Rightarrow> JUndef)"

definition to_value ::
    "schema \<Rightarrow> (mtype \<Rightarrow> jsval \<Rightarrow> jsval outcome) \<Rightarrow> options \<Rightarrow> field \<Rightarrow> jsval \<Rightarrow> jsval outcome" where
  "to_value sc to' o' f v =
     (case f_type f of
        EnumType \<Rightarrow> Some (Inr (if o_enums o' = AsString then enum_name f v else v))
      | MessageType k \<Rightarrow> to' (sc ! k) v
      | Basic t \<Rightarrow>
          if t \<in> {TInt64, TUint64, TSint64, TFixed64, TSfixed64} then
            (case v of JNum i \<Rightarrow> Some (Inr (if o_longs o' = AsString then JStr (dec_of_int i) else v)) | _ \<Rightarrow> None)
          else if t = TBytes then
            (case v of
               JBytes bs \<Rightarrow>
                 Some (Inr (case o_bytes o' of AsString \<Rightarrow> JStr (base64_encode bs 0 (length bs))
                            | AsArray \<Rightarrow> JArr (map (\<lambda>b. JNum (uint b)) bs) | _ \<Rightarrow> v))
             | _ \<Rightarrow> None)
          else Some (Inr v))"

text \<open>The value that \<open>defaults\<close> gives to a field that is neither an array nor a map.\<close>

definition default_value :: "options \<Rightarrow> field \<Rightarrow> jsval" where
  "default_value o' f =
     (case f_type f of
        EnumType \<Rightarrow> if o_enums o' = AsString then enum_name f (f_type_default f) else f_type_default f
      | Basic TBytes \<Rightarrow>
          (let bs = (case f_type_default f of JBytes bs \<Rightarrow> bs | _ \<Rightarrow> [])
           in if o_bytes o' = AsString then JStr (map ucast bs) else JArr (map (\<lambda>b. JNum (uint b)) bs))
      | _ \<Rightarrow> f_type_default f)"

definition to_defaults :: "options \<Rightarrow> field list \<Rightarrow> (jsstring \<times> jsval) list" where
  "to_defaults o' fds =
     (let fs = filter (\<lambda>f. f_part_of f = None) fds;
          d = (if o_arrays o' \<or> o_defaults o'
               then fold (\<lambda>f d. own_put d (f_name f) (JArr [])) (filter f_repeated fs) [] else []);
          d = (if o_objects o' \<or> o_defaults o'
               then fold (\<lambda>f d. own_put d (f_name f) (JObj [])) (filter (\<lambda>f. \<not> f_repeated f \<and> f_key f \<noteq> None) fs) d else d)
      in if o_defaults o'
         then fold (\<lambda>f d. own_put d (f_name f) (default_value o' f)) (filter (\<lambda>f. \<not> is_coll f) fs) d else d)"

definition to_field ::
    "schema \<Rightarrow> (mtype \<Rightarrow> jsval \<Rightarrow> jsval outcome) \<Rightarrow> options \<Rightarrow> (jsstring \<times> jsval) list \<Rightarrow> field
     \<Rightarrow> (jsstring \<times> jsval) list \<Rightarrow> (jsstring \<times> jsval) list outcome" where
  "to_field sc to' o' m f d =
     (let v = get_prop f m
      in if f_key f \<noteq> None then
           (case v of
              JObj ps \<Rightarrow>
                if ps = [] then Some (Inr d)
                else obind (ofold (\<lambda>k acc. obind (to_value sc to' o' f (the (prop_get ps k))) (\<lambda>x.
                              Some (Inr (own_put acc k x)))) (object_keys ps) [])
                       (\<lambda>acc. Some (Inr (own_put d (f_name f) (JObj acc))))
            | _ \<Rightarrow> if js_truthy v then None else Some (Inr d))
         else if f_repeated f then
           (case v of
              JArr vs \<Rightarrow>
                if vs = [] then Some (Inr d)
                else obind (ofold (\<lambda>x acc. obind (to_value sc to' o' f x) (\<lambda>y. Some (Inr (acc @ [y])))) vs [])
                       (\<lambda>acc. Some (Inr (own_put d (f_name f) (JArr acc))))
            | _ \<Rightarrow> if js_truthy v then None else Some (Inr d))
         else if nullish v \<or> \<not> has_own m (f_name f) then Some (Inr d)
         else obind (to_value sc to' o' f v) (\<lambda>x.
                let d = own_put d (f_name f) x
                in Some (Inr (case f_part_of f of
                                Some p \<Rightarrow> if o_oneofs o' then own_put d p (JStr (f_name f)) else d | None \<Rightarrow> d))))"

text \<open>The generated \<open>toObject(m, o)\<close>.\<close>

fun to_object :: "nat \<Rightarrow> schema \<Rightarrow> options \<Rightarrow> mtype \<Rightarrow> jsval \<Rightarrow> jsval outcome" where
  "to_object 0 sc o' T v = None"
| "to_object (Suc n) sc o' T v =
     (let fds = sort_key f_id (t_fields T)
      in if fds = [] then Some (Inr (JObj []))
         else case v of
                JObj m \<Rightarrow>
                  obind (ofold (to_field sc (to_object n sc o') o' m) fds (to_defaults o' fds)) (\<lambda>d. Some (Inr (JObj d)))
              | JNull \<Rightarrow> Some (Inl (JsTypeError (f_name (hd fds))))
              | JUndef \<Rightarrow> Some (Inl (JsTypeError (f_name (hd fds))))
              | _ \<Rightarrow> None)"

text \<open>\<open>util.toJSONOptions\<close>.\<close>

definition json_options :: options where
  "json_options = \<lparr>o_longs = AsString, o_enums = AsString, o_bytes = AsString, o_arrays = False,
     o_objects = False, o_defaults = False, o_oneofs = False\<rparr>"

section \<open>Round trip\<close>

text \<open>
  What comes back from a plain object: the properties of the constructor, with every field that has a
  value set to it.
\<close>

fun json_norm :: "nat \<Rightarrow> schema \<Rightarrow> mtype \<Rightarrow> jsval \<Rightarrow> jsval" where
  "json_norm (Suc n) sc T (JObj m) =
     JObj (fold (\<lambda>f. set_field f (field_norm (json_norm n sc) sc m f)) (t_fields T) (new_message T))"
| "json_norm _ sc T v = v"

text \<open>
  A plain object has no inherited property of the name, enum names are distinct, a repeated enum has one name for its default, and the defaults of maps and
  arrays are empty, as \<open>Field.resolve\<close> sets them.
\<close>

definition json_wf :: "field \<Rightarrow> bool" where
  "json_wf f \<longleftrightarrow> f_name f \<notin> set proto_names \<and> one_default f \<and> distinct (map fst (f_values f))
     \<and> (f_key f \<noteq> None \<longrightarrow> f_default f = JObj []) \<and> (f_repeated f \<and> f_key f = None \<longrightarrow> f_default f = JArr [])"

lemma json_plain: "json_wf f \<Longrightarrow> plain_name (f_name f)"
  by (auto simp: json_wf_def plain_name_def proto_names_def)

lemma find_mem: "find P xs = Some y \<Longrightarrow> y \<in> set xs \<and> P y"
  by (induction xs) (auto split: if_splits)

lemma find_ex: "x \<in> set xs \<Longrightarrow> P x \<Longrightarrow> \<exists>y. find P xs = Some y"
  by (induction xs) auto

lemma enum_back:
  assumes "distinct (map fst (f_values f))" "i \<in> snd ` set (f_values f)"
  shows "from_enum f (enum_name f (JNum i)) = Some (JNum i)" "from_enum f (JNum i) = Some (JNum i)"
proof -
  obtain name0 where name0: "(name0, i) \<in> set (f_values f)" using assms(2) by auto
  then obtain y where y: "find (\<lambda>(name, j). JNum i = JNum j) (rev (f_values f)) = Some y"
    using find_ex [of "(name0, i)" "rev (f_values f)" "\<lambda>(name, j). JNum i = JNum j"] by auto
  obtain name where name: "y = (name, i)" "(name, i) \<in> set (f_values f)" using find_mem [OF y] by (cases y) auto
  then obtain z where z: "find (\<lambda>(x, j). JStr name = JStr x \<or> as_integer (JStr name) = Some j) (f_values f) = Some z"
    using find_ex [of "(name, i)" "f_values f" "\<lambda>(x, j). JStr name = JStr x \<or> as_integer (JStr name) = Some j"] by auto
  have "z = (name, i)"
    using find_mem [OF z] name(2) assms(1) eq_key_imp_eq_value [of "f_values f" name i "snd z"]
    by (cases z) (auto simp: as_integer_def)
  then show "from_enum f (enum_name f (JNum i)) = Some (JNum i)"
    using y name(1) z by (simp add: from_enum_def enum_name_def)
  obtain u where u: "find (\<lambda>(x, j). JNum i = JStr x \<or> as_integer (JNum i) = Some j) (f_values f) = Some u"
    using name0 find_ex [of "(name0, i)" "f_values f" "\<lambda>(x, j). JNum i = JStr x \<or> as_integer (JNum i) = Some j"]
    by (auto simp: as_integer_def)
  then have "snd u = i" using find_mem [OF u] by (auto simp: as_integer_def)
  then show "from_enum f (JNum i) = Some (JNum i)" using u by (cases u) (simp add: from_enum_def)
qed

lemma base64_bytes_back: "from_bytes (JStr (base64_encode bs 0 (length bs))) = Some (Inr (Some (JBytes bs)))"
proof -
  have l: "base64_length (base64_encode bs 0 (length bs)) = of_nat (length bs)" using encoded_length [of 0 "length bs" bs] by simp
  have "base64_decode (base64_encode bs 0 (length bs)) (replicate (length bs) 0) 0 = (bs, Inr (length bs))"
    using decode_encoded [of 0 "length bs" bs "replicate (length bs) 0" 0] put_all [of bs "replicate (length bs) 0"] by simp
  then show ?thesis by (simp add: from_bytes_def l)
qed

lemma scalar_roundtrip:
  assumes "val_ok t v" "f_type f = Basic t" "o_bytes o' = AsString"
  shows "\<exists>x. to_value sc to' o' f v = Some (Inr x) \<and> from_value sc frm T f x = Some (Inr (Some v)) \<and> \<not> nullish x"
proof -
  have i32: "0 \<le> i \<Longrightarrow> i < 4294967296 \<Longrightarrow> uint (to_uint32 i) = i" for i by (simp add: to_uint32_def uint_word_of_int)
  note d = val_ok_def scalar_call_def to_value_def from_value_def from_scalar_def nullish_def given_def
  show ?thesis
    using assms i32 sint_to_uint32 int_of_dec_of_int safe_intD
    by (cases t) (auto simp: d js_number_def js_int_def as_integer_def js_string_def js_truthy_def from_long_def
        base64_bytes_back split: jsval.splits)
qed

text \<open>An element, an array, a map, and a field.\<close>

definition converts ::
    "schema \<Rightarrow> (mtype \<Rightarrow> jsval \<Rightarrow> jsval outcome) \<Rightarrow> (mtype \<Rightarrow> jsval \<Rightarrow> jsval outcome) \<Rightarrow> options \<Rightarrow> mtype \<Rightarrow> field
     \<Rightarrow> jsval \<Rightarrow> jsval \<Rightarrow> bool" where
  "converts sc to' frm o' T f v u \<longleftrightarrow>
     (\<exists>x. to_value sc to' o' f v = Some (Inr x) \<and> from_value sc frm T f x = Some (Inr (Some u)) \<and> \<not> nullish x)"

lemma elem_converts:
  assumes "elem_ok mo sc f v" "elem_declared dc sc f v" "distinct (map fst (f_values f))" "o_bytes o' = AsString"
    "\<And>k. f_type f = MessageType k \<Longrightarrow> mo (sc ! k) v \<Longrightarrow> dc (sc ! k) v \<Longrightarrow>
      \<exists>x. to' (sc ! k) v = Some (Inr (JObj x)) \<and> frm (sc ! k) (JObj x) = Some (Inr (jn (sc ! k) v))"
  shows "converts sc to' frm o' T f v (elem_norm jn sc f v)"
proof (cases "f_type f")
  case (Basic t)
  then have "val_ok t v" using assms(1) by (simp add: elem_ok_def codec_type_def)
  from scalar_roundtrip [OF this Basic assms(4), of sc to' frm T] Basic show ?thesis by (simp add: converts_def elem_norm_def)
next
  case EnumType
  then obtain i where i: "v = JNum i" "i \<in> snd ` set (f_values f)"
    using assms(2) by (auto simp: elem_declared_def split: jsval.splits)
  obtain y where "find (\<lambda>(name, j). JNum i = JNum j) (rev (f_values f)) = Some y"
    using i(2) find_ex [of _ "rev (f_values f)" "\<lambda>(name, j). JNum i = JNum j"] by force
  then have "\<not> nullish (enum_name f (JNum i))" by (simp add: enum_name_def nullish_def case_prod_beta)
  then show ?thesis using i EnumType enum_back [OF assms(3) i(2)]
    by (simp add: converts_def to_value_def from_value_def elem_norm_def nullish_def)
next
  case (MessageType k)
  then have "mo (sc ! k) v" "dc (sc ! k) v" using assms(1, 2) by (simp_all add: elem_ok_def elem_declared_def)
  from assms(5) [OF MessageType this]
  obtain x where "to' (sc ! k) v = Some (Inr (JObj x))" "frm (sc ! k) (JObj x) = Some (Inr (jn (sc ! k) v))" by blast
  then show ?thesis using MessageType unfolding converts_def
    by (intro exI [of _ "JObj x"]) (simp add: to_value_def from_value_def is_object_def elem_norm_def nullish_def)
qed

lemma array_converts:
  assumes "\<forall>v \<in> set vs. converts sc to' frm o' T f v (g v)"
  shows "\<exists>xs. length xs = length vs
    \<and> (\<forall>acc. ofold (\<lambda>x acc. obind (to_value sc to' o' f x) (\<lambda>y. Some (Inr (acc @ [y])))) vs acc = Some (Inr (acc @ xs)))
    \<and> (\<forall>acc. ofold (\<lambda>x acc. obind (from_value sc frm T f x) (\<lambda>r.
              case r of Some y \<Rightarrow> Some (Inr (acc @ [y])) | None \<Rightarrow> None)) xs acc = Some (Inr (acc @ map g vs)))"
  using assms
proof (induction vs)
  case (Cons v vs)
  then obtain xs where "length xs = length vs"
    "\<forall>acc. ofold (\<lambda>x acc. obind (to_value sc to' o' f x) (\<lambda>y. Some (Inr (acc @ [y])))) vs acc = Some (Inr (acc @ xs))"
    "\<forall>acc. ofold (\<lambda>x acc. obind (from_value sc frm T f x) (\<lambda>r.
              case r of Some y \<Rightarrow> Some (Inr (acc @ [y])) | None \<Rightarrow> None)) xs acc = Some (Inr (acc @ map g vs))"
    by auto
  moreover obtain x where "to_value sc to' o' f v = Some (Inr x)" "from_value sc frm T f x = Some (Inr (Some (g v)))"
    using Cons.prems by (auto simp: converts_def)
  ultimately show ?case by (intro exI [of _ "x # xs"]) simp
qed simp

lemma map_converts:
  assumes "\<forall>k \<in> set ks. converts sc to' frm o' T f (the (prop_get ps k)) (g k)" "set ks \<subseteq> set ks'" "list_all plain_name ks"
  shows "\<exists>h. (\<forall>k \<in> set ks. to_value sc to' o' f (the (prop_get ps k)) = Some (Inr (h k)))
    \<and> (\<forall>acc. distinct (map fst acc @ ks) \<longrightarrow>
         ofold (\<lambda>k acc. obind (to_value sc to' o' f (the (prop_get ps k))) (\<lambda>x. Some (Inr (own_put acc k x)))) ks acc
         = Some (Inr (acc @ map (\<lambda>k. (k, h k)) ks)))
    \<and> (\<forall>acc. distinct (map fst acc @ ks) \<longrightarrow>
         ofold (\<lambda>k acc. obind (from_value sc frm T f (the (prop_get (map (\<lambda>k. (k, h k)) ks') k))) (\<lambda>r.
              Some (Inr (case r of Some x \<Rightarrow> own_put acc k x | None \<Rightarrow> acc)))) ks acc
         = Some (Inr (acc @ map (\<lambda>k. (k, g k)) ks)))"
proof -
  obtain h where h: "\<forall>k \<in> set ks. to_value sc to' o' f (the (prop_get ps k)) = Some (Inr (h k))
      \<and> from_value sc frm T f (h k) = Some (Inr (Some (g k)))"
    using assms(1) unfolding converts_def by metis
  have plain: "\<And>k. k \<in> set ks \<Longrightarrow> plain_name k" using assms(3) by (simp add: list_all_iff)
  have m: "prop_get (map (\<lambda>k. (k, h k)) ks') k = Some (h k)" if "k \<in> set ks'" for k
    using that by (induction ks') auto
  have 1: "ofold (\<lambda>k acc. obind (to_value sc to' o' f (the (prop_get ps k))) (\<lambda>x. Some (Inr (own_put acc k x)))) xs acc
         = Some (Inr (acc @ map (\<lambda>k. (k, h k)) xs))"
    if "distinct (map fst acc @ xs)" "set xs \<subseteq> set ks" for xs acc
    using that h plain by (induction xs arbitrary: acc) (simp_all add: prop_set_new plain_put)
  have 2: "ofold (\<lambda>k acc. obind (from_value sc frm T f (the (prop_get (map (\<lambda>k. (k, h k)) ks') k))) (\<lambda>r.
              Some (Inr (case r of Some x \<Rightarrow> own_put acc k x | None \<Rightarrow> acc)))) xs acc
         = Some (Inr (acc @ map (\<lambda>k. (k, g k)) xs))"
    if "distinct (map fst acc @ xs)" "set xs \<subseteq> set ks" for xs acc
    using that h m assms(2) plain by (induction xs arbitrary: acc) (auto simp: prop_set_new plain_put)
  show ?thesis using h 1 2 by (intro exI [of _ h]) blast
qed

lemma sort_filter_again:
  "sort_key g (filter P (sort_key g (filter P xs) @ filter (\<lambda>k. \<not> P k) xs))
     @ filter (\<lambda>k. \<not> P k) (sort_key g (filter P xs) @ filter (\<lambda>k. \<not> P k) xs)
   = sort_key g (filter P xs) @ filter (\<lambda>k. \<not> P k) xs"
proof -
  have "filter P (sort_key g (filter P xs)) = sort_key g (filter P xs)" by (intro filter_True ballI) simp
  moreover have "filter (\<lambda>k. \<not> P k) (sort_key g (filter P xs)) = []" by (simp add: filter_empty_conv)
  ultimately show ?thesis by (simp add: sort_key_id_if_sorted)
qed

lemma object_keys_again: "object_keys (map (\<lambda>k. (k, h k)) (object_keys ps)) = object_keys ps"
proof -
  have m: "map fst (map (\<lambda>k. (k, h k)) xs) = xs" for xs :: "jsstring list" by (induction xs) simp_all
  show ?thesis
    using sort_filter_again [of "\<lambda>k. the (array_index k)" "\<lambda>k. array_index k \<noteq> None" "map fst ps"]
    unfolding object_keys_def Let_def m by simp
qed

lemma ofold_fold:
  "(\<And>x acc. x \<in> set xs \<Longrightarrow> g x acc = Some (Inr (h x acc))) \<Longrightarrow> ofold g xs acc = Some (Inr (fold h xs acc))"
  by (induction xs arbitrary: acc) simp_all

definition field_converts ::
    "schema \<Rightarrow> (mtype \<Rightarrow> jsval \<Rightarrow> jsval outcome) \<Rightarrow> (mtype \<Rightarrow> jsval \<Rightarrow> jsval outcome) \<Rightarrow> options \<Rightarrow> mtype
     \<Rightarrow> (jsstring \<times> jsval) list \<Rightarrow> field \<Rightarrow> jsval option \<Rightarrow> jsval option \<Rightarrow> bool" where
  "field_converts sc to' frm o' T m f t u \<longleftrightarrow>
     (\<forall>d. to_field sc to' o' m f d = Some (Inr (set_field f t d)))
     \<and> (\<forall>d acc. prop_get d (f_name f) = t \<longrightarrow> from_field sc frm T d f acc = Some (Inr (set_field f u acc)))"

lemma absent_converts:
  assumes "to_field sc to' o' m f = (\<lambda>d. Some (Inr d))"
  shows "field_converts sc to' frm o' T m f None None"
proof -
  have "from_enum f JUndef = None" if "\<not> f_repeated f"
    using that by (auto simp: from_enum_def as_integer_def split: option.splits dest: find_mem)
  then show ?thesis using assms
    by (auto simp: field_converts_def set_field_def from_field_def own_or_undef_def js_truthy_def nullish_def Let_def from_value_def)
qed

lemma field_roundtrip:
  assumes ok: "field_ok mo sc m f" and pk: "plain_keys (JObj m)" and dc: "list_all (elem_declared dc sc f) (field_vals m f)" and wf: "json_wf f"
    and o': "o_bytes o' = AsString" "\<not> o_oneofs o'"
    and ih: "\<And>k v. f_type f = MessageType k \<Longrightarrow> mo (sc ! k) v \<Longrightarrow> dc (sc ! k) v \<Longrightarrow>
      \<exists>x. to' (sc ! k) v = Some (Inr (JObj x)) \<and> frm (sc ! k) (JObj x) = Some (Inr (jn (sc ! k) v))"
  shows "\<exists>t. field_converts sc to' frm o' T m f t (field_norm jn sc m f)"
proof (cases "prop_get m (f_name f)")
  case None
  then have "to_field sc to' o' m f = (\<lambda>d. Some (Inr d))"
    using wf by (auto simp: to_field_def get_prop_def has_own_def json_wf_def Let_def)
  from absent_converts [OF this, of frm T] None show ?thesis by (auto simp: field_norm_def)
next
  case (Some v)
  note put = plain_put [OF json_plain [OF wf]]
  have g: "get_prop f m = v" using Some by (simp add: get_prop_def)
  have c: "converts sc to' frm o' T f x (elem_norm jn sc f x)" if "elem_ok mo sc f x" "elem_declared dc sc f x" for x
    by (rule elem_converts [OF that]) (use wf o' ih in \<open>auto simp: json_wf_def\<close>)
  show ?thesis
  proof (cases "f_key f")
    case key: (Some kt)
    then obtain ps where ps: "v = JObj ps" using ok Some by (auto simp: field_ok_def split: jsval.splits)
    have plain: "list_all plain_name (object_keys ps)"
      using plain_prop [OF pk Some] ps by (auto simp: list_all_iff)
    have dist: "distinct (object_keys ps)"
      using ok Some key ps by (intro distinct_object_keys) (auto simp: field_ok_def)
    show ?thesis
    proof (cases "ps = []")
      case True
      then have *: "to_field sc to' o' m f = (\<lambda>d. Some (Inr d))" using g ps key by (auto simp: to_field_def Let_def)
      from absent_converts [OF this, of frm T] Some True ps key show ?thesis by (auto simp: field_norm_def)
    next
      case False
      let ?g = "\<lambda>k. elem_norm jn sc f (the (prop_get ps k))"
      have "\<forall>k \<in> set (object_keys ps). converts sc to' frm o' T f (the (prop_get ps k)) (?g k)"
      proof
        fix k assume "k \<in> set (object_keys ps)"
        then obtain x where x: "prop_get ps k = Some x" "elem_ok mo sc f x"
          using map_entry_ok [OF ok key Some [unfolded ps]] by blast
        have "elem_declared dc sc f x"
          using dc Some ps key map_of_SomeD [OF x(1)] by (force simp: field_vals_def list_all_iff)
        then show "converts sc to' frm o' T f (the (prop_get ps k)) (?g k)" using c x by simp
      qed
      from map_converts [OF this subset_refl plain] obtain h where h:
        "\<forall>acc. distinct (map fst acc @ object_keys ps) \<longrightarrow>
           ofold (\<lambda>k acc. obind (to_value sc to' o' f (the (prop_get ps k))) (\<lambda>x. Some (Inr (own_put acc k x)))) (object_keys ps) acc
           = Some (Inr (acc @ map (\<lambda>k. (k, h k)) (object_keys ps)))"
        "\<forall>acc. distinct (map fst acc @ object_keys ps) \<longrightarrow>
           ofold (\<lambda>k acc. obind (from_value sc frm T f (the (prop_get (map (\<lambda>k. (k, h k)) (object_keys ps)) k))) (\<lambda>r.
                Some (Inr (case r of Some x \<Rightarrow> own_put acc k x | None \<Rightarrow> acc)))) (object_keys ps) acc
           = Some (Inr (acc @ map (\<lambda>k. (k, ?g k)) (object_keys ps)))"
        by blast
      have "field_converts sc to' frm o' T m f (Some (JObj (map (\<lambda>k. (k, h k)) (object_keys ps)))) (field_norm jn sc m f)"
        using g ps key False Some dist h [THEN spec, of "[]"] unfolding field_converts_def
        by (auto simp: to_field_def from_field_def own_or_undef_def js_truthy_def is_object_def object_keys_again
            set_field_def field_norm_def put Let_def)
      then show ?thesis by blast
    qed
  next
    case key: None
    show ?thesis
    proof (cases "f_repeated f")
      case True
      then obtain vs where vs: "v = JArr vs" "list_all (elem_ok mo sc f) vs" using ok Some key by (auto simp: field_ok_def split: jsval.splits)
      show ?thesis
      proof (cases "vs = []")
        case nil: True
        then have "to_field sc to' o' m f = (\<lambda>d. Some (Inr d))" using g vs key True by (auto simp: to_field_def Let_def)
        from absent_converts [OF this, of frm T] Some nil vs key True show ?thesis by (auto simp: field_norm_def)
      next
        case False
        have "\<forall>x \<in> set vs. converts sc to' frm o' T f x (elem_norm jn sc f x)"
          using vs c dc Some key True by (auto simp: field_vals_def list_all_iff)
        from array_converts [OF this] obtain xs where xs: "length xs = length vs"
          "\<forall>acc. ofold (\<lambda>x acc. obind (to_value sc to' o' f x) (\<lambda>y. Some (Inr (acc @ [y])))) vs acc = Some (Inr (acc @ xs))"
          "\<forall>acc. ofold (\<lambda>x acc. obind (from_value sc frm T f x) (\<lambda>r.
              case r of Some y \<Rightarrow> Some (Inr (acc @ [y])) | None \<Rightarrow> None)) xs acc = Some (Inr (acc @ map (elem_norm jn sc f) vs))"
          by blast
        have "field_converts sc to' frm o' T m f (Some (JArr xs)) (field_norm jn sc m f)"
          using g vs(1) key True False Some xs unfolding field_converts_def
          by (auto simp: to_field_def from_field_def own_or_undef_def js_truthy_def set_field_def field_norm_def put Let_def)
        then show ?thesis by blast
      qed
    next
      case False
      have n: "\<not> nullish v" "elem_ok mo sc f v" using ok Some key False by (auto simp: field_ok_def)
      have "elem_declared dc sc f v" using dc Some key False by (simp add: field_vals_def)
      from c [OF n(2) this] obtain x where x: "to_value sc to' o' f v = Some (Inr x)"
        "from_value sc frm T f x = Some (Inr (Some (elem_norm jn sc f v)))" "\<not> nullish x"
        by (auto simp: converts_def)
      have "field_converts sc to' frm o' T m f (Some x) (field_norm jn sc m f)"
        using g key False Some x n(1) o' unfolding field_converts_def
        by (auto simp: to_field_def from_field_def own_or_undef_def set_field_def field_norm_def put Let_def has_own_def split: option.splits)
      then show ?thesis by blast
    qed
  qed
qed

lemma no_flags_defaults: "\<not> o_arrays o' \<Longrightarrow> \<not> o_objects o' \<Longrightarrow> \<not> o_defaults o' \<Longrightarrow> to_defaults o' fds = []"
  by (simp add: to_defaults_def Let_def)

lemma message_json:
  assumes "type_wf sc T" "schema_wf sc" "list_all json_wf (t_fields T)" "list_all (\<lambda>T. list_all json_wf (t_fields T)) sc"
    and "msg_ok n sc T v" "declared n sc T v" "plain_keys v"
    and "o_bytes o' = AsString" "\<not> o_oneofs o'" "\<not> o_arrays o'" "\<not> o_objects o'" "\<not> o_defaults o'"
  shows "\<exists>d. to_object n sc o' T v = Some (Inr (JObj d)) \<and> from_object n sc T (JObj d) = Some (Inr (json_norm n sc T v))"
  using assms(1, 3, 5, 6, 7)
proof (induction n arbitrary: T v)
  case (Suc n)
  obtain m where v: "v = JObj m" using Suc.prems by (cases v) simp_all
  have one: "list_all one_default (t_fields T)" using Suc.prems(2) by (simp add: json_wf_def list_all_iff)
  show ?case
  proof (cases "t_fields T = []")
    case True
    then show ?thesis using v by (simp add: new_message_def)
  next
    case False
    let ?fs = "t_fields T" and ?jf = "field_norm (json_norm n sc) sc m"
    have "\<exists>t. field_converts sc (to_object n sc o') (from_object n sc) o' T m f t (?jf f)" if f: "f \<in> set ?fs" for f
    proof (rule field_roundtrip)
      show "field_ok (plain_ok n sc) sc m f" "plain_keys (JObj m)" "json_wf f" "list_all (elem_declared (declared n sc) sc f) (field_vals m f)"
        using Suc.prems v f field_plain_ok [of n sc m f] by (auto simp: list_all_iff)
      fix k x assume k: "f_type f = MessageType k" "plain_ok n sc (sc ! k) x" "declared n sc (sc ! k) x"
      have "k < length sc" using Suc.prems(1) f k(1) by (auto simp: type_wf_def list_all_iff field_wf_def)
      then show "\<exists>d. to_object n sc o' (sc ! k) x = Some (Inr (JObj d))
          \<and> from_object n sc (sc ! k) (JObj d) = Some (Inr (json_norm n sc (sc ! k) x))"
        using Suc.IH [of "sc ! k" x] k(2, 3) plain_ok_def type_wf_nth [OF assms(2)] assms(4) by (auto simp: list_all_length)
    qed (use assms in auto)
    then obtain t where t: "\<And>f. f \<in> set ?fs \<Longrightarrow> field_converts sc (to_object n sc o') (from_object n sc) o' T m f (t f) (?jf f)"
      by metis
    let ?d = "fold (\<lambda>f. set_field f (t f)) (sort_key f_id ?fs) []"
    have dist: "distinct (map f_name ?fs)" using Suc.prems(1) by (simp add: type_wf_def)
    then have "inj_on f_name (set ?fs)" "distinct ?fs" by (auto simp: distinct_map)
    then have dist': "distinct (map f_name (sort_key f_id ?fs))" by (simp add: distinct_map)
    have d: "prop_get ?d (f_name f) = t f" if "f \<in> set ?fs" for f
      using fold_set_field [OF dist', of f t "[]"] that by (simp split: option.splits)
    have "ofold (to_field sc (to_object n sc o') o' m) (sort_key f_id ?fs) [] = Some (Inr ?d)"
      by (rule ofold_fold) (use t in \<open>auto simp: field_converts_def\<close>)
    moreover have "sort_key f_id ?fs \<noteq> []" using False by (metis length_0_conv length_sort)
    moreover have "ofold (from_field sc (from_object n sc) T ?d) ?fs (new_message T)
        = Some (Inr (fold (\<lambda>f. set_field f (?jf f)) ?fs (new_message T)))"
      by (rule ofold_fold) (use t d in \<open>auto simp: field_converts_def\<close>)
    ultimately show ?thesis using v False one assms(10-12) by (simp add: no_flags_defaults Let_def)
  qed
qed simp

text \<open>C8: the plain object that \<open>toObject\<close> makes of a well-formed message, with bytes as base64 strings, longs and enums in
  any form, and without the options for oneofs, arrays, objects and defaults, becomes the same message again under
  \<open>fromObject\<close>: every field that has a value, and the empty arrays and maps of the constructor. The names of Object.prototype
  are excluded, and repeated enums with two names for their default, for which no converter is generated.\<close>

theorem json_roundtrip:
  assumes "type_wf sc T" "schema_wf sc" "list_all json_wf (t_fields T)" "list_all (\<lambda>T. list_all json_wf (t_fields T)) sc"
    and "msg_ok n sc T v" "declared n sc T v" "plain_keys v"
    and "o_bytes o' = AsString" "\<not> o_oneofs o'" "\<not> o_arrays o'" "\<not> o_objects o'" "\<not> o_defaults o'"
  shows "obind (to_object n sc o' T v) (from_object n sc T) = Some (Inr (json_norm n sc T v))"
  using message_json [OF assms] by auto

lemma json_roundtrip_witness:
  "obind (to_object (Suc (Suc 0)) [point] json_options point pt_value) (from_object (Suc (Suc 0)) [point] point)
   = Some (Inr (json_norm (Suc (Suc 0)) [point] point pt_value))"
proof (rule json_roundtrip)
  show "list_all json_wf (t_fields point)" "list_all (\<lambda>T. list_all json_wf (t_fields T)) [point]"
    by (simp_all add: point_def pt_field_def json_wf_def one_default_def proto_names_def js_simps)
  show "declared (Suc (Suc 0)) [point] point pt_value"
    by (simp add: pt_value_def point_def pt_field_def js_simps elem_declared_def field_vals_def in_oneof_def)
qed (use point_wf pt_value_ok pt_plain(2) in \<open>simp_all add: json_options_def\<close>)

text \<open>\<open>fromObject\<close> reads an object with \<open>low\<close> and \<open>high\<close> as an unsigned number for uint64 only: for
  fixed64 the largest value becomes -1.\<close>

lemma fixed64_object_signed:
  "from_long TFixed64 (JObj [(js ''low'', JNum 4294967295), (js ''high'', JNum 4294967295)]) = Some (Inr (Some (JNum (-1))))
   \<and> from_long TUint64 (JObj [(js ''low'', JNum 1), (js ''high'', JNum 2147483648)]) = Some (Inr (Some (JNum 9223372036854775808)))"
proof -
  have b: "bit_len (Suc 0) = 1" "bit_len 9223372036854775809 = 64" by (simp_all add: bit_len.simps)
  show ?thesis
    by (simp add: from_long_def given_def own_or_undef_def js_int_def as_integer_def js_simps to_uint32_def mk_bits_def
        to_number_def round_double_def round_nat_def b Let_def)
qed

end
