(* ===== verification/Message.thy ===== *)
theory Message
  imports Convert
begin

text \<open>
  Message objects as the classes of protobuf.js make them: the constructor, the virtual property of a oneof with
  its getter and setter, and how properties are read and assigned through the prototype.
\<close>

section \<open>Oneofs\<close>

text \<open>The members of a oneof; \<open>fieldMap["__proto__"] = 1\<close> has no effect.\<close>

definition is_member :: "jsstring list \<Rightarrow> jsstring \<Rightarrow> bool" where
  "is_member names k \<longleftrightarrow> k \<in> set names \<and> k \<noteq> js ''__proto__''"

definition own_set :: "(jsstring \<times> jsval) list \<Rightarrow> jsstring \<Rightarrow> bool" where
  "own_set m k \<longleftrightarrow> (case prop_get m k of Some v \<Rightarrow> \<not> nullish v | None \<Rightarrow> False)"

definition oneof_getter :: "jsstring list \<Rightarrow> (jsstring \<times> jsval) list \<Rightarrow> jsstring option" where
  "oneof_getter names m = find (\<lambda>k. is_member names k \<and> own_set m k) (rev (object_keys m))"

definition oneof_setter :: "jsstring list \<Rightarrow> jsval \<Rightarrow> (jsstring \<times> jsval) list \<Rightarrow> (jsstring \<times> jsval) list" where
  "oneof_setter names name m = fold (\<lambda>k m. if JStr k \<noteq> name then prop_del m k else m) names m"

section \<open>Classes and messages\<close>

text \<open>
  What \<open>Class\<close> puts on a prototype: a value for every field and an accessor for every oneof.
\<close>

record msg_class =
  cl_values :: "(jsstring \<times> jsval) list"
  cl_oneofs :: "(jsstring \<times> jsstring list) list"

text \<open>Reading and assigning a property of a message; what Object.prototype supplies is not modelled.\<close>

definition msg_get :: "msg_class \<Rightarrow> (jsstring \<times> jsval) list \<Rightarrow> jsstring \<Rightarrow> jsval" where
  "msg_get c m k =
     (case prop_get m k of
        Some v \<Rightarrow> v
      | None \<Rightarrow>
          (case prop_get (cl_oneofs c) k of
             Some names \<Rightarrow> (case oneof_getter names m of Some n \<Rightarrow> JStr n | None \<Rightarrow> JUndef)
           | None \<Rightarrow> (case prop_get (cl_values c) k of Some v \<Rightarrow> v | None \<Rightarrow> JUndef)))"

definition msg_set :: "msg_class \<Rightarrow> jsstring \<Rightarrow> jsval \<Rightarrow> (jsstring \<times> jsval) list \<Rightarrow> (jsstring \<times> jsval) list" where
  "msg_set c k v m =
     (if prop_get m k = None
      then (case prop_get (cl_oneofs c) k of Some names \<Rightarrow> oneof_setter names v m | None \<Rightarrow> prop_set m k v)
      else prop_set m k v)"

text \<open>
  \<open>new this.ctor(p)\<close>: the properties that are not null or undefined are assigned, in the order of the keys. A key that
  names a oneof reaches its setter.
\<close>

definition create_message :: "mtype \<Rightarrow> msg_class \<Rightarrow> (jsstring \<times> jsval) list \<Rightarrow> (jsstring \<times> jsval) list" where
  "create_message T c p =
     fold (\<lambda>k m. let v = the (prop_get p k) in if nullish v then m else msg_set c k v m) (object_keys p) (new_message T)"

section \<open>The accessors\<close>

lemma prop_get_setter: "prop_get (oneof_setter names x m) k = (if k \<in> set names \<and> JStr k \<noteq> x then None else prop_get m k)"
  unfolding oneof_setter_def by (induction names arbitrary: m) auto

lemma distinct_setter: "distinct (map fst m) \<Longrightarrow> distinct (map fst (oneof_setter names x m))"
  unfolding oneof_setter_def by (induction names arbitrary: m) (auto intro: prop_del_distinct)

lemma own_set_key: "own_set m k \<Longrightarrow> k \<in> set (object_keys m)"
proof -
  assume "own_set m k"
  then obtain v where "prop_get m k = Some v" by (auto simp: own_set_def split: option.splits)
  then have "k \<in> fst ` set m" using map_of_SomeD [of m k v] by force
  then show ?thesis by simp
qed

lemma getter_some: "oneof_getter names m = Some k \<Longrightarrow> is_member names k \<and> own_set m k"
  unfolding oneof_getter_def by (drule find_Some_iff [THEN iffD1]) blast

lemma getter_none: "oneof_getter names m = None \<longleftrightarrow> (\<forall>k. is_member names k \<longrightarrow> \<not> own_set m k)"
proof -
  have "oneof_getter names m = None \<longleftrightarrow> \<not> (\<exists>k \<in> set (object_keys m). is_member names k \<and> own_set m k)"
    unfolding oneof_getter_def find_None_iff set_rev by blast
  then show ?thesis using own_set_key by blast
qed

lemma getter_only:
  assumes "is_member names k" "own_set m k" "\<And>j. is_member names j \<Longrightarrow> own_set m j \<Longrightarrow> j = k"
  shows "oneof_getter names m = Some k"
proof (cases "oneof_getter names m")
  case None
  then show ?thesis using assms(1, 2) getter_none by blast
next
  case (Some j)
  then show ?thesis using getter_some [OF Some] assms(3) by blast
qed

text \<open>C27: the setter of a oneof removes every other member and nothing else, so that the getter then gives the chosen
  member if it is set; and the getter gives a member that is set, and
  nothing only if none is.\<close>

theorem oneof_accessors:
  "oneof_getter names (oneof_setter names (JStr n) m) = (if is_member names n \<and> own_set m n then Some n else None)
    \<and> (\<forall>k. prop_get (oneof_setter names (JStr n) m) k = (if k \<in> set names \<and> k \<noteq> n then None else prop_get m k))
    \<and> (case oneof_getter names m of Some k \<Rightarrow> is_member names k \<and> own_set m k | None \<Rightarrow> filter (own_set m) (filter (is_member names) names) = [])"
proof -
  have o: "own_set (oneof_setter names (JStr n) m) k = (own_set m k \<and> (k \<in> set names \<longrightarrow> k = n))" for k
    by (auto simp: own_set_def prop_get_setter)
  have "oneof_getter names (oneof_setter names (JStr n) m) = (if is_member names n \<and> own_set m n then Some n else None)"
  proof (cases "is_member names n \<and> own_set m n")
    case True
    then have "oneof_getter names (oneof_setter names (JStr n) m) = Some n" by (intro getter_only) (auto simp: o is_member_def)
    then show ?thesis using True by simp
  next
    case False
    then have "oneof_getter names (oneof_setter names (JStr n) m) = None" unfolding getter_none by (auto simp: o is_member_def)
    then show ?thesis using False by simp
  qed
  then show ?thesis using getter_some [of names m] getter_none [of names m]
    by (auto simp: prop_get_setter filter_empty_conv is_member_def split: option.splits)
qed

text \<open>
  The getter looks at the order of the keys, not at the order of the assignments: after a second assignment to the
  first member the getter still gives the other one. So it is for a message in which the wire has a member twice.
\<close>

lemma oneof_ignores_last_assignment:
  "let c = \<lparr>cl_values = [], cl_oneofs = [(js ''c'', [js ''a'', js ''b''])]\<rparr>;
       m = msg_set c (js ''a'') (JNum 3) (msg_set c (js ''b'') (JNum 2) (msg_set c (js ''a'') (JNum 1) []))
   in msg_get c m (js ''c'') = JStr (js ''b'')"
  by code_simp

lemma oneof_ignores_wire_order:
  "let T = \<lparr>t_full_name = [], t_fields = [choice_field ''a'' 1, choice_field ''b'' 2], t_group = False\<rparr>
   in case decode 9 True [] T \<lparr>r_buf = [8, 1, 16, 2, 8, 3], r_pos = 0\<rparr> None of
        Some (Inr (JObj m, r)) \<Rightarrow> prop_get m (js ''a'') = Some (JNum 3) \<and> oneof_getter [js ''a'', js ''b''] m = Some (js ''b'')
      | _ \<Rightarrow> False"
  by code_simp

end
