(* ===== verification/Tokenizer.thy ===== *)
theory Tokenizer
  imports Path Types
begin

text \<open>
  The tokenizer of protobuf.js: the closure that \<open>tokenize(source)\<close> makes, as a state that its
  functions pass on, with the regular expressions written out on code units.
\<close>

section \<open>Character classes\<close>

text \<open>\<open>\s\<close>, the delimiters, and what \<open>.\<close> does not match.\<close>

definition is_space :: "u16 \<Rightarrow> bool" where
  "is_space c \<longleftrightarrow> 9 \<le> c \<and> c \<le> 13 \<or> c = 32 \<or> c = 160 \<or> c = 5760 \<or> 8192 \<le> c \<and> c \<le> 8202 \<or> c = 8232 \<or> c = 8233
     \<or> c = 8239 \<or> c = 8287 \<or> c = 12288 \<or> c = 65279"

definition is_delim :: "u16 \<Rightarrow> bool" where
  "is_delim c \<longleftrightarrow> is_space c \<or> c \<in> {123, 125, 61, 59, 58, 91, 93, 44, 39, 34, 40, 41, 60, 62}"

definition line_end_char :: "u16 \<Rightarrow> bool" where
  "line_end_char c \<longleftrightarrow> c \<in> {10, 13, 8232, 8233}"

definition is_quote :: "u16 \<Rightarrow> bool" where
  "is_quote c \<longleftrightarrow> c = 34 \<or> c = 39"

text \<open>\<open>charAt\<close>, where the empty string is None, and \<open>substring\<close>, which swaps its arguments.\<close>

definition chr_at :: "jsstring \<Rightarrow> nat \<Rightarrow> u16 option" where
  "chr_at s i = (if i < length s then Some (s ! i) else None)"

definition js_substring :: "nat \<Rightarrow> nat \<Rightarrow> jsstring \<Rightarrow> jsstring" where
  "js_substring i j s = (if i \<le> j then take (j - i) (drop i s) else take (i - j) (drop j s))"

definition trim :: "jsstring \<Rightarrow> jsstring" where
  "trim s = rev (dropWhile is_space (rev (dropWhile is_space s)))"

section \<open>Strings\<close>

text \<open>\<open>unescape\<close> replaces every backslash and the character after it.\<close>

definition unescape_char :: "u16 \<Rightarrow> jsstring" where
  "unescape_char c =
     (if c = 92 then [92] else if c = 48 then [0] else if c = 114 then [13] else if c = 110 then [10]
      else if c = 116 then [9] else [])"

fun unescape :: "jsstring \<Rightarrow> jsstring" where
  "unescape [] = []"
| "unescape [c] = (if c = 92 then [] else [c])"
| "unescape (c # d # s) =
     (if c = 92 then if line_end_char d then unescape (d # s) else unescape_char d @ unescape s
      else c # unescape (d # s))"

text \<open>
  The regular expressions for strings: how many characters the first group matches in front of the
  closing quote \<open>q\<close>, and the first position from \<open>i\<close> on where the expression matches.
\<close>

fun scan_string :: "u16 \<Rightarrow> jsstring \<Rightarrow> nat option" where
  "scan_string q [] = None"
| "scan_string q [c] = (if c = q then Some 0 else None)"
| "scan_string q (c # d # s) =
     (if c = q then Some 0
      else if c = 92 then if line_end_char d then None else map_option (\<lambda>n. n + 2) (scan_string q s)
      else map_option Suc (scan_string q (d # s)))"

fun find_string :: "u16 \<Rightarrow> nat \<Rightarrow> jsstring \<Rightarrow> (nat \<times> nat) option" where
  "find_string q i [] = None"
| "find_string q i (c # s) =
     (if c = q then case scan_string q s of Some n \<Rightarrow> Some (i, n) | None \<Rightarrow> find_string q (Suc i) s
      else find_string q (Suc i) s)"

section \<open>The state of a tokenizer\<close>

record tokenizer =
  tk_source :: jsstring
  tk_offset :: nat
  tk_line :: nat
  tk_ctype :: "u16 option"
  tk_ctext :: "jsstring option"
  tk_cline :: nat
  tk_stack :: "jsstring list"
  tk_delim :: "u16 option"

definition tokenize :: "jsstring \<Rightarrow> tokenizer" where
  "tokenize source = \<lparr>tk_source = source, tk_offset = 0, tk_line = 1, tk_ctype = None, tk_ctext = None, tk_cline = 0,
     tk_stack = [], tk_delim = None\<rparr>"

text \<open>\<open>illegal(subject)\<close>; the token \<open>null\<close> reads "null" in a message.\<close>

definition illegal :: "jsstring \<Rightarrow> tokenizer \<Rightarrow> js_error" where
  "illegal subject s = JsError (js ''illegal '' @ subject @ js '' (line '' @ dec_digits (tk_line s) @ js '')'')"

definition token_string :: "jsstring option \<Rightarrow> jsstring" where
  "token_string t = (case t of None \<Rightarrow> js ''null'' | Some w \<Rightarrow> w)"

definition tk_char :: "tokenizer \<Rightarrow> u16 option" where
  "tk_char s = chr_at (tk_source s) (tk_offset s)"

text \<open>\<open>push(token)\<close> appends to the array that \<open>next\<close> takes its first element from.\<close>

definition push_token :: "jsstring \<Rightarrow> tokenizer \<Rightarrow> tokenizer" where
  "push_token t s = s\<lparr>tk_stack := tk_stack s @ [t]\<rparr>"

text \<open>\<open>readString()\<close> starts to search at the opening quote.\<close>

definition tk_read_string :: "u16 \<Rightarrow> tokenizer \<Rightarrow> (tokenizer \<times> jsstring) res" where
  "tk_read_string q s =
     (case find_string q (tk_offset s - 1) (drop (tk_offset s - 1) (tk_source s)) of
        None \<Rightarrow> Inl (illegal (js ''string'') s)
      | Some (i, n) \<Rightarrow>
          Inr (push_token [q] (s\<lparr>tk_offset := i + n + 2, tk_delim := None\<rparr>),
               unescape (js_substring (i + 1) (i + 1 + n) (tk_source s))))"

section \<open>Comments\<close>

text \<open>\<open>lines[i].replace(setCommentRe, "").trim()\<close>, for \<open>/^ *[*/]+ */\<close>.\<close>

definition comment_line :: "jsstring \<Rightarrow> jsstring" where
  "comment_line l =
     (let r = dropWhile (\<lambda>c. c = 32) l
      in trim (if r \<noteq> [] \<and> hd r \<in> {42, 47} then dropWhile (\<lambda>c. c = 32) (dropWhile (\<lambda>c. c \<in> {42, 47}) r) else l))"

definition set_comment :: "nat \<Rightarrow> nat \<Rightarrow> tokenizer \<Rightarrow> tokenizer" where
  "set_comment start end' s =
     s\<lparr>tk_ctype := chr_at (tk_source s) start, tk_cline := tk_line s,
       tk_ctext := Some (trim (join_with [10] (map comment_line (split_on 10 (js_substring (start + 1) end' (tk_source s))))))\<rparr>"

text \<open>
  The loop over white space, which stops at the end of the source; the end of a line comment, None
  when there is no newline; the end of a block comment with the line it is on, or the line
  on which the source ends.
\<close>

function skip_space :: "tokenizer \<Rightarrow> tokenizer \<times> bool" where
  "skip_space s =
     (case tk_char s of
        None \<Rightarrow> (s, False)
      | Some c \<Rightarrow>
          if is_space c then
            let s' = s\<lparr>tk_line := (if c = 10 then tk_line s + 1 else tk_line s), tk_offset := tk_offset s + 1\<rparr>
            in if tk_offset s' = length (tk_source s) then (s', True) else skip_space s'
          else (s, False))"
  by pat_completeness auto
termination
  by (relation "measure (\<lambda>s. length (tk_source s) - tk_offset s)") (auto simp: tk_char_def chr_at_def split: if_splits)

declare skip_space.simps [simp del]

function line_comment_end :: "jsstring \<Rightarrow> nat \<Rightarrow> nat option" where
  "line_comment_end src i =
     (if chr_at src (i + 1) = Some 10 then Some (i + 1)
      else if i + 1 \<ge> length src then None
      else line_comment_end src (i + 1))"
  by pat_completeness auto
termination
  by (relation "measure (\<lambda>(src, i). length src - i)") auto

declare line_comment_end.simps [simp del]

function block_comment_end :: "jsstring \<Rightarrow> nat \<Rightarrow> nat \<Rightarrow> nat + nat \<times> nat" where
  "block_comment_end src line i =
     (let line = (if chr_at src i = Some 10 then line + 1 else line)
      in if i + 1 \<ge> length src then Inl line
         else if chr_at src i = Some 42 \<and> chr_at src (i + 1) = Some 47 then Inr (line, i + 1)
         else block_comment_end src line (i + 1))"
  by pat_completeness auto
termination
  by (relation "measure (\<lambda>(src, line, i). length src - i)") auto

declare block_comment_end.simps [simp del]

section \<open>Tokens\<close>

text \<open>What the do-while loop of \<open>next\<close> stops at: the end, a slash that is a token, or another token.\<close>

datatype stop = AtEnd | AtSlash | AtToken

lemma skip_space_source: "tk_source (fst (skip_space s)) = tk_source s"
  by (induction s rule: skip_space.induct) (subst skip_space.simps, simp add: Let_def split: option.splits)

lemma skip_space_offset: "tk_offset s \<le> tk_offset (fst (skip_space s))"
  by (induction s rule: skip_space.induct) (subst skip_space.simps, force simp: Let_def split: option.splits)

lemma skip_space_from: "(s, b) = skip_space s0 \<Longrightarrow> tk_source s = tk_source s0 \<and> tk_offset s0 \<le> tk_offset s"
  by (metis fst_conv skip_space_source skip_space_offset)

lemma set_comment_keeps [simp]:
  "tk_source (set_comment i j s) = tk_source s" "tk_offset (set_comment i j s) = tk_offset s"
  "tk_line (set_comment i j s) = tk_line s" "tk_stack (set_comment i j s) = tk_stack s"
  "tk_delim (set_comment i j s) = tk_delim s"
  by (simp_all add: set_comment_def)

lemma line_comment_end_gt: "line_comment_end src i = Some j \<Longrightarrow> i < j \<and> j < length src"
proof (induction src i rule: line_comment_end.induct)
  case (1 src i)
  from 1(2) show ?case
    by (subst (asm) line_comment_end.simps) (use 1(1) in \<open>auto split: if_splits simp: chr_at_def dest: Suc_lessD\<close>)
qed

lemma block_comment_end_gt: "block_comment_end src line i = Inr (l, j) \<Longrightarrow> i < j \<and> j < length src"
proof (induction src line i rule: block_comment_end.induct)
  case (1 src line i)
  from 1(2) show ?case
    by (subst (asm) block_comment_end.simps) (use 1(1) in \<open>auto split: if_splits simp: Let_def dest: Suc_lessD\<close>)
qed

function skip_blank :: "tokenizer \<Rightarrow> (tokenizer \<times> stop) res" where
  "skip_blank s0 =
     (if tk_offset s0 = length (tk_source s0) then Inr (s0, AtEnd)
      else case skip_space s0 of (s, at_end) \<Rightarrow>
        if at_end then Inr (s, AtEnd)
        else if tk_char s \<noteq> Some 47 then Inr (s, AtToken)
        else let s = s\<lparr>tk_offset := tk_offset s + 1\<rparr>; src = tk_source s; start = tk_offset s + 1 in
          if tk_offset s = length src then Inl (illegal (js ''comment'') s)
          else if tk_char s = Some 47 then
            (case line_comment_end src (tk_offset s) of
               None \<Rightarrow> Inr (s\<lparr>tk_offset := length src\<rparr>, AtEnd)
             | Some j \<Rightarrow>
                 let s = s\<lparr>tk_offset := j + 1\<rparr>;
                     s = (if chr_at src start = Some 47 then set_comment start j s else s)
                 in skip_blank (s\<lparr>tk_line := tk_line s + 1\<rparr>))
          else if tk_char s = Some 42 then
            (case block_comment_end src (tk_line s) (tk_offset s) of
               Inl line \<Rightarrow> Inl (illegal (js ''comment'') (s\<lparr>tk_line := line\<rparr>))
             | Inr (line, j) \<Rightarrow>
                 let s = s\<lparr>tk_line := line, tk_offset := j + 1\<rparr>
                 in skip_blank (if chr_at src start = Some 42 then set_comment start (j - 1) s else s))
          else Inr (s, AtSlash))"
  by pat_completeness auto
termination
  by (relation "measure (\<lambda>s. length (tk_source s) - tk_offset s)")
    (auto dest!: skip_space_from line_comment_end_gt block_comment_end_gt)

declare skip_blank.simps [simp del]

text \<open>The end of a token that is not a delimiter.\<close>

function word_end :: "jsstring \<Rightarrow> nat \<Rightarrow> nat" where
  "word_end src e = (if e < length src \<and> \<not> is_delim (src ! e) then word_end src (e + 1) else e)"
  by pat_completeness auto
termination
  by (relation "measure (\<lambda>(src, e). length src - e)") auto

declare word_end.simps [simp del]

definition read_token :: "tokenizer \<Rightarrow> tokenizer \<times> jsstring" where
  "read_token s =
     (let src = tk_source s; i = tk_offset s;
          e = (if (case chr_at src i of Some c \<Rightarrow> is_delim c | None \<Rightarrow> False) then i + 1 else word_end src (i + 1));
          token = js_substring i e src;
          s = s\<lparr>tk_offset := e\<rparr>
      in (case token of
            [c] \<Rightarrow> if is_quote c then s\<lparr>tk_delim := Some c\<rparr> else s
          | _ \<Rightarrow> s, token))"

text \<open>\<open>next()\<close>: None is null.\<close>

definition next_token :: "tokenizer \<Rightarrow> (tokenizer \<times> jsstring option) res" where
  "next_token s =
     (case tk_stack s of
        t # ts \<Rightarrow> Inr (s\<lparr>tk_stack := ts\<rparr>, Some t)
      | [] \<Rightarrow>
          (case tk_delim s of
             Some q \<Rightarrow> bind_res (tk_read_string q s) (\<lambda>(s, t). Inr (s, Some t))
           | None \<Rightarrow>
               bind_res (skip_blank s) (\<lambda>(s, stop).
                 case stop of
                   AtEnd \<Rightarrow> Inr (s, None)
                 | AtSlash \<Rightarrow> Inr (s, Some [47])
                 | AtToken \<Rightarrow> (case read_token s of (s, t) \<Rightarrow> Inr (s, Some t)))))"

text \<open>\<open>peek()\<close> and \<open>skip(expected, optional)\<close>.\<close>

definition peek_token :: "tokenizer \<Rightarrow> (tokenizer \<times> jsstring option) res" where
  "peek_token s =
     (case tk_stack s of
        t # ts \<Rightarrow> Inr (s, Some t)
      | [] \<Rightarrow>
          bind_res (next_token s) (\<lambda>(s, r).
            case r of
              None \<Rightarrow> Inr (s, None)
            | Some t \<Rightarrow> (let s = push_token t s in Inr (s, Some (hd (tk_stack s))))))"

definition skip_token :: "jsstring \<Rightarrow> bool \<Rightarrow> tokenizer \<Rightarrow> (tokenizer \<times> bool) res" where
  "skip_token expected optional s =
     bind_res (peek_token s) (\<lambda>(s, actual).
       if actual = Some expected then bind_res (next_token s) (\<lambda>(s, _). Inr (s, True))
       else if \<not> optional then
         Inl (illegal (js ''token '' @ [39] @ token_string actual @ [39] @ js '', '' @ [39] @ expected @ [39] @ js '' expected'') s)
       else Inr (s, False))"

text \<open>\<open>cmnt(trailingLine)\<close>: an empty text counts as none.\<close>

definition some_text :: "bool \<Rightarrow> jsstring option \<Rightarrow> jsstring option" where
  "some_text ok t = (if ok \<and> t \<noteq> Some [] then t else None)"

definition take_comment :: "nat option \<Rightarrow> tokenizer \<Rightarrow> (tokenizer \<times> jsstring option) res" where
  "take_comment trailing s =
     bind_res
       (case trailing of
          None \<Rightarrow> Inr (s, some_text (tk_cline s = tk_line s - 1) (tk_ctext s))
        | Some l \<Rightarrow>
            bind_res (if tk_ctext s = None \<or> tk_ctext s = Some [] then bind_res (peek_token s) (\<lambda>(s, _). Inr s) else Inr s)
              (\<lambda>s. Inr (s, some_text (tk_cline s = l \<and> tk_ctype s = Some 47) (tk_ctext s))))
       (\<lambda>(s, ret). Inr (s\<lparr>tk_ctype := None, tk_ctext := None, tk_cline := 0\<rparr>, ret))"

end
