(* ===== verification/TokenProps.thy ===== *)
theory TokenProps
  imports Tokenizer
begin

text \<open>
  Properties of the tokenizer: every source is read in finitely many steps, a source that is laid out
  from tokens, white space and comments is read back as its tokens, and lines are counted.
\<close>

section \<open>Reading a whole source\<close>

fun lex :: "nat \<Rightarrow> tokenizer \<Rightarrow> jsstring list res option" where
  "lex 0 s = None"
| "lex (Suc n) s =
     (case next_token s of
        Inl e \<Rightarrow> Some (Inl e)
      | Inr (s, None) \<Rightarrow> Some (Inr [])
      | Inr (s, Some t) \<Rightarrow> map_option (\<lambda>r. bind_res r (\<lambda>ts. Inr (t # ts))) (lex n s))"

definition tk_ok :: "tokenizer \<Rightarrow> bool" where
  "tk_ok s \<longleftrightarrow> tk_offset s \<le> length (tk_source s)"

definition tk_size :: "tokenizer \<Rightarrow> nat" where
  "tk_size s = 2 * (length (tk_source s) - tk_offset s) + length (tk_stack s)"

lemma tokenize_ok: "tk_ok (tokenize src)" "tk_size (tokenize src) = 2 * length src"
  by (simp_all add: tk_ok_def tk_size_def tokenize_def)

definition advance :: "u16 \<Rightarrow> tokenizer \<Rightarrow> tokenizer" where
  "advance c s = s\<lparr>tk_line := (if c = 10 then tk_line s + 1 else tk_line s), tk_offset := tk_offset s + 1\<rparr>"

lemma advance_sel [simp]:
  "tk_source (advance c s) = tk_source s" "tk_offset (advance c s) = tk_offset s + 1" "tk_stack (advance c s) = tk_stack s"
  "tk_delim (advance c s) = tk_delim s" "tk_line (advance c s) = (if c = 10 then tk_line s + 1 else tk_line s)"
  by (simp_all add: advance_def)

lemma skip_space_rec:
  "skip_space s =
     (case tk_char s of
        None \<Rightarrow> (s, False)
      | Some c \<Rightarrow> if is_space c then if tk_offset s + 1 = length (tk_source s) then (advance c s, True) else skip_space (advance c s)
                  else (s, False))"
  by (subst skip_space.simps) (simp add: Let_def advance_def split: option.splits)

lemma skip_space_induct [case_names stop end' step]:
  assumes "\<And>s. (\<And>c. tk_char s = Some c \<Longrightarrow> \<not> is_space c) \<Longrightarrow> P s (s, False)"
    and "\<And>s c. tk_char s = Some c \<Longrightarrow> is_space c \<Longrightarrow> tk_offset s + 1 = length (tk_source s) \<Longrightarrow> P s (advance c s, True)"
    and "\<And>s c. tk_char s = Some c \<Longrightarrow> is_space c \<Longrightarrow> tk_offset s + 1 < length (tk_source s) \<Longrightarrow>
      P (advance c s) (skip_space (advance c s)) \<Longrightarrow> P s (skip_space (advance c s))"
  shows "P s (skip_space s)"
proof (induction "length (tk_source s) - tk_offset s" arbitrary: s rule: less_induct)
  case less
  show ?case
  proof (cases "\<exists>c. tk_char s = Some c \<and> is_space c")
    case False
    then have "skip_space s = (s, False)" by (subst skip_space_rec) (auto split: option.splits)
    then show ?thesis using assms(1) [of s] False by auto
  next
    case True
    then obtain c where c: "tk_char s = Some c" "is_space c" by blast
    then have o': "tk_offset s < length (tk_source s)" by (simp add: tk_char_def chr_at_def split: if_splits)
    show ?thesis
    proof (cases "tk_offset s + 1 = length (tk_source s)")
      case True
      then show ?thesis using assms(2) [OF c True] c by (subst skip_space_rec) simp
    next
      case False
      then have "tk_offset s + 1 < length (tk_source s)" using o' by simp
      moreover have "P (advance c s) (skip_space (advance c s))" by (rule less) (use o' in simp)
      ultimately show ?thesis using assms(3) [OF c] c False by (subst skip_space_rec) simp
    qed
  qed
qed

lemma skip_space_spec:
  assumes "skip_space s = (s', b)" "tk_ok s"
  shows "tk_ok s' \<and> tk_stack s' = tk_stack s \<and> tk_delim s' = tk_delim s \<and> tk_source s' = tk_source s \<and> tk_offset s \<le> tk_offset s'
    \<and> (b \<longrightarrow> tk_offset s' = length (tk_source s))
    \<and> (\<not> b \<longrightarrow> (tk_offset s < length (tk_source s) \<longrightarrow> tk_offset s' < length (tk_source s)) \<and> (\<forall>c. tk_char s' = Some c \<longrightarrow> \<not> is_space c))"
proof -
  have "tk_ok s \<longrightarrow> (case skip_space s of (s', b) \<Rightarrow>
      tk_ok s' \<and> tk_stack s' = tk_stack s \<and> tk_delim s' = tk_delim s \<and> tk_source s' = tk_source s \<and> tk_offset s \<le> tk_offset s'
      \<and> (b \<longrightarrow> tk_offset s' = length (tk_source s))
      \<and> (\<not> b \<longrightarrow> (tk_offset s < length (tk_source s) \<longrightarrow> tk_offset s' < length (tk_source s)) \<and> (\<forall>c. tk_char s' = Some c \<longrightarrow> \<not> is_space c)))"
    by (induction s rule: skip_space_induct) (auto simp: tk_ok_def)
  then show ?thesis using assms by simp
qed

section \<open>One round of the loop over white space and comments\<close>

definition blank_step :: "tokenizer \<Rightarrow> (tokenizer \<times> stop) res + tokenizer" where
  "blank_step s0 =
     (if tk_offset s0 = length (tk_source s0) then Inl (Inr (s0, AtEnd))
      else case skip_space s0 of (s, at_end) \<Rightarrow>
        if at_end then Inl (Inr (s, AtEnd))
        else if tk_char s \<noteq> Some 47 then Inl (Inr (s, AtToken))
        else let s = s\<lparr>tk_offset := tk_offset s + 1\<rparr>; src = tk_source s; start = tk_offset s + 1 in
          if tk_offset s = length src then Inl (Inl (illegal (js ''comment'') s))
          else if tk_char s = Some 47 then
            (case line_comment_end src (tk_offset s) of
               None \<Rightarrow> Inl (Inr (s\<lparr>tk_offset := length src\<rparr>, AtEnd))
             | Some j \<Rightarrow>
                 let s = s\<lparr>tk_offset := j + 1\<rparr>;
                     s = (if chr_at src start = Some 47 then set_comment start j s else s)
                 in Inr (s\<lparr>tk_line := tk_line s + 1\<rparr>))
          else if tk_char s = Some 42 then
            (case block_comment_end src (tk_line s) (tk_offset s) of
               Inl line \<Rightarrow> Inl (Inl (illegal (js ''comment'') (s\<lparr>tk_line := line\<rparr>)))
             | Inr (line, j) \<Rightarrow>
                 let s = s\<lparr>tk_line := line, tk_offset := j + 1\<rparr>
                 in Inr (if chr_at src start = Some 42 then set_comment start (j - 1) s else s))
          else Inl (Inr (s, AtSlash)))"

lemma skip_blank_rec: "skip_blank s = (case blank_step s of Inl r \<Rightarrow> r | Inr s' \<Rightarrow> skip_blank s')"
  by (subst skip_blank.simps) (simp add: blank_step_def Let_def split: prod.splits option.splits sum.splits)

lemma blank_step_again:
  assumes "blank_step s = Inr s'" "tk_ok s"
  shows "tk_ok s' \<and> tk_offset s < tk_offset s' \<and> tk_source s' = tk_source s \<and> tk_stack s' = tk_stack s \<and> tk_delim s' = tk_delim s"
proof -
  obtain t b where t: "skip_space s = (t, b)" by (cases "skip_space s")
  show ?thesis using assms skip_space_spec [OF t assms(2)] t
    by (auto simp: blank_step_def Let_def tk_ok_def split: if_splits option.splits sum.splits
        dest!: line_comment_end_gt block_comment_end_gt)
qed

lemma blank_step_stop:
  assumes "blank_step s = Inl (Inr (s', r))" "tk_ok s"
  shows "tk_ok s' \<and> tk_offset s \<le> tk_offset s' \<and> tk_source s' = tk_source s \<and> tk_stack s' = tk_stack s \<and> tk_delim s' = tk_delim s
    \<and> (r = AtSlash \<longrightarrow> tk_offset s < tk_offset s')
    \<and> (r = AtToken \<longrightarrow> (\<exists>c. tk_char s' = Some c \<and> \<not> is_space c \<and> c \<noteq> 47))"
proof -
  obtain t b where t: "skip_space s = (t, b)" by (cases "skip_space s")
  show ?thesis using assms skip_space_spec [OF t assms(2)] t
    by (auto simp: blank_step_def Let_def tk_ok_def tk_char_def chr_at_def split: if_splits option.splits sum.splits)
qed

lemma skip_blank_spec:
  assumes "skip_blank s = Inr (s', r)" "tk_ok s"
  shows "tk_ok s' \<and> tk_offset s \<le> tk_offset s' \<and> tk_source s' = tk_source s \<and> tk_stack s' = tk_stack s \<and> tk_delim s' = tk_delim s
    \<and> (r = AtSlash \<longrightarrow> tk_offset s < tk_offset s')
    \<and> (r = AtToken \<longrightarrow> (\<exists>c. tk_char s' = Some c \<and> \<not> is_space c \<and> c \<noteq> 47))"
  using assms
proof (induction "length (tk_source s) - tk_offset s" arbitrary: s rule: less_induct)
  case less
  show ?case
  proof (cases "blank_step s")
    case (Inl q)
    then have "blank_step s = Inl (Inr (s', r))" using less.prems(1) skip_blank_rec [of s] by simp
    from blank_step_stop [OF this less.prems(2)] show ?thesis .
  next
    case (Inr t)
    from blank_step_again [OF this less.prems(2)]
    have t: "tk_ok t" "tk_offset s < tk_offset t" "tk_source t = tk_source s" "tk_stack t = tk_stack s" "tk_delim t = tk_delim s"
      by simp_all
    have "skip_blank t = Inr (s', r)" using less.prems(1) Inr skip_blank_rec [of s] by simp
    then have "tk_ok s' \<and> tk_offset t \<le> tk_offset s' \<and> tk_source s' = tk_source t \<and> tk_stack s' = tk_stack t \<and> tk_delim s' = tk_delim t
        \<and> (r = AtSlash \<longrightarrow> tk_offset t < tk_offset s')
        \<and> (r = AtToken \<longrightarrow> (\<exists>c. tk_char s' = Some c \<and> \<not> is_space c \<and> c \<noteq> 47))"
      by (intro less.hyps) (use t in \<open>auto simp: tk_ok_def\<close>)
    then show ?thesis using t by auto
  qed
qed

lemma word_end_ge: "e \<le> word_end src e \<and> (e \<le> length src \<longrightarrow> word_end src e \<le> length src)"
  by (induction src e rule: word_end.induct) (subst (1 2) word_end.simps, auto)

lemma find_string_spec: "find_string q i s = Some (j, n) \<Longrightarrow> i \<le> j \<and> j + n + 2 \<le> i + length s"
proof -
  have n: "scan_string q s = Some n \<Longrightarrow> n < length s" for q s n
    by (induction q s arbitrary: n rule: scan_string.induct) (auto split: if_splits)
  show "find_string q i s = Some (j, n) \<Longrightarrow> ?thesis"
  proof (induction q i s rule: find_string.induct)
    case (2 q i c s)
    show ?case
    proof (cases "c = q \<and> scan_string q s \<noteq> None")
      case True
      then show ?thesis using 2(3) by (auto simp: Suc_le_eq dest: n)
    next
      case False
      then have "find_string q (Suc i) s = Some (j, n)" using 2(3) by (auto split: if_splits)
      then have "Suc i \<le> j \<and> j + n + 2 \<le> Suc i + length s" using 2(1, 2) False by auto
      then show ?thesis by simp
    qed
  qed simp
qed

lemma read_token_spec:
  assumes "read_token s = (s', t)" "tk_offset s < length (tk_source s)"
  shows "tk_ok s'" "tk_offset s < tk_offset s'" "tk_source s' = tk_source s" "tk_stack s' = tk_stack s"
  using assms word_end_ge [of "tk_offset s + 1" "tk_source s"]
  by (auto simp: read_token_def Let_def tk_ok_def chr_at_def split: if_splits list.splits)

text \<open>Every token that is returned makes the rest smaller.\<close>

lemma next_token_spec:
  assumes "next_token s = Inr (s', t)" "tk_ok s"
  shows "tk_ok s' \<and> tk_source s' = tk_source s \<and> (t \<noteq> None \<longrightarrow> tk_size s' < tk_size s)"
proof (cases "tk_stack s")
  case (Cons u ts)
  then show ?thesis using assms by (auto simp: next_token_def tk_ok_def tk_size_def)
next
  case Nil
  show ?thesis
  proof (cases "tk_delim s")
    case (Some q)
    then show ?thesis using assms Nil find_string_spec [of q "tk_offset s - 1" "drop (tk_offset s - 1) (tk_source s)"]
      by (fastforce simp: next_token_def tk_read_string_def push_token_def tk_ok_def tk_size_def split: option.splits)
  next
    case None
    then obtain u r where u: "skip_blank s = Inr (u, r)"
      using assms Nil by (auto simp: next_token_def bind_res_eq_Inr)
    note k = skip_blank_spec [OF u assms(2)]
    show ?thesis
    proof (cases r)
      case AtToken
      then have "tk_offset u < length (tk_source u)" using k by (auto simp: tk_char_def chr_at_def split: if_splits)
      obtain v w where v: "read_token u = (v, w)" by (cases "read_token u")
      note m = read_token_spec [OF v \<open>tk_offset u < length (tk_source u)\<close>]
      have "s' = v" "t = Some w" using assms(1) Nil None u AtToken v by (simp_all add: next_token_def)
      then show ?thesis using m k Nil assms(2) by (auto simp: tk_size_def tk_ok_def)
    qed (use assms Nil None u k in \<open>auto simp: next_token_def tk_size_def tk_ok_def\<close>)
  qed
qed

text \<open>C24: reading a source comes to an end: after at most twice as many tokens as the source has characters
  the tokenizer returns null or throws.\<close>

theorem lex_ends:
  assumes "2 * length src < n"
  shows "\<exists>r. lex n (tokenize src) = Some r"
proof -
  have "tk_ok s \<Longrightarrow> tk_size s < n \<Longrightarrow> \<exists>r. lex n s = Some r" for s
  proof (induction n arbitrary: s)
    case (Suc n)
    show ?case
    proof (cases "next_token s")
      case (Inr p)
      obtain s' t where p: "p = (s', t)" by (cases p)
      note k = next_token_spec [OF Inr [unfolded p] Suc.prems(1)]
      show ?thesis
      proof (cases t)
        case (Some w)
        then have "tk_ok s'" "tk_size s' < n" using k Suc.prems(2) by simp_all
        from Suc.IH [OF this] show ?thesis using Inr p Some by auto
      qed (use Inr p in simp)
    qed simp
  qed simp
  then show ?thesis using tokenize_ok assms by simp
qed

lemma lex_ends_witness: "\<exists>r. lex 5 (tokenize [47, 34]) = Some r"
  by (rule lex_ends) simp

section \<open>Sources that are laid out from tokens\<close>

text \<open>White space and comments. A block comment must not contain what the tokenizer takes for its end.\<close>

datatype gap = Blank u16 | LineComment jsstring | BlockComment jsstring

fun no_close :: "jsstring \<Rightarrow> bool" where
  "no_close (c # d # s) \<longleftrightarrow> \<not> (c = 42 \<and> d = 47) \<and> no_close (d # s)"
| "no_close _ \<longleftrightarrow> True"

fun print_gap :: "gap \<Rightarrow> jsstring" where
  "print_gap (Blank c) = [c]"
| "print_gap (LineComment t) = [47, 47] @ t @ [10]"
| "print_gap (BlockComment t) = [47, 42] @ t @ [42, 47]"

fun gap_ok :: "gap \<Rightarrow> bool" where
  "gap_ok (Blank c) \<longleftrightarrow> is_space c"
| "gap_ok (LineComment t) \<longleftrightarrow> 10 \<notin> set t"
| "gap_ok (BlockComment t) \<longleftrightarrow> no_close (42 # t)"

text \<open>Words, punctuation and quoted strings, and the tokens that they are read as.\<close>

datatype item = Word jsstring | Punct u16 | Quoted u16 jsstring

definition escape_char :: "u16 \<Rightarrow> jsstring" where
  "escape_char c =
     (if c = 92 then [92, 92] else if c = 0 then [92, 48] else if c = 13 then [92, 114]
      else if c = 10 then [92, 110] else if c = 9 then [92, 116] else [c])"

fun print_item :: "item \<Rightarrow> jsstring" where
  "print_item (Word w) = w"
| "print_item (Punct c) = [c]"
| "print_item (Quoted q t) = [q] @ concat (map escape_char t) @ [q]"

fun item_tokens :: "item \<Rightarrow> jsstring list" where
  "item_tokens (Word w) = [w]"
| "item_tokens (Punct c) = [[c]]"
| "item_tokens (Quoted q t) = [[q], t, [q]]"

fun item_ok :: "item \<Rightarrow> bool" where
  "item_ok (Word w) \<longleftrightarrow> w \<noteq> [] \<and> hd w \<noteq> 47 \<and> list_all (\<lambda>c. \<not> is_delim c) w"
| "item_ok (Punct c) \<longleftrightarrow> is_delim c \<and> \<not> is_space c \<and> \<not> is_quote c"
| "item_ok (Quoted q t) \<longleftrightarrow> is_quote q \<and> q \<notin> set t"

definition print_layout :: "(item \<times> gap list) list \<Rightarrow> jsstring" where
  "print_layout l = concat (map (\<lambda>(i, gs). print_item i @ concat (map print_gap gs)) l)"

text \<open>A word is followed by white space, by another kind of token, or by the end.\<close>

fun layout_ok :: "(item \<times> gap list) list \<Rightarrow> bool" where
  "layout_ok [] \<longleftrightarrow> True"
| "layout_ok ((i, gs) # l) \<longleftrightarrow>
     item_ok i \<and> list_all gap_ok gs \<and> layout_ok l
     \<and> (case (i, gs, l) of
          (Word _, [], (Word _, _) # _) \<Rightarrow> False
        | (Word _, LineComment _ # _, _) \<Rightarrow> False
        | (Word _, BlockComment _ # _, _) \<Rightarrow> False
        | _ \<Rightarrow> True)"

lemma drop_eq_Cons: "drop i xs = y # ys \<Longrightarrow> i < length xs \<and> xs ! i = y \<and> drop (Suc i) xs = ys"
proof (induction xs arbitrary: i)
  case (Cons x xs)
  then show ?case by (cases i) auto
qed simp

lemma drop_eq_append: "drop i xs = ys @ zs \<Longrightarrow> drop (i + length ys) xs = zs"
  by (metis add.commute append_eq_conv_conj drop_drop)

definition at_rest :: "tokenizer \<Rightarrow> jsstring \<Rightarrow> bool" where
  "at_rest s r \<longleftrightarrow> tk_ok s \<and> tk_stack s = [] \<and> tk_delim s = None \<and> drop (tk_offset s) (tk_source s) = r"

lemma at_rest_chr: "at_rest s r \<Longrightarrow> chr_at (tk_source s) (tk_offset s + k) = chr_at r k"
  by (auto simp: at_rest_def chr_at_def tk_ok_def)

lemma at_rest_cons: "at_rest s (c # r) \<Longrightarrow> tk_char s = Some c \<and> tk_offset s < length (tk_source s) \<and> tk_source s ! tk_offset s = c"
  by (auto simp: at_rest_def tk_char_def chr_at_def dest: drop_eq_Cons)

lemma at_rest_length: "at_rest s r \<Longrightarrow> length (tk_source s) = tk_offset s + length r"
  by (auto simp: at_rest_def tk_ok_def)

lemma at_rest_move:
  assumes "at_rest s (xs @ r)" "tk_source s' = tk_source s" "tk_offset s' = tk_offset s + length xs" "tk_stack s' = []" "tk_delim s' = None"
  shows "at_rest s' r"
proof -
  have "drop (tk_offset s') (tk_source s') = r" using assms drop_eq_append [of "tk_offset s" "tk_source s" xs r] by (simp add: at_rest_def)
  then show ?thesis using assms at_rest_length [OF assms(1)] by (simp add: at_rest_def tk_ok_def)
qed

lemma line_comment_end_at:
  assumes "drop (i + 1) src = xs @ 10 # r" "10 \<notin> set xs"
  shows "line_comment_end src i = Some (i + 1 + length xs)"
  using assms
proof (induction xs arbitrary: i)
  case Nil
  then have "chr_at src (i + 1) = Some 10" using drop_eq_Cons [of "i + 1" src] by (auto simp: chr_at_def)
  then show ?case by (subst line_comment_end.simps) simp
next
  case (Cons x xs)
  have l: "i + 1 < length src" and c: "src ! (i + 1) = x" and d: "drop (i + 1 + 1) src = xs @ 10 # r"
    using drop_eq_Cons [of "i + 1" src] Cons.prems(1) by auto
  have "line_comment_end src i = line_comment_end src (i + 1)"
    using l c Cons.prems(2) by (subst line_comment_end.simps) (auto simp: chr_at_def)
  then show ?case using Cons.IH [OF d] Cons.prems(2) by simp
qed

lemma block_comment_end_at:
  assumes "drop i src = c # xs @ 42 # 47 # r" "no_close (c # xs)"
  shows "\<exists>l. block_comment_end src line i = Inr (l, i + length xs + 2)"
  using assms
proof (induction xs arbitrary: i c line)
  case Nil
  have c: "src ! i = c" and d: "drop (i + 1) src = 42 # 47 # r" using drop_eq_Cons [of i src] Nil by auto
  have l: "i + 2 < length src" "src ! (i + 1) = 42" "src ! (i + 2) = 47"
    using drop_eq_Cons [OF d] drop_eq_Cons [of "i + 2" src 47 r] by auto
  have "\<exists>l. block_comment_end src line' (i + 1) = Inr (l, i + 2)" for line'
    using l c by (subst block_comment_end.simps) (simp add: chr_at_def Let_def)
  then show ?case using l c by (subst block_comment_end.simps) (simp add: chr_at_def Let_def)
next
  case (Cons x xs)
  have c: "src ! i = c" and d: "drop (i + 1) src = x # xs @ 42 # 47 # r" using drop_eq_Cons [of i src] Cons.prems(1) by auto
  have l: "i + 1 < length src" "src ! (i + 1) = x" using drop_eq_Cons [OF d] by auto
  have "\<exists>l. block_comment_end src line' (i + 1) = Inr (l, i + 1 + length xs + 2)" for line'
    by (rule Cons.IH [OF d]) (use Cons.prems(2) in simp)
  then show ?case using l c Cons.prems(2) by (subst block_comment_end.simps) (simp add: chr_at_def Let_def)
qed

lemma slash_no_space: "\<not> is_space 47"
  by (simp add: is_space_def)

lemma skip_gap:
  assumes "at_rest s (print_gap g @ r)" "gap_ok g"
  shows "\<exists>s'. at_rest s' r \<and> tk_source s' = tk_source s \<and> skip_blank s = skip_blank s'"
proof (cases g)
  case (Blank c)
  have a: "tk_char s = Some c" "tk_offset s < length (tk_source s)" using at_rest_cons assms(1) Blank by simp_all
  have m: "at_rest (advance c s) r" by (rule at_rest_move [OF assms(1)]) (use Blank assms(1) in \<open>simp_all add: at_rest_def\<close>)
  have "skip_blank s = skip_blank (advance c s)"
  proof (cases "tk_offset s + 1 = length (tk_source s)")
    case True
    have "blank_step s = Inl (Inr (advance c s, AtEnd))"
      using a True assms(2) Blank by (subst blank_step_def, subst skip_space_rec) simp
    moreover have "blank_step (advance c s) = Inl (Inr (advance c s, AtEnd))" using True by (simp add: blank_step_def)
    ultimately show ?thesis using skip_blank_rec [of s] skip_blank_rec [of "advance c s"] by simp
  next
    case False
    have "skip_space s = skip_space (advance c s)" using a False assms(2) Blank by (subst skip_space_rec) simp
    then have "blank_step s = blank_step (advance c s)" using a False by (simp add: blank_step_def)
    then show ?thesis using skip_blank_rec [of s] skip_blank_rec [of "advance c s"] by simp
  qed
  then show ?thesis using m by (intro exI [of _ "advance c s"]) simp
next
  case (LineComment t)
  let ?i = "tk_offset s"
  have p: "at_rest s (47 # 47 # t @ 10 # r)" using assms(1) LineComment by simp
  have a: "tk_char s = Some 47" "?i < length (tk_source s)" using at_rest_cons [OF p] by simp_all
  have b: "chr_at (tk_source s) (?i + 1) = Some 47" using at_rest_chr [OF p, of 1] by (simp add: chr_at_def)
  have l: "length (tk_source s) = ?i + length t + 3 + length r" using at_rest_length [OF p] by simp
  have "drop (?i + 2) (tk_source s) = t @ 10 # r"
    using p drop_eq_append [of ?i "tk_source s" "[47, 47]"] by (simp add: at_rest_def)
  then have e: "line_comment_end (tk_source s) (?i + 1) = Some (?i + 2 + length t)"
    using line_comment_end_at [of "?i + 1" "tk_source s" t r] assms(2) LineComment by simp
  have k: "skip_space s = (s, False)" using a slash_no_space by (subst skip_space_rec) simp
  obtain s' where s': "blank_step s = Inr s'" "tk_offset s' = ?i + 3 + length t"
    using a b e k l by (simp add: blank_step_def Let_def tk_char_def)
  have "tk_ok s" using p by (simp add: at_rest_def)
  note m = blank_step_again [OF s'(1) this]
  have "at_rest s' r" by (rule at_rest_move [OF assms(1)]) (use m s' LineComment p in \<open>simp_all add: at_rest_def\<close>)
  then show ?thesis using m s' skip_blank_rec [of s] by auto
next
  case (BlockComment t)
  let ?i = "tk_offset s"
  have p: "at_rest s (47 # 42 # t @ 42 # 47 # r)" using assms(1) BlockComment by simp
  have a: "tk_char s = Some 47" "?i < length (tk_source s)" using at_rest_cons [OF p] by simp_all
  have b: "chr_at (tk_source s) (?i + 1) = Some 42" using at_rest_chr [OF p, of 1] by (simp add: chr_at_def)
  have l: "length (tk_source s) = ?i + length t + 4 + length r" using at_rest_length [OF p] by simp
  have "drop (?i + 1) (tk_source s) = 42 # t @ 42 # 47 # r"
    using p drop_eq_append [of ?i "tk_source s" "[47]"] by (simp add: at_rest_def)
  from block_comment_end_at [OF this, of "tk_line s"] obtain l' where
    e: "block_comment_end (tk_source s) (tk_line s) (?i + 1) = Inr (l', ?i + 3 + length t)"
    using assms(2) BlockComment by auto
  have k: "skip_space s = (s, False)" using a slash_no_space by (subst skip_space_rec) simp
  obtain s' where s': "blank_step s = Inr s'" "tk_offset s' = ?i + 4 + length t"
    using a b e k l by (simp add: blank_step_def Let_def tk_char_def)
  have "tk_ok s" using p by (simp add: at_rest_def)
  note m = blank_step_again [OF s'(1) this]
  have "at_rest s' r" by (rule at_rest_move [OF assms(1)]) (use m s' BlockComment p in \<open>simp_all add: at_rest_def\<close>)
  then show ?thesis using m s' skip_blank_rec [of s] by auto
qed

lemma next_at_rest: "at_rest s r \<Longrightarrow> next_token s = bind_res (skip_blank s) (\<lambda>(s, stop).
    case stop of AtEnd \<Rightarrow> Inr (s, None) | AtSlash \<Rightarrow> Inr (s, Some [47])
    | AtToken \<Rightarrow> (case read_token s of (s, t) \<Rightarrow> Inr (s, Some t)))"
  by (simp add: next_token_def at_rest_def)

lemma skip_gaps:
  "at_rest s (concat (map print_gap gs) @ r) \<Longrightarrow> list_all gap_ok gs \<Longrightarrow> \<exists>s'. at_rest s' r \<and> next_token s = next_token s'"
proof (induction gs arbitrary: s)
  case (Cons g gs)
  then have "at_rest s (print_gap g @ concat (map print_gap gs) @ r)" "gap_ok g" by simp_all
  from skip_gap [OF this] obtain u where u: "at_rest u (concat (map print_gap gs) @ r)" "skip_blank s = skip_blank u" by blast
  have "next_token s = next_token u" using next_at_rest [OF Cons.prems(1)] next_at_rest [OF u(1)] u(2) by simp
  then show ?case using Cons.IH [OF u(1)] Cons.prems(2) by auto
qed auto

lemma next_at_token:
  assumes "at_rest s (c # r)" "\<not> is_space c" "c \<noteq> 47"
  shows "next_token s = (case read_token s of (s, t) \<Rightarrow> Inr (s, Some t))"
proof -
  have "skip_space s = (s, False)" using at_rest_cons [OF assms(1)] assms(2) by (subst skip_space_rec) simp
  then have "blank_step s = Inl (Inr (s, AtToken))" using at_rest_cons [OF assms(1)] assms(3) by (simp add: blank_step_def)
  then show ?thesis using next_at_rest [OF assms(1)] skip_blank_rec [of s] by simp
qed

lemma word_end_at:
  assumes "drop i src = xs @ r" "list_all (\<lambda>c. \<not> is_delim c) xs" "r = [] \<or> is_delim (hd r)"
  shows "word_end src i = i + length xs"
  using assms(1, 2)
proof (induction xs arbitrary: i)
  case Nil
  then show ?case using assms(3) by (subst word_end.simps) (cases r, auto dest: drop_eq_Cons)
next
  case (Cons x xs)
  then show ?case using drop_eq_Cons [of i src x "xs @ r"] by (subst word_end.simps) auto
qed

lemma next_word:
  assumes "at_rest s (w @ r)" "item_ok (Word w)" "r = [] \<or> is_delim (hd r)"
  shows "\<exists>s'. next_token s = Inr (s', Some w) \<and> at_rest s' r"
proof -
  obtain c cs where w: "w = c # cs" using assms(2) by (cases w) auto
  have c: "\<not> is_delim c" "c \<noteq> 47" "list_all (\<lambda>c. \<not> is_delim c) cs" using assms(2) w by auto
  have p: "at_rest s (c # cs @ r)" using assms(1) w by simp
  let ?i = "tk_offset s" and ?src = "tk_source s"
  have d: "drop ?i ?src = w @ r" "drop (?i + 1) ?src = cs @ r" using assms(1) p w by (auto simp: at_rest_def dest: drop_eq_Cons)
  have e: "word_end ?src (?i + 1) = ?i + length w" using word_end_at [OF d(2) c(3) assms(3)] w by simp
  have "is_delim 34" "is_delim 39" by (simp_all add: is_delim_def)
  then have "\<not> is_quote c" using c(1) by (auto simp: is_quote_def)
  then have "read_token s = (s\<lparr>tk_offset := ?i + length w\<rparr>, w)"
    using at_rest_cons [OF p] c(1) e d(1) w by (auto simp: read_token_def Let_def chr_at_def js_substring_def split: list.splits)
  moreover have "at_rest (s\<lparr>tk_offset := ?i + length w\<rparr>) r" by (rule at_rest_move [OF assms(1)]) (use assms(1) in \<open>simp_all add: at_rest_def\<close>)
  moreover have "\<not> is_space c" using c(1) by (simp add: is_delim_def)
  ultimately show ?thesis using next_at_token [OF p _ c(2)] by simp
qed

lemma next_delim:
  assumes "at_rest s (c # r)" "is_delim c" "\<not> is_space c"
  shows "next_token s = Inr (s\<lparr>tk_offset := tk_offset s + 1, tk_delim := (if is_quote c then Some c else None)\<rparr>, Some [c])"
proof -
  have "c \<noteq> 47" using assms(2) by (auto simp: is_delim_def is_space_def)
  moreover have "js_substring (tk_offset s) (tk_offset s + 1) (tk_source s) = [c]"
    using at_rest_cons [OF assms(1)] assms(1) by (simp add: js_substring_def at_rest_def)
  moreover have "tk_delim s = None" using assms(1) by (simp add: at_rest_def)
  ultimately show ?thesis using next_at_token [OF assms(1, 3)] at_rest_cons [OF assms(1)] assms(2)
    by (simp add: read_token_def Let_def chr_at_def)
qed

lemma unescape_escape: "unescape (concat (map escape_char t) @ []) = t"
proof -
  have "unescape (escape_char c @ s) = c # unescape s" for c s
    by (cases s) (auto simp: escape_char_def unescape_char_def line_end_char_def)
  then show ?thesis by (induction t) simp_all
qed

lemma scan_escaped:
  assumes "q \<notin> set t" "q \<noteq> 92" "q \<notin> {48, 114, 110, 116}"
  shows "scan_string q (concat (map escape_char t) @ q # r) = Some (length (concat (map escape_char t)))"
  using assms(1)
proof (induction t)
  case Nil
  then show ?case by (cases r) simp_all
next
  case (Cons c t)
  then have "c \<noteq> q" "scan_string q (concat (map escape_char t) @ q # r) = Some (length (concat (map escape_char t)))" by auto
  moreover have "scan_string q (escape_char c @ s) = map_option (\<lambda>n. n + length (escape_char c)) (scan_string q s)" if ne: "s \<noteq> []" and cq: "c \<noteq> q" for s
  proof -
    obtain d s' where s: "s = d # s'" using ne by (cases s) auto
    have "scan_string q (92 # x # s) = map_option (\<lambda>n. n + 2) (scan_string q s)" if "x \<in> {92, 48, 114, 110, 116}" for x
      using assms(2) that by (auto simp: line_end_char_def)
    moreover have "scan_string q (c # s) = map_option Suc (scan_string q s)" if "c \<noteq> 92"
      using that cq s by simp
    ultimately show ?thesis by (simp add: escape_char_def eval_nat_numeral)
  qed
  ultimately show ?case by simp
qed

text \<open>The tokens \<open>ts\<close> are read and leave the tokenizer at \<open>r\<close>.\<close>

definition reads :: "tokenizer \<Rightarrow> jsstring list \<Rightarrow> jsstring \<Rightarrow> bool" where
  "reads s ts r \<longleftrightarrow> (\<exists>s'. at_rest s' r \<and> (\<forall>n. lex (n + length ts) s = map_option (\<lambda>x. bind_res x (\<lambda>us. Inr (ts @ us))) (lex n s')))"

lemma reads_one: "next_token s = Inr (s', Some t) \<Longrightarrow> at_rest s' r \<Longrightarrow> reads s [t] r"
  by (auto simp: reads_def)

lemma next_quoted:
  assumes "at_rest s (print_item (Quoted q t) @ r)" "item_ok (Quoted q t)"
  shows "reads s [[q], t, [q]] r"
proof -
  let ?e = "concat (map escape_char t)" and ?i = "tk_offset s" and ?src = "tk_source s"
  have p: "at_rest s (q # ?e @ q # r)" using assms(1) by simp
  have q: "is_quote q" "q \<notin> set t" using assms(2) by simp_all
  then have "is_delim q" "\<not> is_space q" "q \<noteq> 92" "q \<notin> {48, 114, 110, 116}"
    by (auto simp: is_quote_def is_delim_def is_space_def)
  note q = q this
  define s1 where "s1 = s\<lparr>tk_offset := ?i + 1, tk_delim := Some q\<rparr>"
  have 1: "next_token s = Inr (s1, Some [q])" using next_delim [OF p q(3, 4)] q(1) by (simp add: s1_def)
  have st: "tk_stack s = []" and d: "drop ?i ?src = q # ?e @ q # r" using p by (simp_all add: at_rest_def)
  have f: "find_string q ?i (drop ?i ?src) = Some (?i, length ?e)" using d scan_escaped [OF q(2, 5, 6)] by simp
  have c: "js_substring (?i + 1) (?i + 1 + length ?e) ?src = ?e"
    using drop_eq_Cons [OF d] by (simp add: js_substring_def)
  define s2 where "s2 = s\<lparr>tk_offset := ?i + length ?e + 2, tk_delim := None, tk_stack := [[q]]\<rparr>"
  have 2: "next_token s1 = Inr (s2, Some t)"
    using st f c unescape_escape [of t] by (simp add: next_token_def s1_def s2_def tk_read_string_def push_token_def)
  define s3 where "s3 = s2\<lparr>tk_stack := []\<rparr>"
  have 3: "next_token s2 = Inr (s3, Some [q])" by (simp add: next_token_def s2_def s3_def)
  have "at_rest s3 r"
    by (rule at_rest_move [OF assms(1)]) (simp_all add: s3_def s2_def)
  moreover have "lex (n + 3) s = map_option (\<lambda>x. bind_res x (\<lambda>us. Inr ([[q], t, [q]] @ us))) (lex n s3)" for n
    using 1 2 3 by (cases "lex n s3") (auto simp: numeral_3_eq_3 bind_res_def split: sum.splits)
  ultimately show ?thesis unfolding reads_def by (intro exI [of _ s3]) (simp add: numeral_3_eq_3 del: lex.simps)
qed

lemma reads_item:
  assumes "at_rest s (print_item i @ r)" "item_ok i" "(\<exists>w. i = Word w) \<longrightarrow> r = [] \<or> is_delim (hd r)"
  shows "reads s (item_tokens i) r"
proof (cases i)
  case (Word w)
  then show ?thesis using next_word [of s w r] assms by (auto intro: reads_one)
next
  case (Punct c)
  have "next_token s = Inr (s\<lparr>tk_offset := tk_offset s + 1, tk_delim := None\<rparr>, Some [c])"
    using next_delim [of s c r] assms(1, 2) Punct by simp
  moreover have "at_rest (s\<lparr>tk_offset := tk_offset s + 1, tk_delim := None\<rparr>) r"
    by (rule at_rest_move [OF assms(1)]) (use assms(1) Punct in \<open>simp_all add: at_rest_def\<close>)
  ultimately show ?thesis using Punct by (auto intro: reads_one)
next
  case (Quoted q t)
  then show ?thesis using next_quoted [of s q t r] assms by simp
qed

lemma lex_gaps:
  assumes "at_rest s (concat (map print_gap gs) @ r)" "list_all gap_ok gs"
  shows "\<exists>s'. at_rest s' r \<and> (\<forall>n. lex n s = lex n s')"
proof -
  obtain s' where s': "at_rest s' r" "next_token s = next_token s'" using skip_gaps [OF assms] by blast
  have "lex n s = lex n s'" for n using s'(2) by (cases n) simp_all
  then show ?thesis using s' by blast
qed

text \<open>What follows a word in a layout ends it.\<close>

lemma after_item:
  assumes "layout_ok ((i, gs) # l)"
  shows "(\<exists>w. i = Word w) \<longrightarrow> concat (map print_gap gs) @ print_layout l = [] \<or> is_delim (hd (concat (map print_gap gs) @ print_layout l))"
proof (intro impI, elim exE, rule disjCI)
  let ?r = "concat (map print_gap gs) @ print_layout l"
  have ok: "list_all gap_ok gs" "layout_ok l" using assms by auto
  fix w assume w: "i = Word w" "\<not> is_delim (hd ?r)"
  show "?r = []"
  proof (cases gs)
    case (Cons g gs')
    then obtain c where "g = Blank c" using assms w by (cases g) auto
    then show ?thesis using Cons ok(1) w(2) by (simp add: is_delim_def)
  next
    case Nil
    show ?thesis
    proof (cases l)
      case l: (Cons y l')
      obtain j gs' where y: "y = (j, gs')" by (cases y)
      have "item_ok j" using ok(2) l y by auto
      then have "is_delim (hd (print_item j)) \<and> print_item j \<noteq> []" using assms w Nil l y
        by (cases j) (auto simp: is_quote_def is_delim_def)
      then show ?thesis using w(2) Nil l y by (simp add: print_layout_def)
    qed (simp add: Nil print_layout_def)
  qed
qed

lemma lex_layout:
  assumes "at_rest s (print_layout l)" "layout_ok l"
  shows "\<exists>n. lex n s = Some (Inr (concat (map (\<lambda>(i, gs). item_tokens i) l)))"
  using assms
proof (induction l arbitrary: s)
  case Nil
  then have "next_token s = Inr (s, None)"
    by (auto simp: print_layout_def next_at_rest skip_blank_rec [of s] blank_step_def at_rest_def tk_ok_def)
  then have "lex (Suc 0) s = Some (Inr [])" by simp
  then show ?case by (intro exI [of _ "Suc 0"]) simp
next
  case (Cons x l)
  obtain i gs where x: "x = (i, gs)" by (cases x)
  let ?r = "concat (map print_gap gs) @ print_layout l"
  have a: "at_rest s (print_item i @ ?r)" using Cons.prems(1) x by (simp add: print_layout_def)
  have ok: "item_ok i" "list_all gap_ok gs" "layout_ok l" using Cons.prems(2) x by auto
  note this = after_item [OF Cons.prems(2) [unfolded x]]
  from reads_item [OF a ok(1) this] obtain s1 where
    s1: "at_rest s1 ?r" "\<And>n. lex (n + length (item_tokens i)) s = map_option (\<lambda>x. bind_res x (\<lambda>us. Inr (item_tokens i @ us))) (lex n s1)"
    by (auto simp: reads_def)
  from lex_gaps [OF s1(1) ok(2)] obtain s2 where s2: "at_rest s2 (print_layout l)" "\<And>n. lex n s1 = lex n s2" by blast
  from Cons.IH [OF s2(1) ok(3)] obtain n where "lex n s2 = Some (Inr (concat (map (\<lambda>(i, gs). item_tokens i) l)))" by blast
  then have "lex (n + length (item_tokens i)) s = Some (Inr (concat (map (\<lambda>(i, gs). item_tokens i) (x # l))))"
    using s1(2) s2(2) x by simp
  then show ?case by blast
qed

text \<open>C11: a source that is laid out from words, punctuation and quoted strings, with white space and comments
  between them, but no comment directly behind a word, is read as exactly these tokens.\<close>

theorem layout_roundtrip:
  assumes "list_all gap_ok gs" "layout_ok l"
  shows "\<exists>n. lex n (tokenize (concat (map print_gap gs) @ print_layout l)) = Some (Inr (concat (map (\<lambda>(i, gs). item_tokens i) l)))"
proof -
  have "at_rest (tokenize (concat (map print_gap gs) @ print_layout l)) (concat (map print_gap gs) @ print_layout l)"
    by (simp add: at_rest_def tokenize_def tk_ok_def)
  from lex_gaps [OF this assms(1)] lex_layout [OF _ assms(2)] show ?thesis by metis
qed

lemma layout_roundtrip_witness:
  "\<exists>n. lex n (tokenize (concat (map print_gap [LineComment (js ''a''), Blank 32]) @
      print_layout [(Word (js ''x''), [Blank 32, BlockComment (js ''c'')]), (Punct 61, []), (Quoted 34 (js ''s''), [])]))
    = Some (Inr [js ''x'', [61], [34], js ''s'', [34]])"
  using layout_roundtrip [of "[LineComment (js ''a''), Blank 32]"
      "[(Word (js ''x''), [Blank 32, BlockComment (js ''c'')]), (Punct 61, []), (Quoted 34 (js ''s''), [])]"]
  by (simp add: js_simps is_space_def is_delim_def is_quote_def)

section \<open>Line numbers\<close>

text \<open>The newlines in front of a position.\<close>

definition newlines :: "jsstring \<Rightarrow> nat \<Rightarrow> nat" where
  "newlines src i = count_list (take i src) 10"

definition line_ok :: "tokenizer \<Rightarrow> bool" where
  "line_ok s \<longleftrightarrow> tk_ok s \<and> tk_line s = 1 + newlines (tk_source s) (tk_offset s)"

lemma newlines_Suc: "newlines src (i + 1) = newlines src i + (if chr_at src i = Some 10 then 1 else 0)"
  by (simp add: newlines_def chr_at_def take_Suc_conv_app_nth)

lemma newlines_Suc' [simp]: "newlines src (Suc i) = newlines src i + (if chr_at src i = Some 10 then 1 else 0)"
  using newlines_Suc [of src i] by simp

lemma newlines_past: "length src \<le> i \<Longrightarrow> newlines src i = newlines src (length src)"
  by (simp add: newlines_def)

lemma skip_space_lines: "line_ok s \<longrightarrow> line_ok (fst (skip_space s))"
proof (induction s rule: skip_space_induct)
  case (end' s c)
  have "newlines (tk_source s) (length (tk_source s)) = newlines (tk_source s) (tk_offset s) + (if c = 10 then 1 else 0)"
    using newlines_Suc [of "tk_source s" "tk_offset s"] end' by (simp add: tk_char_def del: newlines_Suc')
  then show ?case using end'(3) by (auto simp: line_ok_def tk_ok_def)
qed (auto simp: line_ok_def tk_ok_def tk_char_def)

lemma line_comment_lines:
  "case line_comment_end src i of
     Some j \<Rightarrow> chr_at src j = Some 10 \<and> newlines src j = newlines src (i + 1)
   | None \<Rightarrow> newlines src (length src) = newlines src (i + 1)"
proof (induction src i rule: line_comment_end.induct)
  case (1 src i)
  show ?case
  proof (cases "chr_at src (i + 1) = Some 10 \<or> i + 1 \<ge> length src")
    case True
    then show ?thesis by (subst line_comment_end.simps) (auto simp del: newlines_Suc' intro: newlines_past [symmetric])
  next
    case False
    then have "line_comment_end src i = line_comment_end src (i + 1)" by (subst line_comment_end.simps) simp
    moreover have "newlines src (i + 1 + 1) = newlines src (i + 1)" using False by (subst newlines_Suc) simp
    ultimately show ?thesis using 1 False by (cases "line_comment_end src (i + 1)") (simp_all del: newlines_Suc')
  qed
qed

lemma block_comment_lines:
  "block_comment_end src line i = Inr (l, j) \<Longrightarrow> l + newlines src i = line + newlines src (j + 1)"
proof (induction src line i arbitrary: l j rule: block_comment_end.induct)
  case (1 src line i)
  let ?line = "if chr_at src i = Some 10 then line + 1 else line"
  show ?case
  proof (cases "i + 1 \<ge> length src")
    case True
    then show ?thesis using 1(2) by (subst (asm) block_comment_end.simps) (simp add: Let_def)
  next
    case False
    show ?thesis
    proof (cases "chr_at src i = Some 42 \<and> chr_at src (i + 1) = Some 47")
      case True
      then show ?thesis using 1(2) False by (subst (asm) block_comment_end.simps) (auto simp: Let_def)
    next
      case neq: False
      then have "block_comment_end src ?line (i + 1) = Inr (l, j)"
        using 1(2) by (subst (asm) block_comment_end.simps) (simp only: Let_def neq False if_False)
      then have "l + newlines src (i + 1) = ?line + newlines src (j + 1)"
        using 1(1) [OF refl _ neq] False by simp
      then show ?thesis by (simp split: if_splits)
    qed
  qed
qed

lemma blank_step_lines:
  assumes "line_ok s"
  shows "blank_step s = Inr s' \<Longrightarrow> line_ok s'" "blank_step s = Inl (Inr (s', r)) \<Longrightarrow> line_ok s'"
proof -
  obtain t b where t: "skip_space s = (t, b)" by (cases "skip_space s")
  have l: "line_ok t" using skip_space_lines [of s] assms t by simp
  have ok: "tk_ok s" using assms by (simp add: line_ok_def)
  note line_comment_lines [of "tk_source t" "tk_offset t + 1"]
    block_comment_lines [of "tk_source t" "tk_line t" "tk_offset t + 1"]
  note c = this
  { assume a: "blank_step s = Inr s'"
    have k: "tk_ok s'" using blank_step_again [OF a ok] by simp
    show "line_ok s'" using a t l c k
      by (auto simp: blank_step_def Let_def line_ok_def tk_char_def split: if_splits option.splits sum.splits) }
  { assume a: "blank_step s = Inl (Inr (s', r))"
    have k: "tk_ok s'" using blank_step_stop [OF a ok] by simp
    show "line_ok s'" using a t l c k assms
      by (auto simp: blank_step_def Let_def line_ok_def tk_char_def split: if_splits option.splits sum.splits) }
qed

lemma skip_blank_lines: "skip_blank s = Inr (s', r) \<Longrightarrow> line_ok s \<Longrightarrow> line_ok s'"
proof (induction "length (tk_source s) - tk_offset s" arbitrary: s rule: less_induct)
  case less
  show ?case
  proof (cases "blank_step s")
    case (Inl q)
    then show ?thesis using less.prems skip_blank_rec [of s] blank_step_lines(2) by auto
  next
    case (Inr t)
    have "tk_ok s" using less.prems(2) by (simp add: line_ok_def)
    note t = blank_step_again [OF Inr this]
    show ?thesis
    proof (rule less.hyps)
      show "length (tk_source t) - tk_offset t < length (tk_source s) - tk_offset s" using t by (auto simp: tk_ok_def)
      show "skip_blank t = Inr (s', r)" using less.prems(1) Inr skip_blank_rec [of s] by simp
      show "line_ok t" by (rule blank_step_lines(1) [OF less.prems(2) Inr])
    qed
  qed
qed

lemma word_end_lines: "newlines src (word_end src e) = newlines src e"
proof (induction src e rule: word_end.induct)
  case (1 src e)
  have "\<not> is_delim (src ! e) \<Longrightarrow> src ! e \<noteq> 10" by (auto simp: is_delim_def is_space_def)
  then show ?case using 1 by (subst word_end.simps) (auto simp: chr_at_def split: if_splits)
qed

text \<open>C31: the line number is one more than the number of newlines in front of the current position, and
  every token keeps it so, unless a string runs over several lines.\<close>

theorem lines_counted:
  assumes "next_token s = Inr (s', t)" "line_ok s"
    and "tk_stack s = [] \<and> tk_delim s \<noteq> None \<longrightarrow> newlines (tk_source s) (tk_offset s') = newlines (tk_source s) (tk_offset s)"
  shows "line_ok s'"
proof -
  have k: "tk_ok s'" "tk_source s' = tk_source s" using next_token_spec [OF assms(1)] assms(2) by (simp_all add: line_ok_def)
  show ?thesis
  proof (cases "tk_stack s = [] \<and> tk_delim s = None")
    case False
    then have "tk_line s' = tk_line s \<and> newlines (tk_source s) (tk_offset s') = newlines (tk_source s) (tk_offset s)"
      using assms by (auto simp: next_token_def bind_res_eq_Inr tk_read_string_def push_token_def split: list.splits option.splits)
    then show ?thesis using assms(2) k by (simp add: line_ok_def)
  next
    case True
    then obtain u r where u: "skip_blank s = Inr (u, r)" using assms(1) by (auto simp: next_token_def bind_res_eq_Inr)
    note l = skip_blank_lines [OF u assms(2)]
    show ?thesis
    proof (cases r)
      case AtToken
      then obtain c where c: "tk_char u = Some c" "\<not> is_space c"
        using skip_blank_spec [OF u] assms(2) by (auto simp: line_ok_def)
      then have "c \<noteq> 10" by (auto simp: is_space_def)
      obtain v w where v: "read_token u = (v, w)" by (cases "read_token u")
      then have "tk_line v = tk_line u" "tk_source v = tk_source u"
        "newlines (tk_source u) (tk_offset v) = newlines (tk_source u) (tk_offset u)"
        using c \<open>c \<noteq> 10\<close> word_end_lines [of "tk_source u" "tk_offset u + 1"]
        by (auto simp: read_token_def Let_def tk_char_def split: list.splits if_splits)
      moreover have "s' = v" using assms(1) True u AtToken v by (simp add: next_token_def)
      ultimately show ?thesis using l k by (simp add: line_ok_def)
    qed (use assms(1) True u l in \<open>simp_all add: next_token_def\<close>)
  qed
qed

lemma lines_counted_witness: "\<exists>s. next_token (tokenize [10, 97]) = Inr s \<and> line_ok (fst s)"
proof -
  have l: "line_ok (tokenize [10, 97])" by (simp add: line_ok_def tokenize_def tk_ok_def newlines_def)
  obtain s t where n: "next_token (tokenize [10, 97]) = Inr (s, t)"
    using skip_blank_rec [of "tokenize [10, 97]"]
    by (simp add: next_token_def tokenize_def blank_step_def skip_space_rec tk_char_def chr_at_def is_space_def advance_def case_prod_beta)
  have "line_ok s" by (rule lines_counted [OF n l]) (simp add: tokenize_def)
  then show ?thesis using n by auto
qed

section \<open>Deviations from the language\<close>

text \<open>A comment directly behind a word is read as a part of the word.\<close>

lemma comment_glued_to_word:
  assumes "item_ok (Word w)" "list_all (\<lambda>c. \<not> is_delim c) t"
  shows "\<exists>n. lex n (tokenize (w @ [47, 42] @ t @ [42, 47])) = Some (Inr [w @ [47, 42] @ t @ [42, 47]])"
proof -
  have "item_ok (Word (w @ [47, 42] @ t @ [42, 47]))"
    using assms by (cases w) (auto simp: is_delim_def is_space_def)
  then show ?thesis using lex_layout [of "tokenize (w @ [47, 42] @ t @ [42, 47])" "[(Word (w @ [47, 42] @ t @ [42, 47]), [])]"]
    by (simp add: print_layout_def at_rest_def tokenize_def tk_ok_def)
qed

text \<open>The three characters of a comment that is opened and not closed are taken for a whole comment.\<close>

lemma open_comment_is_closed: "\<exists>n. lex n (tokenize [47, 42, 47, 120]) = Some (Inr [[120]])"
proof -
  let ?s = "tokenize [47, 42, 47, 120]"
  have "block_comment_end [47, 42, 47, 120] 1 1 = Inr (1, 2)"
    by (subst block_comment_end.simps) (simp add: chr_at_def)
  then have b: "blank_step ?s = Inr (?s\<lparr>tk_offset := 3\<rparr>)"
    by (simp add: blank_step_def tokenize_def skip_space_rec tk_char_def chr_at_def is_space_def)
  then have "next_token ?s = next_token (?s\<lparr>tk_offset := 3\<rparr>)"
    using skip_blank_rec [of ?s] by (simp add: next_token_def tokenize_def)
  then have "lex n ?s = lex n (?s\<lparr>tk_offset := 3\<rparr>)" for n by (cases n) simp_all
  moreover have "\<exists>n. lex n (?s\<lparr>tk_offset := 3\<rparr>) = Some (Inr [[120]])"
    using lex_layout [of "?s\<lparr>tk_offset := 3\<rparr>" "[(Word [120], [])]"]
    by (simp add: print_layout_def at_rest_def tokenize_def tk_ok_def is_delim_def is_space_def)
  ultimately show ?thesis by simp
qed

text \<open>C39: an escaped quote, and every other escaped character outside the table, is dropped from a string.\<close>

theorem unescape_drops:
  assumes "92 \<notin> set a" "c \<notin> {92, 48, 114, 110, 116}" "\<not> line_end_char c"
  shows "unescape (a @ [92, c] @ b) = a @ unescape b"
  using assms(1)
proof (induction a)
  case Nil
  then show ?case using assms(2, 3) by (simp add: unescape_char_def)
next
  case (Cons x a)
  then show ?case by (cases a) auto
qed

lemma unescape_drops_witness: "unescape (js ''say '' @ [92, 34] @ js ''hi'') = js ''say '' @ unescape (js ''hi'')"
  by (rule unescape_drops) (simp_all add: js_simps line_end_char_def)

end
