(* ===== verification/Reflect.thy ===== *)
theory Reflect
  imports Codec Path
begin

text \<open>
  The reflection objects of protobuf.js as a heap: ReflectionObject, Namespace, Root, Type, Service,
  Enum, Field, MapField, OneOf and Method with their properties, the look-up of names, and the
  operations that stay inside one object.
\<close>

section \<open>Objects\<close>

type_synonym oid = nat

text \<open>The constructors, with MapField a Field and Root, Type and Service Namespaces.\<close>

datatype obj_class = KNamespace | KRoot | KType | KService | KEnum | KField | KMapField | KOneOf | KMethod

type_synonym table = "(jsstring \<times> oid) list"

text \<open>An entry of the reserved or extensions array.\<close>

datatype range = NameRange jsstring | IdRange int int

record ns_data =
  ns_nested :: "table option"
  ns_nested_array :: "oid list option"
  ns_exposed :: table

record type_data =
  ty_fields :: table
  ty_oneofs :: "table option"
  ty_extensions :: "range list option"
  ty_reserved :: "range list option"
  ty_group :: bool
  ty_by_id :: "(int \<times> oid) list option"
  ty_fields_array :: "oid list option"
  ty_oneofs_array :: "oid list option"

record service_data =
  sv_methods :: table
  sv_methods_array :: "oid list option"

record enum_data =
  en_vals :: "(jsstring \<times> int) list"
  en_by_id :: "(int \<times> jsstring) list"
  en_comments :: "(jsstring \<times> jsstring option) list"

record field_data =
  fd_id :: int
  fd_type :: jsstring
  fd_rule :: "jsstring option"
  fd_extend :: "jsstring option"
  fd_required :: bool
  fd_repeated :: bool
  fd_map :: bool
  fd_key_type :: jsstring
  fd_message :: "oid option"
  fd_part_of :: "oid option"
  fd_type_default :: jsval
  fd_default_value :: jsval
  fd_resolved_type :: "oid option"
  fd_extension_field :: "oid option"
  fd_declaring_field :: "oid option"
  fd_packed_cache :: "bool option"

record oneof_data =
  oneof_names :: "jsstring list"
  oneof_fields :: "oid list"

record method_data =
  me_type :: jsstring
  me_request_type :: jsstring
  me_response_type :: jsstring
  me_request_stream :: bool
  me_response_stream :: bool
  me_resolved_request :: "oid option"
  me_resolved_response :: "oid option"

record root_data =
  rt_deferred :: "oid list"

text \<open>
  An object has the common properties and those of its class; the properties of other classes keep
  their initial values; the files of a root are part of the state of the loader. The options are a
  reference to a plain object, which two fields may share.
\<close>

record obj =
  ob_class :: obj_class
  ob_name :: jsstring
  ob_options :: "nat option"
  ob_parent :: "oid option"
  ob_resolved :: bool
  ob_comment :: "jsstring option"
  ob_filename :: "jsstring option"
  ob_ns :: ns_data
  ob_type :: type_data
  ob_service :: service_data
  ob_enum :: enum_data
  ob_field :: field_data
  ob_oneof :: oneof_data
  ob_method :: method_data
  ob_root :: root_data

type_synonym opts = "(jsstring \<times> jsval) list"

record heap =
  hp_objs :: "obj list"
  hp_opts :: "opts list"

definition empty_heap :: heap where
  "empty_heap = \<lparr>hp_objs = [], hp_opts = []\<rparr>"

definition get_obj :: "heap \<Rightarrow> oid \<Rightarrow> obj" where
  "get_obj h i = hp_objs h ! i"

definition upd_obj :: "oid \<Rightarrow> (obj \<Rightarrow> obj) \<Rightarrow> heap \<Rightarrow> heap" where
  "upd_obj i f h = h\<lparr>hp_objs := (hp_objs h)[i := f (get_obj h i)]\<rparr>"

definition alloc_obj :: "obj \<Rightarrow> heap \<Rightarrow> heap \<times> oid" where
  "alloc_obj ob h = (h\<lparr>hp_objs := hp_objs h @ [ob]\<rparr>, length (hp_objs h))"

definition is_namespace :: "obj \<Rightarrow> bool" where
  "is_namespace ob \<longleftrightarrow> ob_class ob \<in> {KNamespace, KRoot, KType, KService}"

definition is_field :: "obj \<Rightarrow> bool" where
  "is_field ob \<longleftrightarrow> ob_class ob \<in> {KField, KMapField}"

text \<open>The constructor of ReflectionObject.\<close>

definition blank_obj :: "obj_class \<Rightarrow> jsstring \<Rightarrow> nat option \<Rightarrow> obj" where
  "blank_obj k name options =
     \<lparr>ob_class = k, ob_name = name, ob_options = options, ob_parent = None, ob_resolved = False,
      ob_comment = None, ob_filename = None,
      ob_ns = \<lparr>ns_nested = None, ns_nested_array = None, ns_exposed = []\<rparr>,
      ob_type = \<lparr>ty_fields = [], ty_oneofs = None, ty_extensions = None, ty_reserved = None, ty_group = False,
        ty_by_id = None, ty_fields_array = None, ty_oneofs_array = None\<rparr>,
      ob_service = \<lparr>sv_methods = [], sv_methods_array = None\<rparr>,
      ob_enum = \<lparr>en_vals = [], en_by_id = [], en_comments = []\<rparr>,
      ob_field = \<lparr>fd_id = 0, fd_type = [], fd_rule = None, fd_extend = None, fd_required = False,
        fd_repeated = False, fd_map = False, fd_key_type = [], fd_message = None, fd_part_of = None, fd_type_default = JNull,
        fd_default_value = JNull, fd_resolved_type = None, fd_extension_field = None, fd_declaring_field = None,
        fd_packed_cache = None\<rparr>,
      ob_oneof = \<lparr>oneof_names = [], oneof_fields = []\<rparr>,
      ob_method = \<lparr>me_type = [], me_request_type = [], me_response_type = [], me_request_stream = False,
        me_response_stream = False, me_resolved_request = None, me_resolved_response = None\<rparr>,
      ob_root = \<lparr>rt_deferred = []\<rparr>\<rparr>"

section \<open>Properties that plain objects inherit\<close>

text \<open>A read of a missing property finds the members of \<open>Object.prototype\<close>.\<close>

datatype 'v slot = Absent | Inherited | Own 'v

definition tbl_get :: "(jsstring \<times> 'v) list \<Rightarrow> jsstring \<Rightarrow> 'v slot" where
  "tbl_get t k = (case prop_get t k of Some v \<Rightarrow> Own v | None \<Rightarrow> if k \<in> set proto_names then Inherited else Absent)"

definition opt_get :: "(jsstring \<times> 'v) list option \<Rightarrow> jsstring \<Rightarrow> 'v slot" where
  "opt_get t k = (case t of None \<Rightarrow> Absent | Some t \<Rightarrow> tbl_get t k)"

text \<open>\<open>a || b\<close>.\<close>

definition or_else :: "'v slot \<Rightarrow> 'v slot \<Rightarrow> 'v slot" where
  "or_else a b = (if a = Absent then b else a)"

section \<open>Parents\<close>

text \<open>
  The getters \<open>root\<close> and \<open>fullName\<close> follow the parents; None when the chain is longer than the heap, that
  is, when it runs in a circle and the loop does not end.
\<close>

fun chain :: "nat \<Rightarrow> heap \<Rightarrow> oid \<Rightarrow> oid list option" where
  "chain 0 h i = None"
| "chain (Suc n) h i =
     (case ob_parent (get_obj h i) of
        None \<Rightarrow> Some [i]
      | Some p \<Rightarrow> map_option ((#) i) (chain n h p))"

definition parents :: "heap \<Rightarrow> oid \<Rightarrow> oid list option" where
  "parents h i = chain (length (hp_objs h)) h i"

definition root_of :: "heap \<Rightarrow> oid \<Rightarrow> oid option" where
  "root_of h i = map_option last (parents h i)"

definition full_name :: "heap \<Rightarrow> oid \<Rightarrow> jsstring option" where
  "full_name h i = map_option (\<lambda>is. join_with [46] (map (\<lambda>i. ob_name (get_obj h i)) (rev is))) (parents h i)"

definition class_name :: "obj_class \<Rightarrow> jsstring" where
  "class_name k =
     (case k of
        KNamespace \<Rightarrow> js ''Namespace'' | KRoot \<Rightarrow> js ''Root'' | KType \<Rightarrow> js ''Type'' | KService \<Rightarrow> js ''Service''
      | KEnum \<Rightarrow> js ''Enum'' | KField \<Rightarrow> js ''Field'' | KMapField \<Rightarrow> js ''MapField'' | KOneOf \<Rightarrow> js ''OneOf''
      | KMethod \<Rightarrow> js ''Method'')"

definition obj_string :: "heap \<Rightarrow> oid \<Rightarrow> jsstring option" where
  "obj_string h i = map_option (\<lambda>f. class_name (ob_class (get_obj h i)) @ (if f \<noteq> [] then [32] @ f else [])) (full_name h i)"

text \<open>An error whose message names an object; \<open>quoted\<close> puts a name in quotes.\<close>

definition quoted :: "jsstring \<Rightarrow> jsstring" where
  "quoted s = [39] @ s @ [39]"

definition fail :: "jsstring \<Rightarrow> 'a outcome" where
  "fail msg = Some (Inl (JsError msg))"

definition type_fail :: "jsstring \<Rightarrow> 'a outcome" where
  "type_fail msg = Some (Inl (JsTypeError msg))"

definition fail_in :: "jsstring \<Rightarrow> jsstring \<Rightarrow> heap \<Rightarrow> oid \<Rightarrow> 'a outcome" where
  "fail_in msg mid h i = (case obj_string h i of None \<Rightarrow> None | Some s \<Rightarrow> fail (msg @ mid @ s))"

definition done_with :: "'a \<Rightarrow> 'a outcome" where
  "done_with x = Some (Inr x)"

section \<open>Options\<close>

definition get_opts :: "heap \<Rightarrow> oid \<Rightarrow> opts option" where
  "get_opts h i = map_option (\<lambda>r. hp_opts h ! r) (ob_options (get_obj h i))"

definition get_option :: "heap \<Rightarrow> oid \<Rightarrow> jsstring \<Rightarrow> jsval" where
  "get_option h i name = (case get_opts h i of None \<Rightarrow> JUndef | Some os \<Rightarrow> (case prop_get os name of Some v \<Rightarrow> v | None \<Rightarrow> JUndef))"

text \<open>\<open>setOption\<close> of ReflectionObject, and of Field, which clears the cache of \<open>packed\<close>.\<close>

definition base_set_option :: "oid \<Rightarrow> jsstring \<Rightarrow> jsval \<Rightarrow> bool \<Rightarrow> heap \<Rightarrow> heap" where
  "base_set_option i name v if_not_set h =
     (if \<not> if_not_set \<or> get_option h i name = JUndef then
        (case ob_options (get_obj h i) of
           Some r \<Rightarrow> h\<lparr>hp_opts := (hp_opts h)[r := prop_set (hp_opts h ! r) name v]\<rparr>
         | None \<Rightarrow> upd_obj i (\<lambda>ob. ob\<lparr>ob_options := Some (length (hp_opts h))\<rparr>) (h\<lparr>hp_opts := hp_opts h @ [[(name, v)]]\<rparr>))
      else h)"

definition set_option :: "oid \<Rightarrow> jsstring \<Rightarrow> jsval \<Rightarrow> bool \<Rightarrow> heap \<Rightarrow> heap" where
  "set_option i name v if_not_set h =
     base_set_option i name v if_not_set
       (if is_field (get_obj h i) \<and> name = js ''packed''
        then upd_obj i (\<lambda>ob. ob\<lparr>ob_field := (ob_field ob)\<lparr>fd_packed_cache := None\<rparr>\<rparr>) h else h)"

definition set_options :: "oid \<Rightarrow> opts option \<Rightarrow> bool \<Rightarrow> heap \<Rightarrow> heap" where
  "set_options i os if_not_set h =
     (case os of None \<Rightarrow> h
      | Some os \<Rightarrow> fold (\<lambda>k. set_option i k (the (prop_get os k)) if_not_set) (object_keys os) h)"

text \<open>The getter \<open>packed\<close> of a field.\<close>

definition field_packed :: "oid \<Rightarrow> heap \<Rightarrow> heap \<times> bool" where
  "field_packed i h =
     (case fd_packed_cache (ob_field (get_obj h i)) of
        Some b \<Rightarrow> (h, b)
      | None \<Rightarrow>
          let b = get_option h i (js ''packed'') \<noteq> JBool False
          in (upd_obj i (\<lambda>ob. ob\<lparr>ob_field := (ob_field ob)\<lparr>fd_packed_cache := Some b\<rparr>\<rparr>) h, b))"

section \<open>Arrays of children\<close>

text \<open>\<open>util.toArray\<close>.\<close>

definition to_array :: "table option \<Rightarrow> oid list" where
  "to_array t = (case t of None \<Rightarrow> [] | Some t \<Rightarrow> map (\<lambda>k. the (prop_get t k)) (object_keys t))"

definition upd_ns :: "oid \<Rightarrow> (ns_data \<Rightarrow> ns_data) \<Rightarrow> heap \<Rightarrow> heap" where
  "upd_ns i f = upd_obj i (\<lambda>ob. ob\<lparr>ob_ns := f (ob_ns ob)\<rparr>)"

definition upd_type :: "oid \<Rightarrow> (type_data \<Rightarrow> type_data) \<Rightarrow> heap \<Rightarrow> heap" where
  "upd_type i f = upd_obj i (\<lambda>ob. ob\<lparr>ob_type := f (ob_type ob)\<rparr>)"

definition upd_service :: "oid \<Rightarrow> (service_data \<Rightarrow> service_data) \<Rightarrow> heap \<Rightarrow> heap" where
  "upd_service i f = upd_obj i (\<lambda>ob. ob\<lparr>ob_service := f (ob_service ob)\<rparr>)"

definition upd_field :: "oid \<Rightarrow> (field_data \<Rightarrow> field_data) \<Rightarrow> heap \<Rightarrow> heap" where
  "upd_field i f = upd_obj i (\<lambda>ob. ob\<lparr>ob_field := f (ob_field ob)\<rparr>)"

definition upd_oneof :: "oid \<Rightarrow> (oneof_data \<Rightarrow> oneof_data) \<Rightarrow> heap \<Rightarrow> heap" where
  "upd_oneof i f = upd_obj i (\<lambda>ob. ob\<lparr>ob_oneof := f (ob_oneof ob)\<rparr>)"

definition upd_root :: "oid \<Rightarrow> (root_data \<Rightarrow> root_data) \<Rightarrow> heap \<Rightarrow> heap" where
  "upd_root i f = upd_obj i (\<lambda>ob. ob\<lparr>ob_root := f (ob_root ob)\<rparr>)"

definition get_nested_array :: "oid \<Rightarrow> heap \<Rightarrow> heap \<times> oid list" where
  "get_nested_array i h =
     (let d = ob_ns (get_obj h i)
      in case ns_nested_array d of
           Some xs \<Rightarrow> (h, xs)
         | None \<Rightarrow> let xs = to_array (ns_nested d) in (upd_ns i (\<lambda>d. d\<lparr>ns_nested_array := Some xs\<rparr>) h, xs))"

definition get_fields_array :: "oid \<Rightarrow> heap \<Rightarrow> heap \<times> oid list" where
  "get_fields_array i h =
     (let d = ob_type (get_obj h i)
      in case ty_fields_array d of
           Some xs \<Rightarrow> (h, xs)
         | None \<Rightarrow> let xs = to_array (Some (ty_fields d)) in (upd_type i (\<lambda>d. d\<lparr>ty_fields_array := Some xs\<rparr>) h, xs))"

definition get_oneofs_array :: "oid \<Rightarrow> heap \<Rightarrow> heap \<times> oid list" where
  "get_oneofs_array i h =
     (let d = ob_type (get_obj h i)
      in case ty_oneofs_array d of
           Some xs \<Rightarrow> (h, xs)
         | None \<Rightarrow> let xs = to_array (ty_oneofs d) in (upd_type i (\<lambda>d. d\<lparr>ty_oneofs_array := Some xs\<rparr>) h, xs))"

definition get_methods_array :: "oid \<Rightarrow> heap \<Rightarrow> heap \<times> oid list" where
  "get_methods_array i h =
     (let d = ob_service (get_obj h i)
      in case sv_methods_array d of
           Some xs \<Rightarrow> (h, xs)
         | None \<Rightarrow> let xs = to_array (Some (sv_methods d)) in (upd_service i (\<lambda>d. d\<lparr>sv_methods_array := Some xs\<rparr>) h, xs))"

text \<open>The getter \<open>fieldsById\<close>, which throws when two fields have the same id.\<close>

fun by_id_loop :: "heap \<Rightarrow> oid list \<Rightarrow> (int \<times> oid) list \<Rightarrow> int + (int \<times> oid) list" where
  "by_id_loop h [] m = Inr m"
| "by_id_loop h (f # fs) m =
     (let k = fd_id (ob_field (get_obj h f))
      in if prop_get m k \<noteq> None then Inl k else by_id_loop h fs (prop_set m k f))"

definition get_fields_by_id :: "oid \<Rightarrow> heap \<Rightarrow> (heap \<times> (int \<times> oid) list) outcome" where
  "get_fields_by_id i h =
     (case ty_by_id (ob_type (get_obj h i)) of
        Some m \<Rightarrow> done_with (h, m)
      | None \<Rightarrow>
          (case by_id_loop h (to_array (Some (ty_fields (ob_type (get_obj h i))))) [] of
             Inl k \<Rightarrow> fail_in (js ''duplicate id '' @ dec_of_int k) (js '' in '') h i
           | Inr m \<Rightarrow> done_with (upd_type i (\<lambda>d. d\<lparr>ty_by_id := Some m\<rparr>) h, m)))"

section \<open>Names\<close>

text \<open>\<open>get\<close> of Namespace, Type and Service.\<close>

definition obj_get :: "heap \<Rightarrow> oid \<Rightarrow> jsstring \<Rightarrow> oid slot" where
  "obj_get h i name =
     (let ob = get_obj h i; ns = opt_get (ns_nested (ob_ns ob)) name
      in case ob_class ob of
           KType \<Rightarrow> or_else (tbl_get (ty_fields (ob_type ob)) name) (or_else (opt_get (ty_oneofs (ob_type ob)) name) ns)
         | KService \<Rightarrow> or_else (tbl_get (sv_methods (ob_service ob)) name) ns
         | _ \<Rightarrow> ns)"

text \<open>
  \<open>lookup(path, filterTypes, parentAlreadyChecked)\<close> on the segments of the path. The fuel bounds the
  number of segments that are left and parents that are climbed.
\<close>

fun lookup_segments ::
    "nat \<Rightarrow> heap \<Rightarrow> oid \<Rightarrow> jsstring list \<Rightarrow> obj_class list option \<Rightarrow> bool \<Rightarrow> oid slot option" where
  "lookup_segments 0 h i path flt checked = None"
| "lookup_segments (Suc n) h i path flt checked =
     (case path of
        [] \<Rightarrow> Some (Own i)
      | p # rest \<Rightarrow>
          if p = [] then (case root_of h i of None \<Rightarrow> None | Some r \<Rightarrow> lookup_segments n h r rest flt False)
          else
            (case (case obj_get h i p of
                     Absent \<Rightarrow> Some Absent
                   | Inherited \<Rightarrow> Some (if rest = [] \<and> flt = None then Inherited else Absent)
                   | Own j \<Rightarrow>
                       if rest = [] then
                         Some (if (case flt of None \<Rightarrow> True | Some ks \<Rightarrow> ob_class (get_obj h j) \<in> set ks) then Own j else Absent)
                       else if is_namespace (get_obj h j) then lookup_segments n h j rest flt True
                       else Some Absent) of
               None \<Rightarrow> None
             | Some Absent \<Rightarrow>
                 (case ob_parent (get_obj h i) of
                    None \<Rightarrow> Some Absent
                  | Some p' \<Rightarrow> if checked then Some Absent else lookup_segments n h p' path flt False)
             | Some r \<Rightarrow> Some r))"

definition lookup :: "heap \<Rightarrow> oid \<Rightarrow> jsstring \<Rightarrow> obj_class list option \<Rightarrow> oid slot option" where
  "lookup h i path flt =
     (if path = [46] then map_option Own (root_of h i)
      else if path = [] then Some (Own i)
      else lookup_segments (length (hp_objs h) + length (split_on 46 path) + 1) h i (split_on 46 path) flt False)"

definition lookup_type :: "heap \<Rightarrow> oid \<Rightarrow> jsstring \<Rightarrow> oid outcome" where
  "lookup_type h i path =
     (case lookup h i path (Some [KType]) of
        None \<Rightarrow> None | Some (Own j) \<Rightarrow> done_with j | Some _ \<Rightarrow> fail (js ''no such type''))"

definition lookup_enum :: "heap \<Rightarrow> oid \<Rightarrow> jsstring \<Rightarrow> oid outcome" where
  "lookup_enum h i path =
     (case lookup h i path (Some [KEnum]) of
        None \<Rightarrow> None | Some (Own j) \<Rightarrow> done_with j
      | Some _ \<Rightarrow> fail_in (js ''no such Enum '' @ quoted path) (js '' in '') h i)"

definition lookup_type_or_enum :: "heap \<Rightarrow> oid \<Rightarrow> jsstring \<Rightarrow> oid outcome" where
  "lookup_type_or_enum h i path =
     (case lookup h i path (Some [KType, KEnum]) of
        None \<Rightarrow> None | Some (Own j) \<Rightarrow> done_with j
      | Some _ \<Rightarrow> fail_in (js ''no such Type or Enum '' @ quoted path) (js '' in '') h i)"

definition lookup_service :: "heap \<Rightarrow> oid \<Rightarrow> jsstring \<Rightarrow> oid outcome" where
  "lookup_service h i path =
     (case lookup h i path (Some [KService]) of
        None \<Rightarrow> None | Some (Own j) \<Rightarrow> done_with j
      | Some _ \<Rightarrow> fail_in (js ''no such Service '' @ quoted path) (js '' in '') h i)"

definition get_enum :: "heap \<Rightarrow> oid \<Rightarrow> jsstring \<Rightarrow> (jsstring \<times> int) list res" where
  "get_enum h i name =
     (case opt_get (ns_nested (ob_ns (get_obj h i))) name of
        Own j \<Rightarrow> if ob_class (get_obj h j) = KEnum then Inr (en_vals (ob_enum (get_obj h j))) else Inl (JsError (js ''no such enum''))
      | _ \<Rightarrow> Inl (JsError (js ''no such enum'')))"

end
