(* ===== verification/ReflectAdd.thy ===== *)
theory ReflectAdd
  imports Reflect Convert
begin

text \<open>
  Construction and change of the reflection tree: the constructors, the add and remove operations of
  every class with the hooks that they call, the extensions that a root keeps track of, enum values
  and the members of a oneof. The operations call each other through the dispatcher \<open>disp\<close>, which
  \<open>run\<close> closes with fuel for the depth of the calls.
\<close>

section \<open>Constructors\<close>

definition new_namespace :: "jsstring \<Rightarrow> obj" where
  "new_namespace name = blank_obj KNamespace name None"

definition new_root :: obj where
  "new_root = blank_obj KRoot [] None"

definition new_type :: "jsstring \<Rightarrow> obj" where
  "new_type name = blank_obj KType name None"

definition new_service :: "jsstring \<Rightarrow> obj" where
  "new_service name = blank_obj KService name None"

text \<open>The property \<open>valuesById[id]\<close> keeps the last name, \<open>values[name]\<close> the id.\<close>

definition new_enum :: "jsstring \<Rightarrow> (jsstring \<times> int) list \<Rightarrow> obj" where
  "new_enum name values =
     (blank_obj KEnum name None)\<lparr>ob_enum :=
        \<lparr>en_vals = fold (\<lambda>k t. prop_set t k (the (prop_get values k))) (object_keys values) [],
         en_by_id = fold (\<lambda>k t. prop_set t (the (prop_get values k)) k) (object_keys values) [],
         en_comments = []\<rparr>\<rparr>"

definition lower_char :: "u16 \<Rightarrow> u16" where
  "lower_char c = (if 65 \<le> c \<and> c \<le> 90 then c + 32 else c)"

definition upper_char :: "u16 \<Rightarrow> u16" where
  "upper_char c = (if 97 \<le> c \<and> c \<le> 122 then c - 32 else c)"

text \<open>\<open>/^required|optional|repeated$/\<close>: the anchors bind to the first and the last alternative only.\<close>

definition rule_re :: "jsstring \<Rightarrow> bool" where
  "rule_re r \<longleftrightarrow> take 8 r = js ''required'' \<or> substring_of (js ''optional'') r
     \<or> (length r \<ge> 8 \<and> drop (length r - 8) r = js ''repeated'')"

definition new_field ::
    "jsstring \<Rightarrow> int \<Rightarrow> jsstring \<Rightarrow> jsstring option \<Rightarrow> jsstring option \<Rightarrow> nat option \<Rightarrow> obj res" where
  "new_field name i type rule ext options =
     (if i < 0 then Inl (JsTypeError (js ''id must be a non-negative integer''))
      else let rule = map_option (map lower_char) rule
           in if (case rule of Some r \<Rightarrow> \<not> rule_re r | None \<Rightarrow> False) then Inl (JsTypeError (js ''rule must be a string rule''))
              else Inr (let ob = blank_obj KField name options
                        in ob\<lparr>ob_field := (ob_field ob)\<lparr>
                             fd_rule := (case rule of Some r \<Rightarrow> if r \<noteq> [] \<and> r \<noteq> js ''optional'' then Some r else None | None \<Rightarrow> None),
                             fd_type := type, fd_id := i,
                             fd_extend := (if ext = Some [] then None else ext),
                             fd_required := (rule = Some (js ''required'')),
                             fd_repeated := (rule = Some (js ''repeated''))\<rparr>\<rparr>))"

definition new_map_field :: "jsstring \<Rightarrow> int \<Rightarrow> jsstring \<Rightarrow> jsstring \<Rightarrow> nat option \<Rightarrow> obj res" where
  "new_map_field name i key_type type options =
     bind_res (new_field name i type None None options) (\<lambda>ob.
       Inr (ob\<lparr>ob_class := KMapField, ob_field := (ob_field ob)\<lparr>fd_map := True, fd_key_type := key_type\<rparr>\<rparr>))"

definition new_oneof :: "jsstring \<Rightarrow> jsstring list \<Rightarrow> obj" where
  "new_oneof name field_names = (blank_obj KOneOf name None)\<lparr>ob_oneof := \<lparr>oneof_names = field_names, oneof_fields = []\<rparr>\<rparr>"

definition new_method :: "jsstring \<Rightarrow> jsstring option \<Rightarrow> jsstring \<Rightarrow> jsstring \<Rightarrow> bool \<Rightarrow> bool \<Rightarrow> obj" where
  "new_method name type request_type response_type request_stream response_stream =
     (let ob = blank_obj KMethod name None
      in ob\<lparr>ob_method := (ob_method ob)\<lparr>
           me_type := (case type of None \<Rightarrow> js ''rpc'' | Some t \<Rightarrow> if t = [] then js ''rpc'' else t),
           me_request_type := request_type, me_request_stream := request_stream,
           me_response_type := response_type, me_response_stream := response_stream\<rparr>\<rparr>)"

section \<open>Enum values\<close>

text \<open>\<open>this.values[name] !== undefined\<close>: \<open>values\<close> inherits from \<open>valuesById\<close>.\<close>

definition enum_has :: "enum_data \<Rightarrow> jsstring \<Rightarrow> bool" where
  "enum_has e name \<longleftrightarrow> tbl_get (en_vals e) name \<noteq> Absent \<or> (\<exists>(i, n) \<in> set (en_by_id e). dec_of_int i = name)"

definition enum_add :: "oid \<Rightarrow> jsstring \<Rightarrow> int \<Rightarrow> jsstring option \<Rightarrow> heap \<Rightarrow> heap res" where
  "enum_add i name k comment h =
     (let e = ob_enum (get_obj h i)
      in if enum_has e name then Inl (JsError (js ''duplicate name''))
         else let comments = prop_set (en_comments e) name (if comment = Some [] then None else comment)
              in if prop_get (en_by_id e) k \<noteq> None then
                   if \<not> js_truthy (get_option h i (js ''allow_alias''))
                   then Inl (JsError (js ''duplicate id''))
                   else Inr (upd_obj i (\<lambda>ob. ob\<lparr>ob_enum := e\<lparr>en_vals := prop_set (en_vals e) name k, en_comments := comments\<rparr>\<rparr>) h)
                 else Inr (upd_obj i (\<lambda>ob. ob\<lparr>ob_enum := e\<lparr>en_vals := prop_set (en_vals e) name k,
                            en_by_id := prop_set (en_by_id e) k name, en_comments := comments\<rparr>\<rparr>) h))"

text \<open>The value of an inherited name is not modelled.\<close>

definition enum_remove :: "oid \<Rightarrow> jsstring \<Rightarrow> heap \<Rightarrow> heap outcome" where
  "enum_remove i name h =
     (let e = ob_enum (get_obj h i)
      in case prop_get (en_vals e) name of
           None \<Rightarrow> if enum_has e name then None else fail (js ''name does not exist'')
         | Some k \<Rightarrow>
             done_with (upd_obj i (\<lambda>ob. ob\<lparr>ob_enum := e\<lparr>en_vals := prop_del (en_vals e) name,
               en_by_id := prop_del (en_by_id e) k, en_comments := prop_del (en_comments e) name\<rparr>\<rparr>) h))"

section \<open>Reserved ids and names\<close>

definition is_reserved_id :: "type_data \<Rightarrow> int \<Rightarrow> bool" where
  "is_reserved_id d k \<longleftrightarrow>
     (case ty_reserved d of
        None \<Rightarrow> False
      | Some rs \<Rightarrow> list_ex (\<lambda>r. case r of NameRange _ \<Rightarrow> False | IdRange a b \<Rightarrow> a \<le> k \<and> k \<le> b) rs)"

definition is_reserved_name :: "type_data \<Rightarrow> jsstring \<Rightarrow> bool" where
  "is_reserved_name d name \<longleftrightarrow>
     (case ty_reserved d of None \<Rightarrow> False | Some rs \<Rightarrow> list_ex (\<lambda>r. r = NameRange name) rs)"

section \<open>Calls\<close>

text \<open>
  The calls that are dispatched on the class of an object: \<open>t.add(x)\<close>, \<open>t.remove(x)\<close>, \<open>x.onAdd(t)\<close>,
  \<open>x.onRemove(t)\<close>, and \<open>_handleAdd\<close> and \<open>_handleRemove\<close> of a root.
\<close>

datatype call =
    CAdd oid oid
  | CRemove oid oid
  | COnAdd oid oid
  | COnRemove oid oid
  | CHandleAdd oid oid
  | CHandleRemove oid oid

type_synonym dispatcher = "call \<Rightarrow> heap \<Rightarrow> heap outcome"

definition set_parent :: "oid \<Rightarrow> oid option \<Rightarrow> heap \<Rightarrow> heap" where
  "set_parent i p = upd_obj i (\<lambda>ob. ob\<lparr>ob_parent := p\<rparr>)"

definition set_unresolved :: "oid \<Rightarrow> oid option \<Rightarrow> heap \<Rightarrow> heap" where
  "set_unresolved i p = upd_obj i (\<lambda>ob. ob\<lparr>ob_parent := p, ob_resolved := False\<rparr>)"

text \<open>\<open>root instanceof Root\<close>, and then the call.\<close>

definition if_rooted :: "oid \<Rightarrow> (oid \<Rightarrow> heap \<Rightarrow> heap outcome) \<Rightarrow> heap \<Rightarrow> heap outcome" where
  "if_rooted p f h =
     (case root_of h p of
        None \<Rightarrow> None
      | Some r \<Rightarrow> if ob_class (get_obj h r) = KRoot then f r h else done_with h)"

definition base_on_add :: "dispatcher \<Rightarrow> oid \<Rightarrow> oid \<Rightarrow> heap \<Rightarrow> heap outcome" where
  "base_on_add disp x p h =
     obind (case ob_parent (get_obj h x) of
              Some q \<Rightarrow> if q \<noteq> p then disp (CRemove q x) h else done_with h
            | None \<Rightarrow> done_with h) (\<lambda>h.
       if_rooted p (\<lambda>r. disp (CHandleAdd r x)) (set_unresolved x (Some p) h))"

definition base_on_remove :: "dispatcher \<Rightarrow> oid \<Rightarrow> oid \<Rightarrow> heap \<Rightarrow> heap outcome" where
  "base_on_remove disp x p h =
     obind (if_rooted p (\<lambda>r. disp (CHandleRemove r x)) h) (\<lambda>h. done_with (set_unresolved x None h))"

section \<open>Oneofs\<close>

definition add_fields_to_parent :: "dispatcher \<Rightarrow> oid \<Rightarrow> heap \<Rightarrow> heap outcome" where
  "add_fields_to_parent disp x h =
     (case ob_parent (get_obj h x) of
        None \<Rightarrow> done_with h
      | Some p \<Rightarrow>
          ofold (\<lambda>f h. if ob_parent (get_obj h f) = None then disp (CAdd p f) h else done_with h)
            (oneof_fields (ob_oneof (get_obj h x))) h)"

definition oneof_add :: "dispatcher \<Rightarrow> oid \<Rightarrow> oid \<Rightarrow> heap \<Rightarrow> heap outcome" where
  "oneof_add disp x f h =
     (if \<not> is_field (get_obj h f) then type_fail (js ''field must be a Field'')
      else obind (case ob_parent (get_obj h f) of
                    Some q \<Rightarrow> if ob_parent (get_obj h x) \<noteq> Some q then disp (CRemove q f) h else done_with h
                  | None \<Rightarrow> done_with h) (\<lambda>h.
        let h = upd_oneof x (\<lambda>d. d\<lparr>oneof_names := oneof_names d @ [ob_name (get_obj h f)], oneof_fields := oneof_fields d @ [f]\<rparr>) h;
            h = upd_field f (\<lambda>d. d\<lparr>fd_part_of := Some x\<rparr>) h
        in add_fields_to_parent disp x h))"

definition oneof_remove :: "oid \<Rightarrow> oid \<Rightarrow> heap \<Rightarrow> heap outcome" where
  "oneof_remove x f h =
     (if \<not> is_field (get_obj h f) then type_fail (js ''field must be a Field'')
      else if f \<notin> set (oneof_fields (ob_oneof (get_obj h x))) then
        (case obj_string h f of None \<Rightarrow> None | Some s \<Rightarrow> fail_in s (js '' is not a member of '') h x)
      else done_with (upd_field f (\<lambda>d. d\<lparr>fd_part_of := None\<rparr>)
             (upd_oneof x (\<lambda>d. d\<lparr>oneof_fields := splice_first (\<lambda>y. y = f) (oneof_fields d),
                                oneof_names := splice_first (\<lambda>n. n = ob_name (get_obj h f)) (oneof_names d)\<rparr>) h)))"

text \<open>A name that finds an inherited property of a table is not modelled.\<close>

definition oneof_on_add :: "dispatcher \<Rightarrow> oid \<Rightarrow> oid \<Rightarrow> heap \<Rightarrow> heap outcome" where
  "oneof_on_add disp x p h =
     obind (base_on_add disp x p h) (\<lambda>h.
       obind (ofold (\<lambda>name h.
                case obj_get h p name of
                  Absent \<Rightarrow> done_with h
                | Inherited \<Rightarrow> None
                | Own f \<Rightarrow>
                    if fd_part_of (ob_field (get_obj h f)) = None
                    then done_with (upd_oneof x (\<lambda>d. d\<lparr>oneof_fields := oneof_fields d @ [f]\<rparr>)
                           (upd_field f (\<lambda>d. d\<lparr>fd_part_of := Some x\<rparr>) h))
                    else done_with h)
              (oneof_names (ob_oneof (get_obj h x))) h)
         (add_fields_to_parent disp x))"

definition oneof_on_remove :: "dispatcher \<Rightarrow> oid \<Rightarrow> oid \<Rightarrow> heap \<Rightarrow> heap outcome" where
  "oneof_on_remove disp x p h =
     obind (ofold (\<lambda>f h. case ob_parent (get_obj h f) of Some q \<Rightarrow> disp (CRemove q f) h | None \<Rightarrow> done_with h)
              (oneof_fields (ob_oneof (get_obj h x))) h)
       (base_on_remove disp x p)"

section \<open>Namespaces\<close>

definition valid_nested :: "obj \<Rightarrow> bool" where
  "valid_nested ob \<longleftrightarrow> is_field ob \<and> fd_extend (ob_field ob) \<noteq> None \<or> ob_class ob = KEnum \<or> is_namespace ob"

definition duplicate_name :: "jsstring \<Rightarrow> heap \<Rightarrow> oid \<Rightarrow> 'a outcome" where
  "duplicate_name name h t = fail_in (js ''duplicate name '' @ quoted name) (js '' in '') h t"

definition set_nested :: "oid \<Rightarrow> table option \<Rightarrow> heap \<Rightarrow> heap" where
  "set_nested t n = upd_ns t (\<lambda>d. d\<lparr>ns_nested := n\<rparr>)"

definition clear_nested_cache :: "oid \<Rightarrow> heap \<Rightarrow> heap" where
  "clear_nested_cache t = upd_ns t (\<lambda>d. d\<lparr>ns_nested_array := None\<rparr>)"

text \<open>\<open>if (!this.nested) this.nested = {}\<close>.\<close>

definition init_nested :: "oid \<Rightarrow> heap \<Rightarrow> heap" where
  "init_nested t h = (if ns_nested (ob_ns (get_obj h t)) = None then set_nested t (Some []) h else h)"

text \<open>A plain namespace of the same name is replaced: its children move over, its options are kept.\<close>

definition ns_replace :: "dispatcher \<Rightarrow> oid \<Rightarrow> oid \<Rightarrow> oid \<Rightarrow> heap \<Rightarrow> heap outcome" where
  "ns_replace disp t prev x h =
     (case get_nested_array prev h of
        (h, children) \<Rightarrow>
          obind (ofold (\<lambda>c. disp (CAdd x c)) children h) (\<lambda>h.
            obind (disp (CRemove t prev) h) (\<lambda>h.
              let h = init_nested t h in done_with (set_options x (get_opts h prev) True h))))"

text \<open>In a fresh table \<open>__proto__\<close> would replace the prototype, which is not modelled; later it is a duplicate name.\<close>

definition ns_add :: "dispatcher \<Rightarrow> oid \<Rightarrow> oid \<Rightarrow> heap \<Rightarrow> heap outcome" where
  "ns_add disp t x h =
     (let ob = get_obj h x in
      if \<not> valid_nested ob then type_fail (js ''object must be a valid nested object'')
      else obind
        (if ns_nested (ob_ns (get_obj h t)) = None
         then (if ob_name ob = js ''__proto__'' then None else done_with (init_nested t h))
         else (case obj_get h t (ob_name ob) of
                 Absent \<Rightarrow> done_with h
               | Inherited \<Rightarrow> duplicate_name (ob_name ob) h t
               | Own prev \<Rightarrow>
                   if is_namespace (get_obj h prev) \<and> is_namespace ob \<and> ob_class (get_obj h prev) \<notin> {KType, KService}
                   then ns_replace disp t prev x h
                   else duplicate_name (ob_name ob) h t)) (\<lambda>h.
          let h = upd_ns t (\<lambda>d. d\<lparr>ns_nested := Some (prop_set (the (ns_nested d)) (ob_name ob) x)\<rparr>) h
          in obind (disp (COnAdd x t) h) (\<lambda>h. done_with (clear_nested_cache t h))))"

definition not_a_member :: "oid \<Rightarrow> oid \<Rightarrow> heap \<Rightarrow> 'a outcome" where
  "not_a_member x t h = (case obj_string h x of None \<Rightarrow> None | Some s \<Rightarrow> fail_in s (js '' is not a member of '') h t)"

definition ns_remove :: "dispatcher \<Rightarrow> oid \<Rightarrow> oid \<Rightarrow> heap \<Rightarrow> heap outcome" where
  "ns_remove disp t x h =
     (if ob_parent (get_obj h x) \<noteq> Some t then not_a_member x t h
      else case ns_nested (ob_ns (get_obj h t)) of
             None \<Rightarrow> type_fail (ob_name (get_obj h x))
           | Some n \<Rightarrow>
               let n = prop_del n (ob_name (get_obj h x));
                   h = set_nested t (if n = [] then None else Some n) h
               in obind (disp (COnRemove x t) h) (\<lambda>h. done_with (clear_nested_cache t h)))"

section \<open>Types\<close>

definition clear_type_cache :: "oid \<Rightarrow> heap \<Rightarrow> heap" where
  "clear_type_cache t = upd_type t (\<lambda>d. d\<lparr>ty_by_id := None, ty_fields_array := None, ty_oneofs_array := None\<rparr>)"

definition type_add :: "dispatcher \<Rightarrow> oid \<Rightarrow> oid \<Rightarrow> heap \<Rightarrow> heap outcome" where
  "type_add disp t x h =
     (let ob = get_obj h x; name = ob_name ob; k = fd_id (ob_field ob) in
      if obj_get h t name \<noteq> Absent then duplicate_name name h t
      else if is_field ob \<and> fd_extend (ob_field ob) = None then
        obind (get_fields_by_id t h) (\<lambda>(h, by_id).
          if prop_get by_id k \<noteq> None then fail_in (js ''duplicate id '' @ dec_of_int k) (js '' in '') h t
          else if is_reserved_id (ob_type (get_obj h t)) k then fail_in (js ''id '' @ dec_of_int k) (js '' is reserved in '') h t
          else if is_reserved_name (ob_type (get_obj h t)) name then fail_in (js ''name '' @ quoted name) (js '' is reserved in '') h t
          else obind (case ob_parent (get_obj h x) of Some q \<Rightarrow> disp (CRemove q x) h | None \<Rightarrow> done_with h) (\<lambda>h.
            let h = upd_type t (\<lambda>d. d\<lparr>ty_fields := prop_set (ty_fields d) name x\<rparr>) h;
                h = upd_field x (\<lambda>d. d\<lparr>fd_message := Some t\<rparr>) h
            in obind (disp (COnAdd x t) h) (\<lambda>h. done_with (clear_type_cache t h))))
      else if ob_class ob = KOneOf then
        let h = upd_type t (\<lambda>d. d\<lparr>ty_oneofs := Some (prop_set (case ty_oneofs d of None \<Rightarrow> [] | Some os \<Rightarrow> os) name x)\<rparr>) h
        in obind (disp (COnAdd x t) h) (\<lambda>h. done_with (clear_type_cache t h))
      else ns_add disp t x h)"

definition type_remove :: "dispatcher \<Rightarrow> oid \<Rightarrow> oid \<Rightarrow> heap \<Rightarrow> heap outcome" where
  "type_remove disp t x h =
     (let ob = get_obj h x; name = ob_name ob; d = ob_type (get_obj h t) in
      if is_field ob \<and> fd_extend (ob_field ob) = None then
        (if prop_get (ty_fields d) name \<noteq> Some x then not_a_member x t h
         else let h = upd_type t (\<lambda>d. d\<lparr>ty_fields := prop_del (ty_fields d) name\<rparr>) h
              in obind (disp (COnRemove x t) (set_parent x None h)) (\<lambda>h. done_with (clear_type_cache t h)))
      else if ob_class ob = KOneOf then
        (if (case ty_oneofs d of None \<Rightarrow> None | Some os \<Rightarrow> prop_get os name) \<noteq> Some x then not_a_member x t h
         else let h = upd_type t (\<lambda>d. d\<lparr>ty_oneofs := map_option (\<lambda>os. prop_del os name) (ty_oneofs d)\<rparr>) h
              in obind (disp (COnRemove x t) (set_parent x None h)) (\<lambda>h. done_with (clear_type_cache t h)))
      else ns_remove disp t x h)"

section \<open>Services\<close>

definition clear_service_cache :: "oid \<Rightarrow> heap \<Rightarrow> heap" where
  "clear_service_cache t = upd_service t (\<lambda>d. d\<lparr>sv_methods_array := None\<rparr>)"

definition service_add :: "dispatcher \<Rightarrow> oid \<Rightarrow> oid \<Rightarrow> heap \<Rightarrow> heap outcome" where
  "service_add disp t x h =
     (let name = ob_name (get_obj h x) in
      if obj_get h t name \<noteq> Absent then duplicate_name name h t
      else if ob_class (get_obj h x) = KMethod then
        done_with (clear_service_cache t (set_parent x (Some t)
          (upd_service t (\<lambda>d. d\<lparr>sv_methods := prop_set (sv_methods d) name x\<rparr>) h)))
      else ns_add disp t x h)"

definition service_remove :: "dispatcher \<Rightarrow> oid \<Rightarrow> oid \<Rightarrow> heap \<Rightarrow> heap outcome" where
  "service_remove disp t x h =
     (if ob_class (get_obj h x) = KMethod then
        if prop_get (sv_methods (ob_service (get_obj h t))) (ob_name (get_obj h x)) \<noteq> Some x then not_a_member x t h
        else done_with (clear_service_cache t (set_parent x None
               (upd_service t (\<lambda>d. d\<lparr>sv_methods := prop_del (sv_methods d) (ob_name (get_obj h x))\<rparr>) h)))
      else ns_remove disp t x h)"

section \<open>Roots\<close>

text \<open>\<open>/^[A-Z]/\<close>.\<close>

definition expose_re :: "jsstring \<Rightarrow> bool" where
  "expose_re name = (case name of c # _ \<Rightarrow> 65 \<le> c \<and> c \<le> 90 | [] \<Rightarrow> False)"

definition expose :: "oid \<Rightarrow> heap \<Rightarrow> heap outcome" where
  "expose x h =
     (let name = ob_name (get_obj h x) in
      if expose_re name then
        (case ob_parent (get_obj h x) of
           None \<Rightarrow> type_fail name
         | Some p \<Rightarrow> done_with (upd_ns p (\<lambda>d. d\<lparr>ns_exposed := prop_set (ns_exposed d) name x\<rparr>) h))
      else done_with h)"

definition unexpose :: "oid \<Rightarrow> heap \<Rightarrow> heap outcome" where
  "unexpose x h =
     (let name = ob_name (get_obj h x) in
      if expose_re name then
        (case ob_parent (get_obj h x) of
           None \<Rightarrow> type_fail name
         | Some p \<Rightarrow> done_with (upd_ns p (\<lambda>d. d\<lparr>ns_exposed := prop_del (ns_exposed d) name\<rparr>) h))
      else done_with h)"

text \<open>
  \<open>tryHandleExtension\<close>: the sister field takes the name of the extension and shares its options. A look-up
  that finds an inherited property or an object without \<open>add\<close> ends in a TypeError.
\<close>

definition try_handle_extension :: "dispatcher \<Rightarrow> oid \<Rightarrow> heap \<Rightarrow> (heap \<times> bool) outcome" where
  "try_handle_extension disp f h =
     (let ob = get_obj h f; d = ob_field ob in
      case ob_parent ob of
        None \<Rightarrow> type_fail (js ''lookup'')
      | Some p \<Rightarrow>
          (case lookup h p (the (fd_extend d)) None of
             None \<Rightarrow> None
           | Some Absent \<Rightarrow> done_with (h, False)
           | Some Inherited \<Rightarrow> type_fail (js ''add'')
           | Some (Own t) \<Rightarrow>
               (case full_name h f of
                  None \<Rightarrow> None
                | Some name \<Rightarrow>
                    (case new_field name (fd_id d) (fd_type d) (fd_rule d) None (ob_options ob) of
                       Inl e \<Rightarrow> Some (Inl e)
                     | Inr sister \<Rightarrow>
                         (case alloc_obj sister h of
                            (h, s) \<Rightarrow>
                              let h = upd_field s (\<lambda>d. d\<lparr>fd_declaring_field := Some f\<rparr>) h;
                                  h = upd_field f (\<lambda>d. d\<lparr>fd_extension_field := Some s\<rparr>) h
                              in obind (disp (CAdd t s) h) (\<lambda>h. done_with (h, True)))))))"

text \<open>The loop over the deferred extensions: the handled ones are spliced out of the array.\<close>

fun retry_deferred :: "nat \<Rightarrow> dispatcher \<Rightarrow> oid \<Rightarrow> nat \<Rightarrow> heap \<Rightarrow> heap outcome" where
  "retry_deferred 0 disp r i h = None"
| "retry_deferred (Suc n) disp r i h =
     (let ds = rt_deferred (ob_root (get_obj h r)) in
      if i < length ds then
        obind (try_handle_extension disp (ds ! i) h) (\<lambda>(h, handled).
          if handled then retry_deferred n disp r i (upd_root r (\<lambda>d. d\<lparr>rt_deferred := splice1 i (rt_deferred d)\<rparr>) h)
          else retry_deferred n disp r (i + 1) h)
      else done_with h)"

text \<open>\<open>for (j = 0; j < object.nestedArray.length; ++j) f(object._nestedArray[j])\<close>, with the getter in every round.\<close>

fun each_nested :: "nat \<Rightarrow> (oid \<Rightarrow> heap \<Rightarrow> heap outcome) \<Rightarrow> oid \<Rightarrow> nat \<Rightarrow> heap \<Rightarrow> heap outcome" where
  "each_nested 0 f x j h = None"
| "each_nested (Suc n) f x j h =
     (case get_nested_array x h of
        (h, xs) \<Rightarrow> if j < length xs then obind (f (xs ! j) h) (each_nested n f x (j + 1)) else done_with h)"

definition loop_fuel :: "heap \<Rightarrow> nat" where
  "loop_fuel h = 2 * length (hp_objs h) + 1"

text \<open>\<open>_handleAdd\<close>; a oneof has no nested array, so the property read throws.\<close>

definition handle_add :: "dispatcher \<Rightarrow> oid \<Rightarrow> oid \<Rightarrow> heap \<Rightarrow> heap outcome" where
  "handle_add disp r x h =
     (let ob = get_obj h x in
      if is_field ob then
        if fd_extend (ob_field ob) \<noteq> None \<and> fd_extension_field (ob_field ob) = None then
          obind (try_handle_extension disp x h) (\<lambda>(h, handled).
            done_with (if handled then h else upd_root r (\<lambda>d. d\<lparr>rt_deferred := rt_deferred d @ [x]\<rparr>) h))
        else done_with h
      else if ob_class ob = KEnum then expose x h
      else
        obind (if ob_class ob = KType then retry_deferred (loop_fuel h) disp r 0 h else done_with h) (\<lambda>h.
          if \<not> is_namespace ob then type_fail (js ''length'')
          else obind (each_nested (loop_fuel h) (\<lambda>c. disp (CHandleAdd r c)) x 0 h) (expose x)))"

definition handle_remove :: "dispatcher \<Rightarrow> oid \<Rightarrow> oid \<Rightarrow> heap \<Rightarrow> heap outcome" where
  "handle_remove disp r x h =
     (let ob = get_obj h x in
      if is_field ob then
        if fd_extend (ob_field ob) \<noteq> None then
          (case fd_extension_field (ob_field ob) of
             Some s \<Rightarrow>
               (case ob_parent (get_obj h s) of
                  None \<Rightarrow> type_fail (js ''remove'')
                | Some q \<Rightarrow> obind (disp (CRemove q s) h) (\<lambda>h. done_with (upd_field x (\<lambda>d. d\<lparr>fd_extension_field := None\<rparr>) h)))
           | None \<Rightarrow> done_with (upd_root r (\<lambda>d. d\<lparr>rt_deferred := splice_first (\<lambda>y. y = x) (rt_deferred d)\<rparr>) h))
        else done_with h
      else if ob_class ob = KEnum then unexpose x h
      else if is_namespace ob then
        obind (each_nested (loop_fuel h) (\<lambda>c. disp (CHandleRemove r c)) x 0 h) (unexpose x)
      else done_with h)"

section \<open>The dispatcher\<close>

definition no_method :: "jsstring \<Rightarrow> 'a outcome" where
  "no_method name = type_fail (name @ js '' is not a function'')"

definition dispatch :: "dispatcher \<Rightarrow> call \<Rightarrow> heap \<Rightarrow> heap outcome" where
  "dispatch disp c h =
     (case c of
        CAdd t x \<Rightarrow>
          (case ob_class (get_obj h t) of
             KType \<Rightarrow> type_add disp t x h
           | KService \<Rightarrow> service_add disp t x h
           | KOneOf \<Rightarrow> oneof_add disp t x h
           | KNamespace \<Rightarrow> ns_add disp t x h
           | KRoot \<Rightarrow> ns_add disp t x h
           | KEnum \<Rightarrow> type_fail (js ''name must be a string'')
           | _ \<Rightarrow> no_method (js ''add''))
      | CRemove t x \<Rightarrow>
          (case ob_class (get_obj h t) of
             KType \<Rightarrow> type_remove disp t x h
           | KService \<Rightarrow> service_remove disp t x h
           | KOneOf \<Rightarrow> oneof_remove t x h
           | KNamespace \<Rightarrow> ns_remove disp t x h
           | KRoot \<Rightarrow> ns_remove disp t x h
           | KEnum \<Rightarrow> type_fail (js ''name must be a string'')
           | _ \<Rightarrow> no_method (js ''remove''))
      | COnAdd x p \<Rightarrow> if ob_class (get_obj h x) = KOneOf then oneof_on_add disp x p h else base_on_add disp x p h
      | COnRemove x p \<Rightarrow> if ob_class (get_obj h x) = KOneOf then oneof_on_remove disp x p h else base_on_remove disp x p h
      | CHandleAdd r x \<Rightarrow> handle_add disp r x h
      | CHandleRemove r x \<Rightarrow> handle_remove disp r x h)"

fun run :: "nat \<Rightarrow> call \<Rightarrow> heap \<Rightarrow> heap outcome" where
  "run 0 c h = None"
| "run (Suc n) c h = dispatch (run n) c h"

text \<open>\<open>define(path)\<close> on the segments of a path, which makes the namespaces that are missing.\<close>

fun define_loop :: "nat \<Rightarrow> oid \<Rightarrow> jsstring list \<Rightarrow> heap \<Rightarrow> (heap \<times> oid) outcome" where
  "define_loop n ptr [] h = done_with (h, ptr)"
| "define_loop n ptr (part # path) h =
     (case opt_get (ns_nested (ob_ns (get_obj h ptr))) part of
        Own j \<Rightarrow>
          if is_namespace (get_obj h j) then define_loop n j path h
          else fail (js ''path conflicts with non-namespace objects'')
      | Inherited \<Rightarrow> fail (js ''path conflicts with non-namespace objects'')
      | Absent \<Rightarrow>
          (case alloc_obj (new_namespace part) h of
             (h, j) \<Rightarrow> obind (run n (CAdd ptr j) h) (define_loop n j path)))"

definition ns_define :: "nat \<Rightarrow> oid \<Rightarrow> jsstring list \<Rightarrow> heap \<Rightarrow> (heap \<times> oid) outcome" where
  "ns_define n t path h =
     (if path \<noteq> [] \<and> hd path = [] then fail (js ''path must be relative'') else define_loop n t path h)"

end
