(* ===== verification/ReflectResolve.thy ===== *)
theory ReflectResolve
  imports ReflectAdd
begin

text \<open>
  The resolution of type references: \<open>resolve\<close> and \<open>resolveAll\<close> of every class, and the message types
  that the code generators see.
\<close>

section \<open>resolve\<close>

text \<open>\<open>ReflectionObject#resolve\<close>: only a part of a root becomes resolved.\<close>

definition base_resolve :: "oid \<Rightarrow> heap \<Rightarrow> heap outcome" where
  "base_resolve i h =
     (if ob_resolved (get_obj h i) then done_with h
      else if_rooted i (\<lambda>r h. done_with (upd_obj i (\<lambda>ob. ob\<lparr>ob_resolved := True\<rparr>) h)) h)"

definition scalar_of :: "jsstring \<Rightarrow> scalar option" where
  "scalar_of s = find (\<lambda>t. scalar_name t = s) s_names"

text \<open>\<open>types.defaults[this.type]\<close>; a type that is called like an inherited property is not modelled.\<close>

definition default_slot :: "jsstring \<Rightarrow> jsval slot" where
  "default_slot type =
     (case scalar_of type of
        Some t \<Rightarrow> Own (the (prop_get types_defaults t))
      | None \<Rightarrow> if type \<in> set proto_names then Inherited else Absent)"

definition value_or_undef :: "(jsstring \<times> int) list \<Rightarrow> jsstring \<Rightarrow> jsval" where
  "value_or_undef t k = (case prop_get t k of Some v \<Rightarrow> JNum v | None \<Rightarrow> JUndef)"

definition first_value :: "enum_data \<Rightarrow> jsval" where
  "first_value e = (case object_keys (en_vals e) of [] \<Rightarrow> JUndef | k # _ \<Rightarrow> value_or_undef (en_vals e) k)"

text \<open>\<open>values[name]\<close> with the ids that the values inherit; other inherited names are not modelled.\<close>

definition enum_value_of :: "enum_data \<Rightarrow> jsstring \<Rightarrow> jsval option" where
  "enum_value_of e name =
     (case tbl_get (en_vals e) name of
        Own v \<Rightarrow> Some (JNum v)
      | s \<Rightarrow> (case find (\<lambda>(i, n). dec_of_int i = name) (en_by_id e) of
                 Some (i, n) \<Rightarrow> Some (JStr n)
               | None \<Rightarrow> if s = Inherited then None else Some JUndef))"

text \<open>The default of a bytes field that is given as a string: base64 if it looks like it, else UTF-8.\<close>

definition bytes_default :: "jsstring \<Rightarrow> jsval res" where
  "bytes_default s =
     (if base64_test s then
        (case base64_decode s (replicate (nat \<lfloor>base64_length s\<rfloor>) 0) 0 of
           (buf, Inl e) \<Rightarrow> Inl e | (buf, Inr n) \<Rightarrow> Inr (JBytes buf))
      else Inr (JBytes (fst (utf8_write s (replicate (utf8_length s) 0) 0))))"

text \<open>The first part of \<open>Field#resolve\<close>: the referenced type and the default that the type has.\<close>

definition resolve_type :: "oid \<Rightarrow> heap \<Rightarrow> heap outcome" where
  "resolve_type f h =
     (let ob = get_obj h f; d = ob_field ob in
      case default_slot (fd_type d) of
        Inherited \<Rightarrow> None
      | Own v \<Rightarrow> done_with (upd_field f (\<lambda>d. d\<lparr>fd_type_default := v\<rparr>) h)
      | Absent \<Rightarrow>
          (case (case fd_declaring_field d of Some g \<Rightarrow> ob_parent (get_obj h g) | None \<Rightarrow> ob_parent ob) of
             None \<Rightarrow> type_fail (js ''lookupTypeOrEnum'')
           | Some p \<Rightarrow>
               if \<not> is_namespace (get_obj h p) then no_method (js ''lookupTypeOrEnum'')
               else obind (lookup_type_or_enum h p (fd_type d)) (\<lambda>t.
                 let v = (if ob_class (get_obj h t) = KType then JNull else first_value (ob_enum (get_obj h t)))
                 in done_with (upd_field f (\<lambda>d. d\<lparr>fd_resolved_type := Some t, fd_type_default := v\<rparr>) h))))"

definition resolves_to :: "heap \<Rightarrow> oid \<Rightarrow> obj_class \<Rightarrow> bool" where
  "resolves_to h f k =
     (case fd_resolved_type (ob_field (get_obj h f)) of Some t \<Rightarrow> ob_class (get_obj h t) = k | None \<Rightarrow> False)"

text \<open>The explicit default, and the packed option that only packable types keep.\<close>

definition resolve_default :: "oid \<Rightarrow> heap \<Rightarrow> heap outcome" where
  "resolve_default f h =
     (let v = get_option h f (js ''default'') in
      if v = JUndef then done_with h
      else
        (case (if resolves_to h f KEnum then
                 (case v of JStr s \<Rightarrow> enum_value_of (ob_enum (get_obj h (the (fd_resolved_type (ob_field (get_obj h f)))))) s | _ \<Rightarrow> Some v)
               else Some v) of
           None \<Rightarrow> None
         | Some v \<Rightarrow> done_with (upd_field f (\<lambda>d. d\<lparr>fd_type_default := v\<rparr>) h)))"

definition drop_packed :: "oid \<Rightarrow> heap \<Rightarrow> heap" where
  "drop_packed f h =
     (if get_option h f (js ''packed'') \<noteq> JUndef \<and> fd_resolved_type (ob_field (get_obj h f)) \<noteq> None \<and> \<not> resolves_to h f KEnum
      then let r = the (ob_options (get_obj h f)) in h\<lparr>hp_opts := (hp_opts h)[r := prop_del (hp_opts h ! r) (js ''packed'')]\<rparr>
      else h)"

definition field_resolve :: "oid \<Rightarrow> heap \<Rightarrow> heap outcome" where
  "field_resolve f h =
     (if ob_resolved (get_obj h f) then done_with h
      else obind (resolve_type f h) (\<lambda>h. obind (resolve_default f h) (\<lambda>h.
        let h = drop_packed f h; d = ob_field (get_obj h f) in
        obind (case fd_type_default d of
                 JStr s \<Rightarrow> if fd_type d = js ''bytes'' then Some (bytes_default s) else done_with (JStr s)
               | v \<Rightarrow> done_with v) (\<lambda>v.
          base_resolve f (upd_field f (\<lambda>d. d\<lparr>fd_type_default := v,
            fd_default_value := (if fd_map d then JObj [] else if fd_repeated d then JArr [] else v)\<rparr>) h)))))"

text \<open>\<open>MapField#resolve\<close>: \<open>types.mapKey[this.keyType]\<close>, where an inherited property counts as defined.\<close>

definition map_key_ok :: "jsstring \<Rightarrow> bool" where
  "map_key_ok kt \<longleftrightarrow> (case scalar_of kt of Some t \<Rightarrow> prop_get types_mapKey t \<noteq> None | None \<Rightarrow> kt \<in> set proto_names)"

definition map_field_resolve :: "oid \<Rightarrow> heap \<Rightarrow> heap outcome" where
  "map_field_resolve f h =
     (if ob_resolved (get_obj h f) then done_with h
      else if \<not> map_key_ok (fd_key_type (ob_field (get_obj h f)))
      then fail (js ''invalid key type: '' @ fd_key_type (ob_field (get_obj h f)))
      else field_resolve f h)"

definition method_resolve :: "oid \<Rightarrow> heap \<Rightarrow> heap outcome" where
  "method_resolve m h =
     (if ob_resolved (get_obj h m) then done_with h
      else case ob_parent (get_obj h m) of
             None \<Rightarrow> type_fail (js ''lookupType'')
           | Some p \<Rightarrow>
               obind (lookup_type h p (me_request_type (ob_method (get_obj h m)))) (\<lambda>q.
                 obind (lookup_type h p (me_response_type (ob_method (get_obj h m)))) (\<lambda>s.
                   base_resolve m (upd_obj m (\<lambda>ob. ob\<lparr>ob_method := (ob_method ob)\<lparr>me_resolved_request := Some q, me_resolved_response := Some s\<rparr>\<rparr>) h))))"

definition resolve :: "oid \<Rightarrow> heap \<Rightarrow> heap outcome" where
  "resolve i h =
     (case ob_class (get_obj h i) of
        KField \<Rightarrow> field_resolve i h
      | KMapField \<Rightarrow> map_field_resolve i h
      | KMethod \<Rightarrow> method_resolve i h
      | _ \<Rightarrow> base_resolve i h)"

section \<open>resolveAll\<close>

definition deferred_names :: "heap \<Rightarrow> oid list \<Rightarrow> jsstring option" where
  "deferred_names h ds =
     map_option (join_with (js '', ''))
       (those (map (\<lambda>f. case ob_parent (get_obj h f) of
                          None \<Rightarrow> None
                        | Some p \<Rightarrow> map_option (\<lambda>n. quoted (js ''extend '' @ (case fd_extend (ob_field (get_obj h f)) of Some e \<Rightarrow> e | None \<Rightarrow> js ''undefined'')) @ js '' in '' @ n)
                            (full_name h p)) ds))"

text \<open>The fuel bounds the depth of the tree.\<close>

fun resolve_all :: "nat \<Rightarrow> oid \<Rightarrow> heap \<Rightarrow> heap outcome" where
  "resolve_all 0 i h = None"
| "resolve_all (Suc n) i h =
     (case ob_class (get_obj h i) of
        KType \<Rightarrow>
          (case get_fields_array i h of
             (h, fs) \<Rightarrow> obind (ofold resolve fs h) (\<lambda>h.
               case get_oneofs_array i h of (h, os) \<Rightarrow> obind (ofold resolve os h) (base_resolve i)))
      | KService \<Rightarrow>
          (case get_methods_array i h of (h, ms) \<Rightarrow> obind (ofold resolve ms h) (base_resolve i))
      | k \<Rightarrow>
          if k = KRoot \<and> rt_deferred (ob_root (get_obj h i)) \<noteq> [] then
            (case deferred_names h (rt_deferred (ob_root (get_obj h i))) of
               None \<Rightarrow> None
             | Some ns \<Rightarrow> fail (js ''unresolvable extensions: '' @ ns))
          else
            (case get_nested_array i h of
               (h, xs) \<Rightarrow>
                 obind (ofold (\<lambda>x h. if is_namespace (get_obj h x) then resolve_all n x h else resolve x h) xs h)
                   (base_resolve i)))"

section \<open>The types that the generators see\<close>

text \<open>What the prototype of a message supplies: the frozen empty array or object in place of values that are objects.\<close>

definition prototype_value :: "jsval \<Rightarrow> jsval" where
  "prototype_value v = (case v of JArr _ \<Rightarrow> JArr [] | JObj _ \<Rightarrow> JObj [] | JBytes _ \<Rightarrow> JObj [] | _ \<Rightarrow> v)"

text \<open>
  \<open>Type#setup\<close> hands the resolved fields of a type to the generators; \<open>ts\<close> lists the types by index. The code that the
  converter prints may be no program.
\<close>

definition reflect_field :: "oid list \<Rightarrow> heap \<Rightarrow> oid \<Rightarrow> heap \<times> field" where
  "reflect_field ts h f =
     (let ob = get_obj h f; d = ob_field ob in
      case field_packed f h of
        (h, packed) \<Rightarrow>
          (h, \<lparr>f_name = ob_name ob, f_id = nat (fd_id d),
              f_type = (case fd_resolved_type d of
                          None \<Rightarrow> Basic (the (scalar_of (fd_type d)))
                        | Some t \<Rightarrow> if ob_class (get_obj h t) = KEnum then EnumType else MessageType (the (index_of (\<lambda>u. u = t) ts))),
              f_required = fd_required d, f_repeated = fd_repeated d, f_packed = packed,
              f_key = (if fd_map d then scalar_of (fd_key_type d) else None),
              f_default = prototype_value (fd_default_value d),
              f_values = (case fd_resolved_type d of Some t \<Rightarrow> en_vals (ob_enum (get_obj h t)) | None \<Rightarrow> []),
              f_part_of = map_option (\<lambda>x. ob_name (get_obj h x)) (fd_part_of d),
              f_type_default = fd_type_default d\<rparr>))"

fun reflect_fields :: "oid list \<Rightarrow> oid list \<Rightarrow> heap \<Rightarrow> heap \<times> field list" where
  "reflect_fields ts [] h = (h, [])"
| "reflect_fields ts (f # fs) h =
     (case reflect_field ts h f of (h, x) \<Rightarrow> case reflect_fields ts fs h of (h, xs) \<Rightarrow> (h, x # xs))"

definition type_setup :: "oid list \<Rightarrow> oid \<Rightarrow> heap \<Rightarrow> (heap \<times> mtype) outcome" where
  "type_setup ts t h =
     (case get_fields_array t h of
        (h, fs) \<Rightarrow>
          obind (ofold resolve fs h) (\<lambda>h.
            case full_name h t of
              None \<Rightarrow> None
            | Some n \<Rightarrow>
                (case reflect_fields ts fs h of
                   (h, fds) \<Rightarrow>
                     if list_all one_default fds
                     then done_with (h, \<lparr>t_full_name = n, t_fields = fds, t_group = ty_group (ob_type (get_obj h t))\<rparr>)
                     else Some (Inl (JsSyntaxError (js ''default''))))))"

end
