(* ===== verification/ReflectProps.thy ===== *)
theory ReflectProps
  imports ReflectResolve
begin

text \<open>
  The scoping of look-ups in the reflection tree: descending along a path, climbing through the parents, and
  the two together.
\<close>

section \<open>Scopes\<close>

text \<open>A path that is followed downwards from a scope, and the first scope in which it leads to something.\<close>

fun descend :: "heap \<Rightarrow> oid \<Rightarrow> jsstring list \<Rightarrow> obj_class list option \<Rightarrow> oid slot" where
  "descend h i [] flt = Own i"
| "descend h i [p] flt =
     (case obj_get h i p of
        Own j \<Rightarrow> if (case flt of None \<Rightarrow> True | Some ks \<Rightarrow> ob_class (get_obj h j) \<in> set ks) then Own j else Absent
      | Inherited \<Rightarrow> if flt = None then Inherited else Absent
      | Absent \<Rightarrow> Absent)"
| "descend h i (p # q # rest) flt =
     (case obj_get h i p of
        Own j \<Rightarrow> if is_namespace (get_obj h j) then descend h j (q # rest) flt else Absent
      | _ \<Rightarrow> Absent)"

fun first_found :: "'v slot list \<Rightarrow> 'v slot" where
  "first_found [] = Absent"
| "first_found (x # xs) = or_else x (first_found xs)"

lemma lookup_down:
  "[] \<notin> set path \<Longrightarrow> length path < n \<Longrightarrow> lookup_segments n h i path flt True = Some (descend h i path flt)"
proof (induction path arbitrary: n i)
  case Nil
  then show ?case by (cases n) simp_all
next
  case (Cons p rest)
  obtain m where n: "n = Suc m" using Cons.prems(2) by (cases n) simp_all
  have ih: "lookup_segments m h j rest flt True = Some (descend h j rest flt)" for j
    by (rule Cons.IH) (use Cons.prems n in auto)
  show ?case
  proof (cases rest)
    case Nil
    then show ?thesis using n Cons.prems(1)
      by (cases "obj_get h i p") (auto split: option.splits)
  next
    case (Cons q rest')
    have "p \<noteq> []" using Cons.prems(1) by auto
    show ?thesis
    proof (cases "obj_get h i p")
      case (Own j)
      then show ?thesis using n \<open>p \<noteq> []\<close> Cons ih [of j]
        by (auto split: option.splits slot.splits)
    qed (use n \<open>p \<noteq> []\<close> Cons in \<open>auto split: option.splits\<close>)
  qed
qed

lemma lookup_up:
  assumes "[] \<notin> set path" "path \<noteq> []"
  shows "chain k h i = Some ss \<Longrightarrow> length ss + length path < n \<Longrightarrow>
    lookup_segments n h i path flt False = Some (first_found (map (\<lambda>s. descend h s path flt) ss))"
proof (induction k arbitrary: i n ss)
  case (Suc k)
  obtain p rest where path: "path = p # rest" "p \<noteq> []" using assms by (cases path) auto
  obtain m where n: "n = Suc m" using Suc.prems(2) by (cases n) simp_all
  let ?d = "descend h i path flt"
  define up where "up = (case ob_parent (get_obj h i) of None \<Rightarrow> Some Absent | Some p' \<Rightarrow> lookup_segments m h p' path flt False)"
  have down: "lookup_segments n h i path flt False = (if ?d = Absent then up else Some ?d)"
  proof (cases rest)
    case Nil
    then show ?thesis using path n by (auto simp: up_def split: slot.splits option.splits)
  next
    case (Cons q r)
    have l: "lookup_segments m h j rest flt True = Some (descend h j rest flt)" for j
      by (rule lookup_down) (use assms path n Suc.prems(2) in auto)
    show ?thesis
    proof (cases "obj_get h i p")
      case (Own j)
      then show ?thesis using path n Cons l [of j] by (auto simp: up_def split: slot.splits option.splits)
    qed (use path n Cons in \<open>auto simp: up_def split: option.splits\<close>)
  qed
  show ?case
  proof (cases "ob_parent (get_obj h i)")
    case None
    then show ?thesis using down Suc.prems(1) by (auto simp: up_def or_else_def)
  next
    case (Some p')
    then obtain ss' where ss: "ss = i # ss'" "chain k h p' = Some ss'" using Suc.prems(1) by auto
    have "lookup_segments m h p' path flt False = Some (first_found (map (\<lambda>s. descend h s path flt) ss'))"
      by (rule Suc.IH [OF ss(2)]) (use Suc.prems(2) n ss(1) in simp)
    then show ?thesis using down Some ss(1) by (simp add: up_def or_else_def)
  qed
qed simp

lemma chain_length: "chain k h i = Some ss \<Longrightarrow> length ss \<le> k"
  by (induction k arbitrary: i ss) (auto split: option.splits)

lemma chain_not_Nil: "chain k h i = Some ss \<Longrightarrow> ss \<noteq> []"
  by (cases k) (auto split: option.splits)

lemma chain_last: "chain k h i = Some ss \<Longrightarrow> ob_parent (get_obj h (last ss)) = None"
proof (induction k arbitrary: i ss)
  case (Suc k)
  then show ?case by (auto split: option.splits dest: chain_not_Nil)
qed simp

declare lookup_segments.simps [simp del]

text \<open>C10: a look-up gives what the path leads to in the innermost enclosing scope where it leads to anything
  that passes the filter; a path that starts with a dot is followed from the root only.\<close>

theorem lookup_scopes:
  assumes "parents h i = Some ss" "[] \<notin> set (split_on 46 path)"
  shows "lookup h i path flt = Some (first_found (map (\<lambda>s. descend h s (split_on 46 path) flt) ss))
    \<and> lookup h i (46 # path) flt = Some (descend h (last ss) (split_on 46 path) flt)"
proof
  let ?segs = "split_on 46 path" and ?k = "length (hp_objs h)"
  have ne: "path \<noteq> []" "path \<noteq> [46]" using assms(2) by auto
  have "length ss \<le> ?k" using assms(1) chain_length by (auto simp: parents_def)
  then show "lookup h i path flt = Some (first_found (map (\<lambda>s. descend h s ?segs flt) ss))"
    using lookup_up [OF assms(2) split_on_not_Nil, of ?k h i ss _ flt] assms(1) ne
    by (simp add: lookup_def parents_def)
  have r: "root_of h i = Some (last ss)" using assms(1) by (simp add: root_of_def)
  obtain k where k: "?k = Suc k" using assms(1) by (cases ?k) (auto simp: parents_def)
  have "ob_parent (get_obj h (last ss)) = None" using chain_last assms(1) by (auto simp: parents_def)
  then have "chain ?k h (last ss) = Some [last ss]" using k by simp
  from lookup_up [OF assms(2) split_on_not_Nil this, of "?k + length ?segs + 1" flt]
  have l: "lookup_segments (?k + length ?segs + 1) h (last ss) ?segs flt False = Some (descend h (last ss) ?segs flt)"
    using k by (simp add: or_else_def)
  have s: "lookup_segments (Suc n) h i ([] # ?segs) flt False = lookup_segments n h (last ss) ?segs flt False" for n
    using r by (simp add: lookup_segments.simps)
  show "lookup h i (46 # path) flt = Some (descend h (last ss) ?segs flt)"
    using ne s [of "?k + length ?segs + 1"] l by (simp add: lookup_def)
qed

text \<open>A root with a message M inside the namespace p, which has a message N.\<close>

definition sample_heap :: heap where
  "sample_heap =
     \<lparr>hp_objs = [new_root\<lparr>ob_ns := \<lparr>ns_nested = Some [(js ''p'', 1), (js ''N'', 3)], ns_nested_array = None, ns_exposed = []\<rparr>\<rparr>,
                (new_namespace (js ''p''))\<lparr>ob_parent := Some 0, ob_ns := \<lparr>ns_nested = Some [(js ''M'', 2)], ns_nested_array = None, ns_exposed = []\<rparr>\<rparr>,
                (new_type (js ''M''))\<lparr>ob_parent := Some 1\<rparr>, (new_type (js ''N''))\<lparr>ob_parent := Some 0\<rparr>],
      hp_opts = []\<rparr>"

lemma lookup_scopes_witness: "lookup sample_heap 2 (js ''N'') None = Some (Own 3)"
proof -
  have 1: "parents sample_heap 2 = Some [2, 1, 0]"
    by (simp add: sample_heap_def parents_def get_obj_def new_root_def new_type_def new_namespace_def blank_obj_def numeral_3_eq_3 numeral_2_eq_2)
  have 2: "[] \<notin> set (split_on 46 (js ''N''))" by (simp add: js_simps)
  have "descend sample_heap 2 [js ''N''] None = Absent" "descend sample_heap 1 [js ''N''] None = Absent"
    "descend sample_heap 0 [js ''N''] None = Own 3"
    by (simp_all add: sample_heap_def obj_get_def get_obj_def new_root_def new_type_def new_namespace_def blank_obj_def
        tbl_get_def opt_get_def or_else_def proto_names_def js_simps)
  with lookup_scopes [OF 1 2, of None] show ?thesis by (simp add: js_simps or_else_def)
qed

end
