(* ===== verification/ReflectInv.thy ===== *)
theory ReflectInv
  imports ReflectAdd
begin

text \<open>
  An invariant of the reflection heap that every add and remove keeps, with all calls that they make: no
  object refers to an object that does not exist, and the fields of a type have different ids. This theory
  has the invariant, the updates and reads that stay inside it, and the calls that only remove.
\<close>

section \<open>References\<close>

definition tbl_refs :: "table option \<Rightarrow> oid set" where
  "tbl_refs t = (case t of None \<Rightarrow> {} | Some t \<Rightarrow> snd ` set t)"

definition list_refs :: "oid list option \<Rightarrow> oid set" where
  "list_refs xs = (case xs of None \<Rightarrow> {} | Some xs \<Rightarrow> set xs)"

definition opt_refs :: "oid option \<Rightarrow> oid set" where
  "opt_refs x = (case x of None \<Rightarrow> {} | Some y \<Rightarrow> {y})"

definition refs :: "obj \<Rightarrow> oid set" where
  "refs ob =
     opt_refs (ob_parent ob)
     \<union> tbl_refs (ns_nested (ob_ns ob)) \<union> list_refs (ns_nested_array (ob_ns ob)) \<union> snd ` set (ns_exposed (ob_ns ob))
     \<union> snd ` set (ty_fields (ob_type ob)) \<union> tbl_refs (ty_oneofs (ob_type ob))
     \<union> list_refs (ty_fields_array (ob_type ob)) \<union> list_refs (ty_oneofs_array (ob_type ob))
     \<union> snd ` set (sv_methods (ob_service ob)) \<union> list_refs (sv_methods_array (ob_service ob))
     \<union> opt_refs (fd_message (ob_field ob)) \<union> opt_refs (fd_part_of (ob_field ob)) \<union> opt_refs (fd_resolved_type (ob_field ob))
     \<union> opt_refs (fd_extension_field (ob_field ob)) \<union> opt_refs (fd_declaring_field (ob_field ob))
     \<union> set (oneof_fields (ob_oneof ob)) \<union> set (rt_deferred (ob_root ob))
     \<union> opt_refs (me_resolved_request (ob_method ob)) \<union> opt_refs (me_resolved_response (ob_method ob))"

definition size_of :: "heap \<Rightarrow> nat" where
  "size_of h = length (hp_objs h)"

definition closed :: "heap \<Rightarrow> bool" where
  "closed h \<longleftrightarrow> (\<forall>i < size_of h. refs (get_obj h i) \<subseteq> {..< size_of h})"

lemma closedD: "closed h \<Longrightarrow> i < size_of h \<Longrightarrow> x \<in> refs (get_obj h i) \<Longrightarrow> x < size_of h"
  by (auto simp: closed_def)

lemma size_upd [simp]: "size_of (upd_obj i f h) = size_of h"
  by (simp add: size_of_def upd_obj_def)

lemma get_upd: "i < size_of h \<Longrightarrow> get_obj (upd_obj i f h) j = (if j = i then f (get_obj h i) else get_obj h j)"
  by (simp add: get_obj_def upd_obj_def size_of_def nth_list_update)

lemma get_upd_same [simp]: "i < size_of h \<Longrightarrow> get_obj (upd_obj i f h) i = f (get_obj h i)"
  by (simp add: get_upd)

lemma prop_set_refs: "snd ` set (prop_set t k x) \<subseteq> insert x (snd ` set t)"
  by (induction t k x rule: prop_set.induct) auto

lemma prop_del_refs: "snd ` set (prop_del t k) \<subseteq> snd ` set t"
  by (auto simp: prop_del_def)

lemma prop_get_refs: "prop_get t k = Some x \<Longrightarrow> x \<in> snd ` set t"
  by (metis map_of_SomeD image_eqI snd_conv)

lemma to_array_refs: "set (to_array t) \<subseteq> tbl_refs t"
proof
  fix x assume x: "x \<in> set (to_array t)"
  then obtain u where u: "t = Some u" by (cases t) (simp_all add: to_array_def)
  then obtain k where k: "k \<in> set (object_keys u)" "x = the (prop_get u k)" using x by (auto simp: to_array_def)
  have "set (object_keys u) = fst ` set u" by (auto simp: object_keys_def Let_def)
  then have "prop_get u k \<noteq> None" using k(1) by (simp add: map_of_eq_None_iff)
  then have "prop_get u k = Some x" using k(2) by auto
  from prop_get_refs [OF this] u show "x \<in> tbl_refs t" by (simp add: tbl_refs_def)
qed

section \<open>What stays the same\<close>

text \<open>The class, the name, the id and the extended type of an object never change.\<close>

definition same_obj :: "obj \<Rightarrow> obj \<Rightarrow> bool" where
  "same_obj a b \<longleftrightarrow> ob_class a = ob_class b \<and> ob_name a = ob_name b \<and> fd_id (ob_field a) = fd_id (ob_field b)
     \<and> fd_extend (ob_field a) = fd_extend (ob_field b)"

definition static :: "heap \<Rightarrow> heap \<Rightarrow> bool" where
  "static h h' \<longleftrightarrow> size_of h \<le> size_of h' \<and> (\<forall>i < size_of h. same_obj (get_obj h i) (get_obj h' i))"

lemma static_refl [simp]: "static h h"
  by (simp add: static_def same_obj_def)

lemma static_trans: "static h h' \<Longrightarrow> static h' h'' \<Longrightarrow> static h h''"
  by (auto simp: static_def same_obj_def)

text \<open>The fields of a type: different names and ids, with the cached ids at least those of the fields.\<close>

definition fields_ok :: "heap \<Rightarrow> type_data \<Rightarrow> bool" where
  "fields_ok h d \<longleftrightarrow>
     distinct (map fst (ty_fields d))
     \<and> (\<forall>p \<in> set (ty_fields d). \<forall>q \<in> set (ty_fields d).
          fd_id (ob_field (get_obj h (snd p))) = fd_id (ob_field (get_obj h (snd q))) \<longrightarrow> p = q)
     \<and> (\<forall>m. ty_by_id d = Some m \<longrightarrow> (\<forall>p \<in> set (ty_fields d). prop_get m (fd_id (ob_field (get_obj h (snd p)))) \<noteq> None))"

definition heap_ok :: "heap \<Rightarrow> bool" where
  "heap_ok h \<longleftrightarrow> closed h \<and> (\<forall>t < size_of h. fields_ok h (ob_type (get_obj h t)))"

text \<open>Removing only takes fields away.\<close>

definition fewer :: "type_data \<Rightarrow> type_data \<Rightarrow> bool" where
  "fewer d d' \<longleftrightarrow> (distinct (map fst (ty_fields d)) \<longrightarrow> distinct (map fst (ty_fields d')))
     \<and> set (ty_fields d') \<subseteq> set (ty_fields d) \<and> (ty_by_id d' = None \<or> ty_by_id d' = ty_by_id d)"

definition shrinks :: "heap \<Rightarrow> heap \<Rightarrow> bool" where
  "shrinks h h' \<longleftrightarrow> closed h' \<and> size_of h' = size_of h \<and> static h h'
     \<and> (\<forall>t < size_of h. fewer (ob_type (get_obj h t)) (ob_type (get_obj h' t)))"

lemma fewer_refl [simp]: "fewer d d"
  by (simp add: fewer_def)

lemma fewer_trans: "fewer a b \<Longrightarrow> fewer b c \<Longrightarrow> fewer a c"
  by (auto simp: fewer_def)

lemma shrinks_refl [simp]: "closed h \<Longrightarrow> shrinks h h"
  by (simp add: shrinks_def)

lemma shrinks_trans: "shrinks h h' \<Longrightarrow> shrinks h' h'' \<Longrightarrow> shrinks h h''"
  unfolding shrinks_def using static_trans fewer_trans by (metis (no_types, lifting))

definition grows :: "heap \<Rightarrow> heap \<Rightarrow> bool" where
  "grows h h' \<longleftrightarrow> heap_ok h' \<and> static h h'"

lemma grows_refl [simp]: "heap_ok h \<Longrightarrow> grows h h"
  by (simp add: grows_def)

lemma grows_trans: "grows h h' \<Longrightarrow> grows h' h'' \<Longrightarrow> grows h h''"
  by (auto simp: grows_def intro: static_trans)

lemma fields_ok_cong:
  assumes "fields_ok h d" "snd ` set (ty_fields d) \<subseteq> {..< size_of h}" "static h h'" "fewer d d'"
  shows "fields_ok h' d'"
proof -
  have "fd_id (ob_field (get_obj h' x)) = fd_id (ob_field (get_obj h x))" if "x \<in> snd ` set (ty_fields d)" for x
    using that assms(2, 3) by (auto simp: static_def same_obj_def)
  then have e: "fd_id (ob_field (get_obj h' (snd p))) = fd_id (ob_field (get_obj h (snd p)))" if "p \<in> set (ty_fields d)" for p
    using that by blast
  have s: "p \<in> set (ty_fields d)" if "p \<in> set (ty_fields d')" for p using that assms(4) by (auto simp: fewer_def)
  show ?thesis unfolding fields_ok_def
  proof (intro conjI)
    show "distinct (map fst (ty_fields d'))" using assms(1, 4) by (simp add: fields_ok_def fewer_def)
    show "\<forall>p\<in>set (ty_fields d'). \<forall>q\<in>set (ty_fields d').
        fd_id (ob_field (get_obj h' (snd p))) = fd_id (ob_field (get_obj h' (snd q))) \<longrightarrow> p = q"
      using assms(1) e s unfolding fields_ok_def by (metis (no_types, lifting))
    show "\<forall>m. ty_by_id d' = Some m \<longrightarrow> (\<forall>p\<in>set (ty_fields d'). prop_get m (fd_id (ob_field (get_obj h' (snd p)))) \<noteq> None)"
      using assms(1, 4) e s unfolding fields_ok_def fewer_def by (metis (no_types, lifting) option.distinct(1))
  qed
qed

lemma type_refs: "closed h \<Longrightarrow> t < size_of h \<Longrightarrow> snd ` set (ty_fields (ob_type (get_obj h t))) \<subseteq> {..< size_of h}"
  by (auto simp: closed_def refs_def)

lemma shrinks_ok: "heap_ok h \<Longrightarrow> shrinks h h' \<Longrightarrow> heap_ok h' \<and> static h h'"
  using fields_ok_cong type_refs by (fastforce simp: heap_ok_def shrinks_def)

section \<open>Outcomes that keep a relation\<close>

definition keeps :: "('a \<Rightarrow> bool) \<Rightarrow> 'a outcome \<Rightarrow> bool" where
  "keeps R m \<longleftrightarrow> (\<forall>h'. m = Some (Inr h') \<longrightarrow> R h')"

lemma keeps_simps [simp]:
  "keeps R None" "keeps R (Some (Inl e))" "keeps R (fail s)" "keeps R (type_fail s)" "keeps R (done_with h) \<longleftrightarrow> R h"
  "keeps R (fail_in a b h t)" "keeps R (not_a_member x t h)" "keeps R (duplicate_name n h t)" "keeps R (no_method n)"
  by (auto simp: keeps_def fail_def type_fail_def done_with_def fail_in_def not_a_member_def duplicate_name_def no_method_def
      split: option.splits)

lemma keeps_obind: "keeps P m \<Longrightarrow> (\<And>h. P h \<Longrightarrow> keeps R (k h)) \<Longrightarrow> keeps R (obind m k)"
  by (cases "m = None") (auto simp: keeps_def obind_def split: sum.splits)

lemma keeps_mono: "keeps P m \<Longrightarrow> (\<And>h. P h \<Longrightarrow> R h) \<Longrightarrow> keeps R m"
  by (simp add: keeps_def)

lemma keeps_ofold:
  assumes "R h" "\<And>x h. x \<in> set xs \<Longrightarrow> R h \<Longrightarrow> keeps R (f x h)"
  shows "keeps R (ofold f xs h)"
  using assms
proof (induction xs arbitrary: h)
  case (Cons x xs)
  show ?case unfolding ofold.simps
    by (rule keeps_obind [where P = R]) (use Cons in auto)
qed (simp add: keeps_def)

section \<open>Harmless updates\<close>

lemma upd_beyond: "\<not> i < size_of h \<Longrightarrow> upd_obj i f h = h"
  by (cases h) (simp add: upd_obj_def size_of_def linorder_not_less list_update_beyond)

lemma shrinks_upd:
  assumes "closed h" "\<And>ob. same_obj ob (f ob)" "\<And>ob. fewer (ob_type ob) (ob_type (f ob))"
    "i < size_of h \<Longrightarrow> refs (f (get_obj h i)) \<subseteq> {..< size_of h}"
  shows "shrinks h (upd_obj i f h)"
proof (cases "i < size_of h")
  case True
  have "same_obj ob ob" for ob by (simp add: same_obj_def)
  with True assms show ?thesis by (auto simp: shrinks_def static_def closed_def get_upd)
qed (use assms(1) upd_beyond in simp)

lemma shrinks_sub:
  assumes "closed h" "\<And>ob. same_obj ob (f ob)" "\<And>ob. fewer (ob_type ob) (ob_type (f ob))"
    "\<And>ob. refs (f ob) \<subseteq> refs ob \<union> N" "N \<subseteq> {..< size_of h}"
  shows "shrinks h (upd_obj i f h)"
proof (rule shrinks_upd [OF assms(1-3)])
  assume "i < size_of h"
  then have "refs (get_obj h i) \<subseteq> {..< size_of h}" using assms(1) by (simp add: closed_def)
  then show "refs (f (get_obj h i)) \<subseteq> {..< size_of h}" using assms(4) [of "get_obj h i"] assms(5) by blast
qed

lemma list_refs_simps [simp]:
  "list_refs None = {}" "list_refs (Some xs) = set xs" "tbl_refs None = {}" "tbl_refs (Some t) = snd ` set t"
  "opt_refs None = {}" "opt_refs (Some x) = {x}"
  by (simp_all add: list_refs_def tbl_refs_def opt_refs_def)

lemma shrinks_set_parent:
  assumes "closed h" "p \<noteq> None \<Longrightarrow> the p < size_of h"
  shows "shrinks h (set_parent x p h)" "shrinks h (set_unresolved x p h)"
  unfolding set_parent_def set_unresolved_def
  by (rule shrinks_sub [OF assms(1), where N = "opt_refs p"]; use assms(2) in \<open>cases p; auto simp: same_obj_def refs_def\<close>)+

lemma shrinks_ns:
  assumes "closed h" "\<And>d. tbl_refs (ns_nested (f d)) \<union> list_refs (ns_nested_array (f d)) \<union> snd ` set (ns_exposed (f d))
      \<subseteq> tbl_refs (ns_nested d) \<union> list_refs (ns_nested_array d) \<union> snd ` set (ns_exposed d) \<union> N" "N \<subseteq> {..< size_of h}"
  shows "shrinks h (upd_ns x f h)"
  unfolding upd_ns_def
proof (rule shrinks_sub [OF assms(1) _ _ _ assms(3)])
  fix ob
  show "refs (ob\<lparr>ob_ns := f (ob_ns ob)\<rparr>) \<subseteq> refs ob \<union> N" using assms(2) [of "ob_ns ob"] by (auto simp: refs_def)
qed (simp_all add: same_obj_def)

lemma shrinks_field:
  assumes "closed h" "\<And>d. fd_id (f d) = fd_id d \<and> fd_extend (f d) = fd_extend d"
    "\<And>d. opt_refs (fd_message (f d)) \<union> opt_refs (fd_part_of (f d)) \<union> opt_refs (fd_resolved_type (f d))
       \<union> opt_refs (fd_extension_field (f d)) \<union> opt_refs (fd_declaring_field (f d))
      \<subseteq> opt_refs (fd_message d) \<union> opt_refs (fd_part_of d) \<union> opt_refs (fd_resolved_type d)
       \<union> opt_refs (fd_extension_field d) \<union> opt_refs (fd_declaring_field d) \<union> N" "N \<subseteq> {..< size_of h}"
  shows "shrinks h (upd_field x f h)"
  unfolding upd_field_def
proof (rule shrinks_sub [OF assms(1) _ _ _ assms(4)])
  fix ob
  show "refs (ob\<lparr>ob_field := f (ob_field ob)\<rparr>) \<subseteq> refs ob \<union> N" using assms(3) [of "ob_field ob"] by (auto simp: refs_def)
qed (use assms(2) in \<open>simp_all add: same_obj_def\<close>)

lemma shrinks_oneof:
  assumes "closed h" "\<And>d. set (oneof_fields (f d)) \<subseteq> set (oneof_fields d) \<union> N" "N \<subseteq> {..< size_of h}"
  shows "shrinks h (upd_oneof x f h)"
  unfolding upd_oneof_def
proof (rule shrinks_sub [OF assms(1) _ _ _ assms(3)])
  fix ob
  show "refs (ob\<lparr>ob_oneof := f (ob_oneof ob)\<rparr>) \<subseteq> refs ob \<union> N" using assms(2) [of "ob_oneof ob"] by (auto simp: refs_def)
qed (simp_all add: same_obj_def)

lemma shrinks_root:
  assumes "closed h" "\<And>d. set (rt_deferred (f d)) \<subseteq> set (rt_deferred d) \<union> N" "N \<subseteq> {..< size_of h}"
  shows "shrinks h (upd_root x f h)"
  unfolding upd_root_def
proof (rule shrinks_sub [OF assms(1) _ _ _ assms(3)])
  fix ob
  show "refs (ob\<lparr>ob_root := f (ob_root ob)\<rparr>) \<subseteq> refs ob \<union> N" using assms(2) [of "ob_root ob"] by (auto simp: refs_def)
qed (simp_all add: same_obj_def)

lemma shrinks_service:
  assumes "closed h" "\<And>d. snd ` set (sv_methods (f d)) \<union> list_refs (sv_methods_array (f d))
      \<subseteq> snd ` set (sv_methods d) \<union> list_refs (sv_methods_array d) \<union> N" "N \<subseteq> {..< size_of h}"
  shows "shrinks h (upd_service x f h)"
  unfolding upd_service_def
proof (rule shrinks_sub [OF assms(1) _ _ _ assms(3)])
  fix ob
  show "refs (ob\<lparr>ob_service := f (ob_service ob)\<rparr>) \<subseteq> refs ob \<union> N" using assms(2) [of "ob_service ob"] by (auto simp: refs_def)
qed (simp_all add: same_obj_def)

lemma shrinks_type:
  assumes "closed h" "\<And>d. fewer d (f d)"
    "\<And>d. tbl_refs (ty_oneofs (f d)) \<union> list_refs (ty_fields_array (f d)) \<union> list_refs (ty_oneofs_array (f d))
      \<subseteq> tbl_refs (ty_oneofs d) \<union> list_refs (ty_fields_array d) \<union> list_refs (ty_oneofs_array d) \<union> N" "N \<subseteq> {..< size_of h}"
  shows "shrinks h (upd_type x f h)"
  unfolding upd_type_def
proof (rule shrinks_sub [OF assms(1) _ _ _ assms(4)])
  fix ob
  show "refs (ob\<lparr>ob_type := f (ob_type ob)\<rparr>) \<subseteq> refs ob \<union> N"
    using assms(2, 3) [of "ob_type ob"] by (auto simp: refs_def fewer_def)
qed (use assms(2) in \<open>simp_all add: same_obj_def\<close>)

lemma get_obj_opts [simp]: "get_obj (h\<lparr>hp_opts := os\<rparr>) i = get_obj h i" "size_of (h\<lparr>hp_opts := os\<rparr>) = size_of h"
  by (simp_all add: get_obj_def size_of_def)

lemma shrinks_opts: "closed h \<Longrightarrow> shrinks h (h\<lparr>hp_opts := os\<rparr>)"
  by (simp add: shrinks_def closed_def static_def same_obj_def)

lemma shrinks_set_option:
  assumes "closed h"
  shows "shrinks h (set_option i k v b h)"
proof -
  have b: "shrinks h (base_set_option i k v b h)" if "closed h" for h
  proof -
    have "shrinks (h\<lparr>hp_opts := os\<rparr>) (upd_obj i (\<lambda>ob. ob\<lparr>ob_options := r\<rparr>) (h\<lparr>hp_opts := os\<rparr>))" for os r
      by (rule shrinks_sub [where N = "{}"]) (use shrinks_opts [OF that] in \<open>auto simp: shrinks_def same_obj_def refs_def\<close>)
    then show ?thesis using shrinks_opts [OF that] that
      by (auto simp: base_set_option_def intro: shrinks_trans split: option.splits)
  qed
  have c: "shrinks h (upd_obj i (\<lambda>ob. ob\<lparr>ob_field := (ob_field ob)\<lparr>fd_packed_cache := None\<rparr>\<rparr>) h)" (is "shrinks h ?h1")
    by (rule shrinks_sub [OF assms, where N = "{}"]) (auto simp: same_obj_def refs_def)
  then have "closed ?h1" by (simp add: shrinks_def)
  from shrinks_trans [OF c b [OF this]] b [OF assms] show ?thesis unfolding set_option_def by auto
qed

lemma shrinks_set_options: "closed h \<Longrightarrow> shrinks h (set_options i os b h)"
proof -
  have "closed h \<Longrightarrow> shrinks h (fold (\<lambda>k. set_option i k (g k) b) ks h)" for g ks h
  proof (induction ks arbitrary: h)
    case (Cons k ks)
    have "shrinks h (set_option i k (g k) b h)" by (rule shrinks_set_option [OF Cons.prems])
    moreover from this have "closed (set_option i k (g k) b h)" by (simp add: shrinks_def)
    ultimately show ?case using Cons.IH shrinks_trans by simp
  qed simp
  then show "closed h \<Longrightarrow> ?thesis" by (simp add: set_options_def split: option.splits)
qed

lemma shrinks_closed: "shrinks h h' \<Longrightarrow> closed h' \<and> size_of h' = size_of h"
  by (simp add: shrinks_def)

lemma clear_caches:
  assumes "closed h"
  shows "shrinks h (clear_nested_cache t h)" "shrinks h (clear_type_cache t h)" "shrinks h (clear_service_cache t h)"
  unfolding clear_nested_cache_def clear_type_cache_def clear_service_cache_def
  by (rule shrinks_ns [OF assms, where N = "{}"], auto) (rule shrinks_type [OF assms, where N = "{}"], auto simp: fewer_def,
      rule shrinks_service [OF assms, where N = "{}"], auto)


section \<open>Reads that stay in the heap\<close>

lemma parent_less: "closed h \<Longrightarrow> i < size_of h \<Longrightarrow> ob_parent (get_obj h i) = Some p \<Longrightarrow> p < size_of h"
  by (rule closedD) (auto simp: refs_def)

lemma chain_less: "closed h \<Longrightarrow> i < size_of h \<Longrightarrow> chain k h i = Some ss \<Longrightarrow> set ss \<subseteq> {..< size_of h} \<and> ss \<noteq> []"
proof (induction k arbitrary: i ss)
  case (Suc k)
  show ?case
  proof (cases "ob_parent (get_obj h i)")
    case None
    then show ?thesis using Suc.prems by auto
  next
    case (Some p)
    with Suc.prems(3) obtain us where us: "ss = i # us" "chain k h p = Some us" by auto
    from Suc.IH [OF Suc.prems(1) parent_less [OF Suc.prems(1, 2) Some] us(2)] us(1) Suc.prems(2) show ?thesis by simp
  qed
qed simp

lemma root_less: "closed h \<Longrightarrow> i < size_of h \<Longrightarrow> root_of h i = Some r \<Longrightarrow> r < size_of h"
proof -
  assume c: "closed h" "i < size_of h" and "root_of h i = Some r"
  then obtain ss where "parents h i = Some ss" "r = last ss" by (auto simp: root_of_def)
  then show "r < size_of h" using chain_less [OF c] last_in_set unfolding parents_def by blast
qed

lemma get_nested_array_shrinks:
  assumes "closed h" "i < size_of h"
  shows "shrinks h (fst (get_nested_array i h))" "set (snd (get_nested_array i h)) \<subseteq> {..< size_of h}"
proof -
  let ?d = "ob_ns (get_obj h i)"
  have r: "tbl_refs (ns_nested ?d) \<union> list_refs (ns_nested_array ?d) \<subseteq> {..< size_of h}"
    using assms by (auto simp: closed_def refs_def)
  have "set (to_array (ns_nested ?d)) \<subseteq> {..< size_of h}" using to_array_refs r by blast
  then show "shrinks h (fst (get_nested_array i h))" "set (snd (get_nested_array i h)) \<subseteq> {..< size_of h}"
    using r assms(1) unfolding get_nested_array_def
    by (auto simp: Let_def split: option.splits intro!: shrinks_ns [where N = "set (to_array (ns_nested ?d))"])
qed

lemma tbl_get_refs: "tbl_get t k = Own x \<Longrightarrow> x \<in> snd ` set t"
  by (auto simp: tbl_get_def dest: prop_get_refs split: option.splits if_splits)

lemma opt_get_refs: "opt_get t k = Own x \<Longrightarrow> x \<in> tbl_refs t"
  by (auto simp: opt_get_def dest: tbl_get_refs split: option.splits)

lemma or_else_Own: "or_else a b = Own x \<Longrightarrow> a = Own x \<or> b = Own x"
  by (auto simp: or_else_def split: if_splits)

lemma obj_get_less: "closed h \<Longrightarrow> i < size_of h \<Longrightarrow> obj_get h i k = Own x \<Longrightarrow> x < size_of h"
proof -
  assume c: "closed h" "i < size_of h" and g: "obj_get h i k = Own x"
  let ?ob = "get_obj h i"
  have "x \<in> snd ` set (ty_fields (ob_type ?ob)) \<union> tbl_refs (ty_oneofs (ob_type ?ob)) \<union> tbl_refs (ns_nested (ob_ns ?ob))
      \<union> snd ` set (sv_methods (ob_service ?ob))"
    using g unfolding obj_get_def Let_def
    by (auto split: obj_class.splits dest!: or_else_Own opt_get_refs tbl_get_refs)
  then have "x \<in> refs ?ob" by (auto simp: refs_def)
  from closedD [OF c this] show ?thesis .
qed

lemma slot_first:
  "(case r of None \<Rightarrow> None | Some Absent \<Rightarrow> u | Some s \<Rightarrow> Some s) = Some (Own x) \<Longrightarrow>
    r = Some (Own x) \<or> (r = Some Absent \<and> u = Some (Own x))"
  by (simp split: option.splits slot.splits)

lemma segments_step:
  assumes "lookup_segments (Suc n) h i (p # rest) flt b = Some (Own x)" "p \<noteq> []"
  shows "obj_get h i p = Own x \<or> (\<exists>j. obj_get h i p = Own j \<and> lookup_segments n h j rest flt True = Some (Own x))
    \<or> (\<exists>q. ob_parent (get_obj h i) = Some q \<and> lookup_segments n h q (p # rest) flt False = Some (Own x))"
  using slot_first [OF assms(1) [unfolded lookup_segments.simps list.case if_not_P [OF assms(2)]]]
proof (elim disjE conjE)
  assume r: "(case obj_get h i p of Absent \<Rightarrow> Some Absent | Inherited \<Rightarrow> Some (if rest = [] \<and> flt = None then Inherited else Absent)
    | Own j \<Rightarrow> if rest = [] then Some (if (case flt of None \<Rightarrow> True | Some ks \<Rightarrow> ob_class (get_obj h j) \<in> set ks) then Own j else Absent)
        else if is_namespace (get_obj h j) then lookup_segments n h j rest flt True else Some Absent) = Some (Own x)"
  show ?thesis
  proof (cases "obj_get h i p")
    case (Own j)
    then show ?thesis using r by (cases "rest = []") (simp_all split: if_splits)
  qed (use r in \<open>simp_all split: if_splits\<close>)
next
  assume "(case ob_parent (get_obj h i) of None \<Rightarrow> Some Absent
      | Some p' \<Rightarrow> if b then Some Absent else lookup_segments n h p' (p # rest) flt False) = Some (Own x)"
  then show ?thesis by (simp split: option.splits if_splits)
qed

lemma lookup_segments_less:
  "closed h \<Longrightarrow> i < size_of h \<Longrightarrow> lookup_segments n h i path flt b = Some (Own x) \<Longrightarrow> x < size_of h"
proof (induction n arbitrary: i path b)
  case (Suc n)
  note c = Suc.prems(1, 2)
  show ?case
  proof (cases path)
    case Nil
    then show ?thesis using Suc.prems by simp
  next
    case (Cons p rest)
    show ?thesis
    proof (cases "p = []")
      case True
      with Suc.prems(3) Cons obtain q where "root_of h i = Some q" "lookup_segments n h q rest flt False = Some (Own x)"
        by (auto split: option.splits)
      then show ?thesis using Suc.IH [OF c(1) root_less [OF c]] by blast
    next
      case False
      from segments_step [OF Suc.prems(3) [unfolded Cons] this] show ?thesis
      proof (elim disjE exE conjE)
        assume "obj_get h i p = Own x"
        then show ?thesis by (rule obj_get_less [OF c])
      next
        fix j assume "obj_get h i p = Own j" "lookup_segments n h j rest flt True = Some (Own x)"
        then show ?thesis by (rule Suc.IH [OF c(1) obj_get_less [OF c]])
      next
        fix q assume "ob_parent (get_obj h i) = Some q" "lookup_segments n h q (p # rest) flt False = Some (Own x)"
        then show ?thesis by (rule Suc.IH [OF c(1) parent_less [OF c]])
      qed
    qed
  qed
qed simp

declare lookup_segments.simps [simp del]

lemma lookup_less: "closed h \<Longrightarrow> i < size_of h \<Longrightarrow> lookup h i path flt = Some (Own x) \<Longrightarrow> x < size_of h"
proof -
  assume c: "closed h" "i < size_of h" and "lookup h i path flt = Some (Own x)"
  then consider "root_of h i = Some x" | "x = i" | n where "lookup_segments n h i (split_on 46 path) flt False = Some (Own x)"
    unfolding lookup_def by (metis map_option_eq_Some option.inject slot.inject)
  then show "x < size_of h" by cases (use c root_less lookup_segments_less [OF c] in blast)+
qed

section \<open>Calls that only remove\<close>

fun call_refs :: "call \<Rightarrow> oid set" where
  "call_refs (CAdd t x) = {t, x}"
| "call_refs (CRemove t x) = {t, x}"
| "call_refs (COnAdd x t) = {t, x}"
| "call_refs (COnRemove x t) = {t, x}"
| "call_refs (CHandleAdd r x) = {r, x}"
| "call_refs (CHandleRemove r x) = {r, x}"

definition call_ok :: "heap \<Rightarrow> call \<Rightarrow> bool" where
  "call_ok h c \<longleftrightarrow> call_refs c \<subseteq> {..< size_of h}"

fun removal :: "call \<Rightarrow> bool" where
  "removal (CRemove t x) = True"
| "removal (COnRemove x t) = True"
| "removal (CHandleRemove r x) = True"
| "removal c = False"

definition removes :: "dispatcher \<Rightarrow> bool" where
  "removes disp \<longleftrightarrow> (\<forall>c h. removal c \<longrightarrow> closed h \<longrightarrow> call_ok h c \<longrightarrow> keeps (shrinks h) (disp c h))"

lemma removesD:
  assumes "removes disp" "removal c" "shrinks h0 h" "call_ok h c"
  shows "keeps (shrinks h0) (disp c h)"
proof -
  have "closed h" using assms(3) by (simp add: shrinks_def)
  then have "keeps (shrinks h) (disp c h)" using assms by (simp add: removes_def)
  then show ?thesis by (rule keeps_mono) (rule shrinks_trans [OF assms(3)])
qed

lemma shrinks_size: "shrinks h h' \<Longrightarrow> size_of h' = size_of h"
  by (simp add: shrinks_def)

lemma shrinks_is_closed: "shrinks h h' \<Longrightarrow> closed h'"
  by (simp add: shrinks_def)

lemma keeps_rooted:
  assumes "closed h" "p < size_of h" "R h" "\<And>r. r < size_of h \<Longrightarrow> keeps R (f r h)"
  shows "keeps R (if_rooted p f h)"
  using assms root_less [OF assms(1, 2)] by (auto simp: if_rooted_def split: option.splits)

lemma base_on_remove_shrinks:
  assumes "removes disp" "shrinks h0 h" "x < size_of h" "p < size_of h"
  shows "keeps (shrinks h0) (base_on_remove disp x p h)"
  unfolding base_on_remove_def
proof (rule keeps_obind)
  show "keeps (shrinks h0) (if_rooted p (\<lambda>r. disp (CHandleRemove r x)) h)"
    by (rule keeps_rooted [OF shrinks_is_closed [OF assms(2)] assms(4)])
      (use assms in \<open>auto intro!: removesD simp: call_ok_def\<close>)
  fix h' assume h: "shrinks h0 h'"
  show "keeps (shrinks h0) (done_with (set_unresolved x None h'))"
    using shrinks_trans [OF h shrinks_set_parent(2) [OF shrinks_is_closed [OF h], of None x]] by simp
qed

lemma each_nested_keeps:
  assumes "\<And>h. R h \<Longrightarrow> R (fst (get_nested_array x h))"
    "\<And>h c. R h \<Longrightarrow> c \<in> set (snd (get_nested_array x h)) \<Longrightarrow> keeps R (f c (fst (get_nested_array x h)))"
  shows "R h \<Longrightarrow> keeps R (each_nested n f x j h)"
proof (induction n arbitrary: j h)
  case (Suc n)
  obtain h1 xs where a: "get_nested_array x h = (h1, xs)" by fastforce
  have "R h1" using assms(1) [OF Suc.prems] a by simp
  moreover have "keeps R (f (xs ! j) h1)" if "j < length xs" using assms(2) [OF Suc.prems, of "xs ! j"] a that by simp
  ultimately show ?case using a Suc.IH by (auto intro!: keeps_obind [where P = R])
qed simp

lemma shrinks_step: "shrinks h0 h \<Longrightarrow> (closed h \<Longrightarrow> shrinks h h') \<Longrightarrow> shrinks h0 h'"
  by (rule shrinks_trans) (auto dest: shrinks_is_closed)

lemma splice_first_in: "x \<in> set (splice_first p xs) \<Longrightarrow> x \<in> set xs"
  by (induction xs) (auto split: if_splits)

lemma prop_del_in: "x \<in> set (prop_del t k) \<Longrightarrow> x \<in> set t"
  by (simp add: prop_del_def)

lemma nested_refs:
  assumes "closed h" "t < size_of h" "ns_nested (ob_ns (get_obj h t)) = Some n"
  shows "snd ` set n \<subseteq> {..< size_of h}"
proof -
  have "snd ` set n \<subseteq> refs (get_obj h t)" using assms(3) by (auto simp: refs_def)
  then show ?thesis using assms(1, 2) by (auto simp: closed_def)
qed

lemma oneof_on_remove_shrinks:
  assumes "removes disp" "closed h" "x < size_of h" "p < size_of h"
  shows "keeps (shrinks h) (oneof_on_remove disp x p h)"
  unfolding oneof_on_remove_def
proof (rule keeps_obind)
  have "set (oneof_fields (ob_oneof (get_obj h x))) \<subseteq> {..< size_of h}"
    using assms(2, 3) by (auto simp: closed_def refs_def)
  then show "keeps (shrinks h) (ofold (\<lambda>f h. case ob_parent (get_obj h f) of Some q \<Rightarrow> disp (CRemove q f) h | None \<Rightarrow> done_with h)
      (oneof_fields (ob_oneof (get_obj h x))) h)"
  proof (intro keeps_ofold)
    fix f h1 assume f: "set (oneof_fields (ob_oneof (get_obj h x))) \<subseteq> {..< size_of h}"
      "f \<in> set (oneof_fields (ob_oneof (get_obj h x)))" and h: "shrinks h h1"
    then have "f < size_of h1" by (auto simp: shrinks_size)
    then show "keeps (shrinks h) (case ob_parent (get_obj h1 f) of Some q \<Rightarrow> disp (CRemove q f) h1 | None \<Rightarrow> done_with h1)"
      using h parent_less [OF shrinks_is_closed [OF h]]
      by (auto split: option.splits intro!: removesD [OF assms(1)] simp: call_ok_def)
  qed (use assms(2) in simp)
next
  fix h1 assume h: "shrinks h h1"
  show "keeps (shrinks h) (base_on_remove disp x p h1)"
    by (rule base_on_remove_shrinks [OF assms(1) h]) (use assms(3, 4) shrinks_size [OF h] in simp_all)
qed

lemma removed_then:
  assumes "removes disp" "shrinks h0 h" "t < size_of h" "x < size_of h" "\<And>h. closed h \<Longrightarrow> shrinks h (g h)"
  shows "keeps (shrinks h0) (obind (disp (COnRemove x t) h) (\<lambda>h. done_with (g h)))"
proof (rule keeps_obind)
  show "keeps (shrinks h0) (disp (COnRemove x t) h)"
    by (rule removesD [OF assms(1) _ assms(2)]) (use assms(3, 4) in \<open>auto simp: call_ok_def\<close>)
qed (use assms(5) shrinks_step in auto)

lemma ns_remove_shrinks:
  assumes "removes disp" "closed h" "t < size_of h" "x < size_of h"
  shows "keeps (shrinks h) (ns_remove disp t x h)"
proof -
  have r: "keeps (shrinks h) (obind (disp (COnRemove x t) (set_nested t (if prop_del n k = [] then None else Some (prop_del n k)) h))
      (\<lambda>h. done_with (clear_nested_cache t h)))" if "ns_nested (ob_ns (get_obj h t)) = Some n" for n k
  proof (rule removed_then [OF assms(1)])
    have "snd ` set (prop_del n k) \<subseteq> {..< size_of h}"
      using nested_refs [OF assms(2, 3) that] prop_del_refs [of n k] by (rule subset_trans [rotated])
    then show "shrinks h (set_nested t (if prop_del n k = [] then None else Some (prop_del n k)) h)" unfolding set_nested_def
      by (intro shrinks_ns [OF assms(2), where N = "snd ` set (prop_del n k)"]) auto
  qed (use assms(3, 4) clear_caches(1) in \<open>simp_all add: set_nested_def upd_ns_def\<close>)
  show ?thesis
  proof (cases "ob_parent (get_obj h x) = Some t")
    case True
    then show ?thesis using r [of _ "ob_name (get_obj h x)"]
      by (cases "ns_nested (ob_ns (get_obj h t))") (simp_all add: ns_remove_def Let_def del: if_split)
  qed (simp add: ns_remove_def)
qed

lemma service_remove_shrinks:
  assumes "removes disp" "closed h" "t < size_of h" "x < size_of h"
  shows "keeps (shrinks h) (service_remove disp t x h)"
proof -
  have "shrinks h (upd_service t (\<lambda>d. d\<lparr>sv_methods := prop_del (sv_methods d) k\<rparr>) h)" for k
    by (rule shrinks_service [OF assms(2), where N = "{}"]) (auto dest: prop_del_in intro: rev_image_eqI)
  then have "shrinks h (clear_service_cache t (set_parent x None (upd_service t (\<lambda>d. d\<lparr>sv_methods := prop_del (sv_methods d) k\<rparr>) h)))" for k
    by (intro shrinks_step [OF shrinks_step [OF _ shrinks_set_parent(1)] clear_caches(3)]) auto
  then show ?thesis using ns_remove_shrinks [OF assms] by (simp add: service_remove_def)
qed

lemma shrinks_part_of:
  assumes "closed h"
  shows "shrinks h (upd_field f (\<lambda>d. d\<lparr>fd_part_of := None\<rparr>) h)"
    "shrinks h (upd_field f (\<lambda>d. d\<lparr>fd_extension_field := None\<rparr>) h)"
  by (rule shrinks_field [OF assms, where N = "{}"], simp, simp, blast, simp)+

lemma shrinks_link:
  assumes "closed h" "x < size_of h"
  shows "shrinks h (upd_field f (\<lambda>d. d\<lparr>fd_part_of := Some x\<rparr>) h)"
    "shrinks h (upd_field f (\<lambda>d. d\<lparr>fd_extension_field := Some x\<rparr>) h)"
    "shrinks h (upd_field f (\<lambda>d. d\<lparr>fd_declaring_field := Some x\<rparr>) h)"
    "shrinks h (upd_field f (\<lambda>d. d\<lparr>fd_message := Some x\<rparr>) h)"
  by (rule shrinks_field [OF assms(1), where N = "{x}"], simp, auto simp: assms(2))+

lemma oneof_remove_shrinks:
  assumes "closed h"
  shows "keeps (shrinks h) (oneof_remove x f h)"
proof -
  have "shrinks h (upd_oneof x (\<lambda>d. d\<lparr>oneof_fields := splice_first p (oneof_fields d), oneof_names := splice_first q (oneof_names d)\<rparr>) h)"
    for p q by (rule shrinks_oneof [OF assms, where N = "{}"]) (auto dest: splice_first_in)
  from shrinks_step [OF this shrinks_part_of(1)]
  have "shrinks h (upd_field f (\<lambda>d. d\<lparr>fd_part_of := None\<rparr>) (upd_oneof x (\<lambda>d. d\<lparr>oneof_fields := splice_first p (oneof_fields d),
      oneof_names := splice_first q (oneof_names d)\<rparr>) h))" for p q .
  then show ?thesis by (auto simp: oneof_remove_def split: option.splits)
qed

lemma type_remove_shrinks:
  assumes "removes disp" "closed h" "t < size_of h" "x < size_of h"
  shows "keeps (shrinks h) (type_remove disp t x h)"
proof -
  have f: "shrinks h (upd_type t (\<lambda>d. d\<lparr>ty_fields := prop_del (ty_fields d) k\<rparr>) h)" for k
    by (rule shrinks_type [OF assms(2), where N = "{}"]) (auto simp: fewer_def prop_del_distinct dest: prop_del_in)
  have o: "shrinks h (upd_type t (\<lambda>d. d\<lparr>ty_oneofs := map_option (\<lambda>os. prop_del os k) (ty_oneofs d)\<rparr>) h)" for k
  proof (rule shrinks_type [OF assms(2), where N = "{}"])
    fix d show "tbl_refs (ty_oneofs (d\<lparr>ty_oneofs := map_option (\<lambda>os. prop_del os k) (ty_oneofs d)\<rparr>))
        \<union> list_refs (ty_fields_array (d\<lparr>ty_oneofs := map_option (\<lambda>os. prop_del os k) (ty_oneofs d)\<rparr>))
        \<union> list_refs (ty_oneofs_array (d\<lparr>ty_oneofs := map_option (\<lambda>os. prop_del os k) (ty_oneofs d)\<rparr>))
      \<subseteq> tbl_refs (ty_oneofs d) \<union> list_refs (ty_fields_array d) \<union> list_refs (ty_oneofs_array d) \<union> {}"
      by (cases "ty_oneofs d") (auto simp: prop_del_def)
  qed (simp_all add: fewer_def)
  have p: "shrinks h (set_parent x None h1)" if "shrinks h h1" for h1
    by (rule shrinks_step [OF that shrinks_set_parent(1)]) auto
  have r: "keeps (shrinks h) (obind (disp (COnRemove x t) (set_parent x None h1)) (\<lambda>h. done_with (clear_type_cache t h)))"
    if "shrinks h h1" for h1
    by (rule removed_then [OF assms(1) p [OF that]]) (use assms(3, 4) shrinks_size [OF p [OF that]] clear_caches(2) in auto)
  show ?thesis unfolding type_remove_def Let_def
    using r [OF f] r [OF o] ns_remove_shrinks [OF assms] by simp
qed

lemma unexpose_shrinks: "shrinks h0 h \<Longrightarrow> keeps (shrinks h0) (unexpose x h)"
proof -
  assume h: "shrinks h0 h"
  have "shrinks h0 (upd_ns p (\<lambda>d. d\<lparr>ns_exposed := prop_del (ns_exposed d) k\<rparr>) h)" for p k
    by (rule shrinks_step [OF h], rule shrinks_ns [where N = "{}"]) (auto simp: prop_del_def)
  then show ?thesis using h by (simp add: unexpose_def Let_def split: option.splits)
qed


lemma handle_remove_shrinks:
  assumes "removes disp" "closed h" "r < size_of h" "x < size_of h"
  shows "keeps (shrinks h) (handle_remove disp r x h)"
proof -
  have h: "shrinks h h" using assms(2) by simp
  have d: "shrinks h (upd_root r (\<lambda>d. d\<lparr>rt_deferred := splice_first p (rt_deferred d)\<rparr>) h)" for p
    by (rule shrinks_root [OF assms(2), where N = "{}"]) (auto dest: splice_first_in)
  have s: "keeps (shrinks h) (obind (disp (CRemove q s) h) (\<lambda>h. done_with (upd_field x (\<lambda>d. d\<lparr>fd_extension_field := None\<rparr>) h)))"
    if "fd_extension_field (ob_field (get_obj h x)) = Some s" "ob_parent (get_obj h s) = Some q" for s q
  proof (rule keeps_obind)
    have s: "s < size_of h" by (rule closedD [OF assms(2, 4)]) (use that(1) in \<open>simp add: refs_def\<close>)
    show "keeps (shrinks h) (disp (CRemove q s) h)"
      by (rule removesD [OF assms(1) _ h]) (use s parent_less [OF assms(2) s that(2)] in \<open>simp_all add: call_ok_def\<close>)
  qed (use shrinks_step [OF _ shrinks_part_of(2)] in simp)
  have n: "keeps (shrinks h) (obind (each_nested k (\<lambda>c. disp (CHandleRemove r c)) x 0 h) (unexpose x))" for k
  proof (rule keeps_obind [OF each_nested_keeps [where R = "shrinks h"] unexpose_shrinks])
    fix h1 assume h1: "shrinks h h1"
    have x: "x < size_of h1" using assms(4) shrinks_size [OF h1] by simp
    note n = get_nested_array_shrinks [OF shrinks_is_closed [OF h1] x]
    show 1: "shrinks h (fst (get_nested_array x h1))" by (rule shrinks_trans [OF h1 n(1)])
    fix c assume "c \<in> set (snd (get_nested_array x h1))"
    then show "keeps (shrinks h) (disp (CHandleRemove r c) (fst (get_nested_array x h1)))"
      using n(2) assms(3) shrinks_size [OF h1] shrinks_size [OF 1] by (intro removesD [OF assms(1) _ 1]) (auto simp: call_ok_def)
  qed (use h in simp_all)
  show ?thesis unfolding handle_remove_def Let_def
    using h d s n unexpose_shrinks [OF h] by (simp split: option.splits)
qed

lemma dispatch_removes:
  assumes "removes disp"
  shows "removes (dispatch disp)"
  unfolding removes_def
proof (intro allI impI)
  fix c h assume c: "removal c" "closed h" "call_ok h c"
  show "keeps (shrinks h) (dispatch disp c h)"
  proof (cases c)
    case (CRemove t x)
    then have "t < size_of h" "x < size_of h" using c(3) by (simp_all add: call_ok_def)
    note a = assms c(2) this
    show ?thesis
      using type_remove_shrinks [OF a] service_remove_shrinks [OF a] oneof_remove_shrinks [OF c(2)] ns_remove_shrinks [OF a]
      by (simp add: dispatch_def CRemove split: obj_class.splits)
  next
    case (COnRemove x p)
    then have "x < size_of h" "p < size_of h" using c(3) by (simp_all add: call_ok_def)
    with oneof_on_remove_shrinks [OF assms c(2) this] base_on_remove_shrinks [OF assms _ this, of h] c(2)
    show ?thesis by (simp add: dispatch_def COnRemove)
  next
    case (CHandleRemove r x)
    then have "r < size_of h" "x < size_of h" using c(3) by (simp_all add: call_ok_def)
    with handle_remove_shrinks [OF assms c(2) this] show ?thesis by (simp add: dispatch_def CHandleRemove)
  qed (use c(1) in simp_all)
qed

lemma run_removes: "removes (run n)"
proof (induction n)
  case 0
  show ?case by (simp add: removes_def)
next
  case (Suc n)
  have "run (Suc n) = dispatch (run n)" by (intro ext) simp
  with dispatch_removes [OF Suc] show ?case by simp
qed

end
