(* ===== verification/ReflectKeep.thy ===== *)
theory ReflectKeep
  imports ReflectInv
begin

text \<open>
  The calls that add objects keep the invariant of the reflection heap: the hooks, oneofs, namespaces with
  their replacement, services, the move of a field into a type, extensions, and with them every tree that is
  built by calls.
\<close>

section \<open>Calls on a well-formed heap\<close>

definition adds :: "dispatcher \<Rightarrow> bool" where
  "adds disp \<longleftrightarrow> (\<forall>c h. heap_ok h \<longrightarrow> call_ok h c \<longrightarrow> keeps (grows h) (disp c h))"

lemma addsD:
  assumes "adds disp" "grows h0 h" "call_ok h c"
  shows "keeps (grows h0) (disp c h)"
proof -
  have "heap_ok h" using assms(2) by (simp add: grows_def)
  then have "keeps (grows h) (disp c h)" using assms by (simp add: adds_def)
  then show ?thesis by (rule keeps_mono) (rule grows_trans [OF assms(2)])
qed

lemma grows_size: "grows h h' \<Longrightarrow> size_of h \<le> size_of h'"
  by (simp add: grows_def static_def)

lemma grows_less: "grows h h' \<Longrightarrow> i < size_of h \<Longrightarrow> i < size_of h'"
  using grows_size by fastforce

lemma grows_closed: "grows h h' \<Longrightarrow> closed h'"
  by (simp add: grows_def heap_ok_def)

lemma shrinks_grows: "heap_ok h \<Longrightarrow> shrinks h h' \<Longrightarrow> grows h h'"
  using shrinks_ok by (simp add: grows_def)

lemma grows_step: "grows h0 h \<Longrightarrow> (closed h \<Longrightarrow> shrinks h h') \<Longrightarrow> grows h0 h'"
  using grows_trans shrinks_grows by (metis grows_def heap_ok_def)

lemma keeps_grows_done: "grows h0 h \<Longrightarrow> (closed h \<Longrightarrow> shrinks h h') \<Longrightarrow> keeps (grows h0) (done_with h')"
  using grows_step by simp

lemma base_on_add_grows:
  assumes "adds disp" "grows h0 h" "x < size_of h" "p < size_of h"
  shows "keeps (grows h0) (base_on_add disp x p h)"
  unfolding base_on_add_def
proof (rule keeps_obind)
  show "keeps (grows h) (case ob_parent (get_obj h x) of Some q \<Rightarrow> if q \<noteq> p then disp (CRemove q x) h else done_with h
      | None \<Rightarrow> done_with h)"
  proof -
    have g: "grows h h" using assms(2) by (simp add: grows_def)
    show ?thesis using parent_less [OF grows_closed [OF assms(2)] assms(3)] assms(3) g
      by (auto split: option.splits intro!: addsD [OF assms(1) g] simp: call_ok_def)
  qed
next
  fix h1 assume h1: "grows h h1"
  have l: "x < size_of h1" "p < size_of h1" using grows_less [OF h1] assms(3, 4) by blast+
  let ?h2 = "set_unresolved x (Some p) h1"
  have g: "grows h0 ?h2"
    by (rule grows_step [OF grows_trans [OF assms(2) h1] shrinks_set_parent(2)]) (use l in simp_all)
  have s: "size_of ?h2 = size_of h1" by (simp add: set_unresolved_def)
  show "keeps (grows h0) (if_rooted p (\<lambda>r. disp (CHandleAdd r x)) ?h2)"
    by (rule keeps_rooted [OF grows_closed [OF g]]) (use l g s in \<open>auto intro!: addsD [OF assms(1) g] simp: call_ok_def\<close>)
qed

lemma add_fields_grows:
  assumes "adds disp" "grows h0 h" "x < size_of h"
  shows "keeps (grows h0) (add_fields_to_parent disp x h)"
proof (cases "ob_parent (get_obj h x)")
  case (Some p)
  have p: "p < size_of h" by (rule parent_less [OF grows_closed [OF assms(2)] assms(3) Some])
  have fs: "set (oneof_fields (ob_oneof (get_obj h x))) \<subseteq> {..< size_of h}"
    using grows_closed [OF assms(2)] assms(3) by (auto simp: closed_def refs_def)
  have g: "grows h h" using assms(2) by (simp add: grows_def)
  have "keeps (grows h) (ofold (\<lambda>f h. if ob_parent (get_obj h f) = None then disp (CAdd p f) h else done_with h)
      (oneof_fields (ob_oneof (get_obj h x))) h)"
  proof (rule keeps_ofold [where R = "grows h", OF g])
    fix f h1 assume f: "f \<in> set (oneof_fields (ob_oneof (get_obj h x)))" and h1: "grows h h1"
    have "f < size_of h1" "p < size_of h1" using f fs p grows_less [OF h1] by auto
    then show "keeps (grows h) (if ob_parent (get_obj h1 f) = None then disp (CAdd p f) h1 else done_with h1)"
      using h1 by (auto intro!: addsD [OF assms(1) h1] simp: call_ok_def)
  qed
  then show ?thesis using Some by (auto simp: add_fields_to_parent_def intro: keeps_mono grows_trans [OF assms(2)])
qed (use assms(2) in \<open>simp add: add_fields_to_parent_def\<close>)

lemma oneof_member_grows:
  assumes "grows h0 h" "x < size_of h" "f < size_of h"
  shows "grows h0 (upd_field f (\<lambda>d. d\<lparr>fd_part_of := Some x\<rparr>)
      (upd_oneof x (\<lambda>d. d\<lparr>oneof_names := g (oneof_names d), oneof_fields := oneof_fields d @ [f]\<rparr>) h))"
    "grows h0 (upd_oneof x (\<lambda>d. d\<lparr>oneof_fields := oneof_fields d @ [f]\<rparr>) (upd_field f (\<lambda>d. d\<lparr>fd_part_of := Some x\<rparr>) h))"
proof -
  have o: "shrinks h (upd_oneof x (\<lambda>d. d\<lparr>oneof_names := g (oneof_names d), oneof_fields := oneof_fields d @ [f]\<rparr>) h)"
    "shrinks h (upd_oneof x (\<lambda>d. d\<lparr>oneof_fields := oneof_fields d @ [f]\<rparr>) h)"
    if "closed h" "f < size_of h" for h g
    by (rule shrinks_oneof [OF that(1), where N = "{f}"]; use that in simp)+
  show "grows h0 (upd_field f (\<lambda>d. d\<lparr>fd_part_of := Some x\<rparr>)
      (upd_oneof x (\<lambda>d. d\<lparr>oneof_names := g (oneof_names d), oneof_fields := oneof_fields d @ [f]\<rparr>) h))"
    by (rule grows_step [OF grows_step [OF assms(1) o(1)] shrinks_link(1)]) (use assms in \<open>simp_all add: upd_oneof_def\<close>)
  show "grows h0 (upd_oneof x (\<lambda>d. d\<lparr>oneof_fields := oneof_fields d @ [f]\<rparr>) (upd_field f (\<lambda>d. d\<lparr>fd_part_of := Some x\<rparr>) h))"
    by (rule grows_step [OF grows_step [OF assms(1) shrinks_link(1)] o(2)]) (use assms in \<open>simp_all add: upd_field_def\<close>)
qed

lemma oneof_add_grows:
  assumes "adds disp" "grows h0 h" "x < size_of h" "f < size_of h"
  shows "keeps (grows h0) (oneof_add disp x f h)"
proof -
  have g: "grows h h" using assms(2) by (simp add: grows_def)
  have 1: "keeps (grows h) (case ob_parent (get_obj h f) of Some q \<Rightarrow> if ob_parent (get_obj h x) \<noteq> Some q then disp (CRemove q f) h
      else done_with h | None \<Rightarrow> done_with h)"
    using parent_less [OF grows_closed [OF assms(2)] assms(4)] assms(4) g
    by (auto split: option.splits intro!: addsD [OF assms(1) g] simp: call_ok_def)
  have 2: "keeps (grows h0) (add_fields_to_parent disp x (upd_field f (\<lambda>d. d\<lparr>fd_part_of := Some x\<rparr>)
      (upd_oneof x (\<lambda>d. d\<lparr>oneof_names := oneof_names d @ [nm], oneof_fields := oneof_fields d @ [f]\<rparr>) h1)))"
    if "grows h h1" for h1 nm
  proof (rule add_fields_grows [OF assms(1)])
    have l: "x < size_of h1" "f < size_of h1" using grows_less [OF that] assms(3, 4) by blast+
    show "grows h0 (upd_field f (\<lambda>d. d\<lparr>fd_part_of := Some x\<rparr>)
      (upd_oneof x (\<lambda>d. d\<lparr>oneof_names := oneof_names d @ [nm], oneof_fields := oneof_fields d @ [f]\<rparr>) h1))"
      by (rule oneof_member_grows(1) [OF grows_trans [OF assms(2) that] l])
    show "x < size_of (upd_field f (\<lambda>d. d\<lparr>fd_part_of := Some x\<rparr>)
      (upd_oneof x (\<lambda>d. d\<lparr>oneof_names := oneof_names d @ [nm], oneof_fields := oneof_fields d @ [f]\<rparr>) h1))"
      using l by (simp add: upd_field_def upd_oneof_def)
  qed
  show ?thesis unfolding oneof_add_def Let_def using keeps_obind [OF 1 2] by simp
qed

lemma oneof_on_add_grows:
  assumes "adds disp" "grows h0 h" "x < size_of h" "p < size_of h"
  shows "keeps (grows h0) (oneof_on_add disp x p h)"
  unfolding oneof_on_add_def
proof (rule keeps_obind)
  have g: "grows h h" using assms(2) by (simp add: grows_def)
  show "keeps (grows h) (base_on_add disp x p h)" by (rule base_on_add_grows [OF assms(1) g assms(3, 4)])
  fix h1 assume h1: "grows h h1"
  note l = grows_less [OF h1 assms(3)] grows_less [OF h1 assms(4)]
  have g1: "grows h1 h1" using h1 by (simp add: grows_def)
  show "keeps (grows h0) (obind (ofold (\<lambda>name h. case obj_get h p name of Absent \<Rightarrow> done_with h | Inherited \<Rightarrow> None
      | Own f \<Rightarrow> if fd_part_of (ob_field (get_obj h f)) = None
          then done_with (upd_oneof x (\<lambda>d. d\<lparr>oneof_fields := oneof_fields d @ [f]\<rparr>) (upd_field f (\<lambda>d. d\<lparr>fd_part_of := Some x\<rparr>) h))
          else done_with h) (oneof_names (ob_oneof (get_obj h1 x))) h1) (add_fields_to_parent disp x))"
  proof (rule keeps_obind [OF keeps_ofold [where R = "grows h1", OF g1]])
    fix name h2 assume h2: "grows h1 h2"
    note l2 = grows_less [OF h2 l(1)] grows_less [OF h2 l(2)]
    have "f < size_of h2" if "obj_get h2 p name = Own f" for f by (rule obj_get_less [OF grows_closed [OF h2] l2(2) that])
    then show "keeps (grows h1) (case obj_get h2 p name of Absent \<Rightarrow> done_with h2 | Inherited \<Rightarrow> None
      | Own f \<Rightarrow> if fd_part_of (ob_field (get_obj h2 f)) = None
          then done_with (upd_oneof x (\<lambda>d. d\<lparr>oneof_fields := oneof_fields d @ [f]\<rparr>) (upd_field f (\<lambda>d. d\<lparr>fd_part_of := Some x\<rparr>) h2))
          else done_with h2)"
      using h2 oneof_member_grows(2) [OF h2 l2(1)] by (simp split: slot.splits)
  next
    fix h2 assume h2: "grows h1 h2"
    show "keeps (grows h0) (add_fields_to_parent disp x h2)"
      by (rule add_fields_grows [OF assms(1) grows_trans [OF assms(2) grows_trans [OF h1 h2]] grows_less [OF h2 l(1)]])
  qed
qed

lemma set_nested_shrinks:
  assumes "closed h" "t < size_of h" "x < size_of h" "ns_nested (ob_ns (get_obj h t)) = Some n"
  shows "shrinks h (upd_ns t (\<lambda>d. d\<lparr>ns_nested := Some (prop_set (the (ns_nested d)) name x)\<rparr>) h)"
  unfolding upd_ns_def
proof (rule shrinks_upd [OF assms(1)])
  have "snd ` set (prop_set n name x) \<subseteq> {..< size_of h}"
    using prop_set_refs [of n name x] nested_refs [OF assms(1, 2, 4)] assms(3) by blast
  then show "refs (get_obj h t\<lparr>ob_ns := (ob_ns (get_obj h t))\<lparr>ns_nested := Some (prop_set (the (ns_nested (ob_ns (get_obj h t)))) name x)\<rparr>\<rparr>)
      \<subseteq> {..< size_of h}"
    using assms(1, 2, 4) by (auto simp: closed_def refs_def)
qed (simp_all add: same_obj_def)

lemma init_nested_shrinks: "closed h \<Longrightarrow> shrinks h (init_nested t h)"
  unfolding init_nested_def set_nested_def
  by (auto intro!: shrinks_ns [where N = "{}"])

lemma init_nested_some: "t < size_of h \<Longrightarrow> ns_nested (ob_ns (get_obj (init_nested t h) t)) \<noteq> None"
  by (simp add: init_nested_def set_nested_def upd_ns_def)

lemma set_option_ns: "t < size_of h \<Longrightarrow> ob_ns (get_obj (set_option i k v b h) t) = ob_ns (get_obj h t) \<and> size_of (set_option i k v b h) = size_of h"
proof -
  have e: "ob_ns (get_obj (upd_obj i f h) t) = ob_ns (get_obj h t)" if "\<And>ob. ob_ns (f ob) = ob_ns ob" "t < size_of h" for f h
    using that by (cases "i < size_of h") (simp_all add: get_upd upd_beyond)
  have b: "ob_ns (get_obj (base_set_option i k v b h) t) = ob_ns (get_obj h t) \<and> size_of (base_set_option i k v b h) = size_of h"
    if "t < size_of h" for h
    using that e by (auto simp: base_set_option_def split: option.splits)
  assume "t < size_of h"
  then show ?thesis using b e by (simp add: set_option_def)
qed

lemma set_options_ns: "t < size_of h \<Longrightarrow> ob_ns (get_obj (set_options i os b h) t) = ob_ns (get_obj h t)"
proof -
  have "t < size_of h \<Longrightarrow> ob_ns (get_obj (fold (\<lambda>k. set_option i k (g k) b) ks h) t) = ob_ns (get_obj h t)" for g ks h
    by (induction ks arbitrary: h) (simp_all add: set_option_ns)
  then show "t < size_of h \<Longrightarrow> ?thesis" by (simp add: set_options_def split: option.splits)
qed

text \<open>The state after the name was free, or made free, in the namespace.\<close>

definition nests :: "heap \<Rightarrow> oid \<Rightarrow> heap \<Rightarrow> bool" where
  "nests h t h' \<longleftrightarrow> grows h h' \<and> ns_nested (ob_ns (get_obj h' t)) \<noteq> None"

lemma ns_replace_nests:
  assumes "adds disp" "grows h h" "t < size_of h" "prev < size_of h" "x < size_of h"
  shows "keeps (nests h t) (ns_replace disp t prev x h)"
proof -
  obtain h1 cs where a: "get_nested_array prev h = (h1, cs)" by fastforce
  note n = get_nested_array_shrinks [OF grows_closed [OF assms(2)] assms(4)]
  have h1: "grows h h1" using n(1) a assms(2) by (auto simp: grows_def intro: grows_step [unfolded grows_def] dest: shrinks_ok)
  have g1: "grows h1 h1" using h1 by (simp add: grows_def)
  have "keeps (nests h t) (obind (ofold (\<lambda>c. disp (CAdd x c)) cs h1) (\<lambda>h. obind (disp (CRemove t prev) h) (\<lambda>h.
      let h = init_nested t h in done_with (set_options x (get_opts h prev) True h))))"
  proof (rule keeps_obind [OF keeps_ofold [where R = "grows h1", OF g1]])
    fix c h2 assume c: "c \<in> set cs" and h2: "grows h1 h2"
    have "c < size_of h" "x < size_of h" using n(2) a c assms(5) by auto
    then show "keeps (grows h1) (disp (CAdd x c) h2)"
      using grows_less [OF h1] grows_less [OF h2] by (intro addsD [OF assms(1) h2]) (simp add: call_ok_def)
  next
    fix h2 assume h2: "grows h1 h2"
    have g2: "grows h2 h2" using h2 by (simp add: grows_def)
    have l: "t < size_of h2" "prev < size_of h2" "x < size_of h2"
      using grows_less [OF h1] grows_less [OF h2] assms(3-5) by blast+
    show "keeps (nests h t) (obind (disp (CRemove t prev) h2) (\<lambda>h. let h = init_nested t h in done_with (set_options x (get_opts h prev) True h)))"
    proof (rule keeps_obind [OF addsD [OF assms(1) g2]])
      show "call_ok h2 (CRemove t prev)" using l by (simp add: call_ok_def)
      fix h3 assume h3: "grows h2 h3"
      let ?h4 = "init_nested t h3"
      have g3: "grows h h3" by (rule grows_trans [OF h1 grows_trans [OF h2 h3]])
      have g4: "grows h ?h4" by (rule grows_step [OF g3 init_nested_shrinks])
      have t: "t < size_of h3" by (rule grows_less [OF h3 l(1)])
      then have t4: "t < size_of ?h4" by (simp add: init_nested_def set_nested_def upd_ns_def)
      have "grows h (set_options x (get_opts ?h4 prev) True ?h4)" by (rule grows_step [OF g4 shrinks_set_options])
      then show "keeps (nests h t) (let h = init_nested t h3 in done_with (set_options x (get_opts h prev) True h))"
        using init_nested_some [OF t] set_options_ns [OF t4] by (simp add: nests_def Let_def)
    qed
  qed
  then show ?thesis by (simp add: ns_replace_def a)
qed

lemma ns_add_grows:
  assumes "adds disp" "grows h0 h" "t < size_of h" "x < size_of h"
  shows "keeps (grows h0) (ns_add disp t x h)"
proof -
  have g: "grows h h" using assms(2) by (simp add: grows_def)
  have c: "closed h" by (rule grows_closed [OF g])
  have i: "grows h (init_nested t h)" by (rule grows_step [OF g init_nested_shrinks])
  have r: "keeps (nests h t) (ns_replace disp t prev x h)" if "obj_get h t nm = Own prev" for prev nm
    by (rule ns_replace_nests [OF assms(1) g assms(3) obj_get_less [OF c assms(3) that] assms(4)])
  have 1: "keeps (nests h t) (if ns_nested (ob_ns (get_obj h t)) = None
         then (if ob_name (get_obj h x) = js ''__proto__'' then None else done_with (init_nested t h))
         else (case obj_get h t (ob_name (get_obj h x)) of
                 Absent \<Rightarrow> done_with h
               | Inherited \<Rightarrow> duplicate_name (ob_name (get_obj h x)) h t
               | Own prev \<Rightarrow>
                   if is_namespace (get_obj h prev) \<and> is_namespace (get_obj h x) \<and> ob_class (get_obj h prev) \<notin> {KType, KService}
                   then ns_replace disp t prev x h
                   else duplicate_name (ob_name (get_obj h x)) h t))"
    using i init_nested_some [OF assms(3)] g r by (simp add: nests_def split: slot.splits)
  have 2: "keeps (grows h0) (let h = upd_ns t (\<lambda>d. d\<lparr>ns_nested := Some (prop_set (the (ns_nested d)) (ob_name (get_obj h x)) x)\<rparr>) h1
      in obind (disp (COnAdd x t) h) (\<lambda>h. done_with (clear_nested_cache t h)))" if n: "nests h t h1" for h1
  proof -
    have g1: "grows h h1" using n by (simp add: nests_def)
    have l: "t < size_of h1" "x < size_of h1" using grows_less [OF g1] assms(3, 4) by blast+
    let ?h2 = "upd_ns t (\<lambda>d. d\<lparr>ns_nested := Some (prop_set (the (ns_nested d)) (ob_name (get_obj h x)) x)\<rparr>) h1"
    have g2: "grows h0 ?h2"
      by (rule grows_step [OF grows_trans [OF assms(2) g1]]) (use n l in \<open>auto simp: nests_def intro: set_nested_shrinks\<close>)
    have "size_of ?h2 = size_of h1" by (simp add: upd_ns_def)
    then have "keeps (grows h0) (disp (COnAdd x t) ?h2)"
      using l by (intro addsD [OF assms(1) g2]) (simp add: call_ok_def)
    from keeps_obind [OF this keeps_grows_done [OF _ clear_caches(1)]] show ?thesis by (simp add: Let_def)
  qed
  show ?thesis using keeps_obind [OF 1 2] unfolding ns_add_def by (simp add: Let_def)
qed

lemma service_add_grows:
  assumes "adds disp" "grows h0 h" "t < size_of h" "x < size_of h"
  shows "keeps (grows h0) (service_add disp t x h)"
proof -
  have 1: "closed h \<Longrightarrow> shrinks h (upd_service t (\<lambda>d. d\<lparr>sv_methods := prop_set (sv_methods d) k x\<rparr>) h)" for k
    by (rule shrinks_service [where N = "{x}"]) (use prop_set_refs assms(4) in \<open>force simp: image_iff\<close>)+
  have "grows h0 (clear_service_cache t (set_parent x (Some t) (upd_service t (\<lambda>d. d\<lparr>sv_methods := prop_set (sv_methods d) k x\<rparr>) h)))" for k
    by (rule grows_step [OF grows_step [OF grows_step [OF assms(2) 1] shrinks_set_parent(1)] clear_caches(3)])
      (use assms(3) in \<open>simp_all add: upd_service_def\<close>)
  then show ?thesis using ns_add_grows [OF assms] by (simp add: service_add_def Let_def)
qed

section \<open>A field joins a type\<close>

text \<open>The hook of a plain field only takes it out of its old parent.\<close>

definition plain_field :: "obj \<Rightarrow> bool" where
  "plain_field ob \<longleftrightarrow> is_field ob \<and> fd_extend (ob_field ob) = None"

definition plain_add :: "dispatcher \<Rightarrow> bool" where
  "plain_add disp \<longleftrightarrow> (\<forall>h t x. closed h \<longrightarrow> t < size_of h \<longrightarrow> x < size_of h \<longrightarrow> plain_field (get_obj h x) \<longrightarrow>
     keeps (shrinks h) (disp (COnAdd x t) h) \<and> keeps (shrinks h) (disp (CHandleAdd t x) h))"

lemma plain_static: "static h h' \<Longrightarrow> x < size_of h \<Longrightarrow> plain_field (get_obj h' x) = plain_field (get_obj h x)"
  by (auto simp: static_def same_obj_def plain_field_def is_field_def)

lemma dispatch_plain:
  assumes "removes disp" "plain_add disp"
  shows "plain_add (dispatch disp)"
  unfolding plain_add_def
proof (intro allI impI conjI)
  fix h t x assume c: "closed h" "t < size_of h" "x < size_of h" "plain_field (get_obj h x)"
  have h: "shrinks h h" using c(1) by simp
  show "keeps (shrinks h) (dispatch disp (CHandleAdd t x) h)"
    using c h by (simp add: dispatch_def handle_add_def plain_field_def)
  have "keeps (shrinks h) (base_on_add disp x t h)"
    unfolding base_on_add_def
  proof (rule keeps_obind)
    show "keeps (shrinks h) (case ob_parent (get_obj h x) of Some q \<Rightarrow> if q \<noteq> t then disp (CRemove q x) h else done_with h
        | None \<Rightarrow> done_with h)"
      using parent_less [OF c(1, 3)] c h by (auto split: option.splits intro!: removesD [OF assms(1) _ h] simp: call_ok_def)
    fix h1 assume h1: "shrinks h h1"
    let ?h2 = "set_unresolved x (Some t) h1"
    have g: "shrinks h ?h2"
      by (rule shrinks_step [OF h1 shrinks_set_parent(2)]) (use c(2) shrinks_size [OF h1] in simp_all)
    have s: "size_of ?h2 = size_of h" using shrinks_size [OF g] .
    have p: "plain_field (get_obj ?h2 x)" using plain_static [of h ?h2 x] g c(3, 4) by (simp add: shrinks_def)
    have "keeps (shrinks ?h2) (disp (CHandleAdd r x) ?h2)" if "r < size_of ?h2" for r
      using assms(2) that c(3) s p shrinks_is_closed [OF g] by (simp add: plain_add_def)
    then have "keeps (shrinks h) (disp (CHandleAdd r x) ?h2)" if "r < size_of ?h2" for r
      using that shrinks_trans [OF g] by (blast intro: keeps_mono)
    then show "keeps (shrinks h) (if_rooted t (\<lambda>r. disp (CHandleAdd r x)) ?h2)"
      by (intro keeps_rooted [OF shrinks_is_closed [OF g]]) (use c(2) s g in simp_all)
  qed
  then show "keeps (shrinks h) (dispatch disp (COnAdd x t) h)"
    using c(4) by (auto simp: dispatch_def plain_field_def is_field_def)
qed

lemma by_id_loop_covers:
  "by_id_loop h fs m = Inr m' \<Longrightarrow> (\<forall>f \<in> set fs. prop_get m' (fd_id (ob_field (get_obj h f))) \<noteq> None)
     \<and> (\<forall>k. prop_get m k \<noteq> None \<longrightarrow> prop_get m' k \<noteq> None)"
proof (induction fs arbitrary: m)
  case (Cons f fs)
  let ?m = "prop_set m (fd_id (ob_field (get_obj h f))) f"
  have "by_id_loop h fs ?m = Inr m'" using Cons.prems by (simp add: Let_def split: if_splits)
  note i = Cons.IH [OF this]
  have "prop_get m' (fd_id (ob_field (get_obj h f))) \<noteq> None" using i by simp
  moreover have "prop_get m' k \<noteq> None" if "prop_get m k \<noteq> None" for k using i that by simp
  ultimately show ?case using i by simp
qed simp

lemma in_to_array:
  assumes "distinct (map fst t)" "p \<in> set t"
  shows "snd p \<in> set (to_array (Some t))"
proof -
  have "prop_get t (fst p) = Some (snd p)" using assms by (simp add: map_of_eq_Some_iff)
  moreover have "fst p \<in> set (object_keys t)" using assms(2) by simp
  ultimately show ?thesis by (force simp: to_array_def)
qed

lemma get_fields_by_id_grows:
  assumes "heap_ok h" "t < size_of h" "get_fields_by_id t h = Some (Inr (h', m))"
  shows "grows h h' \<and> size_of h' = size_of h \<and> ob_type (get_obj h' t) = (ob_type (get_obj h t))\<lparr>ty_by_id := Some m\<rparr>
    \<and> fields_ok h' (ob_type (get_obj h' t))"
proof (cases "ty_by_id (ob_type (get_obj h t))")
  case (Some m')
  then have "h' = h" "m' = m" using assms(3) by (simp_all add: get_fields_by_id_def done_with_def)
  then show ?thesis using assms(1, 2) Some by (simp add: heap_ok_def)
next
  case None
  let ?d = "ob_type (get_obj h t)"
  have l: "by_id_loop h (to_array (Some (ty_fields ?d))) [] = Inr m"
    and h': "h' = upd_type t (\<lambda>d. d\<lparr>ty_by_id := Some m\<rparr>) h"
    using assms(3) None by (auto simp: get_fields_by_id_def done_with_def fail_in_def fail_def split: sum.splits option.splits)
  have e: "get_obj h' i = (if i = t then (get_obj h t)\<lparr>ob_type := ?d\<lparr>ty_by_id := Some m\<rparr>\<rparr> else get_obj h i)" for i
    using assms(2) by (simp add: h' upd_type_def get_upd)
  have s: "size_of h' = size_of h" by (simp add: h' upd_type_def)
  have f: "fd_id (ob_field (get_obj h' i)) = fd_id (ob_field (get_obj h i))" for i by (simp add: e)
  have d: "fields_ok h ?d" using assms(1, 2) by (simp add: heap_ok_def)
  have k: "prop_get m (fd_id (ob_field (get_obj h (snd p)))) \<noteq> None" if "p \<in> set (ty_fields ?d)" for p
    using by_id_loop_covers [OF l] in_to_array [OF _ that] d unfolding fields_ok_def by blast
  have t: "fields_ok h' (?d\<lparr>ty_by_id := Some m\<rparr>)" using d k by (simp add: fields_ok_def f)
  have "fields_ok h' (ob_type (get_obj h' i))" if "i < size_of h'" for i
  proof (cases "i = t")
    case False
    then have "fields_ok h (ob_type (get_obj h i))" using assms(1) that s by (simp add: heap_ok_def)
    then show ?thesis using False f unfolding fields_ok_def e by simp
  qed (use t in \<open>simp add: e\<close>)
  moreover have "refs (get_obj h' i) = refs (get_obj h i)" for i by (simp add: e refs_def)
  then have "closed h'" using assms(1) s by (simp add: heap_ok_def closed_def)
  moreover have "static h h'" using s by (simp add: static_def same_obj_def e)
  ultimately show ?thesis using t s by (simp add: grows_def heap_ok_def e)
qed

text \<open>The heap after \<open>fields[name] = field\<close> and \<open>field.message = this\<close>.\<close>

definition join_field :: "oid \<Rightarrow> jsstring \<Rightarrow> oid \<Rightarrow> heap \<Rightarrow> heap" where
  "join_field t name x h =
     upd_field x (\<lambda>d. d\<lparr>fd_message := Some t\<rparr>) (upd_type t (\<lambda>d. d\<lparr>ty_fields := prop_set (ty_fields d) name x\<rparr>) h)"

lemma join_field_data:
  assumes "t < size_of h" "x < size_of h" "name \<notin> fst ` set (ty_fields (ob_type (get_obj h t)))"
  shows "size_of (join_field t name x h) = size_of h"
    "fd_id (ob_field (get_obj (join_field t name x h) i)) = fd_id (ob_field (get_obj h i))"
    "ob_type (get_obj (join_field t name x h) i) = (if i = t
       then (ob_type (get_obj h t))\<lparr>ty_fields := ty_fields (ob_type (get_obj h t)) @ [(name, x)]\<rparr> else ob_type (get_obj h i))"
    "static h (join_field t name x h)" "refs (get_obj (join_field t name x h) i) \<subseteq> refs (get_obj h i) \<union> {t, x}"
proof -
  let ?d = "ob_type (get_obj h t)" and ?h0 = "upd_type t (\<lambda>d. d\<lparr>ty_fields := prop_set (ty_fields d) name x\<rparr>) h"
    and ?h1 = "join_field t name x h"
  have new: "prop_set (ty_fields ?d) name x = ty_fields ?d @ [(name, x)]"
    by (rule prop_set_new) (use assms(3) in simp)
  show s: "size_of ?h1 = size_of h" by (simp add: join_field_def upd_field_def upd_type_def)
  have e0: "get_obj ?h0 i = (if i = t then (get_obj h t)\<lparr>ob_type := ?d\<lparr>ty_fields := ty_fields ?d @ [(name, x)]\<rparr>\<rparr> else get_obj h i)" for i
    using assms(1) by (simp add: upd_type_def get_upd new)
  have e: "get_obj ?h1 i = (if i = x then (get_obj ?h0 x)\<lparr>ob_field := (ob_field (get_obj ?h0 x))\<lparr>fd_message := Some t\<rparr>\<rparr> else get_obj ?h0 i)" for i
    using assms(2) by (simp add: join_field_def upd_field_def get_upd upd_type_def)
  show "fd_id (ob_field (get_obj ?h1 i)) = fd_id (ob_field (get_obj h i))" by (simp add: e e0)
  show "ob_type (get_obj ?h1 i) = (if i = t then ?d\<lparr>ty_fields := ty_fields ?d @ [(name, x)]\<rparr> else ob_type (get_obj h i))"
    unfolding e e0 by simp
  show "static h ?h1" using s by (simp add: static_def same_obj_def e e0)
  show "refs (get_obj ?h1 i) \<subseteq> refs (get_obj h i) \<union> {t, x}" by (auto simp: e e0 refs_def)
qed

lemma join_field_closed:
  assumes "closed h" "t < size_of h" "x < size_of h" "name \<notin> fst ` set (ty_fields (ob_type (get_obj h t)))"
  shows "closed (join_field t name x h)"
  unfolding closed_def
proof (intro allI impI)
  fix i assume "i < size_of (join_field t name x h)"
  then have "i < size_of h" by (simp add: join_field_data(1) [OF assms(2-4)])
  then have "refs (get_obj h i) \<subseteq> {..< size_of h}" using assms(1) by (simp add: closed_def)
  then show "refs (get_obj (join_field t name x h) i) \<subseteq> {..< size_of (join_field t name x h)}"
    using join_field_data(1,5) [OF assms(2-4)] assms(2, 3) by fastforce
qed

lemma join_field_ok:
  assumes "heap_ok h" "t < size_of h" "x < size_of h" "name \<notin> fst ` set (ty_fields (ob_type (get_obj h t)))"
    "\<And>p. p \<in> set (ty_fields (ob_type (get_obj h t))) \<Longrightarrow> fd_id (ob_field (get_obj h (snd p))) \<noteq> fd_id (ob_field (get_obj h x))"
    "shrinks (join_field t name x h) h2"
  shows "grows h (clear_type_cache t h2)"
proof -
  let ?d = "ob_type (get_obj h t)" and ?h1 = "join_field t name x h" and ?h3 = "clear_type_cache t h2"
  note j = join_field_data [OF assms(2-4)]
  have c: "closed h" using assms(1) by (simp add: heap_ok_def)
  note c1 = join_field_closed [OF c assms(2-4)]
  have h3: "shrinks ?h1 ?h3" by (rule shrinks_step [OF assms(6) clear_caches(2)])
  have "fields_ok h ?d" using assms(1, 2) by (simp add: heap_ok_def)
  then have ft: "fields_ok ?h1 (?d\<lparr>ty_fields := ty_fields ?d @ [(name, x)], ty_by_id := None\<rparr>)"
    using assms(4) unfolding fields_ok_def j(2) by (auto simp: image_iff dest: assms(5) assms(5) [THEN not_sym])
  have "fields_ok ?h3 (ob_type (get_obj ?h3 i))" if "i < size_of ?h3" for i
  proof (cases "i = t")
    case True
    have "fewer (ob_type (get_obj ?h1 t)) (ob_type (get_obj ?h3 t))" using h3 assms(2) j(1) by (simp add: shrinks_def)
    moreover have "ty_by_id (ob_type (get_obj ?h3 t)) = None"
      using assms(2) j(1) shrinks_size [OF assms(6)] by (simp add: clear_type_cache_def upd_type_def)
    ultimately have "fewer (?d\<lparr>ty_fields := ty_fields ?d @ [(name, x)], ty_by_id := None\<rparr>) (ob_type (get_obj ?h3 t))"
      by (simp add: fewer_def j(3))
    from fields_ok_cong [OF ft _ _ this] type_refs [OF c assms(2)] assms(3) h3 j(1) True
    show ?thesis by (simp add: shrinks_def)
  next
    case False
    have i: "i < size_of h" using that shrinks_size [OF h3] j(1) by simp
    then have "fields_ok h (ob_type (get_obj h i))" using assms(1) by (simp add: heap_ok_def)
    then have a: "fields_ok ?h1 (ob_type (get_obj ?h1 i))" using False unfolding fields_ok_def j(2, 3) by simp
    show ?thesis
      by (rule fields_ok_cong [OF a]) (use h3 i j(1) type_refs [OF c1] in \<open>simp_all add: shrinks_def\<close>)
  qed
  then have "heap_ok ?h3" using h3 by (simp add: heap_ok_def shrinks_def)
  moreover have "static h ?h3" using j(4) h3 static_trans by (auto simp: shrinks_def)
  ultimately show ?thesis by (simp add: grows_def)
qed

text \<open>The field leaves its old parent and joins the type.\<close>

lemma move_field_grows:
  assumes "removes disp" "plain_add disp" "heap_ok h" "t < size_of h" "x < size_of h" "plain_field (get_obj h x)"
    "name \<notin> fst ` set (ty_fields (ob_type (get_obj h t)))"
    "\<And>p. p \<in> set (ty_fields (ob_type (get_obj h t))) \<Longrightarrow> fd_id (ob_field (get_obj h (snd p))) \<noteq> fd_id (ob_field (get_obj h x))"
  shows "keeps (grows h) (obind (case ob_parent (get_obj h x) of Some q \<Rightarrow> disp (CRemove q x) h | None \<Rightarrow> done_with h) (\<lambda>h.
      obind (disp (COnAdd x t) (join_field t name x h)) (\<lambda>h. done_with (clear_type_cache t h))))"
proof (rule keeps_obind)
  have c: "closed h" using assms(3) by (simp add: heap_ok_def)
  then have h: "shrinks h h" by simp
  show "keeps (shrinks h) (case ob_parent (get_obj h x) of Some q \<Rightarrow> disp (CRemove q x) h | None \<Rightarrow> done_with h)"
    using parent_less [OF c assms(5)] assms(4, 5) h
    by (auto split: option.splits intro!: removesD [OF assms(1) _ h] simp: call_ok_def)
  fix h2 assume h2: "shrinks h h2"
  let ?h3 = "join_field t name x h2"
  have g2: "grows h h2" by (rule shrinks_grows [OF assms(3) h2])
  have l: "t < size_of h2" "x < size_of h2" using shrinks_size [OF h2] assms(4, 5) by simp_all
  have sub: "set (ty_fields (ob_type (get_obj h2 t))) \<subseteq> set (ty_fields (ob_type (get_obj h t)))"
    using h2 assms(4) by (simp add: shrinks_def fewer_def)
  have id: "fd_id (ob_field (get_obj h2 i)) = fd_id (ob_field (get_obj h i))" if "i < size_of h" for i
    using h2 that by (simp add: shrinks_def static_def same_obj_def)
  have new: "name \<notin> fst ` set (ty_fields (ob_type (get_obj h2 t)))" using assms(7) sub by blast
  have ids: "fd_id (ob_field (get_obj h2 (snd p))) \<noteq> fd_id (ob_field (get_obj h2 x))"
    if p: "p \<in> set (ty_fields (ob_type (get_obj h2 t)))" for p
  proof -
    have "snd p < size_of h" using sub p type_refs [OF c assms(4)] by auto
    then show ?thesis using id assms(5) assms(8) [of p] p sub by auto
  qed
  note j = join_field_data [OF l new]
  have "plain_field (get_obj ?h3 x)"
    using plain_static [OF j(4) l(2)] plain_static [of h h2 x] g2 assms(5, 6) by (simp add: grows_def)
  then have k: "keeps (shrinks ?h3) (disp (COnAdd x t) ?h3)"
    using assms(2) l j(1) join_field_closed [OF shrinks_is_closed [OF h2] l new] by (simp add: plain_add_def)
  have "grows h (clear_type_cache t h4)" if "shrinks ?h3 h4" for h4
    by (rule grows_trans [OF g2 join_field_ok [OF _ l new ids that]]) (use g2 in \<open>simp add: grows_def\<close>)
  then show "keeps (grows h) (obind (disp (COnAdd x t) ?h3) (\<lambda>h. done_with (clear_type_cache t h)))"
    by (intro keeps_obind [OF k]) simp
qed

lemma keeps_if: "(b \<Longrightarrow> keeps R m1) \<Longrightarrow> (\<not> b \<Longrightarrow> keeps R m2) \<Longrightarrow> keeps R (if b then m1 else m2)"
  by simp

lemma type_add_field_grows:
  assumes "removes disp" "plain_add disp" "heap_ok h" "t < size_of h" "x < size_of h"
    "ob_class (get_obj h t) = KType" "plain_field (get_obj h x)"
  shows "keeps (grows h) (type_add disp t x h)"
proof (cases "obj_get h t (ob_name (get_obj h x)) = Absent")
  case True
  let ?nm = "ob_name (get_obj h x)" and ?k = "fd_id (ob_field (get_obj h x))"
  have absent: "?nm \<notin> fst ` set (ty_fields (ob_type (get_obj h t)))"
    using True assms(6) by (auto simp: obj_get_def Let_def or_else_def tbl_get_def map_of_eq_None_iff image_iff split: option.splits if_splits)
  have e: "type_add disp t x h = obind (get_fields_by_id t h) (\<lambda>(h, by_id).
          if prop_get by_id ?k \<noteq> None then fail_in (js ''duplicate id '' @ dec_of_int ?k) (js '' in '') h t
          else if is_reserved_id (ob_type (get_obj h t)) ?k then fail_in (js ''id '' @ dec_of_int ?k) (js '' is reserved in '') h t
          else if is_reserved_name (ob_type (get_obj h t)) ?nm then fail_in (js ''name '' @ quoted ?nm) (js '' is reserved in '') h t
          else obind (case ob_parent (get_obj h x) of Some q \<Rightarrow> disp (CRemove q x) h | None \<Rightarrow> done_with h) (\<lambda>h.
            obind (disp (COnAdd x t) (join_field t ?nm x h)) (\<lambda>h. done_with (clear_type_cache t h))))"
    using True assms(7) by (simp only: type_add_def Let_def plain_field_def simp_thms if_True if_False join_field_def)
  show ?thesis unfolding e
  proof (rule keeps_obind [where P = "\<lambda>(h1, m). get_fields_by_id t h = Some (Inr (h1, m))"])
    show "keeps (\<lambda>(h1, m). get_fields_by_id t h = Some (Inr (h1, m))) (get_fields_by_id t h)" by (auto simp: keeps_def)
    fix r assume "case r of (h1, m) \<Rightarrow> get_fields_by_id t h = Some (Inr (h1, m))"
    then obtain h1 m where r: "r = (h1, m)" and g: "get_fields_by_id t h = Some (Inr (h1, m))" by (cases r) simp
    note f = get_fields_by_id_grows [OF assms(3, 4) g]
    have h1: "heap_ok h1" "static h h1" "x < size_of h1" "t < size_of h1" using f assms(4, 5) by (auto simp: grows_def)
    have x: "plain_field (get_obj h1 x)" using plain_static [OF h1(2) assms(5)] assms(7) by simp
    have kx: "fd_id (ob_field (get_obj h1 x)) = ?k" using h1(2) assms(5) by (simp add: static_def same_obj_def)
    have ids: "prop_get m (fd_id (ob_field (get_obj h1 (snd p)))) \<noteq> None"
      if "p \<in> set (ty_fields (ob_type (get_obj h1 t)))" for p using f that by (simp add: fields_ok_def)
    have "keeps (grows h1) (obind (case ob_parent (get_obj h1 x) of Some q \<Rightarrow> disp (CRemove q x) h1 | None \<Rightarrow> done_with h1) (\<lambda>h.
        obind (disp (COnAdd x t) (join_field t ?nm x h)) (\<lambda>h. done_with (clear_type_cache t h))))"
      if k: "prop_get m ?k = None"
    proof (rule move_field_grows [OF assms(1, 2) h1(1, 4, 3) x])
      fix p assume "p \<in> set (ty_fields (ob_type (get_obj h1 t)))"
      then show "fd_id (ob_field (get_obj h1 (snd p))) \<noteq> fd_id (ob_field (get_obj h1 x))" using ids [of p] k kx by metis
    qed (use f absent in simp)
    then have "keeps (grows h) (obind (case ob_parent (get_obj h1 x) of Some q \<Rightarrow> disp (CRemove q x) h1 | None \<Rightarrow> done_with h1) (\<lambda>h.
        obind (disp (COnAdd x t) (join_field t ?nm x h)) (\<lambda>h. done_with (clear_type_cache t h))))"
      if k: "prop_get m ?k = None" using k f by (blast intro: keeps_mono grows_trans)
    then show "keeps (grows h) (case r of (h, by_id) \<Rightarrow>
          if prop_get by_id ?k \<noteq> None then fail_in (js ''duplicate id '' @ dec_of_int ?k) (js '' in '') h t
          else if is_reserved_id (ob_type (get_obj h t)) ?k then fail_in (js ''id '' @ dec_of_int ?k) (js '' is reserved in '') h t
          else if is_reserved_name (ob_type (get_obj h t)) ?nm then fail_in (js ''name '' @ quoted ?nm) (js '' is reserved in '') h t
          else obind (case ob_parent (get_obj h x) of Some q \<Rightarrow> disp (CRemove q x) h | None \<Rightarrow> done_with h) (\<lambda>h.
            obind (disp (COnAdd x t) (join_field t ?nm x h)) (\<lambda>h. done_with (clear_type_cache t h))))"
      unfolding r prod.case by (intro keeps_if) simp_all
  qed
qed (simp add: type_add_def)

lemma added_then:
  assumes "adds disp" "grows h0 h" "t < size_of h" "x < size_of h" "\<And>h. closed h \<Longrightarrow> shrinks h (g h)"
  shows "keeps (grows h0) (obind (disp (COnAdd x t) h) (\<lambda>h. done_with (g h)))"
proof (rule keeps_obind)
  show "keeps (grows h0) (disp (COnAdd x t) h)"
    by (rule addsD [OF assms(1, 2)]) (use assms(3, 4) in \<open>simp add: call_ok_def\<close>)
qed (use assms(5) grows_step in auto)

lemma type_add_grows:
  assumes "adds disp" "removes disp" "plain_add disp" "heap_ok h" "t < size_of h" "x < size_of h" "ob_class (get_obj h t) = KType"
  shows "keeps (grows h) (type_add disp t x h)"
proof (cases "plain_field (get_obj h x)")
  case True
  show ?thesis by (rule type_add_field_grows [OF assms(2-7) True])
next
  case False
  have g: "grows h h" using assms(4) by simp
  have c: "closed h" by (rule grows_closed [OF g])
  let ?h1 = "upd_type t (\<lambda>d. d\<lparr>ty_oneofs := Some (prop_set (case ty_oneofs d of None \<Rightarrow> [] | Some os \<Rightarrow> os) (ob_name (get_obj h x)) x)\<rparr>) h"
  have "shrinks h ?h1"
  proof (rule shrinks_type [OF c, where N = "{x}"])
    fix d
    have "snd ` set (prop_set (case ty_oneofs d of None \<Rightarrow> [] | Some os \<Rightarrow> os) (ob_name (get_obj h x)) x) \<subseteq> insert x (tbl_refs (ty_oneofs d))"
      using prop_set_refs [of "case ty_oneofs d of None \<Rightarrow> [] | Some os \<Rightarrow> os" "ob_name (get_obj h x)" x]
      by (cases "ty_oneofs d") auto
    then show "tbl_refs (ty_oneofs (d\<lparr>ty_oneofs := Some (prop_set (case ty_oneofs d of None \<Rightarrow> [] | Some os \<Rightarrow> os) (ob_name (get_obj h x)) x)\<rparr>))
        \<union> list_refs (ty_fields_array (d\<lparr>ty_oneofs := Some (prop_set (case ty_oneofs d of None \<Rightarrow> [] | Some os \<Rightarrow> os) (ob_name (get_obj h x)) x)\<rparr>))
        \<union> list_refs (ty_oneofs_array (d\<lparr>ty_oneofs := Some (prop_set (case ty_oneofs d of None \<Rightarrow> [] | Some os \<Rightarrow> os) (ob_name (get_obj h x)) x)\<rparr>))
      \<subseteq> tbl_refs (ty_oneofs d) \<union> list_refs (ty_fields_array d) \<union> list_refs (ty_oneofs_array d) \<union> {x}" by auto
  qed (use assms(6) in \<open>simp_all add: fewer_def\<close>)
  then have "grows h ?h1" by (rule shrinks_grows [OF assms(4)])
  then have o: "keeps (grows h) (obind (disp (COnAdd x t) ?h1) (\<lambda>h. done_with (clear_type_cache t h)))"
    by (rule added_then [OF assms(1)]) (use assms(5, 6) clear_caches(2) in \<open>simp_all add: upd_type_def\<close>)
  have e: "type_add disp t x h = (if obj_get h t (ob_name (get_obj h x)) \<noteq> Absent then duplicate_name (ob_name (get_obj h x)) h t
      else if ob_class (get_obj h x) = KOneOf then obind (disp (COnAdd x t) ?h1) (\<lambda>h. done_with (clear_type_cache t h))
      else ns_add disp t x h)"
    using False by (simp only: type_add_def Let_def plain_field_def [symmetric] if_False)
  show ?thesis unfolding e by (intro keeps_if) (use o ns_add_grows [OF assms(1) g assms(5, 6)] in simp_all)
qed

section \<open>Extensions\<close>

lemma expose_grows:
  assumes "grows h0 h" "x < size_of h"
  shows "keeps (grows h0) (expose x h)"
proof -
  have "closed h \<Longrightarrow> shrinks h (upd_ns p (\<lambda>d. d\<lparr>ns_exposed := prop_set (ns_exposed d) k x\<rparr>) h)" for p k
    by (rule shrinks_ns [where N = "{x}"]) (use prop_set_refs assms(2) in \<open>force simp: image_iff\<close>)+
  from grows_step [OF assms(1) this] show ?thesis using assms(1) by (simp add: expose_def Let_def split: option.splits)
qed

text \<open>A new object refers to no other.\<close>

definition fresh_obj :: "obj \<Rightarrow> bool" where
  "fresh_obj ob \<longleftrightarrow> refs ob = {} \<and> ty_fields (ob_type ob) = []"

lemma alloc_grows:
  assumes "heap_ok h" "fresh_obj ob" "alloc_obj ob h = (h', i)"
  shows "grows h h' \<and> i < size_of h' \<and> size_of h' = Suc (size_of h)"
proof -
  have s: "size_of h' = Suc (size_of h)" "i = size_of h" using assms(3) by (auto simp: alloc_obj_def size_of_def)
  have e: "get_obj h' j = (if j = size_of h then ob else get_obj h j)" if "j < size_of h'" for j
    using assms(3) that s by (auto simp: alloc_obj_def get_obj_def size_of_def nth_append)
  have st: "static h h'" using s e by (simp add: static_def same_obj_def)
  have "refs (get_obj h' j) \<subseteq> {..< size_of h'}" if "j < size_of h'" for j
  proof (cases "j = size_of h")
    case True
    then show ?thesis using e [OF that] assms(2) by (simp add: fresh_obj_def)
  next
    case False
    then have "refs (get_obj h j) \<subseteq> {..< size_of h}" using assms(1) that s by (simp add: heap_ok_def closed_def)
    then show ?thesis using e [OF that] s False by auto
  qed
  then have c: "closed h'" by (simp add: closed_def)
  have "fields_ok h' (ob_type (get_obj h' j))" if "j < size_of h'" for j
  proof (cases "j = size_of h")
    case True
    then show ?thesis using e [OF that] assms(2) by (simp add: fresh_obj_def fields_ok_def)
  next
    case False
    then have j: "j < size_of h" using that s by simp
    then have "fields_ok h (ob_type (get_obj h j))" "closed h" using assms(1) by (simp_all add: heap_ok_def)
    from fields_ok_cong [OF this(1) type_refs [OF this(2) j] st] show ?thesis using e [OF that] False by simp
  qed
  then show ?thesis using c st s by (simp add: grows_def heap_ok_def)
qed

lemma new_field_fresh: "new_field name i type rule ext os = Inr ob \<Longrightarrow> fresh_obj ob"
  by (auto simp: new_field_def fresh_obj_def refs_def blank_obj_def Let_def split: if_splits)

lemma try_handle_extension_grows:
  assumes "adds disp" "grows h0 h" "f < size_of h"
  shows "keeps (\<lambda>(h', b). grows h0 h') (try_handle_extension disp f h)"
proof -
  have ok: "heap_ok h" and c: "closed h" using assms(2) by (simp_all add: grows_def heap_ok_def)
  have step: "keeps (\<lambda>(h', b). grows h0 h') (obind (disp (CAdd t s) (upd_field f (\<lambda>d. d\<lparr>fd_extension_field := Some s\<rparr>)
      (upd_field s (\<lambda>d. d\<lparr>fd_declaring_field := Some f\<rparr>) h1))) (\<lambda>h. done_with (h, True)))"
    if t: "t < size_of h" and s: "new_field name i type rule None os = Inr ob" "alloc_obj ob h = (h1, s)" for t s h1 ob name i type rule os
  proof (rule keeps_obind)
    note a = alloc_grows [OF ok new_field_fresh [OF s(1)] s(2)]
    let ?h2 = "upd_field f (\<lambda>d. d\<lparr>fd_extension_field := Some s\<rparr>) (upd_field s (\<lambda>d. d\<lparr>fd_declaring_field := Some f\<rparr>) h1)"
    have "grows h0 h1" using a grows_trans [OF assms(2)] by blast
    then have g: "grows h0 ?h2"
      by (rule grows_step [OF grows_step [OF _ shrinks_link(3)] shrinks_link(2)]) (use a assms(3) in \<open>simp_all add: upd_field_def\<close>)
    show "keeps (grows h0) (disp (CAdd t s) ?h2)"
      by (rule addsD [OF assms(1) g]) (use a t in \<open>simp add: call_ok_def upd_field_def\<close>)
  qed (simp add: done_with_def keeps_def)
  show ?thesis
  proof (cases "ob_parent (get_obj h f)")
    case (Some p)
    have "t < size_of h" if "lookup h p (the (fd_extend (ob_field (get_obj h f)))) None = Some (Own t)" for t
      by (rule lookup_less [OF c parent_less [OF c assms(3) Some] that])
    then show ?thesis using Some assms(2) step
      by (simp add: try_handle_extension_def Let_def keeps_simps(1) split: option.splits slot.splits sum.splits prod.splits)
        (auto simp: keeps_def type_fail_def done_with_def)
  qed (simp add: try_handle_extension_def keeps_def type_fail_def)
qed

lemma splice1_in: "y \<in> set (splice1 i xs) \<Longrightarrow> y \<in> set xs"
  by (auto simp: splice1_def dest: in_set_takeD in_set_dropD)

lemma retry_deferred_grows:
  assumes "adds disp"
  shows "grows h0 h \<Longrightarrow> r < size_of h \<Longrightarrow> keeps (grows h0) (retry_deferred n disp r i h)"
proof (induction n arbitrary: i h)
  case (Suc n)
  note g = Suc.prems(1)
  let ?ds = "rt_deferred (ob_root (get_obj h r))"
  show ?case
  proof (cases "i < length ?ds")
    case True
    have f: "?ds ! i < size_of h"
      by (rule closedD [OF grows_closed [OF g] Suc.prems(2)]) (use True in \<open>simp add: refs_def\<close>)
    have gh: "grows h h" using g by (simp add: grows_def)
    have "keeps (grows h0) (obind (try_handle_extension disp (?ds ! i) h) (\<lambda>(h, handled).
          if handled then retry_deferred n disp r i (upd_root r (\<lambda>d. d\<lparr>rt_deferred := splice1 i (rt_deferred d)\<rparr>) h)
          else retry_deferred n disp r (i + 1) h))"
    proof (rule keeps_obind [OF try_handle_extension_grows [OF assms gh f]])
      fix res :: "heap \<times> bool" assume "case res of (h', b) \<Rightarrow> grows h h'"
      then obtain h1 b where r: "res = (h1, b)" and h1: "grows h h1" by (cases res) simp
      have l: "r < size_of h1" by (rule grows_less [OF h1 Suc.prems(2)])
      have g1: "grows h0 h1" by (rule grows_trans [OF g h1])
      have "grows h0 (upd_root r (\<lambda>d. d\<lparr>rt_deferred := splice1 i (rt_deferred d)\<rparr>) h1)"
        by (rule grows_step [OF g1 shrinks_root [where N = "{}"]]) (auto dest: splice1_in)
      from Suc.IH [OF this, of i] Suc.IH [OF g1 l, of "i + 1"] l
      show "keeps (grows h0) (case res of (h, handled) \<Rightarrow>
          if handled then retry_deferred n disp r i (upd_root r (\<lambda>d. d\<lparr>rt_deferred := splice1 i (rt_deferred d)\<rparr>) h)
          else retry_deferred n disp r (i + 1) h)"
        unfolding r prod.case by (intro keeps_if) (simp_all add: upd_root_def)
    qed
    then show ?thesis using True by (simp only: retry_deferred.simps Let_def if_True)
  qed (use g in simp)
qed simp

lemma handle_children_grows:
  assumes "adds disp" "grows h0 h" "r < size_of h" "x < size_of h"
  shows "keeps (grows h0) (obind (each_nested n (\<lambda>c. disp (CHandleAdd r c)) x 0 h) (expose x))"
proof (rule keeps_obind [OF each_nested_keeps [where R = "grows h"]])
  show "grows h h" using assms(2) by (simp add: grows_def)
  fix h1 assume h1: "grows h h1"
  note l = grows_less [OF h1 assms(3)] grows_less [OF h1 assms(4)]
  note n = get_nested_array_shrinks [OF grows_closed [OF h1] l(2)]
  show 1: "grows h (fst (get_nested_array x h1))" by (rule grows_step [OF h1 n(1)])
  show "keeps (grows h0) (expose x h1)" by (rule expose_grows [OF grows_trans [OF assms(2) h1] l(2)])
  fix c assume "c \<in> set (snd (get_nested_array x h1))"
  then show "keeps (grows h) (disp (CHandleAdd r c) (fst (get_nested_array x h1)))"
    using n(2) l(1) shrinks_size [OF n(1)] by (intro addsD [OF assms(1) 1]) (auto simp: call_ok_def)
qed

lemma handle_add_grows:
  assumes "adds disp" "grows h0 h" "r < size_of h" "x < size_of h"
  shows "keeps (grows h0) (handle_add disp r x h)"
proof -
  have g: "grows h h" using assms(2) by (simp add: grows_def)
  have f: "keeps (grows h0) (obind (try_handle_extension disp x h) (\<lambda>(h, handled).
      done_with (if handled then h else upd_root r (\<lambda>d. d\<lparr>rt_deferred := rt_deferred d @ [x]\<rparr>) h)))"
  proof (rule keeps_obind [OF try_handle_extension_grows [OF assms(1) g assms(4)]])
    fix res :: "heap \<times> bool" assume "case res of (h', b) \<Rightarrow> grows h h'"
    then obtain h1 b where r: "res = (h1, b)" and h1: "grows h h1" by (cases res) simp
    have "grows h0 (upd_root r (\<lambda>d. d\<lparr>rt_deferred := rt_deferred d @ [x]\<rparr>) h1)"
      by (rule grows_step [OF grows_trans [OF assms(2) h1] shrinks_root [where N = "{x}"]]) (use grows_less [OF h1 assms(4)] in auto)
    then show "keeps (grows h0) (case res of (h, handled) \<Rightarrow>
      done_with (if handled then h else upd_root r (\<lambda>d. d\<lparr>rt_deferred := rt_deferred d @ [x]\<rparr>) h))"
      using grows_trans [OF assms(2) h1] by (simp add: r)
  qed
  have n: "keeps (grows h0) (obind (if b then retry_deferred n disp r 0 h else done_with h) (\<lambda>h.
          if \<not> b' then type_fail (js ''length'')
          else obind (each_nested (loop_fuel h) (\<lambda>c. disp (CHandleAdd r c)) x 0 h) (expose x)))" for b b' n
  proof (rule keeps_obind [where P = "grows h"])
    show "keeps (grows h) (if b then retry_deferred n disp r 0 h else done_with h)"
      using retry_deferred_grows [OF assms(1) g assms(3)] g by simp
    fix h1 assume h1: "grows h h1"
    show "keeps (grows h0) (if \<not> b' then type_fail (js ''length'')
        else obind (each_nested (loop_fuel h1) (\<lambda>c. disp (CHandleAdd r c)) x 0 h1) (expose x))"
      by (intro keeps_if)
        (simp_all add: handle_children_grows [OF assms(1) grows_trans [OF assms(2) h1] grows_less [OF h1 assms(3)] grows_less [OF h1 assms(4)]])
  qed
  show ?thesis unfolding handle_add_def Let_def
    by (intro keeps_if f n expose_grows [OF assms(2, 4)]) (simp add: assms(2))
qed

lemma dispatch_adds:
  assumes "adds disp" "removes disp" "plain_add disp"
  shows "adds (dispatch disp)"
  unfolding adds_def
proof (intro allI impI)
  fix c h assume h: "heap_ok h" "call_ok h c"
  then have g: "grows h h" by simp
  show "keeps (grows h) (dispatch disp c h)"
  proof (cases "removal c")
    case True
    have "keeps (shrinks h) (dispatch disp c h)"
      using dispatch_removes [OF assms(2)] True h by (simp add: removes_def heap_ok_def)
    then show ?thesis by (rule keeps_mono) (rule shrinks_grows [OF h(1)])
  next
    case False
    then show ?thesis
    proof (cases c)
      case (CAdd t x)
      then have l: "t < size_of h" "x < size_of h" using h(2) by (simp_all add: call_ok_def)
      note a = assms(1) g l
      show ?thesis
        using type_add_grows [OF assms h(1) l] service_add_grows [OF a] oneof_add_grows [OF a] ns_add_grows [OF a]
        by (simp add: dispatch_def CAdd split: obj_class.splits)
    next
      case (COnAdd x p)
      then have l: "x < size_of h" "p < size_of h" using h(2) by (simp_all add: call_ok_def)
      show ?thesis using oneof_on_add_grows [OF assms(1) g l] base_on_add_grows [OF assms(1) g l]
        by (simp add: dispatch_def COnAdd)
    next
      case (CHandleAdd r x)
      then have "r < size_of h" "x < size_of h" using h(2) by (simp_all add: call_ok_def)
      from handle_add_grows [OF assms(1) g this] show ?thesis by (simp add: dispatch_def CHandleAdd)
    qed simp_all
  qed
qed

lemma run_adds: "adds (run n) \<and> plain_add (run n)"
proof (induction n)
  case 0
  show ?case by (simp add: adds_def plain_add_def)
next
  case (Suc n)
  have "run (Suc n) = dispatch (run n)" by (intro ext) simp
  with dispatch_adds [OF _ run_removes] dispatch_plain [OF run_removes] Suc show ?case by simp
qed

section \<open>Trees that are built by calls\<close>

text \<open>What the constructors return.\<close>

inductive constructed :: "obj \<Rightarrow> bool" where
  "constructed (new_namespace name)"
| "constructed new_root"
| "constructed (new_type name)"
| "constructed (new_service name)"
| "constructed (new_enum name vs)"
| "constructed (new_oneof name ns)"
| "constructed (new_method name ty rq rs b b')"
| "new_field name k ty rule ext os = Inr ob \<Longrightarrow> constructed ob"
| "new_map_field name k kt ty os = Inr ob \<Longrightarrow> constructed ob"

lemma constructed_fresh: "constructed ob \<Longrightarrow> fresh_obj ob"
proof (induction rule: constructed.induct)
  case (8 name k ty rule ext os ob)
  then show ?case by (rule new_field_fresh)
next
  case (9 name k kt ty os ob)
  then obtain f where f: "new_field name k ty None None os = Inr f"
    and ob: "ob = f\<lparr>ob_class := KMapField, ob_field := (ob_field f)\<lparr>fd_map := True, fd_key_type := kt\<rparr>\<rparr>"
    by (auto simp: new_map_field_def bind_res_def split: sum.splits)
  from new_field_fresh [OF f] show ?case by (simp add: ob fresh_obj_def refs_def)
qed (auto simp: new_namespace_def new_root_def new_type_def new_service_def new_enum_def new_oneof_def new_method_def
    fresh_obj_def refs_def blank_obj_def)

text \<open>Objects are constructed, and the calls of this theory run on objects that exist, with any fuel.\<close>

inductive built :: "heap \<Rightarrow> bool" where
  built_empty: "built empty_heap"
| built_new: "built h \<Longrightarrow> constructed ob \<Longrightarrow> built (fst (alloc_obj ob h))"
| built_call: "built h \<Longrightarrow> call_ok h c \<Longrightarrow> run n c h = Some (Inr h') \<Longrightarrow> built h'"

lemma built_ok: "built h \<Longrightarrow> heap_ok h"
proof (induction rule: built.induct)
  case built_empty
  show ?case by (simp add: heap_ok_def closed_def size_of_def empty_heap_def)
next
  case (built_new h ob)
  then show ?case using alloc_grows [OF built_new.IH constructed_fresh, of ob "fst (alloc_obj ob h)" "snd (alloc_obj ob h)"]
    by (simp add: grows_def)
next
  case (built_call h c n h')
  then show ?case using run_adds [of n] by (simp add: adds_def keeps_def grows_def)
qed

lemma by_id_loop_total:
  "\<forall>f \<in> set fs. prop_get m (fd_id (ob_field (get_obj h f))) = None \<Longrightarrow> distinct (map (\<lambda>f. fd_id (ob_field (get_obj h f))) fs) \<Longrightarrow>
   \<exists>m'. by_id_loop h fs m = Inr m'"
proof (induction fs arbitrary: m)
  case (Cons f fs)
  let ?m = "prop_set m (fd_id (ob_field (get_obj h f))) f"
  have "\<exists>m'. by_id_loop h fs ?m = Inr m'"
    by (rule Cons.IH) (use Cons.prems in \<open>auto simp: image_iff\<close>)
  then show ?case using Cons.prems(1) by (simp add: Let_def)
qed simp

lemma to_array_ids:
  assumes "fields_ok h d"
  shows "distinct (map (\<lambda>f. fd_id (ob_field (get_obj h f))) (to_array (Some (ty_fields d))))"
proof -
  let ?t = "ty_fields d"
  have d: "distinct (map fst ?t)" using assms by (simp add: fields_ok_def)
  have m: "(k, the (prop_get ?t k)) \<in> set ?t" if "k \<in> set (object_keys ?t)" for k
  proof -
    have "k \<in> fst ` set ?t" using that by simp
    then obtain v where "prop_get ?t k = Some v" using d by (force simp: map_of_eq_Some_iff)
    then show ?thesis using map_of_SomeD by force
  qed
  have u: "p = q" if "p \<in> set ?t" "q \<in> set ?t" "fd_id (ob_field (get_obj h (snd p))) = fd_id (ob_field (get_obj h (snd q)))" for p q
    using assms that unfolding fields_ok_def by blast
  have "inj_on (\<lambda>k. fd_id (ob_field (get_obj h (the (prop_get ?t k))))) (set (object_keys ?t))"
  proof (rule inj_onI)
    fix k k' assume k: "k \<in> set (object_keys ?t)" "k' \<in> set (object_keys ?t)"
      and e: "fd_id (ob_field (get_obj h (the (prop_get ?t k)))) = fd_id (ob_field (get_obj h (the (prop_get ?t k'))))"
    have "(k, the (prop_get ?t k)) = (k', the (prop_get ?t k'))"
      by (rule u [OF m [OF k(1)] m [OF k(2)]]) (use e in simp)
    then show "k = k'" by simp
  qed
  then show ?thesis using distinct_object_keys [OF d] by (simp add: to_array_def distinct_map comp_def inj_on_def)
qed

lemma get_fields_by_id_total:
  assumes "heap_ok h" "t < size_of h"
  shows "\<exists>h' m. get_fields_by_id t h = Some (Inr (h', m))"
proof (cases "ty_by_id (ob_type (get_obj h t))")
  case None
  have "fields_ok h (ob_type (get_obj h t))" using assms by (simp add: heap_ok_def)
  from by_id_loop_total [OF _ to_array_ids [OF this], of "[]"]
  obtain m where "by_id_loop h (to_array (Some (ty_fields (ob_type (get_obj h t))))) [] = Inr m" by auto
  then show ?thesis using None by (simp add: get_fields_by_id_def done_with_def)
qed (simp add: get_fields_by_id_def done_with_def)

text \<open>C5: in every tree that is built from the constructors by calls of add and remove, with all the calls that these
  make (oneofs, extensions, fields that move from type to type), no object refers to an object that does not
  exist, two fields of a type never have the same id, and \<open>fieldsById\<close> does not throw.\<close>

theorem field_ids_unique:
  assumes "built h" "t < length (hp_objs h)"
  shows "closed h
    \<and> (\<forall>p \<in> set (ty_fields (ob_type (get_obj h t))). \<forall>q \<in> set (ty_fields (ob_type (get_obj h t))).
         fd_id (ob_field (get_obj h (snd p))) = fd_id (ob_field (get_obj h (snd q))) \<longrightarrow> p = q)
    \<and> (\<exists>h' m. get_fields_by_id t h = Some (Inr (h', m)))"
proof -
  have h: "heap_ok h" by (rule built_ok [OF assms(1)])
  moreover have t: "t < size_of h" using assms(2) by (simp add: size_of_def)
  moreover have "fields_ok h (ob_type (get_obj h t))" using h t by (simp add: heap_ok_def)
  ultimately show ?thesis using get_fields_by_id_total [OF h t] unfolding heap_ok_def fields_ok_def by blast
qed

text \<open>A type to which a field was added.\<close>

definition number_field :: "string \<Rightarrow> int \<Rightarrow> obj" where
  "number_field name k = (case new_field (js name) k (js ''int32'') None None None of Inr ob \<Rightarrow> ob | Inl e \<Rightarrow> blank_obj KField [] None)"

definition seed_heap :: heap where
  "seed_heap = \<lparr>hp_objs = [new_type (js ''M''), number_field ''a'' 1], hp_opts = []\<rparr>"

lemma seed_built: "built seed_heap"
proof -
  have f: "constructed (number_field ''a'' 1)"
    by (rule constructed.intros(8) [of "js ''a''" 1 "js ''int32''" None None None]) (simp add: number_field_def new_field_def)
  have e: "seed_heap = fst (alloc_obj (number_field ''a'' 1) (fst (alloc_obj (new_type (js ''M'')) empty_heap)))"
    by (simp add: seed_heap_def alloc_obj_def empty_heap_def)
  show ?thesis unfolding e by (rule built_new [OF built_new [OF built_empty constructed.intros(3)] f])
qed

definition added_heap :: heap where
  "added_heap = (case run 3 (CAdd 0 1) seed_heap of Some (Inr h) \<Rightarrow> h | _ \<Rightarrow> empty_heap)"

lemma field_added: "run 3 (CAdd 0 1) seed_heap = Some (Inr added_heap)" "map snd (ty_fields (ob_type (get_obj added_heap 0))) = [1]"
  "length (hp_objs added_heap) = 2"
  by code_simp+

lemma field_ids_unique_witness:
  "map snd (ty_fields (ob_type (get_obj added_heap 0))) = [1] \<and> (\<exists>h' m. get_fields_by_id 0 added_heap = Some (Inr (h', m)))"
proof -
  have "built added_heap"
    by (rule built_call [OF seed_built _ field_added(1)]) (simp add: call_ok_def seed_heap_def size_of_def)
  from field_ids_unique [OF this, of 0] show ?thesis using field_added(2, 3) by simp
qed

end
