(* ===== verification/ReflectJson.thy ===== *)
theory ReflectJson
  imports ReflectAdd
begin

text \<open>
  JSON descriptors: \<open>fromJSON\<close> of every class and \<open>addJSON\<close>, which build the reflection tree from a plain
  object, and \<open>toJSON\<close>, which describes a tree. A descriptor is a value; properties that are undefined in it
  are listed as such.
\<close>

section \<open>Reading a descriptor\<close>

definition jprop :: "jsval \<Rightarrow> jsstring \<Rightarrow> jsval" where
  "jprop j k = (case j of JObj m \<Rightarrow> (case prop_get m k of Some v \<Rightarrow> v | None \<Rightarrow> JUndef) | _ \<Rightarrow> JUndef)"

text \<open>The options of a new object: \<open>options && !util.isObject(options)\<close> throws.\<close>

definition json_options_of :: "jsval \<Rightarrow> heap \<Rightarrow> (heap \<times> nat option) outcome" where
  "json_options_of j h =
     (case j of
        JObj m \<Rightarrow> done_with (h\<lparr>hp_opts := hp_opts h @ [m]\<rparr>, Some (length (hp_opts h)))
      | JUndef \<Rightarrow> done_with (h, None)
      | _ \<Rightarrow> if js_truthy j then type_fail (js ''options must be an object'') else done_with (h, None))"

definition with_options :: "nat option \<Rightarrow> obj \<Rightarrow> obj" where
  "with_options r ob = ob\<lparr>ob_options := r\<rparr>"

text \<open>A string argument that may be undefined; other values are not modelled.\<close>

definition opt_string :: "jsval \<Rightarrow> jsstring option option" where
  "opt_string j = (case j of JUndef \<Rightarrow> Some None | JStr s \<Rightarrow> Some (Some s) | _ \<Rightarrow> None)"

definition json_field_of :: "jsstring \<Rightarrow> jsval \<Rightarrow> heap \<Rightarrow> (heap \<times> oid) outcome" where
  "json_field_of name j h =
     obind (json_options_of (jprop j (js ''options'')) h) (\<lambda>(h, r).
       case as_integer (jprop j (js ''id'')) of
         None \<Rightarrow> type_fail (js ''id must be a non-negative integer'')
       | Some k \<Rightarrow>
           if k < 0 then type_fail (js ''id must be a non-negative integer'')
           else (case jprop j (js ''type'') of
                   JStr t \<Rightarrow>
                     (case (opt_string (jprop j (js ''rule'')), opt_string (jprop j (js ''extend''))) of
                        (Some rule, Some ext) \<Rightarrow>
                          (case new_field name k t rule ext r of
                             Inl e \<Rightarrow> Some (Inl e) | Inr ob \<Rightarrow> done_with (alloc_obj ob h))
                      | _ \<Rightarrow> None)
                 | _ \<Rightarrow> type_fail (js ''type must be a string'')))"

definition json_map_field_of :: "jsstring \<Rightarrow> jsval \<Rightarrow> heap \<Rightarrow> (heap \<times> oid) outcome" where
  "json_map_field_of name j h =
     obind (json_options_of (jprop j (js ''options'')) h) (\<lambda>(h, r).
       case as_integer (jprop j (js ''id'')) of
         None \<Rightarrow> type_fail (js ''id must be a non-negative integer'')
       | Some k \<Rightarrow>
           if k < 0 then type_fail (js ''id must be a non-negative integer'')
           else (case (jprop j (js ''type''), jprop j (js ''keyType'')) of
                   (JStr t, JStr kt) \<Rightarrow>
                     (case new_map_field name k kt t r of Inl e \<Rightarrow> Some (Inl e) | Inr ob \<Rightarrow> done_with (alloc_obj ob h))
                 | (JStr t, _) \<Rightarrow> type_fail (js ''keyType must be a string'')
                 | _ \<Rightarrow> type_fail (js ''type must be a string'')))"

definition json_strings :: "jsval \<Rightarrow> jsstring list option" where
  "json_strings j = (case j of JArr vs \<Rightarrow> those (map (\<lambda>v. case v of JStr s \<Rightarrow> Some s | _ \<Rightarrow> None) vs) | JUndef \<Rightarrow> Some [] | _ \<Rightarrow> None)"

definition json_oneof_of :: "jsstring \<Rightarrow> jsval \<Rightarrow> heap \<Rightarrow> (heap \<times> oid) outcome" where
  "json_oneof_of name j h =
     (case json_strings (jprop j (js ''oneof'')) of
        None \<Rightarrow> None
      | Some names \<Rightarrow>
          obind (json_options_of (jprop j (js ''options'')) h) (\<lambda>(h, r). done_with (alloc_obj (with_options r (new_oneof name names)) h)))"

definition json_enum_of :: "jsstring \<Rightarrow> jsval \<Rightarrow> heap \<Rightarrow> (heap \<times> oid) outcome" where
  "json_enum_of name j h =
     obind (json_options_of (jprop j (js ''options'')) h) (\<lambda>(h, r).
       case jprop j (js ''values'') of
         JObj m \<Rightarrow>
           (case those (map (\<lambda>(k, v). map_option (Pair k) (as_integer v)) m) of
              None \<Rightarrow> None | Some values \<Rightarrow> done_with (alloc_obj (with_options r (new_enum name values)) h))
       | JUndef \<Rightarrow> done_with (alloc_obj (with_options r (new_enum name [])) h)
       | JNull \<Rightarrow> done_with (alloc_obj (with_options r (new_enum name [])) h)
       | _ \<Rightarrow> None)"

definition json_method_of :: "jsstring \<Rightarrow> jsval \<Rightarrow> heap \<Rightarrow> (heap \<times> oid) outcome" where
  "json_method_of name j h =
     (case opt_string (jprop j (js ''type'')) of
        None \<Rightarrow> type_fail (js ''type must be a string'')
      | Some ty \<Rightarrow>
          (case (jprop j (js ''requestType''), jprop j (js ''responseType'')) of
             (JStr q, JStr s) \<Rightarrow>
               obind (json_options_of (jprop j (js ''options'')) h) (\<lambda>(h, r).
                 done_with (alloc_obj (with_options r (new_method name ty q s
                   (js_truthy (jprop j (js ''requestStream''))) (js_truthy (jprop j (js ''responseStream''))))) h))
           | (JStr q, _) \<Rightarrow> type_fail (js ''responseType must be a string'')
           | _ \<Rightarrow> type_fail (js ''requestType must be a string'')))"

definition json_ranges :: "jsval \<Rightarrow> range list option option" where
  "json_ranges j =
     (case j of
        JArr vs \<Rightarrow> map_option Some (those (map (\<lambda>v. case v of JStr s \<Rightarrow> Some (NameRange s) | JArr [JNum a, JNum b] \<Rightarrow> Some (IdRange a b) | _ \<Rightarrow> None) vs))
      | JUndef \<Rightarrow> Some None
      | _ \<Rightarrow> None)"

text \<open>The entries of an object in the order of \<open>Object.keys\<close>; a missing object has none.\<close>

definition entries :: "jsval \<Rightarrow> (jsstring \<times> jsval) list outcome" where
  "entries j =
     (case j of
        JObj m \<Rightarrow> done_with (map (\<lambda>k. (k, the (prop_get m k))) (object_keys m))
      | _ \<Rightarrow> if js_truthy j then None else done_with [])"

text \<open>Adding what a constructor made to its new parent.\<close>

definition add_made :: "nat \<Rightarrow> oid \<Rightarrow> (heap \<times> oid) outcome \<Rightarrow> heap outcome" where
  "add_made n t made = obind made (\<lambda>(h, x). run n (CAdd t x) h)"

text \<open>
  \<open>fromJSON\<close> of Type, Service and Namespace and the choice that \<open>addJSON\<close> and \<open>Type.fromJSON\<close> make
  among the descriptors. They call each other through \<open>mk\<close>, which \<open>make\<close> closes with fuel for the depth of the
  descriptor; \<open>n\<close> is the fuel of \<open>add\<close>.
\<close>

datatype maker = MkNested | MkType | MkService | MkNamespace

type_synonym making = "maker \<Rightarrow> jsstring \<Rightarrow> jsval \<Rightarrow> heap \<Rightarrow> (heap \<times> oid) outcome"

definition json_nested_of :: "making \<Rightarrow> jsstring \<Rightarrow> jsval \<Rightarrow> heap \<Rightarrow> (heap \<times> oid) outcome" where
  "json_nested_of mk name j h =
     (if nullish j then type_fail (js ''fields'')
      else if jprop j (js ''fields'') \<noteq> JUndef then mk MkType name j h
      else if jprop j (js ''values'') \<noteq> JUndef then json_enum_of name j h
      else if jprop j (js ''methods'') \<noteq> JUndef then mk MkService name j h
      else if jprop j (js ''id'') \<noteq> JUndef then json_field_of name j h
      else mk MkNamespace name j h)"

definition add_json :: "making \<Rightarrow> nat \<Rightarrow> oid \<Rightarrow> jsval \<Rightarrow> heap \<Rightarrow> heap outcome" where
  "add_json mk n t j h = obind (entries j) (\<lambda>es. ofold (\<lambda>(k, v) h. add_made n t (mk MkNested k v h)) es h)"

definition json_type_of :: "making \<Rightarrow> nat \<Rightarrow> jsstring \<Rightarrow> jsval \<Rightarrow> heap \<Rightarrow> (heap \<times> oid) outcome" where
  "json_type_of mk n name j h =
     obind (json_options_of (jprop j (js ''options'')) h) (\<lambda>(h, r).
       case (json_ranges (jprop j (js ''extensions'')), json_ranges (jprop j (js ''reserved''))) of
         (Some ext, Some rsv) \<Rightarrow>
           (case alloc_obj (with_options r (new_type name)) h of
              (h, t) \<Rightarrow>
                let h = upd_type t (\<lambda>d. d\<lparr>ty_extensions := ext, ty_reserved := rsv\<rparr>) h in
                obind (entries (jprop j (js ''fields''))) (\<lambda>es.
                obind (ofold (\<lambda>(k, v) h. add_made n t
                         (if jprop v (js ''keyType'') \<noteq> JUndef then json_map_field_of k v h else json_field_of k v h)) es h) (\<lambda>h.
                obind (entries (jprop j (js ''oneofs''))) (\<lambda>es.
                obind (ofold (\<lambda>(k, v) h. add_made n t (json_oneof_of k v h)) es h) (\<lambda>h.
                obind (entries (jprop j (js ''nested''))) (\<lambda>es.
                obind (ofold (\<lambda>(k, v) h. add_made n t
                         (if jprop v (js ''id'') \<noteq> JUndef then json_field_of k v h else mk MkNested k v h)) es h) (\<lambda>h.
                done_with (if js_truthy (jprop j (js ''group'')) then upd_type t (\<lambda>d. d\<lparr>ty_group := True\<rparr>) h else h, t))))))))
       | _ \<Rightarrow> None)"

definition json_service_of :: "making \<Rightarrow> nat \<Rightarrow> jsstring \<Rightarrow> jsval \<Rightarrow> heap \<Rightarrow> (heap \<times> oid) outcome" where
  "json_service_of mk n name j h =
     obind (json_options_of (jprop j (js ''options'')) h) (\<lambda>(h, r).
       case alloc_obj (with_options r (new_service name)) h of
         (h, t) \<Rightarrow>
           obind (entries (jprop j (js ''methods''))) (\<lambda>es.
           obind (ofold (\<lambda>(k, v) h. add_made n t (json_method_of k v h)) es h) (\<lambda>h.
           obind (add_json mk n t (jprop j (js ''nested'')) h) (\<lambda>h. done_with (h, t)))))"

definition json_namespace_of :: "making \<Rightarrow> nat \<Rightarrow> jsstring \<Rightarrow> jsval \<Rightarrow> heap \<Rightarrow> (heap \<times> oid) outcome" where
  "json_namespace_of mk n name j h =
     obind (json_options_of (jprop j (js ''options'')) h) (\<lambda>(h, r).
       case alloc_obj (with_options r (new_namespace name)) h of
         (h, t) \<Rightarrow> obind (add_json mk n t (jprop j (js ''nested'')) h) (\<lambda>h. done_with (h, t)))"

fun make :: "nat \<Rightarrow> making" where
  "make 0 k name j h = None"
| "make (Suc n) k name j h =
     (case k of
        MkNested \<Rightarrow> json_nested_of (make n) name j h
      | MkType \<Rightarrow> json_type_of (make n) n name j h
      | MkService \<Rightarrow> json_service_of (make n) n name j h
      | MkNamespace \<Rightarrow> json_namespace_of (make n) n name j h)"

text \<open>\<open>Root.fromJSON\<close> into an existing root.\<close>

definition root_from_json :: "nat \<Rightarrow> jsval \<Rightarrow> oid \<Rightarrow> heap \<Rightarrow> heap outcome" where
  "root_from_json n j r h =
     add_json (make n) n r (jprop j (js ''nested''))
       (case jprop j (js ''options'') of JObj m \<Rightarrow> set_options r (Some m) False h | _ \<Rightarrow> h)"

section \<open>Writing a descriptor\<close>

definition opts_json :: "heap \<Rightarrow> oid \<Rightarrow> jsval" where
  "opts_json h i = (case get_opts h i of Some os \<Rightarrow> JObj os | None \<Rightarrow> JUndef)"

definition opt_json :: "jsstring option \<Rightarrow> jsval" where
  "opt_json s = (case s of Some x \<Rightarrow> JStr x | None \<Rightarrow> JUndef)"

definition field_json :: "heap \<Rightarrow> oid \<Rightarrow> jsval" where
  "field_json h i =
     (let d = ob_field (get_obj h i) in
      if ob_class (get_obj h i) = KMapField then
        JObj [(js ''keyType'', JStr (fd_key_type d)), (js ''type'', JStr (fd_type d)), (js ''id'', JNum (fd_id d)),
              (js ''extend'', opt_json (fd_extend d)), (js ''options'', opts_json h i)]
      else
        JObj [(js ''rule'', opt_json (fd_rule d)), (js ''type'', JStr (fd_type d)), (js ''id'', JNum (fd_id d)),
              (js ''extend'', opt_json (fd_extend d)), (js ''options'', opts_json h i)])"

definition enum_json :: "heap \<Rightarrow> oid \<Rightarrow> jsval" where
  "enum_json h i =
     JObj [(js ''options'', opts_json h i), (js ''values'', JObj (map (\<lambda>(k, v). (k, JNum v)) (en_vals (ob_enum (get_obj h i)))))]"

definition oneof_json :: "heap \<Rightarrow> oid \<Rightarrow> jsval" where
  "oneof_json h i = JObj [(js ''oneof'', JArr (map JStr (oneof_names (ob_oneof (get_obj h i))))), (js ''options'', opts_json h i)]"

definition method_json :: "heap \<Rightarrow> oid \<Rightarrow> jsval" where
  "method_json h i =
     (let d = ob_method (get_obj h i); b = (\<lambda>b. if b then JBool True else JUndef) in
      JObj [(js ''type'', if me_type d \<noteq> js ''rpc'' then JStr (me_type d) else JUndef),
            (js ''requestType'', JStr (me_request_type d)), (js ''requestStream'', b (me_request_stream d)),
            (js ''responseType'', JStr (me_response_type d)), (js ''responseStream'', b (me_response_stream d)),
            (js ''options'', opts_json h i)])"

definition range_json :: "range list option \<Rightarrow> jsval" where
  "range_json rs =
     (case rs of
        None \<Rightarrow> JUndef
      | Some rs \<Rightarrow> if rs = [] then JUndef
                   else JArr (map (\<lambda>r. case r of NameRange s \<Rightarrow> JStr s | IdRange a b \<Rightarrow> JArr [JNum a, JNum b]) rs))"

text \<open>\<open>arrayToJSON\<close>, which asks every element for its descriptor.\<close>

definition array_json :: "(oid \<Rightarrow> heap \<Rightarrow> (heap \<times> jsval) outcome) \<Rightarrow> oid list \<Rightarrow> heap \<Rightarrow> (heap \<times> jsval) outcome" where
  "array_json g xs h =
     (if xs = [] then done_with (h, JUndef)
      else obind (ofold (\<lambda>x (h, m). obind (g x h) (\<lambda>(h, v). done_with (h, prop_set m (ob_name (get_obj h x)) v))) xs (h, []))
        (\<lambda>(h, m). done_with (h, JObj m)))"

text \<open>\<open>a || b\<close> on descriptors.\<close>

definition or_json :: "jsval \<Rightarrow> jsval \<Rightarrow> jsval" where
  "or_json a b = (if js_truthy a then a else b)"

text \<open>\<open>toJSON\<close> of Namespace, Type and Service; \<open>tj\<close> describes a child.\<close>

type_synonym describer = "oid \<Rightarrow> heap \<Rightarrow> (heap \<times> jsval) outcome"

definition nested_json :: "describer \<Rightarrow> oid \<Rightarrow> heap \<Rightarrow> (heap \<times> jsval) outcome" where
  "nested_json tj i h = (case get_nested_array i h of (h, xs) \<Rightarrow> array_json tj xs h)"

definition type_json :: "describer \<Rightarrow> oid \<Rightarrow> heap \<Rightarrow> (heap \<times> jsval) outcome" where
  "type_json tj i h =
     obind (nested_json tj i h) (\<lambda>(h, nj).
       case get_oneofs_array i h of
         (h, os) \<Rightarrow>
           obind (array_json tj os h) (\<lambda>(h, oj).
             case get_fields_array i h of
               (h, fs) \<Rightarrow>
                 obind (array_json tj (filter (\<lambda>f. fd_declaring_field (ob_field (get_obj h f)) = None) fs) h) (\<lambda>(h, fj).
                   let d = ob_type (get_obj h i) in
                   done_with (h, JObj
                     [(js ''options'', opts_json h i), (js ''oneofs'', oj), (js ''fields'', or_json fj (JObj [])),
                      (js ''extensions'', range_json (ty_extensions d)), (js ''reserved'', range_json (ty_reserved d)),
                      (js ''group'', if ty_group d then JBool True else JUndef), (js ''nested'', nj)]))))"

definition service_json :: "describer \<Rightarrow> oid \<Rightarrow> heap \<Rightarrow> (heap \<times> jsval) outcome" where
  "service_json tj i h =
     obind (nested_json tj i h) (\<lambda>(h, nj).
       case get_methods_array i h of
         (h, ms) \<Rightarrow>
           obind (array_json tj ms h) (\<lambda>(h, mj).
             done_with (h, JObj [(js ''options'', opts_json h i), (js ''methods'', or_json mj (JObj [])), (js ''nested'', nj)])))"

definition namespace_json :: "describer \<Rightarrow> oid \<Rightarrow> heap \<Rightarrow> (heap \<times> jsval) outcome" where
  "namespace_json tj i h =
     obind (nested_json tj i h) (\<lambda>(h, nj). done_with (h, JObj [(js ''options'', opts_json h i), (js ''nested'', nj)]))"

text \<open>The call of \<open>toJSON\<close> on any object; the fuel bounds the depth of the tree.\<close>

fun to_json :: "nat \<Rightarrow> describer" where
  "to_json 0 i h = None"
| "to_json (Suc n) i h =
     (case ob_class (get_obj h i) of
        KField \<Rightarrow> done_with (h, field_json h i)
      | KMapField \<Rightarrow> done_with (h, field_json h i)
      | KEnum \<Rightarrow> done_with (h, enum_json h i)
      | KOneOf \<Rightarrow> done_with (h, oneof_json h i)
      | KMethod \<Rightarrow> done_with (h, method_json h i)
      | KType \<Rightarrow> type_json (to_json n) i h
      | KService \<Rightarrow> service_json (to_json n) i h
      | _ \<Rightarrow> namespace_json (to_json n) i h)"

end
