(* ===== verification/Parser.thy ===== *)
theory Parser
  imports Tokenizer ReflectAdd
begin

text \<open>
  The .proto parser of protobuf.js: the closure of \<open>parse\<close> as a state with the tokenizer and the heap of
  reflection objects, one function for every function of the closure. Loops and the nesting of declarations
  use fuel.
\<close>

section \<open>Regular expressions\<close>

definition name_start :: "u16 \<Rightarrow> bool" where
  "name_start c \<longleftrightarrow> 97 \<le> c \<and> c \<le> 122 \<or> 65 \<le> c \<and> c \<le> 90 \<or> c = 95"

definition name_re :: "jsstring \<Rightarrow> bool" where
  "name_re s \<longleftrightarrow> (case s of c # cs \<Rightarrow> name_start c \<and> list_all word_char cs | [] \<Rightarrow> False)"

text \<open>Every dot is followed by a character of the class.\<close>

fun dots_ok :: "(u16 \<Rightarrow> bool) \<Rightarrow> jsstring \<Rightarrow> bool" where
  "dots_ok p [] \<longleftrightarrow> True"
| "dots_ok p (c # s) \<longleftrightarrow> (c = 46 \<longrightarrow> s \<noteq> [] \<and> p (hd s)) \<and> dots_ok p s"

definition type_ref_re :: "jsstring \<Rightarrow> bool" where
  "type_ref_re s \<longleftrightarrow> s \<noteq> [] \<and> (hd s = 46 \<or> name_start (hd s)) \<and> list_all (\<lambda>c. c = 46 \<or> word_char c) s \<and> dots_ok name_start s"

definition fq_type_ref_re :: "jsstring \<Rightarrow> bool" where
  "fq_type_ref_re s \<longleftrightarrow> s \<noteq> [] \<and> hd s = 46 \<and> list_all (\<lambda>c. c = 46 \<or> word_char c) s \<and> dots_ok (\<lambda>c. name_start c \<and> c \<noteq> 95) s"

definition base10_re :: "jsstring \<Rightarrow> bool" where
  "base10_re s \<longleftrightarrow> s \<noteq> [] \<and> hd s \<noteq> 48 \<and> list_all is_digit s"

definition hex_digit :: "u16 \<Rightarrow> bool" where
  "hex_digit c \<longleftrightarrow> is_digit c \<or> 97 \<le> c \<and> c \<le> 102 \<or> 65 \<le> c \<and> c \<le> 70"

definition base16_re :: "jsstring \<Rightarrow> bool" where
  "base16_re s \<longleftrightarrow> take 2 s = js ''0x'' \<and> drop 2 s \<noteq> [] \<and> list_all hex_digit (drop 2 s)"

definition base8_re :: "jsstring \<Rightarrow> bool" where
  "base8_re s \<longleftrightarrow> take 1 s = [48] \<and> drop 1 s \<noteq> [] \<and> list_all (\<lambda>c. 48 \<le> c \<and> c \<le> 55) (drop 1 s)"

text \<open>The sign that the expressions with \<open>-?\<close> allow.\<close>

definition unsigned_part :: "jsstring \<Rightarrow> jsstring" where
  "unsigned_part s = (if take 1 s = [45] then drop 1 s else s)"

text \<open>\<open>numberRe\<close>: digits, a fraction and an exponent, all of which may be missing.\<close>

definition exponent_re :: "jsstring \<Rightarrow> bool" where
  "exponent_re s \<longleftrightarrow>
     (case s of
        [] \<Rightarrow> True
      | c # r \<Rightarrow> (c = 101 \<or> c = 69)
          \<and> (let d = (case r of x # r' \<Rightarrow> if x = 43 \<or> x = 45 then r' else r | [] \<Rightarrow> []) in d \<noteq> [] \<and> list_all is_digit d))"

definition number_re :: "jsstring \<Rightarrow> bool" where
  "number_re s \<longleftrightarrow>
     \<not> (s \<noteq> [] \<and> (hd s = 101 \<or> hd s = 69))
     \<and> (let r = dropWhile is_digit s
        in exponent_re (case r of c # r' \<Rightarrow> if c = 46 then dropWhile is_digit r' else r | [] \<Rightarrow> []))"

section \<open>Numbers\<close>

text \<open>The nearest double of a ratio of naturals, ties to even, as a bit pattern.\<close>

definition div_round :: "nat \<Rightarrow> nat \<Rightarrow> nat" where
  "div_round a b = (let q = a div b; r = a mod b in if 2 * r > b \<or> 2 * r = b \<and> odd q then q + 1 else q)"

definition ratio_bits :: "nat \<Rightarrow> nat \<Rightarrow> nat" where
  "ratio_bits a b =
     (if a = 0 then 0
      else let e0 = int (bit_len a) - int (bit_len b);
               e = (if a * 2 ^ nat (- e0) \<ge> b * 2 ^ nat e0 then e0 else e0 - 1);
               e = max e (- 1022);
               m = div_round (a * 2 ^ nat (52 - e)) (b * 2 ^ nat (e - 52));
               bits = (if m < 2 ^ 52 then m else nat (e + 1023) * 2 ^ 52 + (m - 2 ^ 52))
           in min bits (2047 * 2 ^ 52))"

definition number_value :: "bool \<Rightarrow> nat \<Rightarrow> nat \<Rightarrow> jsval" where
  "number_value negative a b =
     (let bits = ratio_bits a b; v = JF64 (of_nat bits); v' = JF64 (of_nat (bits + 2 ^ 63))
      in case as_integer v of
           Some i \<Rightarrow> if negative then (if i = 0 then v' else JNum (- i)) else JNum i
         | None \<Rightarrow> if negative then v' else v)"

definition infinity :: "bool \<Rightarrow> jsval" where
  "infinity negative = JF64 (if negative then 0xFFF0000000000000 else 0x7FF0000000000000)"

definition js_nan :: jsval where
  "js_nan = JF64 0x7FF8000000000000"

definition digit_value :: "u16 \<Rightarrow> nat" where
  "digit_value c = (if c \<le> 57 then unat c - 48 else if c \<le> 70 then unat c - 55 else unat c - 87)"

definition digits_in :: "nat \<Rightarrow> jsstring \<Rightarrow> nat" where
  "digits_in radix s = foldl (\<lambda>n c. n * radix + digit_value c) 0 s"

text \<open>\<open>parseFloat\<close> on a string that \<open>numberRe\<close> accepts.\<close>

definition parse_float :: "bool \<Rightarrow> jsstring \<Rightarrow> jsval" where
  "parse_float negative s =
     (let whole = takeWhile is_digit s; r = dropWhile is_digit s;
          frac = (case r of c # r' \<Rightarrow> if c = 46 then takeWhile is_digit r' else [] | [] \<Rightarrow> []);
          r = (case r of c # r' \<Rightarrow> if c = 46 then dropWhile is_digit r' else r | [] \<Rightarrow> []);
          x = (case r of c # r' \<Rightarrow> r' | [] \<Rightarrow> []);
          xneg = (x \<noteq> [] \<and> hd x = 45);
          n = digits_in 10 (dropWhile (\<lambda>c. \<not> is_digit c) x);
          a = digits_in 10 (whole @ frac); b = 10 ^ length frac
      in if whole @ frac = [] then js_nan
         else if xneg then number_value negative a (b * 10 ^ n) else number_value negative (a * 10 ^ n) b)"

section \<open>The state\<close>

record parser =
  ps_tk :: tokenizer
  ps_heap :: heap
  ps_pkg :: "jsstring option"
  ps_imports :: "jsstring list option"
  ps_weak_imports :: "jsstring list option"
  ps_syntax :: "jsstring option"
  ps_proto3 :: bool
  ps_head :: bool
  ps_ptr :: oid
  ps_filename :: "jsstring option"
  ps_keep_case :: bool
  ps_dummy_comment :: "jsstring option"

type_synonym 'a pm = "parser \<Rightarrow> ('a \<times> parser) outcome"

definition preturn :: "'a \<Rightarrow> 'a pm" where
  "preturn x s = done_with (x, s)"

definition pbind :: "'a pm \<Rightarrow> ('a \<Rightarrow> 'b pm) \<Rightarrow> 'b pm" where
  "pbind m f s = obind (m s) (\<lambda>(x, s). f x s)"

definition pseq :: "'a pm \<Rightarrow> 'b pm \<Rightarrow> 'b pm" where
  "pseq m k = pbind m (\<lambda>_. k)"

definition pget :: "(parser \<Rightarrow> 'a) \<Rightarrow> 'a pm" where
  "pget f s = done_with (f s, s)"

definition pmodify :: "(parser \<Rightarrow> parser) \<Rightarrow> unit pm" where
  "pmodify f s = done_with ((), f s)"

definition ptoken :: "(tokenizer \<Rightarrow> (tokenizer \<times> 'a) res) \<Rightarrow> 'a pm" where
  "ptoken f s = (case f (ps_tk s) of Inl e \<Rightarrow> Some (Inl e) | Inr (t, x) \<Rightarrow> done_with (x, s\<lparr>ps_tk := t\<rparr>))"

definition pheap :: "(heap \<Rightarrow> heap outcome) \<Rightarrow> unit pm" where
  "pheap f s = obind (f (ps_heap s)) (\<lambda>h. done_with ((), s\<lparr>ps_heap := h\<rparr>))"

definition pmake :: "obj \<Rightarrow> oid pm" where
  "pmake ob s = (case alloc_obj ob (ps_heap s) of (h, i) \<Rightarrow> done_with (i, s\<lparr>ps_heap := h\<rparr>))"

definition pmake_res :: "obj res \<Rightarrow> oid pm" where
  "pmake_res r = (case r of Inl e \<Rightarrow> (\<lambda>s. Some (Inl e)) | Inr ob \<Rightarrow> pmake ob)"

definition pthrow :: "js_error \<Rightarrow> 'a pm" where
  "pthrow e s = Some (Inl e)"

definition pnext :: "jsstring option pm" where
  "pnext = ptoken next_token"

definition ppeek :: "jsstring option pm" where
  "ppeek = ptoken peek_token"

definition ppush :: "jsstring option \<Rightarrow> unit pm" where
  "ppush t = pmodify (\<lambda>s. s\<lparr>ps_tk := push_token (token_string t) (ps_tk s)\<rparr>)"

definition pskip :: "jsstring \<Rightarrow> unit pm" where
  "pskip t = pbind (ptoken (skip_token t False)) (\<lambda>_. preturn ())"

definition pskip_if :: "jsstring \<Rightarrow> bool pm" where
  "pskip_if t = ptoken (skip_token t True)"

text \<open>\<open>illegal(token, name)\<close>.\<close>

definition pillegal :: "jsstring option \<Rightarrow> jsstring \<Rightarrow> 'a pm" where
  "pillegal t name s =
     pthrow (JsError (js ''illegal '' @ name @ js '' '' @ quoted (token_string t) @ js '' ('' @
       (case ps_filename s of Some f \<Rightarrow> if f \<noteq> [] then f @ js '', '' else [] | None \<Rightarrow> []) @
       js ''line '' @ dec_digits (tk_line (ps_tk s)) @ js '')'')) s"

text \<open>A token on which a regular expression is tested; null is tested as the string "null".\<close>

definition expect :: "(jsstring \<Rightarrow> bool) \<Rightarrow> jsstring \<Rightarrow> jsstring option pm" where
  "expect re name = pbind pnext (\<lambda>t. if re (token_string t) then preturn t else pillegal t name)"

text \<open>Names: \<open>camelCase\<close>, \<open>util.lcFirst\<close> and \<open>util.ucFirst\<close>; a name that is null throws.\<close>

fun camel_rest :: "jsstring \<Rightarrow> jsstring" where
  "camel_rest (c # d # s) = (if c = 95 \<and> 97 \<le> d \<and> d \<le> 122 then upper_char d # camel_rest s else c # camel_rest (d # s))"
| "camel_rest s = s"

definition camel_case :: "jsstring \<Rightarrow> jsstring" where
  "camel_case s = take 1 s @ camel_rest (drop 1 s)"

definition lc_first :: "jsstring \<Rightarrow> jsstring" where
  "lc_first s = map lower_char (take 1 s) @ drop 1 s"

definition uc_first :: "jsstring \<Rightarrow> jsstring" where
  "uc_first s = map upper_char (take 1 s) @ drop 1 s"

definition apply_case :: "jsstring option \<Rightarrow> jsstring pm" where
  "apply_case t s =
     (if ps_keep_case s then done_with (token_string t, s)
      else case t of None \<Rightarrow> type_fail (js ''substring'') | Some n \<Rightarrow> done_with (camel_case n, s))"

definition named :: "jsstring option \<Rightarrow> jsstring pm" where
  "named t = (case t of None \<Rightarrow> pthrow (JsTypeError (js ''name must be a string'')) | Some n \<Rightarrow> preturn n)"

definition token_word :: jsstring where "token_word = js ''token''"
definition name_word :: jsstring where "name_word = js ''name''"
definition type_word :: jsstring where "type_word = js ''type''"

definition quote_token :: "jsstring option \<Rightarrow> bool" where
  "quote_token t \<longleftrightarrow> t = Some [34] \<or> t = Some [39]"

section \<open>Values\<close>

text \<open>\<open>readString\<close>: adjacent strings are joined.\<close>

fun read_string :: "nat \<Rightarrow> jsstring pm" where
  "read_string 0 = (\<lambda>s. None)"
| "read_string (Suc n) =
     pbind pnext (\<lambda>t.
       if \<not> quote_token t then pillegal t token_word
       else pbind pnext (\<lambda>v. pbind (pskip (token_string t)) (\<lambda>_. pbind ppeek (\<lambda>p.
         let text = (case v of Some x \<Rightarrow> x | None \<Rightarrow> []) in
         if quote_token p then pbind (read_string n) (\<lambda>r. preturn (text @ r)) else preturn text))))"

text \<open>\<open>parseNumber\<close> without the exception, which its caller replaces.\<close>

definition parse_number :: "jsstring \<Rightarrow> jsval option" where
  "parse_number token =
     (let negative = (take 1 token = [45]); t = unsigned_part token in
      if t \<in> {js ''inf'', js ''INF'', js ''Inf''} then Some (infinity negative)
      else if t \<in> {js ''nan'', js ''NAN'', js ''Nan'', js ''NaN''} then Some js_nan
      else if t = [48] then Some (JNum 0)
      else if base10_re t then Some (number_value negative (digits_in 10 t) 1)
      else if base16_re t then Some (number_value negative (digits_in 16 (drop 2 t)) 1)
      else if base8_re t then Some (number_value negative (digits_in 8 t) 1)
      else if number_re t then Some (parse_float negative t)
      else None)"

definition read_value :: "nat \<Rightarrow> bool \<Rightarrow> jsval pm" where
  "read_value n accept_type_ref =
     pbind pnext (\<lambda>token.
       if quote_token token then pseq (ppush token) (pbind (read_string n) (\<lambda>x. preturn (JStr x)))
       else if token \<in> {Some (js ''true''), Some (js ''TRUE'')} then preturn (JBool True)
       else if token \<in> {Some (js ''false''), Some (js ''FALSE'')} then preturn (JBool False)
       else (case (case token of None \<Rightarrow> None | Some t \<Rightarrow> parse_number t) of
               Some v \<Rightarrow> preturn v
             | None \<Rightarrow>
                 if accept_type_ref \<and> type_ref_re (token_string token)
                 then preturn (case token of None \<Rightarrow> JNull | Some t \<Rightarrow> JStr t)
                 else pillegal token (js ''value'')))"

text \<open>\<open>parseId\<close>. A value that is no integer, which is beyond the range of doubles, is not modelled.\<close>

definition signed_value :: "bool \<Rightarrow> nat \<Rightarrow> int option" where
  "signed_value negative a =
     (case number_value negative a 1 of JNum i \<Rightarrow> Some i | JF64 b \<Rightarrow> as_integer (JF64 b) | _ \<Rightarrow> None)"

definition parse_id :: "jsstring option \<Rightarrow> bool \<Rightarrow> int pm" where
  "parse_id token accept_negative s =
     (let t = token_string token; negative = (take 1 t = [45]); u = unsigned_part t;
          give = (\<lambda>r. case r of None \<Rightarrow> None | Some i \<Rightarrow> done_with (i, s))
      in if token \<in> {Some (js ''max''), Some (js ''MAX''), Some (js ''Max'')} then done_with (536870911, s)
         else if token = Some [48] then done_with (0, s)
         else if \<not> accept_negative \<and> token = None then type_fail (js ''charAt'')
         else if \<not> accept_negative \<and> negative then pillegal token (js ''id'') s
         else if base10_re u then give (signed_value negative (digits_in 10 u))
         else if base16_re u then give (signed_value negative (digits_in 16 (drop 2 u)))
         else if base8_re u then give (signed_value negative (digits_in 8 u))
         else pillegal token (js ''id'') s)"

text \<open>\<open>readRanges\<close> with \<open>put_range\<close> the operation that appends to the target.\<close>

fun read_ranges :: "nat \<Rightarrow> (range \<Rightarrow> heap \<Rightarrow> heap) \<Rightarrow> bool \<Rightarrow> unit pm" where
  "read_ranges 0 put_range accept_strings = (\<lambda>s. None)"
| "read_ranges (Suc n) put_range accept_strings =
     pbind (if accept_strings then pbind ppeek (\<lambda>t. preturn (quote_token t)) else preturn False) (\<lambda>is_string.
     pbind (if is_string then pbind (read_string n) (\<lambda>x. preturn (NameRange x))
            else pbind pnext (\<lambda>t. pbind (parse_id t False) (\<lambda>a.
              pbind (pskip_if (js ''to'')) (\<lambda>to.
                if to then pbind pnext (\<lambda>t. pbind (parse_id t False) (\<lambda>b. preturn (IdRange a b)))
                else preturn (IdRange a a))))) (\<lambda>r.
     pseq (pheap (\<lambda>h. done_with (put_range r h)))
       (pbind (pskip_if [44]) (\<lambda>more. if more then read_ranges n put_range accept_strings else pskip [59]))))"

section \<open>The head of a file\<close>

definition parse_package :: "nat \<Rightarrow> unit pm" where
  "parse_package n =
     pbind (pget ps_pkg) (\<lambda>pkg.
       if pkg \<noteq> None then pillegal (Some (js ''package'')) token_word
       else pbind (expect type_ref_re name_word) (\<lambda>t.
         case t of
           None \<Rightarrow> pthrow (JsTypeError (js ''illegal path''))
         | Some name \<Rightarrow>
             pseq (\<lambda>s. obind (ns_define n (ps_ptr s) (split_on 46 name) (ps_heap s)) (\<lambda>(h, i).
                     done_with ((), s\<lparr>ps_pkg := Some name, ps_heap := h, ps_ptr := i\<rparr>)))
               (pskip [59])))"

definition append_to :: "'a list option \<Rightarrow> 'a \<Rightarrow> 'a list option" where
  "append_to xs x = Some ((case xs of None \<Rightarrow> [] | Some ys \<Rightarrow> ys) @ [x])"

definition parse_import :: "nat \<Rightarrow> unit pm" where
  "parse_import n =
     pbind ppeek (\<lambda>t.
       let weak = (t = Some (js ''weak'')) in
       pseq (if weak \<or> t = Some (js ''public'') then pbind pnext (\<lambda>_. preturn ()) else preturn ())
         (pbind (read_string n) (\<lambda>file. pseq (pskip [59])
           (pmodify (\<lambda>s. if weak then s\<lparr>ps_weak_imports := append_to (ps_weak_imports s) file\<rparr>
                          else s\<lparr>ps_imports := append_to (ps_imports s) file\<rparr>)))))"

definition parse_syntax :: "nat \<Rightarrow> unit pm" where
  "parse_syntax n =
     pseq (pskip [61]) (pbind (read_string n) (\<lambda>x.
       pseq (pmodify (\<lambda>s. s\<lparr>ps_syntax := Some x, ps_proto3 := (x = js ''proto3'')\<rparr>))
         (if x \<noteq> js ''proto3'' \<and> x \<noteq> js ''proto2'' then pillegal (Some x) (js ''syntax'') else pskip [59])))"

section \<open>Blocks and options\<close>

text \<open>What a block belongs to: an object, the dummy of an enum value, or nothing.\<close>

datatype target = Obj oid | Dummy | NoObj

definition set_comment_of :: "target \<Rightarrow> jsstring option \<Rightarrow> unit pm" where
  "set_comment_of x c =
     (case x of
        Obj i \<Rightarrow> pheap (\<lambda>h. done_with (upd_obj i (\<lambda>ob. ob\<lparr>ob_comment := c\<rparr>) h))
      | Dummy \<Rightarrow> pmodify (\<lambda>s. s\<lparr>ps_dummy_comment := c\<rparr>)
      | NoObj \<Rightarrow> preturn ())"

definition comment_of :: "target \<Rightarrow> parser \<Rightarrow> jsstring option" where
  "comment_of x s = (case x of Obj i \<Rightarrow> ob_comment (get_obj (ps_heap s) i) | Dummy \<Rightarrow> ps_dummy_comment s | NoObj \<Rightarrow> None)"

definition set_filename_of :: "target \<Rightarrow> unit pm" where
  "set_filename_of x =
     (case x of
        Obj i \<Rightarrow> pbind (pget ps_filename) (\<lambda>f. pheap (\<lambda>h. done_with (upd_obj i (\<lambda>ob. ob\<lparr>ob_filename := f\<rparr>) h)))
      | _ \<Rightarrow> preturn ())"

fun block_loop :: "nat \<Rightarrow> (jsstring option \<Rightarrow> unit pm) \<Rightarrow> unit pm" where
  "block_loop 0 body = (\<lambda>s. None)"
| "block_loop (Suc n) body =
     pbind pnext (\<lambda>t. if t = Some [125] then preturn () else pseq (body t) (block_loop n body))"

definition if_block :: "nat \<Rightarrow> target \<Rightarrow> (jsstring option \<Rightarrow> unit pm) \<Rightarrow> unit pm \<Rightarrow> unit pm" where
  "if_block n x body otherwise =
     pbind (pget (\<lambda>s. tk_line (ps_tk s))) (\<lambda>trailing.
     pseq (if x = NoObj then preturn ()
           else pbind (ptoken (take_comment None)) (\<lambda>c. pseq (set_comment_of x c) (set_filename_of x)))
       (pbind (pskip_if [123]) (\<lambda>block.
          if block then pseq (block_loop n body) (pbind (pskip_if [59]) (\<lambda>_. preturn ()))
          else pseq otherwise (pseq (pskip [59])
            (pbind (pget (comment_of x)) (\<lambda>c.
               if x = NoObj \<or> c \<noteq> None then preturn ()
               else pbind (ptoken (take_comment (Some trailing))) (set_comment_of x)))))))"

text \<open>\<open>setOption(parent, name, value)\<close>: the dummy has no such method.\<close>

definition pset_option :: "target \<Rightarrow> jsstring \<Rightarrow> jsval \<Rightarrow> unit pm" where
  "pset_option x name v =
     (case x of Obj i \<Rightarrow> pheap (\<lambda>h. done_with (set_option i name v False h)) | _ \<Rightarrow> preturn ())"

text \<open>\<open>parseOptionValue\<close> and the loop over the fields of an aggregate value.\<close>

fun option_value :: "nat \<Rightarrow> target \<Rightarrow> jsstring \<Rightarrow> unit pm"
and option_fields :: "nat \<Rightarrow> target \<Rightarrow> jsstring \<Rightarrow> unit pm" where
  "option_value 0 x name s = None"
| "option_value (Suc n) x name s =
     pbind (pskip_if [123]) (\<lambda>aggregate.
       if aggregate then option_fields n x name
       else pbind (read_value n True) (pset_option x name)) s"
| "option_fields 0 x name s = None"
| "option_fields (Suc n) x name s =
     pbind (expect name_re name_word) (\<lambda>t.
       pbind ppeek (\<lambda>p.
         let name' = name @ [46] @ token_string t in
         pseq (if p = Some [123] then option_value n x name'
               else pseq (pskip [58]) (pbind (read_value n True) (pset_option x name')))
           (pbind (pskip_if [125]) (\<lambda>closed. if closed then preturn () else option_fields n x name)))) s"

definition parse_option :: "nat \<Rightarrow> target \<Rightarrow> unit pm" where
  "parse_option n x =
     pbind (pskip_if [40]) (\<lambda>custom.
     pbind (expect type_ref_re name_word) (\<lambda>t.
     pbind (if custom then
              pseq (pskip [41]) (pbind ppeek (\<lambda>p.
                let name = [40] @ token_string t @ [41] in
                if fq_type_ref_re (token_string p) then pbind pnext (\<lambda>_. preturn (name @ token_string p))
                else preturn name))
            else preturn (token_string t)) (\<lambda>name.
     pseq (pskip [61]) (option_value n x name))))"

definition parse_option_line :: "nat \<Rightarrow> target \<Rightarrow> unit pm" where
  "parse_option_line n x = pseq (parse_option n x) (pskip [59])"

fun inline_options_loop :: "nat \<Rightarrow> target \<Rightarrow> unit pm" where
  "inline_options_loop 0 x = (\<lambda>s. None)"
| "inline_options_loop (Suc n) x =
     pseq (parse_option n x) (pbind (pskip_if [44]) (\<lambda>more. if more then inline_options_loop n x else pskip [93]))"

definition parse_inline_options :: "nat \<Rightarrow> target \<Rightarrow> unit pm" where
  "parse_inline_options n x = pbind (pskip_if [91]) (\<lambda>b. if b then inline_options_loop n x else preturn ())"

text \<open>The blocks that contain nothing but options.\<close>

definition option_block :: "nat \<Rightarrow> target \<Rightarrow> jsstring option \<Rightarrow> unit pm" where
  "option_block n x t = (if t = Some (js ''option'') then parse_option_line n x else pillegal t token_word)"

section \<open>Enums and services\<close>

definition padd :: "nat \<Rightarrow> oid \<Rightarrow> oid \<Rightarrow> unit pm" where
  "padd n t x = pheap (run n (CAdd t x))"

definition parse_enum_value :: "nat \<Rightarrow> oid \<Rightarrow> jsstring option \<Rightarrow> unit pm" where
  "parse_enum_value n e t =
     (if \<not> name_re (token_string t) then pillegal t name_word
      else pseq (pskip [61]) (pbind pnext (\<lambda>v. pbind (parse_id v True) (\<lambda>k.
        pseq (pmodify (\<lambda>s. s\<lparr>ps_dummy_comment := None\<rparr>))
          (pseq (if_block n Dummy (option_block n Dummy) (parse_inline_options n Dummy))
            (pbind (pget ps_dummy_comment) (\<lambda>c. pheap (\<lambda>h. Some (enum_add e (token_string t) k c h)))))))))"

definition parse_enum :: "nat \<Rightarrow> oid \<Rightarrow> unit pm" where
  "parse_enum n parent =
     pbind (expect name_re name_word) (\<lambda>t. pbind (named t) (\<lambda>name.
     pbind (pmake (new_enum name [])) (\<lambda>e.
     pseq (if_block n (Obj e)
             (\<lambda>t. if t = Some (js ''option'') then parse_option_line n (Obj e) else parse_enum_value n e t)
             (preturn ()))
       (padd n parent e))))"

definition parse_stream_type :: "(jsstring option \<times> bool) pm" where
  "parse_stream_type =
     pbind (pskip_if (js ''stream'')) (\<lambda>stream. pbind (expect type_ref_re token_word) (\<lambda>t. preturn (t, stream)))"

definition parse_method :: "nat \<Rightarrow> oid \<Rightarrow> jsstring option \<Rightarrow> unit pm" where
  "parse_method n service type =
     pbind (expect name_re name_word) (\<lambda>name.
     pseq (pskip [40]) (pbind parse_stream_type (\<lambda>(req, req_stream).
     pseq (pskip [41]) (pseq (pskip (js ''returns'')) (pseq (pskip [40]) (pbind parse_stream_type (\<lambda>(resp, resp_stream).
     pseq (pskip [41])
       (pbind (pmake (new_method (token_string name) type (token_string req) (token_string resp) req_stream resp_stream)) (\<lambda>m.
          pseq (if_block n (Obj m) (option_block n (Obj m)) (preturn ())) (padd n service m))))))))))"

section \<open>Messages\<close>

text \<open>The recursion between declarations goes through \<open>disp\<close>, which \<open>parse_run\<close> closes.\<close>

datatype pcall =
    PCommon oid "jsstring option"
  | PField oid "jsstring option" "jsstring option"

type_synonym pdispatcher = "pcall \<Rightarrow> bool pm"

definition pcall_unit :: "bool pm \<Rightarrow> unit pm" where
  "pcall_unit m = pbind m (\<lambda>_. preturn ())"

definition is_rule :: "jsstring option \<Rightarrow> bool" where
  "is_rule t \<longleftrightarrow> t \<in> {Some (js ''required''), Some (js ''optional''), Some (js ''repeated'')}"

definition parse_service :: "nat \<Rightarrow> pdispatcher \<Rightarrow> oid \<Rightarrow> unit pm" where
  "parse_service n disp parent =
     pbind (expect name_re (js ''service name'')) (\<lambda>t. pbind (named t) (\<lambda>name.
     pbind (pmake (new_service name)) (\<lambda>sv.
     pseq (if_block n (Obj sv)
             (\<lambda>t. pbind (disp (PCommon sv t)) (\<lambda>known.
                if known then preturn ()
                else if t = Some (js ''rpc'') then parse_method n sv t
                else pillegal t token_word))
             (preturn ()))
       (padd n parent sv))))"

definition parse_group :: "nat \<Rightarrow> pdispatcher \<Rightarrow> oid \<Rightarrow> jsstring option \<Rightarrow> unit pm" where
  "parse_group n disp parent rule =
     pbind (expect name_re name_word) (\<lambda>t.
       case t of
         None \<Rightarrow> pthrow (JsTypeError (js ''charAt''))
       | Some name \<Rightarrow>
           let field_name = lc_first name; name = (if name = field_name then uc_first name else name) in
           pseq (pskip [61]) (pbind pnext (\<lambda>v. pbind (parse_id v False) (\<lambda>k.
           pbind (pmake (new_type name)) (\<lambda>ty.
           pseq (pheap (\<lambda>h. done_with (upd_type ty (\<lambda>d. d\<lparr>ty_group := True\<rparr>) h)))
           (pbind (pmake_res (new_field field_name k name rule None None)) (\<lambda>fd.
           pseq (set_filename_of (Obj fd))
           (pseq (if_block n (Obj ty)
                   (\<lambda>t. if t = Some (js ''option'') then parse_option_line n (Obj ty)
                        else if is_rule t then pcall_unit (disp (PField ty t None))
                        else pillegal t token_word)
                   (preturn ()))
             (pseq (padd n parent ty) (padd n parent fd))))))))))"

text \<open>\<open>if (!isProto3 && field.repeated) field.setOption("packed", false, true)\<close>.\<close>

definition unpack_proto2 :: "oid \<Rightarrow> unit pm" where
  "unpack_proto2 fd s =
     (if \<not> ps_proto3 s \<and> fd_repeated (ob_field (get_obj (ps_heap s) fd))
      then done_with ((), s\<lparr>ps_heap := set_option fd (js ''packed'') (JBool False) True (ps_heap s)\<rparr>)
      else done_with ((), s))"

definition parse_field :: "nat \<Rightarrow> pdispatcher \<Rightarrow> oid \<Rightarrow> jsstring option \<Rightarrow> jsstring option \<Rightarrow> unit pm" where
  "parse_field n disp parent rule ext =
     pbind pnext (\<lambda>type.
       if type = Some (js ''group'') then parse_group n disp parent rule
       else if \<not> type_ref_re (token_string type) then pillegal type type_word
       else
         pbind (expect name_re name_word) (\<lambda>t. pbind (apply_case t) (\<lambda>name.
         pseq (pskip [61]) (pbind pnext (\<lambda>v. pbind (parse_id v False) (\<lambda>k.
         pbind (pmake_res (new_field name k (token_string type) rule ext None)) (\<lambda>fd.
         pseq (if_block n (Obj fd) (option_block n (Obj fd)) (parse_inline_options n (Obj fd)))
           (pseq (padd n parent fd) (unpack_proto2 fd)))))))))"

text \<open>\<open>types.mapKey[keyType] === undefined\<close>; an inherited property counts as defined.\<close>

definition map_key_re :: "jsstring \<Rightarrow> bool" where
  "map_key_re kt \<longleftrightarrow> (\<exists>t \<in> set s_names. scalar_name t = kt \<and> prop_get types_mapKey t \<noteq> None) \<or> kt \<in> set proto_names"

definition parse_map_field :: "nat \<Rightarrow> oid \<Rightarrow> unit pm" where
  "parse_map_field n parent =
     pseq (pskip [60]) (pbind (expect map_key_re type_word) (\<lambda>kt.
     pseq (pskip [44]) (pbind (expect type_ref_re type_word) (\<lambda>vt.
     pseq (pskip [62]) (pbind (expect name_re name_word) (\<lambda>t.
     pseq (pskip [61]) (pbind (apply_case t) (\<lambda>name. pbind pnext (\<lambda>v. pbind (parse_id v False) (\<lambda>k.
     pbind (pmake_res (new_map_field name k (token_string kt) (token_string vt) None)) (\<lambda>fd.
     pseq (if_block n (Obj fd) (option_block n (Obj fd)) (parse_inline_options n (Obj fd)))
       (padd n parent fd))))))))))))"

definition parse_oneof :: "nat \<Rightarrow> pdispatcher \<Rightarrow> oid \<Rightarrow> unit pm" where
  "parse_oneof n disp parent =
     pbind (expect name_re name_word) (\<lambda>t. pbind (named t) (\<lambda>_. pbind (apply_case t) (\<lambda>name.
     pbind (pmake (new_oneof name [])) (\<lambda>x.
     pseq (if_block n (Obj x)
             (\<lambda>t. if t = Some (js ''option'') then parse_option_line n (Obj x)
                  else pseq (ppush t) (pcall_unit (disp (PField x (Some (js ''optional'')) None))))
             (preturn ()))
       (padd n parent x)))))"

definition push_range :: "(type_data \<Rightarrow> range list option) \<Rightarrow> (range list option \<Rightarrow> type_data \<Rightarrow> type_data) \<Rightarrow> oid \<Rightarrow> range \<Rightarrow> heap \<Rightarrow> heap" where
  "push_range sel upd ty r = upd_type ty (\<lambda>d. upd (append_to (sel d) r) d)"

text \<open>\<open>type.extensions || (type.extensions = [])\<close>.\<close>

definition init_ranges :: "(type_data \<Rightarrow> range list option) \<Rightarrow> (range list option \<Rightarrow> type_data \<Rightarrow> type_data) \<Rightarrow> oid \<Rightarrow> unit pm" where
  "init_ranges sel upd ty = pheap (\<lambda>h. done_with (upd_type ty (\<lambda>d. if sel d = None then upd (Some []) d else d) h))"

definition type_block :: "nat \<Rightarrow> pdispatcher \<Rightarrow> oid \<Rightarrow> jsstring option \<Rightarrow> unit pm" where
  "type_block n disp ty t =
     pbind (disp (PCommon ty t)) (\<lambda>known.
       if known then preturn ()
       else if t = Some (js ''map'') then parse_map_field n ty
       else if is_rule t then pcall_unit (disp (PField ty t None))
       else if t = Some (js ''oneof'') then parse_oneof n disp ty
       else if t = Some (js ''extensions'') then
         pseq (init_ranges ty_extensions (\<lambda>r d. d\<lparr>ty_extensions := r\<rparr>) ty)
           (read_ranges n (push_range ty_extensions (\<lambda>r d. d\<lparr>ty_extensions := r\<rparr>) ty) False)
       else if t = Some (js ''reserved'') then
         pseq (init_ranges ty_reserved (\<lambda>r d. d\<lparr>ty_reserved := r\<rparr>) ty)
           (read_ranges n (push_range ty_reserved (\<lambda>r d. d\<lparr>ty_reserved := r\<rparr>) ty) True)
       else pbind (pget ps_proto3) (\<lambda>proto3.
         if \<not> proto3 \<or> \<not> type_ref_re (token_string t) then pillegal t token_word
         else pseq (ppush t) (pcall_unit (disp (PField ty (Some (js ''optional'')) None)))))"

definition parse_type :: "nat \<Rightarrow> pdispatcher \<Rightarrow> oid \<Rightarrow> unit pm" where
  "parse_type n disp parent =
     pbind (expect name_re (js ''type name'')) (\<lambda>t. pbind (named t) (\<lambda>name.
     pbind (pmake (new_type name)) (\<lambda>ty.
     pseq (if_block n (Obj ty) (type_block n disp ty) (preturn ())) (padd n parent ty))))"

definition parse_extension :: "nat \<Rightarrow> pdispatcher \<Rightarrow> oid \<Rightarrow> unit pm" where
  "parse_extension n disp parent =
     pbind (expect type_ref_re (js ''reference'')) (\<lambda>ref.
     if_block n NoObj
       (\<lambda>t. if is_rule t then pcall_unit (disp (PField parent t ref))
            else pbind (pget ps_proto3) (\<lambda>proto3.
              if \<not> proto3 \<or> \<not> type_ref_re (token_string t) then pillegal t token_word
              else pseq (ppush t) (pcall_unit (disp (PField parent (Some (js ''optional'')) ref)))))
       (preturn ()))"

definition parse_common :: "nat \<Rightarrow> pdispatcher \<Rightarrow> oid \<Rightarrow> jsstring option \<Rightarrow> bool pm" where
  "parse_common n disp parent t =
     (let known = (\<lambda>m. pseq m (preturn True)) in
      if t = Some (js ''option'') then known (parse_option_line n (Obj parent))
      else if t = Some (js ''message'') then known (parse_type n disp parent)
      else if t = Some (js ''enum'') then known (parse_enum n parent)
      else if t = Some (js ''service'') then known (parse_service n disp parent)
      else if t = Some (js ''extend'') then known (parse_extension n disp parent)
      else preturn False)"

fun parse_run :: "nat \<Rightarrow> pdispatcher" where
  "parse_run 0 c s = None"
| "parse_run (Suc n) c s =
     (case c of
        PCommon parent t \<Rightarrow> parse_common n (parse_run n) parent t s
      | PField parent rule ext \<Rightarrow> pseq (parse_field n (parse_run n) parent rule ext) (preturn True) s)"

section \<open>Files\<close>

definition in_head :: "jsstring option \<Rightarrow> unit pm \<Rightarrow> unit pm" where
  "in_head t m = pbind (pget ps_head) (\<lambda>head. if \<not> head then pillegal t token_word else m)"

fun parse_loop :: "nat \<Rightarrow> unit pm" where
  "parse_loop 0 = (\<lambda>s. None)"
| "parse_loop (Suc n) =
     pbind pnext (\<lambda>t.
       if t = None then preturn ()
       else pseq
         (if t = Some (js ''package'') then in_head t (parse_package n)
          else if t = Some (js ''import'') then in_head t (parse_import n)
          else if t = Some (js ''syntax'') then in_head t (parse_syntax n)
          else if t = Some (js ''option'') then
            in_head t (pbind (pget ps_ptr) (\<lambda>ptr. parse_option_line n (Obj ptr)))
          else pbind (pget ps_ptr) (\<lambda>ptr. pbind (parse_run n (PCommon ptr t)) (\<lambda>known.
            if known then pmodify (\<lambda>s. s\<lparr>ps_head := False\<rparr>) else pillegal t token_word)))
         (parse_loop n))"

text \<open>\<open>parse(source, root, options)\<close>.\<close>

definition parse :: "nat \<Rightarrow> bool \<Rightarrow> jsstring option \<Rightarrow> jsstring \<Rightarrow> oid \<Rightarrow> heap \<Rightarrow> parser outcome" where
  "parse n keep_case filename source rt h =
     obind (parse_loop n
       \<lparr>ps_tk = tokenize source, ps_heap = h, ps_pkg = None, ps_imports = None, ps_weak_imports = None,
        ps_syntax = None, ps_proto3 = False, ps_head = True, ps_ptr = rt, ps_filename = filename,
        ps_keep_case = keep_case, ps_dummy_comment = None\<rparr>)
       (\<lambda>(_, s). done_with (s\<lparr>ps_filename := None\<rparr>))"

end
