(* ===== verification/Classes.thy ===== *)
theory Classes
  imports ReflectResolve Message Parser Rpc
begin

text \<open>
  The classes of reflected types and the runtime services of reflected services: what \<open>Class\<close> puts on the prototype
  of a message, and the methods that \<open>Service#create\<close> binds.
\<close>

section \<open>Class\<close>

text \<open>
  Every field is resolved and gives the prototype a value, then every oneof an accessor. The caching of the constructor by
  the getter \<open>Type#ctor\<close> is left out: a second run finds everything resolved and gives the same class.
\<close>

definition class_field :: "oid \<Rightarrow> heap \<times> (jsstring \<times> jsval) list \<Rightarrow> (heap \<times> (jsstring \<times> jsval) list) outcome" where
  "class_field f = (\<lambda>(h, vs). obind (resolve f h) (\<lambda>h.
     done_with (h, prop_set vs (ob_name (get_obj h f)) (prototype_value (fd_default_value (ob_field (get_obj h f)))))))"

definition class_oneof :: "oid \<Rightarrow> heap \<times> (jsstring \<times> jsstring list) list \<Rightarrow> (heap \<times> (jsstring \<times> jsstring list) list) outcome" where
  "class_oneof x = (\<lambda>(h, os). obind (resolve x h) (\<lambda>h.
     done_with (h, prop_set os (ob_name (get_obj h x)) (oneof_names (ob_oneof (get_obj h x))))))"

definition message_class :: "oid \<Rightarrow> heap \<Rightarrow> (heap \<times> msg_class) outcome" where
  "message_class t h =
     (case get_fields_array t h of
        (h, fs) \<Rightarrow> obind (ofold class_field fs (h, [])) (\<lambda>(h, vs).
          case get_oneofs_array t h of
            (h, xs) \<Rightarrow> obind (ofold class_oneof xs (h, [])) (\<lambda>(h, os).
              done_with (h, \<lparr>cl_values = vs, cl_oneofs = os\<rparr>))))"

section \<open>Service.create\<close>

text \<open>
  The own properties that \<open>create\<close> puts on the new rpc service: for every method a function that calls \<open>rpcCall\<close> with the
  method and the classes of its request and its response. They replace properties of the same name, those of
  the service itself included.
\<close>

record bound_method =
  bm_method :: oid
  bm_request :: msg_class
  bm_response :: msg_class

definition bind_method :: "oid \<Rightarrow> heap \<times> (jsstring \<times> bound_method) list \<Rightarrow> (heap \<times> (jsstring \<times> bound_method) list) outcome" where
  "bind_method m = (\<lambda>(h, ms). obind (resolve m h) (\<lambda>h.
     let d = ob_method (get_obj h m) in
     case (me_resolved_request d, me_resolved_response d) of
       (Some q, Some s) \<Rightarrow>
         obind (message_class q h) (\<lambda>(h, cq). obind (message_class s h) (\<lambda>(h, cs).
           done_with (h, prop_set ms (lc_first (ob_name (get_obj h m))) \<lparr>bm_method = m, bm_request = cq, bm_response = cs\<rparr>)))
     | _ \<Rightarrow> type_fail (js ''ctor'')))"

definition service_create :: "oid \<Rightarrow> heap \<Rightarrow> (heap \<times> (jsstring \<times> bound_method) list) outcome" where
  "service_create s h =
     (case get_methods_array s h of (h, ms) \<Rightarrow> ofold bind_method ms (h, []))"

text \<open>
  The default of a bytes field is an array of bytes; the prototype gets an empty object in its place. And a method that is called
  \<open>End\<close> is bound to the property \<open>end\<close>, where the service has its own operation.
\<close>

definition bytes_heap :: heap where
  "bytes_heap =
     \<lparr>hp_objs =
        [new_root\<lparr>ob_ns := \<lparr>ns_nested = Some [(js ''T'', 1), (js ''S'', 3)], ns_nested_array = None, ns_exposed = []\<rparr>\<rparr>,
         (new_type (js ''T''))\<lparr>ob_parent := Some 0, ob_type := (ob_type (new_type []))\<lparr>ty_fields := [(js ''b'', 2)]\<rparr>\<rparr>,
         (blank_obj KField (js ''b'') (Some 0))\<lparr>ob_parent := Some 1, ob_field := (ob_field (blank_obj KField [] None))\<lparr>fd_id := 1, fd_type := js ''bytes''\<rparr>\<rparr>,
         (new_service (js ''S''))\<lparr>ob_parent := Some 0, ob_service := \<lparr>sv_methods = [(js ''End'', 4)], sv_methods_array = None\<rparr>\<rparr>,
         (new_method (js ''End'') None (js ''T'') (js ''T'') False False)\<lparr>ob_parent := Some 3\<rparr>],
      hp_opts = [[(js ''default'', JStr (js ''a!''))]]\<rparr>"

lemma bytes_default_lost:
  "case message_class 1 bytes_heap of
     Some (Inr (h, c)) \<Rightarrow> fd_default_value (ob_field (get_obj h 2)) = JBytes [97, 33] \<and> msg_get c [] (js ''b'') = JObj []
   | _ \<Rightarrow> False"
  by code_simp

lemma method_hides_end:
  "case service_create 3 bytes_heap of Some (Inr (h, ms)) \<Rightarrow> map fst ms = [js ''end''] | _ \<Rightarrow> False"
  by code_simp

end
