(* ===== verification/ParserNum.thy ===== *)
theory ParserNum
  imports Parser
begin

text \<open>
  Decimal numbers in a source: the digits of an integer below 2 ^ 53 are read as that integer, through the
  double that \<open>parseInt\<close> returns.
\<close>

lemma bit_len_bounds: "0 < n \<Longrightarrow> 0 < bit_len n \<and> 2 ^ (bit_len n - 1) \<le> n \<and> n < 2 ^ bit_len n"
proof (induction n rule: bit_len.induct)
  case (1 n)
  show ?case
  proof (cases "n div 2 = 0")
    case True
    then have "n = 1" using 1(2) by simp
    then show ?thesis by (simp add: bit_len.simps)
  next
    case False
    have b: "0 < n" "bit_len n = Suc (bit_len (n div 2))" using 1(2) by (simp, subst bit_len.simps, simp)
    have i: "0 < bit_len (n div 2)" "2 ^ (bit_len (n div 2) - 1) \<le> n div 2" "n div 2 < 2 ^ bit_len (n div 2)"
      using 1(1) False b(1) by auto
    obtain k where k: "bit_len (n div 2) = Suc k" using i(1) by (cases "bit_len (n div 2)") auto
    have "2 * 2 ^ k \<le> n" "n < 4 * 2 ^ k" using i(2, 3) unfolding k diff_Suc_1 power_Suc by linarith+
    then show ?thesis by (simp add: b(2) k)
  qed
qed

lemma ratio_bits_nat:
  assumes "2 ^ e \<le> a" "a < 2 ^ (e + 1)" "e \<le> 52"
  shows "ratio_bits a 1 = (e + 1023) * 2 ^ 52 + (a * 2 ^ (52 - e) - 2 ^ 52) \<and> 2 ^ 52 \<le> a * 2 ^ (52 - e) \<and> a * 2 ^ (52 - e) < 2 ^ 53"
proof -
  let ?m = "a * 2 ^ (52 - e)"
  have a: "0 < a" using assms(1) by (meson less_le_trans zero_less_numeral zero_less_power)
  have l: "bit_len a = e + 1"
  proof -
    note b = bit_len_bounds [OF a]
    have "bit_len a \<le> e + 1" by (rule bit_len_le [OF assms(2)])
    moreover have "e < bit_len a"
    proof (rule ccontr)
      assume "\<not> e < bit_len a"
      then have "(2::nat) ^ bit_len a \<le> 2 ^ e" by (intro power_increasing) simp_all
      then show False using b assms(1) by linarith
    qed
    ultimately show ?thesis by simp
  qed
  have p: "(2::nat) ^ e * 2 ^ (52 - e) = 2 ^ 52" "(2::nat) ^ (e + 1) * 2 ^ (52 - e) = 2 ^ 53"
    using assms(3) by (simp_all flip: power_add)
  have "2 ^ e * 2 ^ (52 - e) \<le> ?m" "?m < 2 ^ (e + 1) * 2 ^ (52 - e)" using assms(1, 2) by simp_all
  then have m: "2 ^ 52 \<le> ?m" "?m < 2 ^ 53" unfolding p .
  have bl: "bit_len (Suc 0) = 1" by (simp add: bit_len.simps)
  have d: "div_round x (Suc 0) = x" for x by (simp add: div_round_def)
  have e2: "nat (52 - int e) = 52 - e" "nat (int e - 52) = 0" "nat (int e + 1023) = e + 1023" using assms(3) by simp_all
  have "(e + 1023) * 2 ^ 52 + (?m - 2 ^ 52) \<le> 2047 * 2 ^ 52"
  proof -
    have "(e + 1023) * 2 ^ 52 \<le> (1075 :: nat) * 2 ^ 52" using assms(3) by simp
    then show ?thesis using m by simp
  qed
  moreover have "ratio_bits a 1 = min ((e + 1023) * 2 ^ 52 + (?m - 2 ^ 52)) (2047 * 2 ^ 52)"
  proof -
    have s: "int (bit_len a) - int (bit_len 1) = int e" using bl by (simp add: l)
    have x: "(a * 2 ^ nat (- int e) \<ge> 1 * 2 ^ nat (int e)) = True" "max (int e) (- 1022) = int e" "(a = 0) = False"
      "a * 2 ^ nat (52 - int e) = ?m" "1 * 2 ^ nat (int e - 52) = Suc 0" "(?m < 2 ^ 52) = False"
      using assms(1) a e2 m(1) by simp_all
    show ?thesis unfolding ratio_bits_def Let_def s x if_True if_False d e2(3) ..
  qed
  ultimately show ?thesis using m by (simp only: min_absorb1)
qed

lemma double_of_nat:
  assumes "0 < a" "a < 2 ^ 53"
  shows "as_integer (JF64 (of_nat (ratio_bits a 1))) = Some (int a)"
proof -
  define e where "e = bit_len a - 1"
  note b = bit_len_bounds [OF assms(1)]
  have e: "2 ^ e \<le> a" "a < 2 ^ (e + 1)" "e \<le> 52" using b bit_len_le [OF assms(2)] by (auto simp: e_def)
  let ?k = "52 - e"
  define m where "m = a * 2 ^ ?k - 2 ^ 52"
  have r: "ratio_bits a 1 = (e + 1023) * 2 ^ 52 + m" and m: "m < 2 ^ 52" "2 ^ 52 + m = a * 2 ^ ?k"
    using ratio_bits_nat [OF e] by (auto simp: m_def)
  have lt: "(e + 1023) * 2 ^ 52 + m < 2 ^ 63"
  proof -
    have "(e + 1023) * 2 ^ 52 \<le> (1075 :: nat) * 2 ^ 52" using e(3) by simp
    then show ?thesis using m(1) by simp
  qed
  then have u: "unat (of_nat (ratio_bits a 1) :: 64 word) = (e + 1023) * 2 ^ 52 + m"
    unfolding r unat_of_nat by (intro mod_less) (simp del: of_nat_add)
  have 1: "((e + 1023) * 2 ^ 52 + m) mod 2 ^ 52 = m" using m(1) by (simp only: mod_mult_self3 mod_less)
  have 2: "((e + 1023) * 2 ^ 52 + m) div 2 ^ 52 = e + 1023" using m(1) by (subst div_mult_self3) simp_all
  have 3: "((e + 1023) * 2 ^ 52 + m) div 2 ^ (52 + 11) = 0" using lt by (intro div_less) simp
  have 4: "m mod 2 ^ ?k = 0" "(2 ^ 52 + m) div 2 ^ ?k = a"
  proof -
    have "(2 ^ 52 + m) mod 2 ^ ?k = 0" unfolding m(2) by simp
    moreover have "(2 :: nat) ^ 52 mod 2 ^ ?k = 0" by (rule dvd_imp_mod_0, rule le_imp_power_dvd) simp
    ultimately show "m mod 2 ^ ?k = 0" by (metis add_0 mod_add_left_eq)
    show "(2 ^ 52 + m) div 2 ^ ?k = a" unfolding m(2) by simp
  qed
  have 5: "(e + 1023) mod 2 ^ 11 = e + 1023" using e(3) by simp
  have "ieee_integer 52 11 1023 ((e + 1023) * 2 ^ 52 + m) = Some (int a)"
  proof (cases "e = 52")
    case True
    then show ?thesis using m(2) unfolding ieee_integer_def Let_def 1 2 3 5 by simp
  next
    case False
    then have "1023 + 52 - (e + 1023) = ?k" by simp
    then show ?thesis using False e(3) 4 unfolding ieee_integer_def Let_def 1 2 3 5 by simp
  qed
  then show ?thesis unfolding as_integer_def jsval.case u .
qed

lemma number_value_nat: "0 < a \<Longrightarrow> a < 2 ^ 53 \<Longrightarrow> number_value negative a 1 = JNum (if negative then - int a else int a)"
  using double_of_nat [of a] by (simp add: number_value_def Let_def)

section \<open>Digits\<close>

lemma digits_in_value: "list_all is_digit s \<Longrightarrow> digits_in 10 s = digits_value s"
proof -
  have "list_all is_digit s \<Longrightarrow> foldl (\<lambda>n c. n * 10 + digit_value c) a s = foldl (\<lambda>n c. n * 10 + (unat c - 48)) a s" for a
    by (induction s arbitrary: a) (simp_all add: digit_value_def is_digit_def word_le_nat_alt)
  then show "list_all is_digit s \<Longrightarrow> ?thesis" by (simp add: digits_in_def digits_value_def)
qed

lemma dec_digits_hd: "0 < n \<Longrightarrow> hd (dec_digits n) \<noteq> 48"
proof (induction n rule: dec_digits.induct)
  case (1 n)
  show ?case
  proof (cases "n < 10")
    case True
    then have "unat (hd (dec_digits n)) = 48 + n" using digit_facts(2) [of n] by (subst dec_digits.simps) simp
    then show ?thesis using 1(2) by auto
  next
    case False
    then have "hd (dec_digits (n div 10)) \<noteq> 48" using 1 by auto
    then show ?thesis using False dec_digits_value [of "n div 10"] by (subst dec_digits.simps) simp
  qed
qed

lemma dec_digits_10: "0 < n \<Longrightarrow> base10_re (dec_digits n) \<and> digits_in 10 (dec_digits n) = n"
  using dec_digits_value [of n] dec_digits_hd [of n] by (simp add: base10_re_def digits_in_value)

lemma digits_start: "0 < n \<Longrightarrow> \<exists>c s. dec_digits n = c # s \<and> 48 < c \<and> c \<le> 57"
proof -
  assume n: "0 < n"
  obtain c s where d: "dec_digits n = c # s" using dec_digits_value [of n] by (cases "dec_digits n") auto
  then have "48 \<le> c" "c \<le> 57" "c \<noteq> 48" using dec_digits_value [of n] dec_digits_hd [OF n] by (auto simp: is_digit_def)
  then show ?thesis using d by (auto simp: less_le)
qed

lemma parse_id_decimal:
  assumes "\<bar>k\<bar> < 2 ^ 53" "0 \<le> k \<or> accept"
  shows "parse_id (Some (dec_of_int k)) accept s = done_with (k, s)"
proof -
  let ?n = "nat \<bar>k\<bar>"
  have max: "Some (c # w) \<notin> {Some (js ''max''), Some (js ''MAX''), Some (js ''Max'')}" if "c \<le> 57" for c w
    using that by (auto simp: js_simps)
  consider "k = 0" | "0 < k" | "k < 0" by linarith
  then show ?thesis
  proof cases
    case 1
    then have "dec_of_int k = [48]" by (simp add: dec_of_int_def dec_digits.simps)
    then show ?thesis using max [of 48 "[]"] 1 by (simp add: parse_id_def Let_def)
  next
    case 2
    then obtain c w where d: "dec_digits ?n = c # w" "48 < c" "c \<le> 57" using digits_start [of ?n] by auto
    have t: "dec_of_int k = c # w" "unsigned_part (c # w) = c # w" "c \<noteq> 45"
      using 2 d by (auto simp: dec_of_int_def unsigned_part_def)
    have b: "base10_re (c # w)" "digits_in 10 (c # w) = ?n" using dec_digits_10 [of ?n] 2 d(1) by simp_all
    have v: "signed_value False ?n = Some k" using number_value_nat [of ?n False] 2 assms(1) by (simp add: signed_value_def)
    have "c \<noteq> 48" using d(2) by auto
    then show ?thesis using max [OF d(3), of w] by (simp add: parse_id_def Let_def token_string_def t b v)
  next
    case 3
    then obtain c w where d: "dec_digits ?n = c # w" "48 < c" "c \<le> 57" using digits_start [of ?n] by auto
    have t: "dec_of_int k = 45 # c # w" "unsigned_part (45 # c # w) = c # w"
      using 3 d(1) by (simp_all add: dec_of_int_def unsigned_part_def)
    have b: "base10_re (c # w)" "digits_in 10 (c # w) = ?n" using dec_digits_10 [of ?n] 3 d(1) by simp_all
    have n: "?n = nat (- k)" using 3 by simp
    have v: "signed_value True (nat (- k)) = Some k" using number_value_nat [of "nat (- k)" True] 3 assms(1) by (simp add: signed_value_def)
    show ?thesis using max [of 45 "c # w"] 3 assms(2) by (simp add: parse_id_def Let_def token_string_def t b v n)
  qed
qed

end
