(* ===== verification/ParserProps.thy ===== *)
theory ParserProps
  imports ParserNum TokenProps ReflectKeep
begin

text \<open>
  What the parser makes of a source: total-correctness rules for the parser monad over a source that is laid out
  from tokens, with any white space and comments, and with them the objects that enum and message
  declarations are parsed to.
\<close>

section \<open>The tokens ahead\<close>

text \<open>
  The tokenizer stands in front of the layout: the next token is still in the source, or a look-ahead has put it
  on the stack.
\<close>

type_synonym layout = "(item \<times> gap list) list"

definition ahead :: "tokenizer \<Rightarrow> layout \<Rightarrow> bool" where
  "ahead s l \<longleftrightarrow> layout_ok l \<and>
     ((\<exists>gs. list_all gap_ok gs \<and> at_rest s (concat (map print_gap gs) @ print_layout l))
      \<or> (\<exists>i gs l' t. l = (i, gs) # l' \<and> item_tokens i = [t] \<and> tk_stack s = [t] \<and>
           at_rest (s\<lparr>tk_stack := []\<rparr>) (concat (map print_gap gs) @ print_layout l')))"

definition head_token :: "layout \<Rightarrow> jsstring option" where
  "head_token l = (case l of [] \<Rightarrow> None | (i, gs) # _ \<Rightarrow> Some (hd (item_tokens i)))"

text \<open>The first token is no quoted string.\<close>

definition plain_head :: "layout \<Rightarrow> bool" where
  "plain_head l \<longleftrightarrow> (case l of [] \<Rightarrow> True | (i, gs) # _ \<Rightarrow> \<exists>t. item_tokens i = [t])"

lemma ahead_comments [simp]: "ahead (s\<lparr>tk_ctype := a, tk_ctext := b, tk_cline := c\<rparr>) l \<longleftrightarrow> ahead s l"
  by (simp add: ahead_def at_rest_def tk_ok_def)

lemma ahead_source:
  assumes "list_all gap_ok gs" "layout_ok l"
  shows "ahead (tokenize (concat (map print_gap gs) @ print_layout l)) l"
  using assms by (auto simp: ahead_def at_rest_def tokenize_def tk_ok_def)

lemma next_rest:
  assumes "layout_ok ((i, gs) # l)" "at_rest s (print_item i @ concat (map print_gap gs) @ print_layout l)" "item_tokens i = [t]"
  shows "\<exists>s'. next_token s = Inr (s', Some t) \<and> at_rest s' (concat (map print_gap gs) @ print_layout l)"
proof (cases i)
  case (Word w)
  then show ?thesis using next_word [of s w] assms after_item [OF assms(1)] by auto
next
  case (Punct c)
  have "item_ok (Punct c)" using assms(1) Punct by simp
  then have "next_token s = Inr (s\<lparr>tk_offset := tk_offset s + 1, tk_delim := None\<rparr>, Some [c])"
    using next_delim [of s c "concat (map print_gap gs) @ print_layout l"] assms(2) Punct by simp
  moreover have "at_rest (s\<lparr>tk_offset := tk_offset s + 1, tk_delim := None\<rparr>) (concat (map print_gap gs) @ print_layout l)"
    by (rule at_rest_move [OF assms(2)]) (use assms(2) Punct in \<open>simp_all add: at_rest_def\<close>)
  ultimately show ?thesis using Punct assms(3) by auto
qed (use assms(3) in simp)

lemma ahead_next:
  assumes "ahead s ((i, gs) # l)" "item_tokens i = [t]"
  shows "\<exists>s'. next_token s = Inr (s', Some t) \<and> at_rest s' (concat (map print_gap gs) @ print_layout l) \<and> ahead s' l"
proof -
  have ok: "layout_ok ((i, gs) # l)" "list_all gap_ok gs" "layout_ok l" using assms(1) by (auto simp: ahead_def)
  have a: "ahead s' l" if "at_rest s' (concat (map print_gap gs) @ print_layout l)" for s' using that ok by (auto simp: ahead_def)
  consider hs where "list_all gap_ok hs" "at_rest s (concat (map print_gap hs) @ print_layout ((i, gs) # l))"
    | "tk_stack s = [t]" "at_rest (s\<lparr>tk_stack := []\<rparr>) (concat (map print_gap gs) @ print_layout l)"
    using assms by (auto simp: ahead_def)
  then show ?thesis
  proof cases
    case 1
    from skip_gaps [OF 1(2, 1)] obtain u where u: "at_rest u (print_layout ((i, gs) # l))" "next_token s = next_token u" by blast
    then have "at_rest u (print_item i @ concat (map print_gap gs) @ print_layout l)" by (simp add: print_layout_def)
    from next_rest [OF ok(1) this assms(2)] u(2) a show ?thesis by auto
  next
    case 2
    then have "next_token s = Inr (s\<lparr>tk_stack := []\<rparr>, Some t)" by (simp add: next_token_def)
    then show ?thesis using 2(2) a by blast
  qed
qed

lemma ahead_end:
  assumes "ahead s []"
  shows "\<exists>s'. next_token s = Inr (s', None) \<and> ahead s' [] \<and> tk_stack s = []"
proof -
  obtain hs where h: "list_all gap_ok hs" "at_rest s (concat (map print_gap hs) @ [])"
    using assms by (auto simp: ahead_def print_layout_def)
  from skip_gaps [OF h(2, 1)] obtain u where u: "at_rest u []" "next_token s = next_token u" by blast
  have "next_token u = Inr (u, None)" using u(1)
    by (auto simp: next_at_rest skip_blank_rec [of u] blank_step_def at_rest_def tk_ok_def)
  moreover have "ahead u []" using u(1) by (auto simp: ahead_def print_layout_def intro: exI [of _ "[]"])
  ultimately show ?thesis using u(2) h(2) by (auto simp: at_rest_def)
qed

lemma ahead_peek:
  assumes "ahead s l" "plain_head l"
  shows "\<exists>s'. peek_token s = Inr (s', head_token l) \<and> ahead s' l"
proof (cases l)
  case Nil
  then show ?thesis using ahead_end [of s] assms(1) by (auto simp: peek_token_def head_token_def)
next
  case (Cons x l')
  obtain i gs where x: "x = (i, gs)" by (cases x)
  obtain t where t: "item_tokens i = [t]" using assms(2) Cons x by (auto simp: plain_head_def)
  show ?thesis
  proof (cases "tk_stack s")
    case Nil
    from ahead_next [OF assms(1) [unfolded Cons x] t] obtain s' where
      s': "next_token s = Inr (s', Some t)" "at_rest s' (concat (map print_gap gs) @ print_layout l')" by blast
    have "tk_stack s' = []" "at_rest (s'\<lparr>tk_stack := []\<rparr>) (concat (map print_gap gs) @ print_layout l')"
      using s'(2) by (simp_all add: at_rest_def tk_ok_def)
    then have "ahead (push_token t s') l" using assms(1) s'(2) t by (auto simp: ahead_def push_token_def Cons x)
    then show ?thesis using s'(1) Nil \<open>tk_stack s' = []\<close> t
      by (auto simp: peek_token_def push_token_def head_token_def Cons x)
  next
    case s: (Cons u us)
    then have "tk_stack s = [t]" using assms(1) t by (auto simp: ahead_def at_rest_def Cons x)
    then show ?thesis using assms(1) t by (auto simp: peek_token_def head_token_def Cons x)
  qed
qed

lemma ahead_skip:
  assumes "ahead s ((i, gs) # l)" "item_tokens i = [t]"
  shows "\<exists>s'. skip_token t opt s = Inr (s', True) \<and> ahead s' l"
proof -
  have p: "plain_head ((i, gs) # l)" "head_token ((i, gs) # l) = Some t" using assms(2) by (simp_all add: plain_head_def head_token_def)
  from ahead_peek [OF assms(1) p(1)] p(2) obtain u where u: "peek_token s = Inr (u, Some t)" "ahead u ((i, gs) # l)" by auto
  from ahead_next [OF u(2) assms(2)] u(1) show ?thesis by (auto simp: skip_token_def)
qed

lemma ahead_skip_other:
  assumes "ahead s l" "plain_head l" "head_token l \<noteq> Some t"
  shows "\<exists>s'. skip_token t True s = Inr (s', False) \<and> ahead s' l"
  using ahead_peek [OF assms(1, 2)] assms(3) by (auto simp: skip_token_def)

lemma ahead_comment:
  assumes "ahead s l" "trailing \<noteq> None \<Longrightarrow> plain_head l"
  shows "\<exists>s' c. take_comment trailing s = Inr (s', c) \<and> ahead s' l"
proof (cases trailing)
  case (Some n)
  then have "\<exists>s'. peek_token s = Inr (s', head_token l) \<and> ahead s' l" using ahead_peek assms by simp
  then show ?thesis using assms(1) Some by (auto simp: take_comment_def)
qed (use assms(1) in \<open>simp add: take_comment_def\<close>)

section \<open>Rules for the parser monad\<close>

text \<open>The parser returns, in a state with the property.\<close>

definition yields :: "'a pm \<Rightarrow> parser \<Rightarrow> ('a \<Rightarrow> parser \<Rightarrow> bool) \<Rightarrow> bool" where
  "yields m s Q \<longleftrightarrow> (\<exists>x s'. m s = Some (Inr (x, s')) \<and> Q x s')"

named_theorems parse_rules \<open>rules for what the parser yields\<close>

lemma yields_mono: "yields m s P \<Longrightarrow> (\<And>x s. P x s \<Longrightarrow> Q x s) \<Longrightarrow> yields m s Q"
  by (auto simp: yields_def)

lemma yields_bind [parse_rules]: "yields m s (\<lambda>x s. yields (f x) s Q) \<Longrightarrow> yields (pbind m f) s Q"
  by (auto simp: yields_def pbind_def)

lemma yields_seq [parse_rules]: "yields m s (\<lambda>x s. yields k s Q) \<Longrightarrow> yields (pseq m k) s Q"
  by (auto simp: yields_def pseq_def pbind_def)

lemma yields_return [parse_rules]: "Q x s \<Longrightarrow> yields (preturn x) s Q"
  by (simp add: yields_def preturn_def done_with_def)

lemma yields_get [parse_rules]: "Q (f s) s \<Longrightarrow> yields (pget f) s Q"
  by (simp add: yields_def pget_def done_with_def)

lemma yields_modify [parse_rules]: "Q () (f s) \<Longrightarrow> yields (pmodify f) s Q"
  by (simp add: yields_def pmodify_def done_with_def)

lemma yields_heap: "f (ps_heap s) = Some (Inr h) \<Longrightarrow> Q () (s\<lparr>ps_heap := h\<rparr>) \<Longrightarrow> yields (pheap f) s Q"
  by (simp add: yields_def pheap_def done_with_def)

lemma yields_make [parse_rules]:
  "Q (size_of (ps_heap s)) (s\<lparr>ps_heap := (ps_heap s)\<lparr>hp_objs := hp_objs (ps_heap s) @ [ob]\<rparr>\<rparr>) \<Longrightarrow> yields (pmake ob) s Q"
  by (simp add: yields_def pmake_def alloc_obj_def done_with_def size_of_def)

lemma yields_token: "f (ps_tk s) = Inr (tk, x) \<Longrightarrow> Q x (s\<lparr>ps_tk := tk\<rparr>) \<Longrightarrow> yields (ptoken f) s Q"
  by (simp add: yields_def ptoken_def done_with_def)

lemma yields_next:
  assumes "ahead (ps_tk s) ((i, gs) # l)" "item_tokens i = [t]" "\<And>tk. ahead tk l \<Longrightarrow> Q (Some t) (s\<lparr>ps_tk := tk\<rparr>)"
  shows "yields pnext s Q"
  unfolding pnext_def using ahead_next [OF assms(1, 2)] assms(3) yields_token by metis

lemma yields_next_end:
  assumes "ahead (ps_tk s) []" "\<And>tk. ahead tk [] \<Longrightarrow> Q None (s\<lparr>ps_tk := tk\<rparr>)"
  shows "yields pnext s Q"
  unfolding pnext_def using ahead_end [OF assms(1)] assms(2) yields_token by metis

lemma yields_expect:
  assumes "ahead (ps_tk s) ((i, gs) # l)" "item_tokens i = [t]" "re t" "\<And>tk. ahead tk l \<Longrightarrow> Q (Some t) (s\<lparr>ps_tk := tk\<rparr>)"
  shows "yields (expect re name) s Q"
  unfolding expect_def
  by (intro parse_rules yields_next [OF assms(1, 2)]) (use assms(3, 4) in \<open>simp add: token_string_def yields_return\<close>)

lemma yields_skip:
  assumes "ahead (ps_tk s) ((i, gs) # l)" "item_tokens i = [t]" "\<And>tk. ahead tk l \<Longrightarrow> Q () (s\<lparr>ps_tk := tk\<rparr>)"
  shows "yields (pskip t) s Q"
proof -
  obtain tk where "skip_token t False (ps_tk s) = Inr (tk, True)" "ahead tk l" using ahead_skip [OF assms(1, 2)] by blast
  then show ?thesis unfolding pskip_def by (intro parse_rules yields_token) (use assms(3) yields_return in auto)
qed

lemma yields_skip_if:
  assumes "ahead (ps_tk s) ((i, gs) # l)" "item_tokens i = [t]" "\<And>tk. ahead tk l \<Longrightarrow> Q True (s\<lparr>ps_tk := tk\<rparr>)"
  shows "yields (pskip_if t) s Q"
  unfolding pskip_if_def using ahead_skip [OF assms(1, 2)] assms(3) yields_token by metis

lemma yields_skip_other:
  assumes "ahead (ps_tk s) l" "plain_head l" "head_token l \<noteq> Some t" "\<And>tk. ahead tk l \<Longrightarrow> Q False (s\<lparr>ps_tk := tk\<rparr>)"
  shows "yields (pskip_if t) s Q"
  unfolding pskip_if_def using ahead_skip_other [OF assms(1-3)] assms(4) yields_token by metis

lemma yields_comment:
  assumes "ahead (ps_tk s) l" "trailing \<noteq> None \<Longrightarrow> plain_head l" "\<And>tk c. ahead tk l \<Longrightarrow> Q c (s\<lparr>ps_tk := tk\<rparr>)"
  shows "yields (ptoken (take_comment trailing)) s Q"
  using ahead_comment [OF assms(1, 2)] assms(3) yields_token by metis

section \<open>Blocks\<close>

text \<open>A step of the parser that touches the tokenizer, the heap and the comment of the dummy only.\<close>

definition moved :: "parser \<Rightarrow> parser \<Rightarrow> bool" where
  "moved s s' \<longleftrightarrow> s' = s\<lparr>ps_tk := ps_tk s', ps_heap := ps_heap s', ps_dummy_comment := ps_dummy_comment s'\<rparr>"

lemma moved_refl [simp]: "moved s s"
  by (simp add: moved_def)

lemma moved_simps [simp]:
  "moved s (t\<lparr>ps_tk := tk\<rparr>) \<longleftrightarrow> moved s t" "moved s (t\<lparr>ps_heap := h\<rparr>) \<longleftrightarrow> moved s t"
  "moved s (t\<lparr>ps_dummy_comment := c\<rparr>) \<longleftrightarrow> moved s t"
  by (cases s; cases t; simp add: moved_def)+

lemma moved_trans: "moved s t \<Longrightarrow> moved t u \<Longrightarrow> moved s u"
  by (cases s; cases t; cases u; simp add: moved_def)

lemma moved_sel: "moved s t \<Longrightarrow> ps_keep_case t = ps_keep_case s \<and> ps_proto3 t = ps_proto3 s \<and> ps_head t = ps_head s \<and> ps_ptr t = ps_ptr s"
  by (cases s; cases t; simp add: moved_def)

lemma plain_punct [simp]: "plain_head ((Punct c, gs) # l)" "head_token ((Punct c, gs) # l) = Some [c]"
  "plain_head ((Word w, gs) # l)" "head_token ((Word w, gs) # l) = Some w"
  by (simp_all add: plain_head_def head_token_def)

lemma yields_no_options:
  assumes "ahead (ps_tk s) l" "plain_head l" "head_token l \<noteq> Some [91]" "\<And>tk. ahead tk l \<Longrightarrow> Q () (s\<lparr>ps_tk := tk\<rparr>)"
  shows "yields (parse_inline_options n x) s Q"
  unfolding parse_inline_options_def
proof (intro parse_rules yields_skip_other [OF assms(1-3)])
  fix tk assume "ahead tk l"
  from yields_return [where Q = Q, OF assms(4) [OF this]]
  show "yields (if False then inline_options_loop n x else preturn ()) (s\<lparr>ps_tk := tk\<rparr>) Q" by simp
qed

text \<open>The comment and the file name of one object may change.\<close>

definition remarked :: "oid \<Rightarrow> heap \<Rightarrow> heap \<Rightarrow> bool" where
  "remarked i h h' \<longleftrightarrow> hp_opts h' = hp_opts h \<and> size_of h' = size_of h \<and> (\<forall>j. j \<noteq> i \<longrightarrow> get_obj h' j = get_obj h j)
     \<and> (\<exists>c f. get_obj h' i = (get_obj h i)\<lparr>ob_comment := c, ob_filename := f\<rparr>)"

lemma remarked_refl [simp]: "remarked i h h"
  unfolding remarked_def by (intro conjI exI [of _ "ob_comment (get_obj h i)"] exI [of _ "ob_filename (get_obj h i)"]) simp_all

lemma remarked_trans: "remarked i h h' \<Longrightarrow> remarked i h' h'' \<Longrightarrow> remarked i h h''"
proof -
  assume "remarked i h h'" "remarked i h' h''"
  moreover from this obtain c f c' f' where "get_obj h' i = (get_obj h i)\<lparr>ob_comment := c, ob_filename := f\<rparr>"
    "get_obj h'' i = (get_obj h' i)\<lparr>ob_comment := c', ob_filename := f'\<rparr>" by (auto simp: remarked_def)
  then have "get_obj h'' i = (get_obj h i)\<lparr>ob_comment := c', ob_filename := f'\<rparr>" by simp
  then have "\<exists>c f. get_obj h'' i = (get_obj h i)\<lparr>ob_comment := c, ob_filename := f\<rparr>" by blast
  ultimately show ?thesis by (simp add: remarked_def)
qed

lemma remarked_upd: "remarked i h (upd_obj i (\<lambda>ob. ob\<lparr>ob_comment := c\<rparr>) h)" "remarked i h (upd_obj i (\<lambda>ob. ob\<lparr>ob_filename := f\<rparr>) h)"
proof -
  show "remarked i h (upd_obj i (\<lambda>ob. ob\<lparr>ob_comment := c\<rparr>) h)"
  proof (cases "i < size_of h")
    case True
    then show ?thesis unfolding remarked_def
      by (intro conjI exI [of _ c] exI [of _ "ob_filename (get_obj h i)"]) (simp_all add: get_upd, simp add: upd_obj_def)
  qed (simp add: upd_beyond)
  show "remarked i h (upd_obj i (\<lambda>ob. ob\<lparr>ob_filename := f\<rparr>) h)"
  proof (cases "i < size_of h")
    case True
    then show ?thesis unfolding remarked_def
      by (intro conjI exI [of _ f] exI [of _ "ob_comment (get_obj h i)"]) (simp_all add: get_upd, simp add: upd_obj_def)
  qed (simp add: upd_beyond)
qed

definition marked :: "target \<Rightarrow> parser \<Rightarrow> parser \<Rightarrow> bool" where
  "marked x s s' \<longleftrightarrow> moved s s' \<and> (case x of Obj i \<Rightarrow> remarked i (ps_heap s) (ps_heap s') | _ \<Rightarrow> ps_heap s' = ps_heap s)"

lemma marked_refl [simp]: "marked x s s"
  by (simp add: marked_def split: target.splits)

lemma marked_tk [simp]: "marked x s (t\<lparr>ps_tk := tk\<rparr>) \<longleftrightarrow> marked x s t"
  by (simp add: marked_def split: target.splits)

lemma marked_trans: "marked x s t \<Longrightarrow> marked x t u \<Longrightarrow> marked x s u"
  by (cases x) (auto simp: marked_def intro: moved_trans remarked_trans)

lemma yields_set_comment:
  assumes "\<And>s'. marked x s s' \<Longrightarrow> ps_tk s' = ps_tk s \<Longrightarrow> Q () s'"
  shows "yields (set_comment_of x c) s Q"
proof (cases x)
  case (Obj i)
  have "marked x s (s\<lparr>ps_heap := upd_obj i (\<lambda>ob. ob\<lparr>ob_comment := c\<rparr>) (ps_heap s)\<rparr>)"
    by (simp add: marked_def Obj remarked_upd)
  then show ?thesis using assms by (simp add: set_comment_of_def Obj yields_heap done_with_def)
next
  case Dummy
  then show ?thesis using assms by (simp add: set_comment_of_def yields_modify marked_def)
next
  case NoObj
  then show ?thesis using assms yields_return [of Q "()" s] by (simp add: set_comment_of_def)
qed

lemma yields_set_filename:
  assumes "\<And>s'. marked x s s' \<Longrightarrow> ps_tk s' = ps_tk s \<Longrightarrow> Q () s'"
  shows "yields (set_filename_of x) s Q"
proof (cases x)
  case (Obj i)
  have "marked x s (s\<lparr>ps_heap := upd_obj i (\<lambda>ob. ob\<lparr>ob_filename := ps_filename s\<rparr>) (ps_heap s)\<rparr>)"
    by (simp add: marked_def Obj remarked_upd)
  then show ?thesis using assms by (simp add: set_filename_of_def Obj yields_heap done_with_def yields_bind yields_get)
qed (use assms yields_return [of Q "()" s] in \<open>simp_all add: set_filename_of_def\<close>)

lemma yields_head:
  assumes "x \<noteq> NoObj" "ahead (ps_tk s) l" "\<And>s'. marked x s s' \<Longrightarrow> ahead (ps_tk s') l \<Longrightarrow> Q () s'"
  shows "yields (if x = NoObj then preturn ()
           else pbind (ptoken (take_comment None)) (\<lambda>c. pseq (set_comment_of x c) (set_filename_of x))) s Q"
proof -
  have "yields (pbind (ptoken (take_comment None)) (\<lambda>c. pseq (set_comment_of x c) (set_filename_of x))) s Q"
  proof (intro parse_rules yields_comment [OF assms(2)] yields_set_comment yields_set_filename)
    fix tk c u v assume tk: "ahead tk l" and u: "marked x (s\<lparr>ps_tk := tk\<rparr>) u" "ps_tk u = ps_tk (s\<lparr>ps_tk := tk\<rparr>)"
      and v: "marked x u v" "ps_tk v = ps_tk u"
    have "marked x s v" by (rule marked_trans [OF marked_trans [OF _ u(1)] v(1)]) simp
    then show "Q () v" using tk u v assms(3) by simp
  qed simp
  then show ?thesis using assms(1) by simp
qed

lemma yields_tail:
  assumes "ahead (ps_tk s) l" "plain_head l" "\<And>s'. marked x s s' \<Longrightarrow> ahead (ps_tk s') l \<Longrightarrow> Q () s'"
  shows "yields (pbind (pget (comment_of x)) (\<lambda>c.
      if x = NoObj \<or> c \<noteq> None then preturn () else pbind (ptoken (take_comment (Some trailing))) (set_comment_of x))) s Q"
proof (intro parse_rules)
  have "yields (preturn ()) s Q" by (rule yields_return) (use assms(1, 3) in simp)
  moreover have "yields (pbind (ptoken (take_comment (Some trailing))) (set_comment_of x)) s Q"
  proof (intro parse_rules yields_comment [OF assms(1)] yields_set_comment)
    fix tk c u assume "ahead tk l" "marked x (s\<lparr>ps_tk := tk\<rparr>) u" "ps_tk u = ps_tk (s\<lparr>ps_tk := tk\<rparr>)"
    then show "Q () u" using assms(3) [of u] marked_trans [of x s "s\<lparr>ps_tk := tk\<rparr>" u] by simp
  qed (rule assms(2))
  ultimately show "yields (if x = NoObj \<or> comment_of x s \<noteq> None then preturn ()
      else pbind (ptoken (take_comment (Some trailing))) (set_comment_of x)) s Q" by simp
qed

text \<open>A declaration that ends with a semicolon, and one with a block.\<close>

lemma yields_no_block:
  assumes "x \<noteq> NoObj" "ahead (ps_tk s) ((Punct 59, gs) # l)" "plain_head l" "\<And>s'. marked x s s' \<Longrightarrow> ahead (ps_tk s') l \<Longrightarrow> Q () s'"
  shows "yields (if_block n x body (parse_inline_options n y)) s Q"
  unfolding if_block_def
proof (intro yields_bind yields_get yields_seq yields_head [OF assms(1, 2)] yields_skip_other)
  fix u tk assume u: "marked x s u" "ahead tk ((Punct 59, gs) # l)"
  have "yields (pseq (parse_inline_options n y) (pseq (pskip [59]) (pbind (pget (comment_of x)) (\<lambda>c.
      if x = NoObj \<or> c \<noteq> None then preturn ()
      else pbind (ptoken (take_comment (Some (tk_line (ps_tk s))))) (set_comment_of x))))) (u\<lparr>ps_tk := tk\<rparr>) Q"
  proof (rule yields_seq, rule yields_no_options, simp, rule u(2))
    fix tk assume a: "ahead tk ((Punct 59, gs) # l)"
    show "yields (pseq (pskip [59]) (pbind (pget (comment_of x)) (\<lambda>c.
      if x = NoObj \<or> c \<noteq> None then preturn ()
      else pbind (ptoken (take_comment (Some (tk_line (ps_tk s))))) (set_comment_of x)))) (u\<lparr>ps_tk := tk'\<rparr>\<lparr>ps_tk := tk\<rparr>) Q" for tk'
    proof (rule yields_seq, rule yields_skip [where l = l], simp, rule a)
      fix tk assume b: "ahead tk l"
      show "yields (pbind (pget (comment_of x)) (\<lambda>c.
        if x = NoObj \<or> c \<noteq> None then preturn ()
        else pbind (ptoken (take_comment (Some (tk_line (ps_tk s))))) (set_comment_of x))) (u\<lparr>ps_tk := t\<rparr>\<lparr>ps_tk := t'\<rparr>\<lparr>ps_tk := tk\<rparr>) Q" for t t'
      proof (rule yields_tail [where l = l])
        fix v assume v: "marked x (u\<lparr>ps_tk := t\<rparr>\<lparr>ps_tk := t'\<rparr>\<lparr>ps_tk := tk\<rparr>) v" "ahead (ps_tk v) l"
        have "marked x s v" by (rule marked_trans [OF _ v(1)]) (use u in simp)
        then show "Q () v" using v(2) assms(4) by blast
      qed (use b assms(3) in simp_all)
    qed simp
  qed simp_all
  then show "yields (if False then pseq (block_loop n body) (pbind (pskip_if [59]) (\<lambda>_. preturn ()))
      else pseq (parse_inline_options n y) (pseq (pskip [59]) (pbind (pget (comment_of x)) (\<lambda>c.
      if x = NoObj \<or> c \<noteq> None then preturn ()
      else pbind (ptoken (take_comment (Some (tk_line (ps_tk s))))) (set_comment_of x))))) (u\<lparr>ps_tk := tk\<rparr>) Q" by simp
qed simp_all

lemma yields_block:
  assumes "x \<noteq> NoObj" "ahead (ps_tk s) ((Punct 123, gs) # l0)"
    "\<And>u. marked x s u \<Longrightarrow> ahead (ps_tk u) l0 \<Longrightarrow> yields (block_loop n body) u (\<lambda>_ v. P v \<and> ahead (ps_tk v) l)"
    "plain_head l" "head_token l \<noteq> Some [59]" "\<And>v tk. P v \<Longrightarrow> ahead tk l \<Longrightarrow> Q () (v\<lparr>ps_tk := tk\<rparr>)"
  shows "yields (if_block n x body otherwise) s Q"
  unfolding if_block_def
proof (intro yields_bind yields_get yields_seq yields_head [OF assms(1, 2)] yields_skip_if [OF _ item_tokens.simps(2)])
  fix u tk assume u: "marked x s u" "ahead tk l0"
  have "yields (pseq (block_loop n body) (pbind (pskip_if [59]) (\<lambda>_. preturn ()))) (u\<lparr>ps_tk := tk\<rparr>) Q"
  proof (rule yields_seq, rule yields_mono [OF assms(3)])
    fix v assume v: "P v \<and> ahead (ps_tk v) l"
    show "yields (pbind (pskip_if [59]) (\<lambda>_. preturn ())) v Q"
      by (intro parse_rules yields_skip_other [where l = l]) (use v assms(4-6) in simp_all)
  qed (use u in simp_all)
  then show "yields (if True then pseq (block_loop n body) (pbind (pskip_if [59]) (\<lambda>_. preturn ()))
      else pseq otherwise (pseq (pskip [59]) (pbind (pget (comment_of x)) (\<lambda>c.
      if x = NoObj \<or> c \<noteq> None then preturn ()
      else pbind (ptoken (take_comment (Some (tk_line (ps_tk s))))) (set_comment_of x))))) (u\<lparr>ps_tk := tk\<rparr>) Q" by simp
qed simp_all

section \<open>Enums\<close>

definition enum_value_items :: "jsstring \<times> int \<Rightarrow> item list" where
  "enum_value_items v = [Word (fst v), Punct 61, Word (dec_of_int (snd v)), Punct 59]"

definition enum_items :: "jsstring \<Rightarrow> (jsstring \<times> int) list \<Rightarrow> item list" where
  "enum_items name vs =
     [Word (js ''enum''), Word name, Punct 123] @ concat (map enum_value_items vs) @ [Punct 125]"

text \<open>
  The names are identifiers, none is the keyword that starts an option or a name that every object inherits, and no
  name or number occurs twice.
\<close>

definition enum_ok :: "(jsstring \<times> int) list \<Rightarrow> bool" where
  "enum_ok vs \<longleftrightarrow> distinct (map fst vs) \<and> distinct (map snd vs)
     \<and> list_all (\<lambda>(n, k). name_re n \<and> n \<noteq> js ''option'' \<and> n \<notin> set proto_names \<and> \<bar>k\<bar> < 2 ^ 53) vs"

text \<open>The values of an enum that was made from the declaration.\<close>

definition enum_is :: "enum_data \<Rightarrow> (jsstring \<times> int) list \<Rightarrow> bool" where
  "enum_is es vs \<longleftrightarrow> en_vals es = vs \<and> en_by_id es = map (\<lambda>(n, k). (k, n)) vs"

definition enum_change :: "oid \<Rightarrow> (jsstring \<times> int) list \<Rightarrow> heap \<Rightarrow> heap \<Rightarrow> bool" where
  "enum_change e vs h h' \<longleftrightarrow> hp_opts h' = hp_opts h \<and> size_of h' = size_of h \<and> (\<forall>j. j \<noteq> e \<longrightarrow> get_obj h' j = get_obj h j)
     \<and> (\<exists>es. get_obj h' e = (get_obj h e)\<lparr>ob_enum := es\<rparr> \<and> enum_is es vs)"

lemma enum_change_trans: "enum_change e ws h h' \<Longrightarrow> enum_change e vs h' h'' \<Longrightarrow> enum_change e vs h h''"
  by (auto simp: enum_change_def)

lemma enum_change_refl: "enum_is (ob_enum (get_obj h e)) vs \<Longrightarrow> enum_change e vs h h"
  unfolding enum_change_def by (intro conjI exI [of _ "ob_enum (get_obj h e)"]) simp_all

lemma dec_no_start: "w \<noteq> [] \<Longrightarrow> name_start (hd w) \<Longrightarrow> dec_of_int k \<noteq> w"
proof -
  have "c \<le> 57" if "dec_of_int k = c # s" for c s
  proof -
    have "list_all is_digit (dec_digits n)" for n using dec_digits_value by blast
    then have "dec_digits n = c # s \<Longrightarrow> c \<le> 57" for n by (metis is_digit_def list.pred_inject(2))
    then show ?thesis using that by (auto simp: dec_of_int_def split: if_splits)
  qed
  moreover have "\<not> name_start c" if "c \<le> 57" for c using that by (auto simp: name_start_def word_le_nat_alt)
  ultimately show "w \<noteq> [] \<Longrightarrow> name_start (hd w) \<Longrightarrow> ?thesis" by (metis list.collapse)
qed

lemma name_re_start: "name_re w \<Longrightarrow> w \<noteq> [] \<and> name_start (hd w)"
  by (simp add: name_re_def split: list.splits)

lemma dec_no_name: "name_re w \<Longrightarrow> dec_of_int k \<noteq> w"
  using dec_no_start name_re_start by blast

lemma enum_add_new:
  assumes "e < size_of h" "enum_is (ob_enum (get_obj h e)) ws" "enum_ok (ws @ [(n, k)])"
  shows "\<exists>h'. enum_add e n k c h = Inr h' \<and> enum_change e (ws @ [(n, k)]) h h'"
proof -
  let ?e = "ob_enum (get_obj h e)"
  have v: "en_vals ?e = ws" "en_by_id ?e = map (\<lambda>(n, k). (k, n)) ws" using assms(2) by (simp_all add: enum_is_def)
  have n: "n \<notin> fst ` set ws" "k \<notin> snd ` set ws" "name_re n" "n \<notin> set proto_names" using assms(3) by (auto simp: enum_ok_def)
  have "prop_get ws n = None" using n(1) by (simp add: map_of_eq_None_iff)
  then have h: "\<not> enum_has ?e n" using n dec_no_name [OF n(3)] by (auto simp: enum_has_def v tbl_get_def)
  have b: "k \<notin> set (map fst (map (\<lambda>(n, k). (k, n)) ws))" using n(2) by force
  then have i: "prop_get (map (\<lambda>(n, k). (k, n)) ws) k = None" by (simp add: map_of_eq_None_iff image_image)
  have s: "prop_set ws n k = ws @ [(n, k)]" "prop_set (map (\<lambda>(n, k). (k, n)) ws) k n = map (\<lambda>(n, k). (k, n)) ws @ [(k, n)]"
    using n(1) b by (simp_all add: prop_set_new)
  let ?es = "\<lambda>c. ?e\<lparr>en_vals := ws @ [(n, k)], en_by_id := map (\<lambda>(n, k). (k, n)) ws @ [(k, n)], en_comments := c\<rparr>"
  obtain c' where a: "enum_add e n k c h = Inr (upd_obj e (\<lambda>ob. ob\<lparr>ob_enum := ?es c'\<rparr>) h)"
    using h i by (simp add: enum_add_def Let_def v s)
  have "enum_change e (ws @ [(n, k)]) h (upd_obj e (\<lambda>ob. ob\<lparr>ob_enum := ?es c'\<rparr>) h)"
    unfolding enum_change_def
    by (intro conjI exI [of _ "?es c'"]) (use assms(1) in \<open>simp_all add: get_upd enum_is_def\<close>, simp add: upd_obj_def)
  with a show ?thesis by blast
qed

lemma yields_id:
  "\<bar>k\<bar> < 2 ^ 53 \<Longrightarrow> 0 \<le> k \<or> accept \<Longrightarrow> Q k s \<Longrightarrow> yields (parse_id (Some (dec_of_int k)) accept) s Q"
  by (simp add: yields_def parse_id_decimal done_with_def)

lemma yields_enum_value:
  assumes "ahead (ps_tk s) ((Punct 61, g1) # (Word (dec_of_int k), g2) # (Punct 59, g3) # l)" "plain_head l" "name_re n" "\<bar>k\<bar> < 2 ^ 53"
    "\<And>c. \<exists>h. enum_add e n k c (ps_heap s) = Inr h \<and> R h"
  shows "yields (parse_enum_value m e (Some n)) s (\<lambda>_ v. moved s v \<and> ahead (ps_tk v) l \<and> R (ps_heap v))"
proof -
  let ?Q = "\<lambda>_ v. moved s v \<and> ahead (ps_tk v) l \<and> R (ps_heap v)"
  let ?add = "\<lambda>k. pbind (pget ps_dummy_comment) (\<lambda>c. pheap (\<lambda>h. Some (enum_add e n k c h)))"
  let ?rest = "\<lambda>v. pbind (parse_id v True) (\<lambda>k. pseq (pmodify (\<lambda>s. s\<lparr>ps_dummy_comment := None\<rparr>))
      (pseq (if_block m Dummy (option_block m Dummy) (parse_inline_options m Dummy)) (?add k)))"
  have "yields (pseq (pskip [61]) (pbind pnext ?rest)) s ?Q"
  proof (rule yields_seq, rule yields_skip [OF assms(1) item_tokens.simps(2)])
    fix tk1 assume 1: "ahead tk1 ((Word (dec_of_int k), g2) # (Punct 59, g3) # l)"
    show "yields (pbind pnext ?rest) (s\<lparr>ps_tk := tk1\<rparr>) ?Q"
    proof (rule yields_bind, rule yields_next [OF _ item_tokens.simps(1)], simp, rule 1, rule yields_bind, rule yields_id [OF assms(4)],
        simp, intro yields_seq yields_modify)
      fix tk2 assume 2: "ahead tk2 ((Punct 59, g3) # l)"
      let ?u = "s\<lparr>ps_tk := tk1\<rparr>\<lparr>ps_tk := tk2\<rparr>\<lparr>ps_dummy_comment := None\<rparr>"
      show "yields (if_block m Dummy (option_block m Dummy) (parse_inline_options m Dummy)) ?u (\<lambda>x s'. yields (?add k) s' ?Q)"
      proof (rule yields_no_block [where l = l and gs = g3])
        fix v assume v: "marked Dummy ?u v" "ahead (ps_tk v) l"
        have m: "moved s v" by (rule moved_trans [of s ?u v]) (use v(1) in \<open>simp_all add: marked_def\<close>)
        have p: "ps_heap v = ps_heap s" using v(1) by (simp add: marked_def)
        obtain h where "enum_add e n k (ps_dummy_comment v) (ps_heap v) = Inr h" "R h" using assms(5) p by metis
        then show "yields (?add k) v ?Q"
          by (intro parse_rules yields_heap) (use m v(2) in simp_all)
      qed (use 2 assms(2) in simp_all)
    qed
  qed
  then show ?thesis using assms(3) by (simp add: parse_enum_value_def token_string_def)
qed

lemma yields_enum_loop:
  assumes "map fst l0 = concat (map enum_value_items vs)" "ahead (ps_tk s) (l0 @ (Punct 125, gs) # l)" "length vs < k"
    "e < size_of (ps_heap s)" "enum_is (ob_enum (get_obj (ps_heap s) e)) ws" "enum_ok (ws @ vs)"
  shows "yields (block_loop k (\<lambda>t. if t = Some (js ''option'') then parse_option_line n (Obj e) else parse_enum_value n e t)) s
    (\<lambda>_ v. (moved s v \<and> enum_change e (ws @ vs) (ps_heap s) (ps_heap v)) \<and> ahead (ps_tk v) l)"
  using assms
proof (induction vs arbitrary: ws s l0 k)
  case Nil
  obtain k' where k: "k = Suc k'" using Nil.prems(3) by (cases k) auto
  have a: "ahead (ps_tk s) ((Punct 125, gs) # l)" using Nil.prems(1, 2) by simp
  show ?case unfolding k block_loop.simps
    by (rule yields_bind, rule yields_next [OF a item_tokens.simps(2)], simp, rule yields_return)
      (use enum_change_refl [OF Nil.prems(5)] in simp)
next
  case (Cons v vs)
  obtain nm i where v: "v = (nm, i)" by (cases v)
  obtain k' where k: "k = Suc k'" using Cons.prems(3) by (cases k) auto
  obtain g1 g2 g3 g4 l1 where l0: "l0 = (Word nm, g1) # (Punct 61, g2) # (Word (dec_of_int i), g3) # (Punct 59, g4) # l1"
    and l1: "map fst l1 = concat (map enum_value_items vs)"
  proof -
    have "map fst l0 = Word nm # Punct 61 # Word (dec_of_int i) # Punct 59 # concat (map enum_value_items vs)"
      using Cons.prems(1) by (simp add: v enum_value_items_def [of "(nm, i)"])
    then show ?thesis by (auto simp: map_eq_Cons_conv intro: that)
  qed
  let ?l = "l1 @ (Punct 125, gs) # l"
  have ok: "name_re nm" "nm \<noteq> js ''option''" "\<bar>i\<bar> < 2 ^ 53" "enum_ok (ws @ [(nm, i)])" "enum_ok ((ws @ [(nm, i)]) @ vs)"
    using Cons.prems(6) by (auto simp: enum_ok_def v)
  have t: "nm \<noteq> [125]" using ok(1) by (auto simp: name_re_def name_start_def)
  have ph: "plain_head ?l" using l1 by (cases vs) (auto simp: enum_value_items_def map_eq_Cons_conv)
  let ?body = "\<lambda>t. if t = Some (js ''option'') then parse_option_line n (Obj e) else parse_enum_value n e t"
  show ?case unfolding k block_loop.simps
  proof (rule yields_bind, rule yields_next [OF Cons.prems(2) [unfolded l0 append_Cons] item_tokens.simps(1)])
    fix tk assume tk: "ahead tk ((Punct 61, g2) # (Word (dec_of_int i), g3) # (Punct 59, g4) # l1 @ (Punct 125, gs) # l)"
    let ?s = "s\<lparr>ps_tk := tk\<rparr>"
    have "yields (parse_enum_value n e (Some nm)) ?s (\<lambda>_ u. moved ?s u \<and> ahead (ps_tk u) ?l
        \<and> enum_change e (ws @ [(nm, i)]) (ps_heap s) (ps_heap u))"
      by (rule yields_enum_value [where ?g1.0 = g2 and ?g2.0 = g3 and ?g3.0 = g4])
        (use tk ph ok enum_add_new [OF Cons.prems(4, 5) ok(4)] in simp_all)
    then have "yields (?body (Some nm)) ?s (\<lambda>_ u. moved ?s u \<and> ahead (ps_tk u) ?l
        \<and> enum_change e (ws @ [(nm, i)]) (ps_heap s) (ps_heap u))" using ok(2) by simp
    then have "yields (pseq (?body (Some nm)) (block_loop k' ?body)) ?s
        (\<lambda>_ v. (moved s v \<and> enum_change e (ws @ (nm, i) # vs) (ps_heap s) (ps_heap v)) \<and> ahead (ps_tk v) l)"
    proof (intro yields_seq, elim yields_mono)
      fix x u assume u: "moved ?s u \<and> ahead (ps_tk u) ?l \<and> enum_change e (ws @ [(nm, i)]) (ps_heap s) (ps_heap u)"
      have m: "moved s u" by (rule moved_trans [of s ?s u]) (use u in simp_all)
      have h: "e < size_of (ps_heap u)" "enum_is (ob_enum (get_obj (ps_heap u) e)) (ws @ [(nm, i)])"
        using u Cons.prems(4) by (auto simp: enum_change_def)
      have "yields (block_loop k' ?body) u (\<lambda>_ v. (moved u v \<and> enum_change e ((ws @ [(nm, i)]) @ vs) (ps_heap u) (ps_heap v)) \<and> ahead (ps_tk v) l)"
        by (rule Cons.IH [OF l1 _ _ h ok(5)]) (use u Cons.prems(3) k in simp_all)
      then show "yields (block_loop k' ?body) u (\<lambda>_ v. (moved s v \<and> enum_change e (ws @ (nm, i) # vs) (ps_heap s) (ps_heap v)) \<and> ahead (ps_tk v) l)"
        by (rule yields_mono) (use m u in \<open>auto intro: moved_trans enum_change_trans\<close>)
    qed
    then show "yields (if Some nm = Some [125] then preturn () else pseq (?body (Some nm)) (block_loop k' ?body)) ?s
        (\<lambda>_ v'. (moved s v' \<and> enum_change e (ws @ v # vs) (ps_heap s) (ps_heap v')) \<and> ahead (ps_tk v') l)" using t v by simp
  qed
qed

text \<open>The heap with a new object whose comment and file name are not known.\<close>

definition grown :: "heap \<Rightarrow> heap \<Rightarrow> bool" where
  "grown h h' \<longleftrightarrow> hp_opts h' = hp_opts h \<and> size_of h' = Suc (size_of h) \<and> (\<forall>j < size_of h. get_obj h' j = get_obj h j)"

lemma yields_enum:
  assumes "ahead (ps_tk s) ((Word name, g1) # (Punct 123, g2) # l0 @ (Punct 125, g3) # l)" "map fst l0 = concat (map enum_value_items vs)"
    "plain_head l" "head_token l \<noteq> Some [59]" "name_re name" "enum_ok vs" "length vs < n"
    "\<And>h c f es. grown (ps_heap s) h \<Longrightarrow> get_obj h (size_of (ps_heap s)) = (new_enum name [])\<lparr>ob_comment := c, ob_filename := f, ob_enum := es\<rparr> \<Longrightarrow>
       enum_is es vs \<Longrightarrow> \<exists>h'. run n (CAdd p (size_of (ps_heap s))) h = Some (Inr h') \<and> R h'"
  shows "yields (parse_enum n p) s (\<lambda>_ v. moved s v \<and> ahead (ps_tk v) l \<and> R (ps_heap v))"
  unfolding parse_enum_def
proof (rule yields_bind, rule yields_expect [where re = name_re, OF assms(1) item_tokens.simps(1) assms(5)])
  let ?e = "size_of (ps_heap s)" and ?Q = "\<lambda>_ v. moved s v \<and> ahead (ps_tk v) l \<and> R (ps_heap v)"
  let ?body = "\<lambda>t. if t = Some (js ''option'') then parse_option_line n (Obj ?e) else parse_enum_value n ?e t"
  fix tk assume tk: "ahead tk ((Punct 123, g2) # l0 @ (Punct 125, g3) # l)"
  let ?h = "(ps_heap s)\<lparr>hp_objs := hp_objs (ps_heap s) @ [new_enum name []]\<rparr>"
  let ?s = "s\<lparr>ps_tk := tk\<rparr>\<lparr>ps_heap := ?h\<rparr>"
  have g: "grown (ps_heap s) ?h" "get_obj ?h ?e = new_enum name []"
    by (simp_all add: grown_def size_of_def get_obj_def nth_append)
  have "yields (pseq (if_block n (Obj ?e) ?body (preturn ())) (padd n p ?e)) ?s ?Q"
  proof (rule yields_seq, rule yields_block [where l = l and ?l0.0 = "l0 @ (Punct 125, g3) # l" and gs = g2])
    fix u assume u: "marked (Obj ?e) ?s u" "ahead (ps_tk u) (l0 @ (Punct 125, g3) # l)"
    have r: "remarked ?e ?h (ps_heap u)" and m: "moved ?s u" using u(1) by (simp_all add: marked_def)
    from r g(2) obtain c f where o: "get_obj (ps_heap u) ?e = (new_enum name [])\<lparr>ob_comment := c, ob_filename := f\<rparr>"
      by (auto simp: remarked_def)
    have e: "enum_is (ob_enum (get_obj (ps_heap u) ?e)) []"
      by (simp add: o enum_is_def new_enum_def object_keys_def blank_obj_def)
    have s: "?e < size_of (ps_heap u)" using r g(1) by (simp add: remarked_def grown_def)
    have "yields (block_loop n ?body) u (\<lambda>_ v. (moved u v \<and> enum_change ?e ([] @ vs) (ps_heap u) (ps_heap v)) \<and> ahead (ps_tk v) l)"
      by (rule yields_enum_loop [OF assms(2) u(2) assms(7) s e]) (use assms(6) in simp)
    then show "yields (block_loop n ?body) u (\<lambda>_ v. (moved s v \<and> (\<exists>h. remarked ?e ?h h \<and> enum_change ?e vs h (ps_heap v))) \<and> ahead (ps_tk v) l)"
      by (rule yields_mono) (use r m in \<open>auto intro: moved_trans [of s ?s] moved_trans [of ?s u]\<close>)
  next
    fix v tk' assume v: "moved s v \<and> (\<exists>h. remarked ?e ?h h \<and> enum_change ?e vs h (ps_heap v))" and tk': "ahead tk' l"
    then obtain h where h: "remarked ?e ?h h" "enum_change ?e vs h (ps_heap v)" by blast
    from h g(2) obtain c f es where o: "get_obj (ps_heap v) ?e = (new_enum name [])\<lparr>ob_comment := c, ob_filename := f, ob_enum := es\<rparr>" "enum_is es vs"
      by (auto simp: remarked_def enum_change_def)
    have "grown (ps_heap s) (ps_heap v)" using h g(1) by (simp add: remarked_def enum_change_def grown_def)
    from assms(8) [OF this o] obtain h' where "run n (CAdd p ?e) (ps_heap v) = Some (Inr h')" "R h'" by blast
    then show "yields (padd n p ?e) (v\<lparr>ps_tk := tk'\<rparr>) ?Q" unfolding padd_def by (intro yields_heap) (use v tk' in simp_all)
  qed (use tk assms(3, 4) in simp_all)
  note main = this
  have e: "ps_heap (s\<lparr>ps_tk := tk\<rparr>) = ps_heap s" by simp
  show "yields (pbind (named (Some name)) (\<lambda>name. pbind (pmake (new_enum name [])) (\<lambda>e. pseq (if_block n (Obj e)
      (\<lambda>t. if t = Some (js ''option'') then parse_option_line n (Obj e) else parse_enum_value n e t) (preturn ())) (padd n p e))))
      (s\<lparr>ps_tk := tk\<rparr>) ?Q"
    unfolding named_def option.case by (intro yields_bind yields_return yields_make, unfold e) (rule main)
qed

section \<open>Files with one declaration\<close>

text \<open>The heap with an empty root.\<close>

definition root_heap :: heap where
  "root_heap = \<lparr>hp_objs = [new_root], hp_opts = []\<rparr>"

lemma two_objects:
  assumes "grown root_heap h" "get_obj h 1 = ob"
  shows "h = \<lparr>hp_objs = [new_root, ob], hp_opts = []\<rparr>"
proof -
  have l: "length (hp_objs h) = 2" "hp_opts h = []" using assms(1) by (simp_all add: grown_def root_heap_def size_of_def)
  have "get_obj h 0 = new_root" using assms(1) by (simp add: grown_def root_heap_def size_of_def get_obj_def)
  then have "hp_objs h = [new_root, ob]"
    using l(1) assms(2) by (auto simp: get_obj_def numeral_2_eq_2 length_Suc_conv)
  then show ?thesis using l(2) by (cases h) simp
qed

lemma root_add_enum:
  assumes "ob_class ob = KEnum" "ob_parent ob = None" "ob_name ob \<noteq> js ''__proto__''"
  shows "\<exists>h'. run (Suc (Suc (Suc n))) (CAdd 0 1) \<lparr>hp_objs = [new_root, ob], hp_opts = []\<rparr> = Some (Inr h')
    \<and> ns_nested (ob_ns (get_obj h' 0)) = Some [(ob_name ob, 1)]
    \<and> get_obj h' 1 = ob\<lparr>ob_parent := Some 0, ob_resolved := False\<rparr>"
proof -
  have root: "ob_class new_root = KRoot" "ob_parent new_root = None" "ob_ns new_root = \<lparr>ns_nested = None, ns_nested_array = None, ns_exposed = []\<rparr>"
    by (simp_all add: new_root_def blank_obj_def)
  let ?r1 = "new_root\<lparr>ob_ns := \<lparr>ns_nested = Some [(ob_name ob, 1)], ns_nested_array = None, ns_exposed = []\<rparr>\<rparr>"
  let ?ob = "ob\<lparr>ob_parent := Some 0, ob_resolved := False\<rparr>"
  let ?h2 = "\<lparr>hp_objs = [?r1, ?ob], hp_opts = []\<rparr>"
  let ?x = "if expose_re (ob_name ob) then [(ob_name ob, 1)] else []"
  let ?h3 = "\<lparr>hp_objs = [?r1\<lparr>ob_ns := \<lparr>ns_nested = Some [(ob_name ob, 1)], ns_nested_array = None, ns_exposed = ?x\<rparr>\<rparr>, ?ob], hp_opts = []\<rparr>"
  have r: "root_of ?h2 0 = Some 0" by (simp add: root_of_def parents_def get_obj_def root)
  have "run (Suc n) (CHandleAdd 0 1) ?h2 = done_with ?h3"
    using assms by (simp add: dispatch_def handle_add_def get_obj_def is_field_def expose_def upd_ns_def upd_obj_def root Let_def)
  then have a: "run (Suc (Suc n)) (COnAdd 1 0) \<lparr>hp_objs = [?r1, ob], hp_opts = []\<rparr> = done_with ?h3"
    using assms r by (simp add: run.simps(2) [of "Suc n"] dispatch_def base_on_add_def if_rooted_def set_unresolved_def upd_obj_def get_obj_def done_with_def root del: run.simps)
  have "run (Suc (Suc (Suc n))) (CAdd 0 1) \<lparr>hp_objs = [new_root, ob], hp_opts = []\<rparr>
      = obind (run (Suc (Suc n)) (COnAdd 1 0) \<lparr>hp_objs = [?r1, ob], hp_opts = []\<rparr>) (\<lambda>h. done_with (clear_nested_cache 0 h))"
    using assms(1, 3)
    by (simp add: run.simps(2) [of "Suc (Suc n)"] dispatch_def ns_add_def valid_nested_def get_obj_def init_nested_def set_nested_def upd_ns_def
        upd_obj_def done_with_def root Let_def del: run.simps)
  then have "run (Suc (Suc (Suc n))) (CAdd 0 1) \<lparr>hp_objs = [new_root, ob], hp_opts = []\<rparr> = done_with ?h3"
    unfolding a by (simp add: done_with_def clear_nested_cache_def upd_ns_def upd_obj_def get_obj_def)
  then show ?thesis by (simp add: done_with_def get_obj_def)
qed

lemma parse_run_common: "yields (parse_run (Suc n) (PCommon p t)) s Q \<longleftrightarrow> yields (parse_common n (parse_run n) p t) s Q"
  by (simp add: yields_def)

text \<open>A declaration that is the rest of the file.\<close>

lemma yields_declaration:
  assumes "ahead (ps_tk s) ((Word w, gs) # l)" "w \<notin> {js ''package'', js ''import'', js ''syntax'', js ''option''}"
    "\<And>tk. ahead tk l \<Longrightarrow> yields (parse_run (Suc n) (PCommon (ps_ptr s) (Some w))) (s\<lparr>ps_tk := tk\<rparr>) (\<lambda>known v. known \<and> ahead (ps_tk v) [] \<and> R (ps_heap v))"
  shows "yields (parse_loop (Suc (Suc n))) s (\<lambda>_ v. R (ps_heap v))"
  unfolding parse_loop.simps(2) [of "Suc n"]
proof (rule yields_bind, rule yields_next [OF assms(1) item_tokens.simps(1)])
  fix tk assume tk: "ahead tk l"
  let ?s = "s\<lparr>ps_tk := tk\<rparr>"
  let ?decl = "pbind (pget ps_ptr) (\<lambda>ptr. pbind (parse_run (Suc n) (PCommon ptr (Some w))) (\<lambda>known.
            if known then pmodify (\<lambda>s. s\<lparr>ps_head := False\<rparr>) else pillegal (Some w) token_word))"
  have end': "yields (parse_loop (Suc n)) v (\<lambda>_ v. R (ps_heap v))" if "ahead (ps_tk v) []" "R (ps_heap v)" for v
    unfolding parse_loop.simps
    by (rule yields_bind, rule yields_next_end [OF that(1)], simp, rule yields_return) (use that(2) in simp)
  have "yields (pseq ?decl (parse_loop (Suc n))) ?s (\<lambda>_ v. R (ps_heap v))"
  proof (rule yields_seq, rule yields_bind, rule yields_get, rule yields_bind, rule yields_mono)
    show "yields (parse_run (Suc n) (PCommon (ps_ptr ?s) (Some w))) ?s (\<lambda>known v. known \<and> ahead (ps_tk v) [] \<and> R (ps_heap v))"
      using assms(3) [OF tk] by simp
    fix known and v :: parser assume k: "known \<and> ahead (ps_tk v) [] \<and> R (ps_heap v)"
    have "yields (pmodify (\<lambda>s. s\<lparr>ps_head := False\<rparr>)) v (\<lambda>x s. yields (parse_loop (Suc n)) s (\<lambda>_ v. R (ps_heap v)))"
      by (rule yields_modify, rule end') (use k in simp_all)
    then show "yields (if known then pmodify (\<lambda>s. s\<lparr>ps_head := False\<rparr>) else pillegal (Some w) token_word) v
        (\<lambda>x s. yields (parse_loop (Suc n)) s (\<lambda>_ v. R (ps_heap v)))" using k by simp
  qed
  then show "yields (if Some w = None then preturn () else pseq
         (if Some w = Some (js ''package'') then in_head (Some w) (parse_package (Suc n))
          else if Some w = Some (js ''import'') then in_head (Some w) (parse_import (Suc n))
          else if Some w = Some (js ''syntax'') then in_head (Some w) (parse_syntax (Suc n))
          else if Some w = Some (js ''option'') then
            in_head (Some w) (pbind (pget ps_ptr) (\<lambda>ptr. parse_option_line (Suc n) (Obj ptr)))
          else ?decl) (parse_loop (Suc n))) ?s (\<lambda>_ v. R (ps_heap v))" using assms(2) by simp
qed

lemma parse_yields:
  assumes "yields (parse_loop n) \<lparr>ps_tk = tokenize src, ps_heap = h, ps_pkg = None, ps_imports = None, ps_weak_imports = None,
        ps_syntax = None, ps_proto3 = False, ps_head = True, ps_ptr = rt, ps_filename = file, ps_keep_case = keep, ps_dummy_comment = None\<rparr>
      (\<lambda>_ s. R (ps_heap s))"
  shows "\<exists>s. parse n keep file src rt h = Some (Inr s) \<and> R (ps_heap s)"
proof -
  from assms obtain s where "parse_loop n \<lparr>ps_tk = tokenize src, ps_heap = h, ps_pkg = None, ps_imports = None, ps_weak_imports = None,
        ps_syntax = None, ps_proto3 = False, ps_head = True, ps_ptr = rt, ps_filename = file, ps_keep_case = keep, ps_dummy_comment = None\<rparr>
      = Some (Inr ((), s))" "R (ps_heap s)" by (auto simp: yields_def)
  then show ?thesis by (simp add: parse_def done_with_def)
qed

text \<open>The layout of a declaration with a block, and the state in which a file is parsed into an empty root.\<close>

lemma declaration_layout:
  assumes "map fst l = Word kw # Word name # Punct 123 # xs @ [Punct 125]"
  obtains g1 g2 g3 g4 l0 where "l = (Word kw, g1) # (Word name, g2) # (Punct 123, g3) # l0 @ [(Punct 125, g4)]" "map fst l0 = xs"
  using assms by (auto simp: map_eq_Cons_conv map_eq_append_conv)

definition parser_start :: "bool \<Rightarrow> jsstring option \<Rightarrow> tokenizer \<Rightarrow> parser" where
  "parser_start keep file tk =
     \<lparr>ps_tk = tk, ps_heap = root_heap, ps_pkg = None, ps_imports = None, ps_weak_imports = None,
      ps_syntax = None, ps_proto3 = False, ps_head = True, ps_ptr = 0, ps_filename = file, ps_keep_case = keep, ps_dummy_comment = None\<rparr>"

lemma parser_start_sel [simp]:
  "ps_tk (parser_start keep file tk) = tk" "ps_heap (parser_start keep file tk) = root_heap" "ps_proto3 (parser_start keep file tk) = False"
  "ps_ptr (parser_start keep file tk) = 0" "ps_keep_case (parser_start keep file tk) = keep"
  "(parser_start keep file tk)\<lparr>ps_tk := tk'\<rparr> = parser_start keep file tk'"
  by (simp_all add: parser_start_def)

lemma parse_one_declaration:
  assumes "list_all gap_ok gs" "layout_ok ((Word w, g) # l)" "w \<notin> {js ''package'', js ''import'', js ''syntax'', js ''option''}"
    "parse_common m (parse_run m) 0 (Some w) = pseq decl (preturn True)"
    "\<And>tk. ahead tk l \<Longrightarrow> yields decl (parser_start keep file tk) (\<lambda>_ v. moved (parser_start keep file tk) v \<and> ahead (ps_tk v) [] \<and> R (ps_heap v))"
  shows "\<exists>s. parse (Suc (Suc m)) keep file (concat (map print_gap gs) @ print_layout ((Word w, g) # l)) 0 root_heap = Some (Inr s) \<and> R (ps_heap s)"
proof -
  let ?src = "concat (map print_gap gs) @ print_layout ((Word w, g) # l)"
  let ?s0 = "parser_start keep file (tokenize ?src)"
  have "yields (parse_run (Suc m) (PCommon (ps_ptr ?s0) (Some w))) (?s0\<lparr>ps_tk := tk\<rparr>) (\<lambda>known v. known \<and> ahead (ps_tk v) [] \<and> R (ps_heap v))"
    if "ahead tk l" for tk
    unfolding parse_run_common parser_start_sel assms(4)
    by (intro yields_seq yields_mono [OF assms(5) [OF that]]) (simp add: yields_return)
  from yields_declaration [where R = R, OF _ assms(3) this] ahead_source [OF assms(1, 2)]
  have "yields (parse_loop (Suc (Suc m))) ?s0 (\<lambda>_ s. R (ps_heap s))" by simp
  from parse_yields [where R = R, OF this [unfolded parser_start_def]] show ?thesis .
qed


text \<open>A declaration with a negative value, blanks and comments.\<close>

definition colour_layout :: layout where
  "colour_layout =
     [(Word (js ''enum''), [Blank 32]), (Word (js ''E''), [Blank 9]), (Punct 123, [LineComment (js '' low'')]),
      (Word (js ''A''), []), (Punct 61, []), (Word (js ''0''), []), (Punct 59, [Blank 10, BlockComment (js ''x'')]),
      (Word (js ''B''), [Blank 32]), (Punct 61, []), (Word (js ''-7''), []), (Punct 59, []), (Punct 125, [])]"


end
