(* ===== verification/MessageProps.thy ===== *)
theory MessageProps
  imports ParserProps
begin

text \<open>
  What the parser makes of a message declaration with plain fields: the type with its table of fields, and the field
  objects with their rules, types, names and ids.
\<close>

section \<open>Declared fields\<close>

text \<open>Rule, type, name and id of a field.\<close>

type_synonym field_decl = "jsstring \<times> jsstring \<times> jsstring \<times> int"

fun decl_items :: "field_decl \<Rightarrow> item list" where
  "decl_items (r, t, n, k) = [Word r, Word t, Word n, Punct 61, Word (dec_of_int k), Punct 59]"

definition message_items :: "jsstring \<Rightarrow> field_decl list \<Rightarrow> item list" where
  "message_items name fs = [Word (js ''message''), Word name, Punct 123] @ concat (map decl_items fs) @ [Punct 125]"

definition cased :: "bool \<Rightarrow> jsstring \<Rightarrow> jsstring" where
  "cased keep n = (if keep then n else camel_case n)"

fun field_name :: "bool \<Rightarrow> field_decl \<Rightarrow> jsstring" where
  "field_name keep (r, t, n, k) = cased keep n"

fun field_id :: "field_decl \<Rightarrow> int" where
  "field_id (r, t, n, k) = k"

fun field_decl_ok :: "field_decl \<Rightarrow> bool" where
  "field_decl_ok (r, t, n, k) \<longleftrightarrow>
     r \<in> {js ''required'', js ''optional'', js ''repeated''} \<and> type_ref_re t \<and> t \<noteq> js ''group'' \<and> name_re n \<and> 0 \<le> k \<and> k < 2 ^ 53"

text \<open>The names after the conversion to camel case differ and none is a name that every object inherits.\<close>

definition message_ok :: "bool \<Rightarrow> field_decl list \<Rightarrow> bool" where
  "message_ok keep fs \<longleftrightarrow> list_all field_decl_ok fs \<and> distinct (map (field_name keep) fs) \<and> distinct (map field_id fs)
     \<and> list_all (\<lambda>f. field_name keep f \<notin> set proto_names) fs"

section \<open>The objects\<close>

text \<open>A field from its constructor, and as a member of the type, which is object 1.\<close>

fun fresh_field :: "bool \<Rightarrow> field_decl \<Rightarrow> obj" where
  "fresh_field keep (r, t, n, k) =
     (let ob = blank_obj KField (cased keep n) None in
      ob\<lparr>ob_field := (ob_field ob)\<lparr>fd_rule := (if r = js ''optional'' then None else Some r), fd_type := t, fd_id := k,
        fd_required := (r = js ''required''), fd_repeated := (r = js ''repeated'')\<rparr>\<rparr>)"

definition member_field :: "bool \<Rightarrow> field_decl \<Rightarrow> obj" where
  "member_field keep f =
     (fresh_field keep f)\<lparr>ob_parent := Some 1, ob_field := (ob_field (fresh_field keep f))\<lparr>fd_message := Some 1\<rparr>\<rparr>"

lemma fresh_field_sel [simp]:
  "ob_class (fresh_field keep f) = KField" "ob_parent (fresh_field keep f) = None" "ob_name (fresh_field keep f) = field_name keep f"
  "fd_id (ob_field (fresh_field keep f)) = field_id f" "fd_extend (ob_field (fresh_field keep f)) = None"
  "ob_resolved (fresh_field keep f) = False" "ob_options (fresh_field keep f) = None"
  "fd_packed_cache (ob_field (fresh_field keep f)) = None"
  by (cases f; simp add: blank_obj_def)+

lemma new_field_declared:
  assumes "field_decl_ok (r, t, n, k)"
  shows "new_field (cased keep n) k t (Some r) None None = Inr (fresh_field keep (r, t, n, k))"
proof -
  have "map lower_char r = r" "rule_re r" "r \<noteq> []"
    using assms by (auto simp: rule_re_def lower_char_def js_simps word_le_nat_alt)
  then show ?thesis using assms by (auto simp: new_field_def blank_obj_def Let_def)
qed

definition fields_table :: "bool \<Rightarrow> field_decl list \<Rightarrow> table" where
  "fields_table keep fs = zip (map (field_name keep) fs) (map ((+) 2) [0..<length fs])"

definition message_obj :: "bool \<Rightarrow> jsstring \<Rightarrow> field_decl list \<Rightarrow> obj" where
  "message_obj keep name fs =
     (new_type name)\<lparr>ob_type := (ob_type (new_type name))\<lparr>ty_fields := fields_table keep fs\<rparr>\<rparr>"

text \<open>The option \<open>packed\<close> of repeated fields, which the parser sets to false in files that are not proto3.\<close>

definition declared_options :: "heap \<Rightarrow> field_decl \<Rightarrow> nat option \<Rightarrow> bool" where
  "declared_options h f x \<longleftrightarrow>
     (if fst f = js ''repeated'' then \<exists>r < length (hp_opts h). x = Some r \<and> hp_opts h ! r = [(js ''packed'', JBool False)] else x = None)"

definition field_at :: "bool \<Rightarrow> heap \<Rightarrow> oid \<Rightarrow> field_decl \<Rightarrow> bool" where
  "field_at keep h i f \<longleftrightarrow>
     (\<exists>c fn x. get_obj h i = (member_field keep f)\<lparr>ob_comment := c, ob_filename := fn, ob_options := x\<rparr> \<and> declared_options h f x)"

definition message_heap :: "bool \<Rightarrow> jsstring \<Rightarrow> field_decl list \<Rightarrow> heap \<Rightarrow> bool" where
  "message_heap keep name fs h \<longleftrightarrow>
     size_of h = 2 + length fs \<and> get_obj h 0 = new_root
     \<and> (\<exists>c fn. get_obj h 1 = (message_obj keep name fs)\<lparr>ob_comment := c, ob_filename := fn\<rparr>)
     \<and> (\<forall>i < length fs. field_at keep h (2 + i) (fs ! i))"

lemma message_obj_sel:
  "ob_class (message_obj keep name fs) = KType" "ob_name (message_obj keep name fs) = name" "ob_parent (message_obj keep name fs) = None"
  "ob_ns (message_obj keep name fs) = \<lparr>ns_nested = None, ns_nested_array = None, ns_exposed = []\<rparr>"
  "ob_type (message_obj keep name fs) = \<lparr>ty_fields = fields_table keep fs, ty_oneofs = None, ty_extensions = None, ty_reserved = None,
     ty_group = False, ty_by_id = None, ty_fields_array = None, ty_oneofs_array = None\<rparr>"
  by (simp_all add: message_obj_def new_type_def blank_obj_def)

section \<open>Adding a field to the type\<close>

lemma map_fst_fields_table: "map fst (fields_table keep fs) = map (field_name keep) fs"
  by (simp add: fields_table_def)

lemma fields_table_snoc: "fields_table keep (fs @ [f]) = fields_table keep fs @ [(field_name keep f, 2 + length fs)]"
  by (simp add: fields_table_def)

lemma fields_table_member:
  assumes "i \<in> set (to_array (Some (fields_table keep fs)))"
  shows "\<exists>j < length fs. i = 2 + j"
proof -
  from assms obtain k where k: "k \<in> set (object_keys (fields_table keep fs))" "i = the (prop_get (fields_table keep fs) k)"
    by (auto simp: to_array_def)
  from k(1) have "k \<in> fst ` set (fields_table keep fs)" by simp
  then obtain v where v: "prop_get (fields_table keep fs) k = Some v" by (metis map_of_eq_None_iff option.exhaust)
  then have "(k, v) \<in> set (fields_table keep fs)" by (rule map_of_SomeD)
  then have "v \<in> set (map ((+) 2) [0..<length fs])" unfolding fields_table_def by (rule set_zip_rightD)
  then show ?thesis using v k(2) by auto
qed

lemma by_id_loop_keys: "by_id_loop h xs m = Inr m' \<Longrightarrow> set (map fst m') \<subseteq> set (map fst m) \<union> (\<lambda>x. fd_id (ob_field (get_obj h x))) ` set xs"
proof (induction xs arbitrary: m)
  case (Cons x xs)
  let ?k = "fd_id (ob_field (get_obj h x))"
  have "prop_get m ?k = None" and r: "by_id_loop h xs (prop_set m ?k x) = Inr m'"
    using Cons.prems by (auto simp: Let_def split: if_splits)
  then have "set (map fst (prop_set m ?k x)) = insert ?k (set (map fst m))"
    by (simp add: prop_set_new map_of_eq_None_iff)
  then show ?case using Cons.IH [OF r] by auto
qed simp

text \<open>A heap in which the fields of the type are complete and one more field has been made.\<close>

lemma member_lookup:
  assumes "message_ok keep (fs @ [f])" "get_obj h 1 = (message_obj keep name fs)\<lparr>ob_comment := c, ob_filename := fn\<rparr>"
  shows "obj_get h 1 (field_name keep f) = Absent"
proof -
  have n: "field_name keep f \<notin> set (map (field_name keep) fs)" "field_name keep f \<notin> set proto_names"
    using assms(1) by (auto simp: message_ok_def)
  from n(1) have "prop_get (fields_table keep fs) (field_name keep f) = None"
    unfolding map_of_eq_None_iff map_fst_fields_table [symmetric] by simp
  then show ?thesis using n(2) assms(2) by (simp add: obj_get_def message_obj_sel tbl_get_def opt_get_def or_else_def del: One_nat_def)
qed

lemma member_ids:
  assumes "message_ok keep (fs @ [f])" "get_obj h 1 = (message_obj keep name fs)\<lparr>ob_comment := c, ob_filename := fn\<rparr>"
    "\<forall>i < length fs. fd_id (ob_field (get_obj h (2 + i))) = field_id (fs ! i)"
  shows "\<exists>m. get_fields_by_id 1 h = done_with (upd_type 1 (\<lambda>d. d\<lparr>ty_by_id := Some m\<rparr>) h, m) \<and> prop_get m (field_id f) = None"
proof -
  let ?t = "fields_table keep fs"
  have ids: "fd_id (ob_field (get_obj h x)) \<in> field_id ` set fs" if "x \<in> set (to_array (Some ?t))" for x
    using fields_table_member [OF that] assms(3) by force
  have d: "distinct (map fst ?t)" using assms(1) by (simp add: map_fst_fields_table message_ok_def)
  have u: "p = q" if "p \<in> set ?t" "q \<in> set ?t" "fd_id (ob_field (get_obj h (snd p))) = fd_id (ob_field (get_obj h (snd q)))" for p q
  proof -
    from that(1, 2) obtain i j where i: "i < length fs" "p = (field_name keep (fs ! i), 2 + i)" and j: "j < length fs" "q = (field_name keep (fs ! j), 2 + j)"
      by (auto simp: fields_table_def in_set_zip)
    have "map field_id fs ! i = map field_id fs ! j" using i j that(3) assms(3) by simp
    moreover have "distinct (map field_id fs)" using assms(1) by (simp add: message_ok_def)
    ultimately have "i = j" using i j by (simp add: nth_eq_iff_index_eq del: nth_map)
    then show "p = q" using i j by simp
  qed
  have "fields_ok h (ob_type (message_obj keep name fs))"
    unfolding fields_ok_def using d u by (auto simp: message_obj_sel)
  from to_array_ids [OF this] have "distinct (map (\<lambda>f. fd_id (ob_field (get_obj h f))) (to_array (Some ?t)))" by (simp add: message_obj_sel)
  from by_id_loop_total [OF _ this, of "[]"] obtain m where m: "by_id_loop h (to_array (Some ?t)) [] = Inr m" by auto
  have "set (map fst m) \<subseteq> field_id ` set fs" using by_id_loop_keys [OF m] ids by auto
  moreover have "field_id f \<notin> field_id ` set fs" using assms(1) by (auto simp: message_ok_def)
  ultimately have "prop_get m (field_id f) = None" by (auto simp: map_of_eq_None_iff)
  then show ?thesis using m assms(2) by (intro exI [of _ m]) (simp add: get_fields_by_id_def message_obj_sel del: One_nat_def)
qed

lemma root_of_top: "0 < size_of h \<Longrightarrow> ob_parent (get_obj h i) = None \<Longrightarrow> root_of h i = Some i"
  by (cases "length (hp_objs h)") (simp_all add: root_of_def parents_def size_of_def)

lemma add_member:
  assumes "message_ok keep (fs @ [f])" "size_of h = 3 + length fs"
    "get_obj h 1 = (message_obj keep name fs)\<lparr>ob_comment := c, ob_filename := fn\<rparr>"
    "\<forall>i < length fs. fd_id (ob_field (get_obj h (2 + i))) = field_id (fs ! i)"
    "get_obj h (2 + length fs) = (fresh_field keep f)\<lparr>ob_comment := c', ob_filename := fn'\<rparr>"
  shows "\<exists>h'. run (Suc (Suc n)) (CAdd 1 (2 + length fs)) h = Some (Inr h') \<and> hp_opts h' = hp_opts h \<and> size_of h' = size_of h
    \<and> (\<forall>j. j \<noteq> 1 \<longrightarrow> j \<noteq> 2 + length fs \<longrightarrow> get_obj h' j = get_obj h j)
    \<and> get_obj h' 1 = (message_obj keep name (fs @ [f]))\<lparr>ob_comment := c, ob_filename := fn\<rparr>
    \<and> get_obj h' (2 + length fs) = (member_field keep f)\<lparr>ob_comment := c', ob_filename := fn'\<rparr>"
proof -
  let ?name = "field_name keep f"
  define x where "x = 2 + length fs"
  obtain m where m: "get_fields_by_id 1 h = done_with (upd_type 1 (\<lambda>d. d\<lparr>ty_by_id := Some m\<rparr>) h, m)" "prop_get m (field_id f) = None"
    using member_ids [OF assms(1, 3, 4)] by blast
  define h1 where "h1 = upd_type 1 (\<lambda>d. d\<lparr>ty_by_id := Some m\<rparr>) h"
  define h2 where "h2 = upd_field x (\<lambda>d. d\<lparr>fd_message := Some 1\<rparr>) (upd_type 1 (\<lambda>d. d\<lparr>ty_fields := prop_set (ty_fields d) ?name x\<rparr>) h1)"
  define h3 where "h3 = set_unresolved x (Some 1) h2"
  define h4 where "h4 = clear_type_cache 1 h3"
  have sizes [simp]: "1 < size_of h" "x < size_of h" "size_of h1 = size_of h" "size_of h2 = size_of h" "size_of h3 = size_of h" "size_of h4 = size_of h"
    "x \<noteq> 1" "1 \<noteq> x"
    using assms(2) by (simp_all add: h1_def h2_def h3_def h4_def upd_type_def upd_field_def set_unresolved_def clear_type_cache_def x_def)
  note [simp del] = One_nat_def
  let ?type = "message_obj keep name fs" and ?field = "(fresh_field keep f)\<lparr>ob_comment := c', ob_filename := fn'\<rparr>"
  have old: "get_obj h 1 = ?type\<lparr>ob_comment := c, ob_filename := fn\<rparr>" "get_obj h x = ?field"
    unfolding x_def by (rule assms(3, 5))+
  have g1: "get_obj h1 j = (if j = 1 then ?type\<lparr>ob_comment := c, ob_filename := fn, ob_type := (ob_type ?type)\<lparr>ty_by_id := Some m\<rparr>\<rparr> else get_obj h j)" for j
    by (simp add: h1_def upd_type_def get_upd old)
  have g2: "get_obj h2 j = (if j = x then ?field\<lparr>ob_field := (ob_field ?field)\<lparr>fd_message := Some 1\<rparr>\<rparr>
      else if j = 1 then ?type\<lparr>ob_comment := c, ob_filename := fn,
        ob_type := (ob_type ?type)\<lparr>ty_by_id := Some m, ty_fields := prop_set (fields_table keep fs) ?name x\<rparr>\<rparr>
      else get_obj h j)" for j
    by (simp add: h2_def upd_type_def upd_field_def get_upd g1 old message_obj_sel)
  have g3: "get_obj h3 j = (if j = x then (get_obj h2 x)\<lparr>ob_parent := Some 1, ob_resolved := False\<rparr> else get_obj h2 j)" for j
    by (simp add: h3_def set_unresolved_def get_upd)
  have "root_of h3 1 = Some 1"
    by (rule root_of_top) (use sizes(1) in \<open>simp_all add: g3 g2 message_obj_sel del: sizes(1)\<close>)
  then have on: "run (Suc n) (COnAdd x 1) h2 = done_with h3"
    by (simp add: dispatch_def base_on_add_def g2 if_rooted_def done_with_def h3_def [symmetric]) (simp add: g3 g2 message_obj_sel)
  have added: "run (Suc (Suc n)) (CAdd 1 x) h = done_with h4"
    using member_lookup [OF assms(1, 3)]
    by (simp add: run.simps(2) [of "Suc n"] dispatch_def type_add_def is_field_def old m on Let_def h4_def h1_def [symmetric] h2_def [symmetric]
        is_reserved_id_def is_reserved_name_def g1 message_obj_sel done_with_def del: run.simps)
  have "prop_set (fields_table keep fs) ?name x = fields_table keep (fs @ [f])"
    using assms(1) by (subst prop_set_new) (auto simp: map_fst_fields_table fields_table_snoc message_ok_def x_def)
  then have new: "get_obj h4 1 = (message_obj keep name (fs @ [f]))\<lparr>ob_comment := c, ob_filename := fn\<rparr>"
    by (simp add: h4_def clear_type_cache_def upd_type_def get_upd g3 g2 message_obj_def new_type_def blank_obj_def)
  have "get_obj h4 x = (member_field keep f)\<lparr>ob_comment := c', ob_filename := fn'\<rparr>"
    by (cases f) (simp add: h4_def clear_type_cache_def upd_type_def get_upd g3 g2 member_field_def blank_obj_def Let_def)
  moreover have "get_obj h4 j = get_obj h j" if "j \<noteq> 1" "j \<noteq> x" for j
    using that by (simp add: h4_def clear_type_cache_def upd_type_def get_upd g3 g2)
  moreover have "hp_opts h4 = hp_opts h"
    by (simp add: h4_def h3_def h2_def h1_def clear_type_cache_def upd_type_def upd_field_def set_unresolved_def upd_obj_def)
  ultimately show ?thesis unfolding x_def [symmetric] using added new by (intro exI [of _ h4]) (simp add: done_with_def)
qed

text \<open>The option of a repeated field.\<close>

definition same_but :: "oid \<Rightarrow> heap \<Rightarrow> heap \<Rightarrow> bool" where
  "same_but x h h' \<longleftrightarrow> size_of h' = size_of h \<and> (\<forall>j. j \<noteq> x \<longrightarrow> get_obj h' j = get_obj h j) \<and> (\<exists>os. hp_opts h' = hp_opts h @ os)"

lemma yields_unpack:
  assumes "\<not> ps_proto3 s" "x < size_of (ps_heap s)" "get_obj (ps_heap s) x = (member_field keep f)\<lparr>ob_comment := c, ob_filename := fn\<rparr>"
    "\<And>h. same_but x (ps_heap s) h \<Longrightarrow> field_at keep h x f \<Longrightarrow> Q () (s\<lparr>ps_heap := h\<rparr>)"
  shows "yields (unpack_proto2 x) s Q"
proof -
  let ?h = "ps_heap s" and ?ob = "(member_field keep f)\<lparr>ob_comment := c, ob_filename := fn\<rparr>"
  obtain r t n k where f: "f = (r, t, n, k)" by (cases f)
  have sel: "fd_repeated (ob_field (member_field keep f)) = (r = js ''repeated'')" "ob_class (member_field keep f) = KField"
    "ob_options (member_field keep f) = None"
    "?ob\<lparr>ob_field := (ob_field ?ob)\<lparr>fd_packed_cache := None\<rparr>\<rparr> = ?ob" "?ob\<lparr>ob_options := None\<rparr> = ?ob"
    by (simp_all add: member_field_def f blank_obj_def Let_def)
  show ?thesis
  proof (cases "r = js ''repeated''")
    case True
    let ?r = "length (hp_opts ?h)"
    let ?h1 = "upd_obj x (\<lambda>ob. ob\<lparr>ob_field := (ob_field ob)\<lparr>fd_packed_cache := None\<rparr>\<rparr>) ?h"
    let ?h2 = "upd_obj x (\<lambda>ob. ob\<lparr>ob_options := Some ?r\<rparr>) (?h1\<lparr>hp_opts := hp_opts ?h1 @ [[(js ''packed'', JBool False)]]\<rparr>)"
    have g1: "get_obj ?h1 j = get_obj ?h j" for j using assms(2) sel(4) by (simp add: get_upd assms(3))
    have o1: "hp_opts ?h1 = hp_opts ?h" by (simp add: upd_obj_def)
    have "set_option x (js ''packed'') (JBool False) True ?h = ?h2"
      using assms(2) by (simp add: set_option_def is_field_def assms(3) sel(2) base_set_option_def get_option_def get_opts_def g1 sel(3) o1 del: get_upd_same)
    then have "unpack_proto2 x s = done_with ((), s\<lparr>ps_heap := ?h2\<rparr>)"
      using assms(1) True by (simp add: unpack_proto2_def assms(3) sel(1))
    moreover have g2: "get_obj ?h2 j = (if j = x then ?ob\<lparr>ob_options := Some ?r\<rparr> else get_obj ?h j)" for j
    proof -
      let ?h' = "?h1\<lparr>hp_opts := hp_opts ?h1 @ [[(js ''packed'', JBool False)]]\<rparr>"
      have g: "size_of ?h' = size_of ?h" "get_obj ?h' i = get_obj ?h i" for i
        using g1 [of i] by (simp_all add: size_of_def get_obj_def upd_obj_def)
      have "get_obj ?h2 j = (if j = x then (get_obj ?h' x)\<lparr>ob_options := Some ?r\<rparr> else get_obj ?h' j)"
        by (rule get_upd) (unfold g(1), rule assms(2))
      then show ?thesis unfolding g(2) assms(3) .
    qed
    have o2: "hp_opts ?h2 = hp_opts ?h @ [[(js ''packed'', JBool False)]]" by (simp add: upd_obj_def)
    have "same_but x ?h ?h2" unfolding same_but_def using g2 o2 by (simp add: size_of_def upd_obj_def)
    moreover have "field_at keep ?h2 x f" unfolding field_at_def declared_options_def
      by (intro exI [of _ c] exI [of _ fn] exI [of _ "Some ?r"]) (simp add: g2 o2 f True del: get_upd_same)
    ultimately show ?thesis using assms(4) by (simp add: yields_def done_with_def)
  next
    case False
    then have "unpack_proto2 x s = done_with ((), s)" by (simp add: unpack_proto2_def assms(3) sel(1))
    moreover have "field_at keep ?h x f" unfolding field_at_def declared_options_def
      by (intro exI [of _ c] exI [of _ fn] exI [of _ None]) (use False sel(5) in \<open>simp add: assms(3) f\<close>)
    ultimately show ?thesis using assms(4) [of ?h] by (simp add: yields_def done_with_def same_but_def)
  qed
qed

lemma message_heap_ids: "message_heap keep name fs h \<Longrightarrow> \<forall>i < length fs. fd_id (ob_field (get_obj h (2 + i))) = field_id (fs ! i)"
proof (intro allI impI)
  fix i assume "message_heap keep name fs h" "i < length fs"
  then have "field_at keep h (2 + i) (fs ! i)" by (simp add: message_heap_def)
  then obtain c fn x where "get_obj h (2 + i) = (member_field keep (fs ! i))\<lparr>ob_comment := c, ob_filename := fn, ob_options := x\<rparr>"
    by (auto simp: field_at_def)
  then show "fd_id (ob_field (get_obj h (2 + i))) = field_id (fs ! i)" by (simp add: member_field_def)
qed

lemma message_heap_snoc:
  assumes "message_heap keep name fs h" "size_of h' = 3 + length fs" "\<forall>j. j \<noteq> 1 \<longrightarrow> j < 2 + length fs \<longrightarrow> get_obj h' j = get_obj h j"
    "\<exists>os. hp_opts h' = hp_opts h @ os" "get_obj h' 1 = (message_obj keep name (fs @ [f]))\<lparr>ob_comment := c, ob_filename := fn\<rparr>"
    "field_at keep h' (2 + length fs) f"
  shows "message_heap keep name (fs @ [f]) h'"
proof -
  have "field_at keep h' (2 + i) (fs ! i)" if "i < length fs" for i
  proof -
    have "field_at keep h (2 + i) (fs ! i)" "get_obj h' (2 + i) = get_obj h (2 + i)"
      using assms(1, 3) that by (simp_all add: message_heap_def)
    then show ?thesis using assms(4) unfolding field_at_def declared_options_def by (fastforce simp: nth_append)
  qed
  then have "\<forall>i < Suc (length fs). field_at keep h' (2 + i) ((fs @ [f]) ! i)"
    using assms(6) by (auto simp: nth_append less_Suc_eq)
  moreover have "get_obj h' 0 = new_root" using assms(1, 3) by (simp add: message_heap_def)
  ultimately show ?thesis using assms(2, 5) by (auto simp: message_heap_def)
qed

section \<open>Parsing a field\<close>

lemma yields_apply_case: "Q (cased (ps_keep_case s) n) s \<Longrightarrow> yields (apply_case (Some n)) s Q"
  by (cases "ps_keep_case s") (simp_all add: yields_def apply_case_def cased_def token_string_def done_with_def)

lemma remarked_comments: "remarked x h h' \<Longrightarrow> get_obj h x = ob \<Longrightarrow> \<exists>c fn. get_obj h' x = ob\<lparr>ob_comment := c, ob_filename := fn\<rparr>"
  by (auto simp: remarked_def)

text \<open>The end of a field declaration, from its id on.\<close>

lemma yields_field_end:
  assumes "ahead (ps_tk s) ((Punct 59, gs) # l)" "plain_head l" "message_ok keep (fs @ [f])" "message_heap keep name fs (ps_heap s)"
    "\<not> ps_proto3 s"
  shows "yields (pbind (pmake (fresh_field keep f)) (\<lambda>fd.
        pseq (if_block (Suc (Suc n)) (Obj fd) (option_block m (Obj fd)) (parse_inline_options (Suc (Suc n)) (Obj fd)))
          (pseq (padd (Suc (Suc n)) 1 fd) (unpack_proto2 fd)))) s
      (\<lambda>_ v. moved s v \<and> ahead (ps_tk v) l \<and> message_heap keep name (fs @ [f]) (ps_heap v))"
proof (intro yields_bind yields_make)
  let ?h = "ps_heap s" and ?Q = "\<lambda>_ v. moved s v \<and> ahead (ps_tk v) l \<and> message_heap keep name (fs @ [f]) (ps_heap v)"
  let ?h1 = "?h\<lparr>hp_objs := hp_objs ?h @ [fresh_field keep f]\<rparr>" and ?x = "size_of ?h"
  have x: "?x = 2 + length fs" using assms(4) by (simp add: message_heap_def)
  have g1: "get_obj ?h1 ?x = fresh_field keep f" "size_of ?h1 = 3 + length fs" "\<forall>j < 2 + length fs. get_obj ?h1 j = get_obj ?h j"
    using x by (simp_all add: get_obj_def size_of_def nth_append)
  obtain c fn where t: "get_obj ?h 1 = (message_obj keep name fs)\<lparr>ob_comment := c, ob_filename := fn\<rparr>"
    using assms(4) by (auto simp: message_heap_def)
  show "yields (pseq (if_block (Suc (Suc n)) (Obj ?x) (option_block m (Obj ?x)) (parse_inline_options (Suc (Suc n)) (Obj ?x)))
      (pseq (padd (Suc (Suc n)) 1 ?x) (unpack_proto2 ?x))) (s\<lparr>ps_heap := ?h1\<rparr>) ?Q"
  proof (rule yields_seq, rule yields_no_block [where l = l and gs = gs])
    fix u assume u: "marked (Obj ?x) (s\<lparr>ps_heap := ?h1\<rparr>) u" "ahead (ps_tk u) l"
    then have m: "moved (s\<lparr>ps_heap := ?h1\<rparr>) u" and r: "remarked ?x ?h1 (ps_heap u)" by (simp_all add: marked_def)
    from remarked_comments [OF r g1(1)] obtain c' fn' where f: "get_obj (ps_heap u) ?x = (fresh_field keep f)\<lparr>ob_comment := c', ob_filename := fn'\<rparr>"
      by blast
    have old: "get_obj (ps_heap u) j = get_obj ?h j" if "j < 2 + length fs" for j
      using r g1(3) that x by (simp add: remarked_def)
    have "\<forall>i < length fs. fd_id (ob_field (get_obj (ps_heap u) (2 + i))) = field_id (fs ! i)"
      using message_heap_ids [OF assms(4)] old by simp
    from add_member [OF assms(3) _ _ this, where name = name and c = c and fn = fn and c' = c' and fn' = fn' and n = n] obtain h2 where h2: "run (Suc (Suc n)) (CAdd 1 (2 + length fs)) (ps_heap u) = Some (Inr h2)"
      "hp_opts h2 = hp_opts (ps_heap u)" "size_of h2 = size_of (ps_heap u)"
      "\<forall>j. j \<noteq> 1 \<longrightarrow> j \<noteq> 2 + length fs \<longrightarrow> get_obj h2 j = get_obj (ps_heap u) j"
      "get_obj h2 1 = (message_obj keep name (fs @ [f]))\<lparr>ob_comment := c, ob_filename := fn\<rparr>"
      "get_obj h2 (2 + length fs) = (member_field keep f)\<lparr>ob_comment := c', ob_filename := fn'\<rparr>"
      using r f old [of 1] t g1(2) unfolding x by (auto simp: remarked_def)
    have "yields (unpack_proto2 ?x) (u\<lparr>ps_heap := h2\<rparr>) ?Q"
    proof (rule yields_unpack [where keep = keep and f = f and c = c' and fn = fn'])
      fix h assume h: "same_but ?x (ps_heap (u\<lparr>ps_heap := h2\<rparr>)) h" "field_at keep h ?x f"
      have "message_heap keep name (fs @ [f]) h"
        by (rule message_heap_snoc [OF assms(4)]) (use h h2 old r g1(2) x in \<open>auto simp: same_but_def remarked_def\<close>)
      then show "?Q () (u\<lparr>ps_heap := h2, ps_heap := h\<rparr>)" using u(2) m by (auto intro: moved_trans [of s "s\<lparr>ps_heap := ?h1\<rparr>"])
    qed (use h2 x moved_sel [OF m] assms(5) r g1(2) in \<open>simp_all add: remarked_def\<close>)
    then show "yields (pseq (padd (Suc (Suc n)) 1 ?x) (unpack_proto2 ?x)) u ?Q"
      unfolding padd_def by (intro yields_seq yields_heap) (use h2(1) x in simp_all)
  qed (use assms(1, 2) in simp_all)
qed

lemma yields_field:
  assumes "ahead (ps_tk s) ((Word t, g1) # (Word nm, g2) # (Punct 61, g3) # (Word (dec_of_int k), g4) # (Punct 59, g5) # l)"
    "plain_head l" "message_ok keep (fs @ [(r, t, nm, k)])" "message_heap keep name fs (ps_heap s)" "\<not> ps_proto3 s" "ps_keep_case s = keep"
  shows "yields (parse_field (Suc (Suc n)) disp 1 (Some r) None) s
      (\<lambda>_ v. moved s v \<and> ahead (ps_tk v) l \<and> message_heap keep name (fs @ [(r, t, nm, k)]) (ps_heap v))"
proof -
  let ?N = "Suc (Suc n)" and ?f = "(r, t, nm, k)"
  let ?Q = "\<lambda>_ v. moved s v \<and> ahead (ps_tk v) l \<and> message_heap keep name (fs @ [?f]) (ps_heap v)"
  have ok: "field_decl_ok ?f" using assms(3) by (simp add: message_ok_def del: field_decl_ok.simps)
  then have t: "t \<noteq> js ''group''" "type_ref_re t" "name_re nm" "\<bar>k\<bar> < 2 ^ 53" "0 \<le> k" by simp_all
  let ?make = "\<lambda>name k. pbind (pmake_res (new_field name k t (Some r) None None)) (\<lambda>fd.
      pseq (if_block ?N (Obj fd) (option_block ?N (Obj fd)) (parse_inline_options ?N (Obj fd))) (pseq (padd ?N 1 fd) (unpack_proto2 fd)))"
  let ?rest = "\<lambda>name. pseq (pskip [61]) (pbind pnext (\<lambda>v. pbind (parse_id v False) (\<lambda>k. ?make name k)))"
  let ?name = "cased keep nm"
  have 4: "yields (?make ?name k) (s\<lparr>ps_tk := tk\<rparr>) ?Q" if "ahead tk ((Punct 59, g5) # l)" for tk
  proof -
    let ?v = "s\<lparr>ps_tk := tk\<rparr>"
    have "new_field ?name k t (Some r) None None = Inr (fresh_field keep ?f)" by (rule new_field_declared [OF ok])
    moreover have "yields (pbind (pmake (fresh_field keep ?f)) (\<lambda>fd.
        pseq (if_block ?N (Obj fd) (option_block ?N (Obj fd)) (parse_inline_options ?N (Obj fd)))
          (pseq (padd ?N 1 fd) (unpack_proto2 fd)))) ?v (\<lambda>_ v. moved ?v v \<and> ahead (ps_tk v) l \<and> message_heap keep name (fs @ [?f]) (ps_heap v))"
      by (rule yields_field_end) (use that assms in simp_all)
    then have "yields (pbind (pmake (fresh_field keep ?f)) (\<lambda>fd.
        pseq (if_block ?N (Obj fd) (option_block ?N (Obj fd)) (parse_inline_options ?N (Obj fd)))
          (pseq (padd ?N 1 fd) (unpack_proto2 fd)))) ?v ?Q"
      by (rule yields_mono) (auto intro: moved_trans [of s ?v])
    ultimately show ?thesis unfolding pmake_res_def by (simp del: fresh_field.simps)
  qed
  have 3: "yields (pbind pnext (\<lambda>v. pbind (parse_id v False) (?make ?name))) (s\<lparr>ps_tk := tk\<rparr>) ?Q"
    if "ahead tk ((Word (dec_of_int k), g4) # (Punct 59, g5) # l)" for tk
  proof (rule yields_bind, rule yields_next [OF _ item_tokens.simps(1)])
    show "ahead (ps_tk (s\<lparr>ps_tk := tk\<rparr>)) ((Word (dec_of_int k), g4) # (Punct 59, g5) # l)" using that by simp
    fix tk' assume "ahead tk' ((Punct 59, g5) # l)"
    from 4 [OF this] show "yields (pbind (parse_id (Some (dec_of_int k)) False) (?make ?name)) (s\<lparr>ps_tk := tk\<rparr>\<lparr>ps_tk := tk'\<rparr>) ?Q"
      by (intro yields_bind [of "parse_id (Some (dec_of_int k)) False"] yields_id [OF t(4)]) (use t(5) in simp_all)
  qed
  have 2: "yields (?rest ?name) (s\<lparr>ps_tk := tk\<rparr>) ?Q"
    if "ahead tk ((Punct 61, g3) # (Word (dec_of_int k), g4) # (Punct 59, g5) # l)" for tk
  proof (rule yields_seq, rule yields_skip [OF _ item_tokens.simps(2)])
    show "ahead (ps_tk (s\<lparr>ps_tk := tk\<rparr>)) ((Punct 61, g3) # (Word (dec_of_int k), g4) # (Punct 59, g5) # l)" using that by simp
  qed (use 3 in simp_all)
  have main: "yields (pbind (expect name_re name_word) (\<lambda>t. pbind (apply_case t) ?rest)) (s\<lparr>ps_tk := tk\<rparr>) ?Q"
    if "ahead tk ((Word nm, g2) # (Punct 61, g3) # (Word (dec_of_int k), g4) # (Punct 59, g5) # l)" for tk
  proof (rule yields_bind, rule yields_expect [where re = name_re, OF _ item_tokens.simps(1) t(3)])
    show "ahead (ps_tk (s\<lparr>ps_tk := tk\<rparr>)) ((Word nm, g2) # (Punct 61, g3) # (Word (dec_of_int k), g4) # (Punct 59, g5) # l)" using that by simp
    fix tk' assume "ahead tk' ((Punct 61, g3) # (Word (dec_of_int k), g4) # (Punct 59, g5) # l)"
    from 2 [OF this] show "yields (pbind (apply_case (Some nm)) ?rest) (s\<lparr>ps_tk := tk\<rparr>\<lparr>ps_tk := tk'\<rparr>) ?Q"
      by (intro yields_bind [of "apply_case (Some nm)"] yields_apply_case) (simp add: assms(6))
  qed
  show ?thesis unfolding parse_field_def
  proof (rule yields_bind, rule yields_next [OF assms(1) item_tokens.simps(1)])
    fix tk assume tk: "ahead tk ((Word nm, g2) # (Punct 61, g3) # (Word (dec_of_int k), g4) # (Punct 59, g5) # l)"
    from main [OF tk] t(1, 2)
    show "yields (if Some t = Some (js ''group'') then parse_group ?N disp 1 (Some r)
       else if \<not> type_ref_re (token_string (Some t)) then pillegal (Some t) type_word
       else pbind (expect name_re name_word) (\<lambda>t'. pbind (apply_case t') (\<lambda>name.
         pseq (pskip [61]) (pbind pnext (\<lambda>v. pbind (parse_id v False) (\<lambda>k.
         pbind (pmake_res (new_field name k (token_string (Some t)) (Some r) None None)) (\<lambda>fd.
         pseq (if_block ?N (Obj fd) (option_block ?N (Obj fd)) (parse_inline_options ?N (Obj fd)))
           (pseq (padd ?N 1 fd) (unpack_proto2 fd))))))))) (s\<lparr>ps_tk := tk\<rparr>) ?Q"
      by (simp add: token_string_def)
  qed
qed

section \<open>Parsing the message\<close>

lemma yields_member:
  assumes "r \<in> {js ''required'', js ''optional'', js ''repeated''}" "yields (parse_field m (parse_run m) 1 (Some r) None) s (\<lambda>_. Q ())"
  shows "yields (type_block n (parse_run (Suc m)) 1 (Some r)) s Q"
proof -
  have "parse_common m (parse_run m) 1 (Some r) = preturn False"
    using assms(1) by (auto simp: parse_common_def js_simps Let_def)
  then have "yields (parse_run (Suc m) (PCommon 1 (Some r))) s (\<lambda>known v. \<not> known \<and> v = s)"
    by (simp add: parse_run_common yields_return)
  moreover have "yields (pcall_unit (parse_run (Suc m) (PField 1 (Some r) None))) s Q"
    unfolding pcall_unit_def using assms(2)
    by (intro yields_bind, simp add: yields_def) (auto simp: yields_def pseq_def pbind_def preturn_def done_with_def)
  moreover have "is_rule (Some r)" "Some r \<noteq> Some (js ''map'')" using assms(1) by (auto simp: is_rule_def js_simps)
  ultimately show ?thesis unfolding type_block_def by (intro yields_bind, elim yields_mono) simp
qed

lemma message_ok_prefix: "message_ok keep ((ws @ [f]) @ fs) \<Longrightarrow> message_ok keep (ws @ [f])"
  by (simp add: message_ok_def)

lemma yields_field_loop:
  assumes "map fst l0 = concat (map decl_items fs)" "ahead (ps_tk s) (l0 @ (Punct 125, gs) # l)" "length fs < k"
    "message_heap keep name ws (ps_heap s)" "message_ok keep (ws @ fs)" "\<not> ps_proto3 s" "ps_keep_case s = keep"
  shows "yields (block_loop k (type_block n (parse_run (Suc (Suc (Suc m)))) 1)) s
    (\<lambda>_ v. (moved s v \<and> message_heap keep name (ws @ fs) (ps_heap v)) \<and> ahead (ps_tk v) l)"
  using assms
proof (induction fs arbitrary: ws s l0 k)
  case Nil
  obtain k' where k: "k = Suc k'" using Nil.prems(3) by (cases k) auto
  have a: "ahead (ps_tk s) ((Punct 125, gs) # l)" using Nil.prems(1, 2) by simp
  show ?case unfolding k block_loop.simps
    by (rule yields_bind, rule yields_next [OF a item_tokens.simps(2)], simp, rule yields_return) (use Nil.prems(4) in simp)
next
  case (Cons f fs)
  obtain r t nm i where f: "f = (r, t, nm, i)" by (cases f)
  obtain k' where k: "k = Suc k'" using Cons.prems(3) by (cases k) auto
  obtain g1 g2 g3 g4 g5 g6 l1 where
    l0: "l0 = (Word r, g1) # (Word t, g2) # (Word nm, g3) # (Punct 61, g4) # (Word (dec_of_int i), g5) # (Punct 59, g6) # l1"
    and l1: "map fst l1 = concat (map decl_items fs)"
  proof -
    have "map fst l0 = Word r # Word t # Word nm # Punct 61 # Word (dec_of_int i) # Punct 59 # concat (map decl_items fs)"
      using Cons.prems(1) by (simp add: f)
    then show ?thesis by (auto simp: map_eq_Cons_conv intro: that)
  qed
  let ?l = "l1 @ (Punct 125, gs) # l" and ?body = "type_block n (parse_run (Suc (Suc (Suc m)))) 1"
  have ok: "message_ok keep ((ws @ [f]) @ fs)" using Cons.prems(5) by simp
  then have r: "r \<in> {js ''required'', js ''optional'', js ''repeated''}" by (simp add: message_ok_def f)
  then have e: "r \<noteq> [125]" by (auto simp: js_simps)
  have ph: "plain_head ?l" using l1 by (cases fs) (auto simp: map_eq_Cons_conv)
  show ?case unfolding k block_loop.simps
  proof (rule yields_bind, rule yields_next [OF Cons.prems(2) [unfolded l0 append_Cons] item_tokens.simps(1)])
    fix tk assume tk: "ahead tk ((Word t, g2) # (Word nm, g3) # (Punct 61, g4) # (Word (dec_of_int i), g5) # (Punct 59, g6) # l1 @ (Punct 125, gs) # l)"
    let ?s = "s\<lparr>ps_tk := tk\<rparr>"
    have "yields (?body (Some r)) ?s (\<lambda>_ v. moved ?s v \<and> ahead (ps_tk v) ?l \<and> message_heap keep name (ws @ [f]) (ps_heap v))"
      unfolding f by (rule yields_member [OF r], rule yields_field [where ?g1.0 = g2 and ?g2.0 = g3 and ?g3.0 = g4 and ?g4.0 = g5 and ?g5.0 = g6])
        (use tk ph Cons.prems message_ok_prefix [OF ok] in \<open>simp_all add: f\<close>)
    then have "yields (pseq (?body (Some r)) (block_loop k' ?body)) ?s
        (\<lambda>_ v. (moved s v \<and> message_heap keep name (ws @ f # fs) (ps_heap v)) \<and> ahead (ps_tk v) l)"
    proof (intro yields_seq, elim yields_mono)
      fix x u assume u: "moved ?s u \<and> ahead (ps_tk u) ?l \<and> message_heap keep name (ws @ [f]) (ps_heap u)"
      have m: "moved s u" by (rule moved_trans [of s ?s u]) (use u in simp_all)
      have "yields (block_loop k' ?body) u (\<lambda>_ v. (moved u v \<and> message_heap keep name ((ws @ [f]) @ fs) (ps_heap v)) \<and> ahead (ps_tk v) l)"
        by (rule Cons.IH [OF l1 _ _ _ ok]) (use u Cons.prems k moved_sel [OF m] in simp_all)
      then show "yields (block_loop k' ?body) u (\<lambda>_ v. (moved s v \<and> message_heap keep name (ws @ f # fs) (ps_heap v)) \<and> ahead (ps_tk v) l)"
        by (rule yields_mono) (use m in \<open>auto intro: moved_trans\<close>)
    qed
    then show "yields (if Some r = Some [125] then preturn () else pseq (?body (Some r)) (block_loop k' ?body)) ?s
        (\<lambda>_ v. (moved s v \<and> message_heap keep name (ws @ f # fs) (ps_heap v)) \<and> ahead (ps_tk v) l)" using e by simp
  qed
qed

text \<open>The type is added to the empty root, which looks at its nested objects and may expose it.\<close>

lemma root_add_message:
  assumes "message_heap keep name fs h" "name \<noteq> js ''__proto__''"
  shows "\<exists>h'. run (Suc (Suc (Suc n))) (CAdd 0 1) h = Some (Inr h') \<and> hp_opts h' = hp_opts h
    \<and> size_of h' = size_of h \<and> (\<forall>j. 2 \<le> j \<longrightarrow> get_obj h' j = get_obj h j)
    \<and> (\<exists>ns. get_obj h' 0 = new_root\<lparr>ob_ns := ns\<rparr> \<and> ns_nested ns = Some [(name, 1)])
    \<and> (\<exists>ns. get_obj h' 1 = (get_obj h 1)\<lparr>ob_parent := Some 0, ob_resolved := False, ob_ns := ns\<rparr>)"
proof -
  note [simp del] = One_nat_def
  have root: "ob_class new_root = KRoot" "ob_parent new_root = None" "ob_ns new_root = \<lparr>ns_nested = None, ns_nested_array = None, ns_exposed = []\<rparr>"
    "rt_deferred (ob_root new_root) = []" by (simp_all add: new_root_def blank_obj_def)
  define ob where "ob = get_obj h 1"
  obtain c fn where o: "ob = (message_obj keep name fs)\<lparr>ob_comment := c, ob_filename := fn\<rparr>"
    using assms by (auto simp: message_heap_def ob_def)
  have ob: "ob_class ob = KType" "ob_parent ob = None" "ob_name ob = name" "ob_ns ob = \<lparr>ns_nested = None, ns_nested_array = None, ns_exposed = []\<rparr>"
    by (simp_all add: o message_obj_sel)
  define h1 where "h1 = upd_ns 0 (\<lambda>d. d\<lparr>ns_nested := Some (prop_set (the (ns_nested d)) name 1)\<rparr>) (init_nested 0 h)"
  define h2 where "h2 = set_unresolved 1 (Some 0) h1"
  define h3 where "h3 = upd_ns 1 (\<lambda>d. d\<lparr>ns_nested_array := Some []\<rparr>) h2"
  define h4 where "h4 = (if expose_re name then upd_ns 0 (\<lambda>d. d\<lparr>ns_exposed := prop_set (ns_exposed d) name 1\<rparr>) h3 else h3)"
  define h5 where "h5 = clear_nested_cache 0 h4"
  note defs = h1_def h2_def h3_def h4_def h5_def clear_nested_cache_def upd_ns_def set_unresolved_def init_nested_def set_nested_def
  have h: "0 < size_of h" "1 < size_of h" "get_obj h 0 = new_root" "get_obj h 1 = ob" using assms by (simp_all add: message_heap_def ob_def)
  have sizes [simp]: "size_of h1 = size_of h" "size_of h2 = size_of h" "size_of h3 = size_of h" "size_of h4 = size_of h"
    by (simp_all add: defs)
  have g1: "get_obj h1 j = (if j = 0 then new_root\<lparr>ob_ns := (ob_ns new_root)\<lparr>ns_nested := Some [(name, 1)]\<rparr>\<rparr> else get_obj h j)" for j
    using h by (simp add: h1_def init_nested_def set_nested_def upd_ns_def get_upd root)
  have g2: "get_obj h2 j = (if j = 1 then ob\<lparr>ob_parent := Some 0, ob_resolved := False\<rparr> else get_obj h1 j)" for j
    using h by (simp add: h2_def set_unresolved_def get_upd g1)
  have g3: "get_obj h3 j = (if j = 1 then ob\<lparr>ob_parent := Some 0, ob_resolved := False, ob_ns := (ob_ns ob)\<lparr>ns_nested_array := Some []\<rparr>\<rparr> else get_obj h1 j)" for j
    using h by (simp add: h3_def upd_ns_def get_upd g2)
  have r: "root_of h2 0 = Some 0"
    by (rule root_of_top) (use h in \<open>simp_all add: g2 g1 root\<close>)
  have fuel: "loop_fuel h2 = Suc (2 * length (hp_objs h2))" by (simp add: loop_fuel_def)
  have retry: "retry_deferred (loop_fuel h2) (run n) 0 0 h2 = done_with h2"
    by (simp add: fuel g2 g1 root)
  have each: "each_nested (loop_fuel h2) f 1 0 h2 = done_with h3" for f
    by (simp add: fuel get_nested_array_def g2 ob to_array_def h3_def)
  have expose: "expose 1 h3 = done_with h4"
    by (simp add: expose_def g3 ob h4_def)
  have "run (Suc n) (CHandleAdd 0 1) h2 = done_with h4"
    using retry each expose by (simp add: dispatch_def handle_add_def g2 ob is_field_def is_namespace_def done_with_def)
  then have on: "run (Suc (Suc n)) (COnAdd 1 0) h1 = done_with h4"
    using r by (simp add: run.simps(2) [of "Suc n"] dispatch_def base_on_add_def g1 h ob if_rooted_def h2_def [symmetric] done_with_def del: run.simps)
      (simp add: g2 g1 root)
  have added: "run (Suc (Suc (Suc n))) (CAdd 0 1) h = done_with h5"
    using on assms(2) by (simp add: run.simps(2) [of "Suc (Suc n)"] dispatch_def h root ns_add_def valid_nested_def is_namespace_def ob done_with_def h5_def h1_def [symmetric] Let_def del: run.simps)
  have g5: "get_obj h5 j = get_obj h3 j" if "j \<noteq> 0" for j
    using that h by (simp add: h5_def clear_nested_cache_def h4_def upd_ns_def get_upd)
  have "\<exists>ns. get_obj h5 0 = new_root\<lparr>ob_ns := ns\<rparr> \<and> ns_nested ns = Some [(name, 1)]"
    using h by (intro exI [of _ "ob_ns (get_obj h5 0)"], cases "expose_re name")
      (simp_all add: h5_def clear_nested_cache_def h4_def upd_ns_def get_upd g3 g1)
  moreover have "get_obj h5 j = get_obj h j" if "2 \<le> j" for j
    using that by (simp add: g5 g3 g1)
  moreover have "get_obj h5 1 = ob\<lparr>ob_parent := Some 0, ob_resolved := False, ob_ns := (ob_ns ob)\<lparr>ns_nested_array := Some []\<rparr>\<rparr>"
    by (simp add: g5 g3)
  moreover have "hp_opts h5 = hp_opts h" by (simp add: defs upd_obj_def)
  moreover have "size_of h5 = size_of h" by (simp add: h5_def clear_nested_cache_def upd_ns_def)
  ultimately show ?thesis using added by (intro exI [of _ h5]) (auto simp: done_with_def ob_def)
qed

lemma yields_type:
  assumes "ahead (ps_tk s) ((Word name, g1) # (Punct 123, g2) # l0 @ (Punct 125, g3) # l)" "map fst l0 = concat (map decl_items fs)"
    "plain_head l" "head_token l \<noteq> Some [59]" "name_re name" "message_ok keep fs" "length fs < Suc (Suc (Suc n))"
    "ps_heap s = root_heap" "\<not> ps_proto3 s" "ps_keep_case s = keep"
    "\<And>h. message_heap keep name fs h \<Longrightarrow> \<exists>h'. run (Suc (Suc (Suc n))) (CAdd 0 1) h = Some (Inr h') \<and> R h'"
  shows "yields (parse_type (Suc (Suc (Suc n))) (parse_run (Suc (Suc (Suc n)))) 0) s (\<lambda>_ v. moved s v \<and> ahead (ps_tk v) l \<and> R (ps_heap v))"
  unfolding parse_type_def
proof (rule yields_bind, rule yields_expect [where re = name_re, OF assms(1) item_tokens.simps(1) assms(5)])
  let ?N = "Suc (Suc (Suc n))" and ?Q = "\<lambda>_ v. moved s v \<and> ahead (ps_tk v) l \<and> R (ps_heap v)"
  fix tk assume tk: "ahead tk ((Punct 123, g2) # l0 @ (Punct 125, g3) # l)"
  let ?h = "root_heap\<lparr>hp_objs := hp_objs root_heap @ [new_type name]\<rparr>"
  let ?s = "s\<lparr>ps_tk := tk\<rparr>\<lparr>ps_heap := ?h\<rparr>"
  have h: "size_of ?h = 2" "get_obj ?h 0 = new_root" "get_obj ?h 1 = new_type name"
    by (simp_all add: root_heap_def size_of_def get_obj_def)
  have one: "size_of root_heap = 1" "ps_heap (s\<lparr>ps_tk := tk\<rparr>) = root_heap"
    by (simp_all add: assms(8) root_heap_def size_of_def)
  have main: "yields (pseq (if_block ?N (Obj 1) (type_block ?N (parse_run ?N) 1) (preturn ())) (padd ?N 0 1)) ?s ?Q"
  proof (rule yields_seq, rule yields_block [where l = l and ?l0.0 = "l0 @ (Punct 125, g3) # l" and gs = g2])
    fix u assume u: "marked (Obj 1) ?s u" "ahead (ps_tk u) (l0 @ (Punct 125, g3) # l)"
    have r: "remarked 1 ?h (ps_heap u)" and m: "moved ?s u" using u(1) by (simp_all add: marked_def)
    have "message_obj keep name [] = new_type name" by (simp add: message_obj_def fields_table_def new_type_def blank_obj_def)
    then have "message_heap keep name [] (ps_heap u)"
      using remarked_comments [OF r h(3)] r h(1, 2) by (auto simp: message_heap_def remarked_def)
    then have "yields (block_loop ?N (type_block ?N (parse_run ?N) 1)) u
        (\<lambda>_ v. (moved u v \<and> message_heap keep name ([] @ fs) (ps_heap v)) \<and> ahead (ps_tk v) l)"
      by (intro yields_field_loop [OF assms(2) u(2) assms(7)]) (use assms(6, 9, 10) moved_sel [OF m] in simp_all)
    then show "yields (block_loop ?N (type_block ?N (parse_run ?N) 1)) u (\<lambda>_ v. (moved s v \<and> message_heap keep name fs (ps_heap v)) \<and> ahead (ps_tk v) l)"
      by (rule yields_mono) (use m in \<open>auto intro: moved_trans [of s ?s] moved_trans [of ?s u]\<close>)
  next
    fix v tk' assume v: "moved s v \<and> message_heap keep name fs (ps_heap v)" and tk': "ahead tk' l"
    then obtain h' where "run ?N (CAdd 0 1) (ps_heap v) = Some (Inr h')" "R h'" using assms(11) by blast
    then show "yields (padd ?N 0 1) (v\<lparr>ps_tk := tk'\<rparr>) ?Q" unfolding padd_def by (intro yields_heap) (use v tk' in simp_all)
  qed (use tk assms(3, 4) in simp_all)
  show "yields (pbind (named (Some name)) (\<lambda>name. pbind (pmake (new_type name)) (\<lambda>ty.
      pseq (if_block ?N (Obj ty) (type_block ?N (parse_run ?N) ty) (preturn ())) (padd ?N 0 ty)))) (s\<lparr>ps_tk := tk\<rparr>) ?Q"
    unfolding named_def option.case by (intro yields_bind yields_return yields_make, unfold one(2) one(1)) (rule main)
qed

section \<open>Files with one message\<close>

text \<open>A field as it is declared, in the words of the reflection classes.\<close>

fun is_declared :: "bool \<Rightarrow> heap \<Rightarrow> oid \<Rightarrow> field_decl \<Rightarrow> bool" where
  "is_declared keep h i (r, t, n, k) \<longleftrightarrow>
     (let ob = get_obj h i; d = ob_field ob in
      ob_class ob = KField \<and> ob_name ob = cased keep n \<and> ob_parent ob = Some 1 \<and> fd_message d = Some 1
      \<and> fd_id d = k \<and> fd_type d = t \<and> fd_required d = (r = js ''required'') \<and> fd_repeated d = (r = js ''repeated'')
      \<and> fd_rule d = (if r = js ''optional'' then None else Some r)
      \<and> get_option h i (js ''packed'') = (if r = js ''repeated'' then JBool False else JUndef))"

lemma field_at_declared: "field_at keep h i f \<Longrightarrow> is_declared keep h i f"
  by (cases f) (auto simp: field_at_def declared_options_def member_field_def get_option_def get_opts_def blank_obj_def Let_def)

lemma field_at_cong: "get_obj h' i = get_obj h i \<Longrightarrow> hp_opts h' = hp_opts h \<Longrightarrow> field_at keep h' i f = field_at keep h i f"
  by (simp add: field_at_def declared_options_def)

text \<open>The tree of a file with one message.\<close>

definition parsed_message :: "bool \<Rightarrow> jsstring \<Rightarrow> field_decl list \<Rightarrow> heap \<Rightarrow> bool" where
  "parsed_message keep name fs h \<longleftrightarrow> size_of h = 2 + length fs
    \<and> (\<exists>ns. get_obj h 0 = new_root\<lparr>ob_ns := ns\<rparr> \<and> ns_nested ns = Some [(name, 1)])
    \<and> (\<exists>c fn ns. get_obj h 1 = (message_obj keep name fs)\<lparr>ob_comment := c, ob_filename := fn, ob_parent := Some 0, ob_resolved := False, ob_ns := ns\<rparr>)
    \<and> (\<forall>i < length fs. field_at keep h (2 + i) (fs ! i))"

lemma message_added:
  assumes "message_heap keep name fs h" "name \<noteq> js ''__proto__''"
  shows "\<exists>h'. run (Suc (Suc (Suc n))) (CAdd 0 1) h = Some (Inr h') \<and> parsed_message keep name fs h'"
proof -
  from root_add_message [OF assms, of n] obtain h' ns where h': "run (Suc (Suc (Suc n))) (CAdd 0 1) h = Some (Inr h')" "hp_opts h' = hp_opts h"
    "size_of h' = size_of h" "\<forall>j. 2 \<le> j \<longrightarrow> get_obj h' j = get_obj h j"
    "\<exists>ns. get_obj h' 0 = new_root\<lparr>ob_ns := ns\<rparr> \<and> ns_nested ns = Some [(name, 1)]"
    "get_obj h' 1 = (get_obj h 1)\<lparr>ob_parent := Some 0, ob_resolved := False, ob_ns := ns\<rparr>" by blast
  have "field_at keep h' (2 + i) (fs ! i)" if "i < length fs" for i
  proof -
    have "field_at keep h (2 + i) (fs ! i)" "get_obj h' (2 + i) = get_obj h (2 + i)" using assms(1) h'(4) that by (simp_all add: message_heap_def)
    then show ?thesis using field_at_cong h'(2) by blast
  qed
  moreover obtain c fn where "get_obj h 1 = (message_obj keep name fs)\<lparr>ob_comment := c, ob_filename := fn\<rparr>"
    using assms(1) by (auto simp: message_heap_def)
  moreover have "size_of h' = 2 + length fs" using assms(1) h'(3) by (simp add: message_heap_def)
  ultimately show ?thesis using h'(1, 5, 6) unfolding parsed_message_def by (intro exI [of _ h'] conjI) (auto simp del: One_nat_def)
qed

lemma message_parsed:
  assumes "name_re name" "message_ok keep fs" "map fst l = message_items name fs" "list_all gap_ok gs" "layout_ok l" "length fs + 6 \<le> n"
    and "name \<noteq> js ''__proto__''"
  shows "\<exists>s. parse n keep file (concat (map print_gap gs) @ print_layout l) 0 root_heap = Some (Inr s) \<and> parsed_message keep name fs (ps_heap s)"
proof -
  obtain m where n: "n = Suc (Suc (Suc (Suc (Suc m))))" "length fs < Suc (Suc (Suc m))" using assms(6) by (auto dest!: le_Suc_ex)
  let ?N = "Suc (Suc (Suc m))"
  obtain g1 g2 g3 g4 l0 where l: "l = (Word (js ''message''), g1) # (Word name, g2) # (Punct 123, g3) # l0 @ [(Punct 125, g4)]"
    and l0: "map fst l0 = concat (map decl_items fs)"
    by (rule declaration_layout [of l "js ''message''" name "concat (map decl_items fs)"]) (use assms(3) in \<open>simp_all add: message_items_def\<close>)
  let ?R = "parsed_message keep name fs"
  have "yields (parse_type ?N (parse_run ?N) 0) (parser_start keep file tk)
      (\<lambda>_ v. moved (parser_start keep file tk) v \<and> ahead (ps_tk v) [] \<and> ?R (ps_heap v))"
    if "ahead tk ((Word name, g2) # (Punct 123, g3) # l0 @ [(Punct 125, g4)])" for tk
    by (rule yields_type [where R = ?R and keep = keep, OF _ l0 _ _ assms(1, 2) n(2) _ _ _ message_added [OF _ assms(7)]])
      (use that in \<open>simp_all add: plain_head_def head_token_def\<close>)
  from parse_one_declaration [where R = ?R and decl = "parse_type ?N (parse_run ?N) 0" and m = ?N, OF assms(4) assms(5) [unfolded l] _ _ this]
  show ?thesis unfolding n(1) l by (simp add: parse_common_def js_simps Let_def del: parse_run.simps)
qed

text \<open>C3: the source of a message declaration with fields, in any layout of white space and comments that puts no comment
  directly behind a word, is parsed to a type in the root, whose table has the declared fields in the declared order, each
  with its rule, type, name (in camel case unless case is kept) and id; repeated fields are marked as not packed, the
  default of proto2. The names that Object.prototype has are excluded.\<close>

theorem message_source_parsed:
  assumes "name_re name" "message_ok keep fs" "map fst l = message_items name fs" "list_all gap_ok gs" "layout_ok l" "length fs + 6 \<le> n"
    and "name \<noteq> js ''__proto__''"
  shows "\<exists>s. parse n keep file (concat (map print_gap gs) @ print_layout l) 0 root_heap = Some (Inr s)
    \<and> ns_nested (ob_ns (get_obj (ps_heap s) 0)) = Some [(name, 1)]
    \<and> ob_class (get_obj (ps_heap s) 1) = KType \<and> ob_name (get_obj (ps_heap s) 1) = name \<and> ob_parent (get_obj (ps_heap s) 1) = Some 0
    \<and> ty_fields (ob_type (get_obj (ps_heap s) 1)) = fields_table keep fs
    \<and> (\<forall>i < length fs. is_declared keep (ps_heap s) (2 + i) (fs ! i))"
proof -
  from message_parsed [OF assms] obtain s where
    "parse n keep file (concat (map print_gap gs) @ print_layout l) 0 root_heap = Some (Inr s)" "parsed_message keep name fs (ps_heap s)" by blast
  then show ?thesis
    by (intro exI [of _ s]) (auto simp: parsed_message_def message_obj_sel field_at_declared simp del: One_nat_def is_declared.simps)
qed

text \<open>Two fields, one of them repeated and in snake case.\<close>

definition point_layout :: layout where
  "point_layout =
     [(Word (js ''message''), [Blank 32]), (Word (js ''P''), []), (Punct 123, [LineComment (js '' p'')]),
      (Word (js ''required''), [Blank 32]), (Word (js ''int32''), [Blank 9]), (Word (js ''x''), []), (Punct 61, []), (Word (js ''1''), []),
      (Punct 59, [Blank 10]),
      (Word (js ''repeated''), [Blank 32]), (Word (js ''Q''), [Blank 32]), (Word (js ''y_z''), []), (Punct 61, []), (Word (js ''7''), []),
      (Punct 59, [BlockComment (js ''y'')]), (Punct 125, [])]"

definition point_fields :: "field_decl list" where
  "point_fields = [(js ''required'', js ''int32'', js ''x'', 1), (js ''repeated'', js ''Q'', js ''y_z'', 7)]"

lemma message_source_parsed_witness:
  "\<exists>s. parse 8 False None (print_layout point_layout) 0 root_heap = Some (Inr s)
    \<and> ty_fields (ob_type (get_obj (ps_heap s) 1)) = [(js ''x'', 2), (js ''yZ'', 3)] \<and> fd_id (ob_field (get_obj (ps_heap s) 3)) = 7"
proof -
  have n: "cased False (js ''x'') = js ''x''" "cased False (js ''y_z'') = js ''yZ''" by code_simp+
  have 1: "name_re (js ''P'')" and p: "js ''P'' \<noteq> js ''__proto__''" by (simp_all add: name_re_def name_start_def js_simps)
  have 2: "message_ok False point_fields" unfolding message_ok_def by code_simp
  have 3: "map fst point_layout = message_items (js ''P'') point_fields"
    by (simp add: point_layout_def point_fields_def message_items_def dec_of_int_def dec_digits.simps js_simps)
  have 4: "layout_ok point_layout"
    by (simp add: point_layout_def js_simps is_delim_def is_space_def is_quote_def)
  have 5: "fields_table False point_fields = [(js ''x'', 2), (js ''yZ'', 3)]" by (simp add: fields_table_def point_fields_def n)
  have 6: "length point_fields = 2" "point_fields ! 1 = (js ''repeated'', js ''Q'', js ''y_z'', 7)" by (simp_all add: point_fields_def)
  from message_source_parsed [OF 1 2 3 _ 4 _ p, of "[]" 8 None] obtain s where
    s: "parse 8 False None (print_layout point_layout) 0 root_heap = Some (Inr s)"
    "ty_fields (ob_type (get_obj (ps_heap s) 1)) = fields_table False point_fields"
    "\<forall>i < length point_fields. is_declared False (ps_heap s) (2 + i) (point_fields ! i)" unfolding 6(1) by auto
  from s(3) [rule_format, of 1] have "is_declared False (ps_heap s) (2 + 1) (js ''repeated'', js ''Q'', js ''y_z'', 7)"
    unfolding 6 by simp
  then have "fd_id (ob_field (get_obj (ps_heap s) 3)) = 7" by (simp add: Let_def)
  with s 5 show ?thesis by auto
qed

end
