(* ===== verification/SchemaProps.thy ===== *)
theory SchemaProps
  imports MessageProps ReflectResolve RoundTrip
begin

text \<open>
  From a schema to the wire: a message that was parsed from its source is resolved and handed to the code generators as
  the type that was declared, with which messages make the round trip over the wire.
\<close>

section \<open>Resolving the fields\<close>

text \<open>Fields of scalar types, with ids that fit into a tag.\<close>

fun scalar_decl :: "field_decl \<Rightarrow> bool" where
  "scalar_decl (r, t, n, k) \<longleftrightarrow> scalar_of t \<noteq> None \<and> k < 2 ^ 29"

fun decl_default :: "field_decl \<Rightarrow> jsval" where
  "decl_default (r, t, n, k) = the (prop_get types_defaults (the (scalar_of t)))"

text \<open>A member after \<open>resolve\<close>.\<close>

definition resolved_field :: "bool \<Rightarrow> field_decl \<Rightarrow> obj" where
  "resolved_field keep f =
     (member_field keep f)\<lparr>ob_resolved := True,
        ob_field := (ob_field (member_field keep f))\<lparr>fd_type_default := decl_default f,
          fd_default_value := (if fst f = js ''repeated'' then JArr [] else decl_default f)\<rparr>\<rparr>"

definition resolved_at :: "bool \<Rightarrow> heap \<Rightarrow> oid \<Rightarrow> field_decl \<Rightarrow> bool" where
  "resolved_at keep h i f \<longleftrightarrow>
     (\<exists>c fn x. get_obj h i = (resolved_field keep f)\<lparr>ob_comment := c, ob_filename := fn, ob_options := x\<rparr> \<and> declared_options h f x)"

text \<open>The type and the root above it.\<close>

definition in_root :: "heap \<Rightarrow> bool" where
  "in_root h \<longleftrightarrow> 2 \<le> size_of h \<and> ob_class (get_obj h 0) = KRoot \<and> ob_parent (get_obj h 0) = None \<and> ob_parent (get_obj h 1) = Some 0"

lemma member_field_sel:
  "ob_class (member_field keep f) = KField" "ob_resolved (member_field keep f) = False" "ob_parent (member_field keep f) = Some 1"
  "ob_name (member_field keep f) = field_name keep f"
  "fd_map (ob_field (member_field keep f)) = False" "fd_declaring_field (ob_field (member_field keep f)) = None"
  "fd_resolved_type (ob_field (member_field keep f)) = None" "fd_part_of (ob_field (member_field keep f)) = None"
  "fd_packed_cache (ob_field (member_field keep f)) = None" "fd_type (ob_field (member_field keep f)) = fst (snd f)"
  "fd_repeated (ob_field (member_field keep f)) = (fst f = js ''repeated'')" "fd_required (ob_field (member_field keep f)) = (fst f = js ''required'')"
  "fd_id (ob_field (member_field keep f)) = field_id f"
  by (cases f; simp add: member_field_def blank_obj_def Let_def)+

lemma declared_option:
  "declared_options h f x \<Longrightarrow> ob_options (get_obj h i) = x \<Longrightarrow>
    get_option h i k = (if fst f = js ''repeated'' \<and> k = js ''packed'' then JBool False else JUndef)"
  by (cases "fst f = js ''repeated''") (auto simp: declared_options_def get_option_def get_opts_def)

lemma root_of_member:
  assumes "in_root h" "ob_parent (get_obj h i) = Some 1" "i < size_of h" "2 \<le> i"
  shows "root_of h i = Some 0"
proof -
  obtain n where "length (hp_objs h) = Suc (Suc (Suc n))" using assms(3, 4) by (auto simp: size_of_def dest!: le_Suc_ex less_imp_Suc_add)
  then show ?thesis using assms(1, 2) by (simp add: root_of_def parents_def in_root_def)
qed

text \<open>The defaults of the types are no strings, but for the empty one of strings.\<close>

lemma default_no_bytes:
  assumes "scalar_of t = Some st"
  shows "the (prop_get types_defaults st) = JStr s \<Longrightarrow> t \<noteq> js ''bytes''"
proof -
  have "scalar_name st = t" "st \<in> set s_names" using assms by (auto simp: scalar_of_def find_Some_iff)
  then show "the (prop_get types_defaults st) = JStr s \<Longrightarrow> t \<noteq> js ''bytes''"
    by (cases st) (auto simp: types_defaults_def bake_def s_names_def scalar_name_def js_simps)
qed

lemma resolve_member:
  assumes "in_root h" "field_at keep h i f" "2 \<le> i" "i < size_of h" "scalar_decl f"
  shows "\<exists>h'. resolve i h = Some (Inr h') \<and> size_of h' = size_of h \<and> hp_opts h' = hp_opts h \<and> (\<forall>j. j \<noteq> i \<longrightarrow> get_obj h' j = get_obj h j)
    \<and> resolved_at keep h' i f"
proof -
  obtain r t n k where f: "f = (r, t, n, k)" by (cases f)
  from assms(2) obtain c fn x where o: "get_obj h i = (member_field keep f)\<lparr>ob_comment := c, ob_filename := fn, ob_options := x\<rparr>"
    and x: "declared_options h f x" by (auto simp: field_at_def)
  obtain st where st: "scalar_of t = Some st" using assms(5) by (auto simp: f)
  let ?d = "decl_default f"
  define dv where "dv = ?d"
  have d: "default_slot t = Own dv" by (simp add: default_slot_def st f dv_def)
  define h1 where "h1 = upd_field i (\<lambda>d. d\<lparr>fd_type_default := dv\<rparr>) h"
  have g1: "get_obj h1 j = (if j = i then (get_obj h i)\<lparr>ob_field := (ob_field (get_obj h i))\<lparr>fd_type_default := dv\<rparr>\<rparr> else get_obj h j)" for j
    using assms(4) by (simp add: h1_def upd_field_def get_upd)
  have s1: "size_of h1 = size_of h" "hp_opts h1 = hp_opts h" by (simp_all add: h1_def upd_field_def upd_obj_def size_of_def)
  have r1: "resolve_type i h = done_with h1"
    using d by (simp add: resolve_type_def o member_field_sel f h1_def)
  have opt: "get_option h1 i k' = (if r = js ''repeated'' \<and> k' = js ''packed'' then JBool False else JUndef)" for k'
    using declared_option [of h1 f x i k'] x s1(2) by (simp add: g1 o f declared_options_def)
  have r2: "resolve_default i h1 = done_with h1" by (simp add: resolve_default_def opt js_simps)
  have r3: "drop_packed i h1 = h1" by (simp add: drop_packed_def g1 o member_field_sel)
  have v: "(case dv of JStr s \<Rightarrow> if t = js ''bytes'' then Some (bytes_default s) else done_with (JStr s) | v \<Rightarrow> done_with v) = done_with dv"
  proof (cases dv)
    case (JStr s)
    then have "t \<noteq> js ''bytes''" using default_no_bytes [OF st, of s] by (simp add: dv_def f st)
    then show ?thesis by (simp add: JStr)
  qed simp_all
  define h2 where "h2 = upd_field i (\<lambda>d. d\<lparr>fd_type_default := dv, fd_default_value := (if r = js ''repeated'' then JArr [] else dv)\<rparr>) h1"
  define h3 where "h3 = upd_obj i (\<lambda>ob. ob\<lparr>ob_resolved := True\<rparr>) h2"
  have s3: "size_of h2 = size_of h" "size_of h3 = size_of h" "hp_opts h3 = hp_opts h"
    using s1 by (simp_all add: h3_def h2_def upd_field_def upd_obj_def size_of_def)
  have g2: "get_obj h2 j = (if j = i then (get_obj h i)\<lparr>ob_field := (ob_field (get_obj h i))\<lparr>fd_type_default := dv,
      fd_default_value := (if r = js ''repeated'' then JArr [] else dv)\<rparr>\<rparr> else get_obj h j)" for j
    using assms(4) s1 by (simp add: h2_def upd_field_def get_upd g1)
  have g3: "get_obj h3 j = (if j = i then (get_obj h2 i)\<lparr>ob_resolved := True\<rparr> else get_obj h2 j)" for j
    using assms(4) s3 by (simp add: h3_def get_upd)
  have "in_root h2" using assms(1, 3) s3(1) by (simp add: in_root_def g2)
  then have "root_of h2 i = Some 0" by (rule root_of_member) (use assms(3, 4) s3 in \<open>simp_all add: g2 o member_field_sel\<close>)
  moreover have "ob_class (get_obj h2 0) = KRoot" using assms(1, 3) by (simp add: g2 in_root_def)
  ultimately have "base_resolve i h2 = done_with h3"
    by (simp add: base_resolve_def g2 o member_field_sel if_rooted_def h3_def)
  moreover have ft: "fd_type (ob_field (get_obj h1 i)) = t" "fd_type_default (ob_field (get_obj h1 i)) = dv" and map': "\<not> fd_map (ob_field (get_obj h1 i))" "fd_repeated (ob_field (get_obj h1 i)) = (r = js ''repeated'')"
    by (simp_all add: g1 o member_field_sel f)
  have "field_resolve i h = obind (done_with dv) (\<lambda>v. base_resolve i (upd_field i (\<lambda>d. d\<lparr>fd_type_default := v,
      fd_default_value := (if fd_map d then JObj [] else if fd_repeated d then JArr [] else v)\<rparr>) h1))"
    unfolding v [symmetric]
    by (simp add: field_resolve_def o member_field_sel r1 r2 r3 Let_def ft done_with_def cong: jsval.case_cong)
  moreover have "upd_field i (\<lambda>d. d\<lparr>fd_type_default := dv, fd_default_value := (if fd_map d then JObj [] else if fd_repeated d then JArr [] else dv)\<rparr>) h1 = h2"
    using map' by (simp add: h2_def upd_field_def upd_obj_def)
  ultimately have "field_resolve i h = done_with h3"
    by (simp add: done_with_def)
  then have "resolve i h = Some (Inr h3)" by (simp add: resolve_def o member_field_sel done_with_def)
  moreover have "resolved_at keep h3 i f" unfolding resolved_at_def
    by (intro exI [of _ c] exI [of _ fn] exI [of _ x]) (use x s3(3) in \<open>simp add: g3 g2 o resolved_field_def declared_options_def f dv_def\<close>)
  ultimately show ?thesis using s3 by (intro exI [of _ h3]) (simp add: g3 g2)
qed

lemma ofold_snoc: "ofold f (xs @ [x]) s = obind (ofold f xs s) (f x)"
proof (induction xs arbitrary: s)
  case Nil
  show ?case by (cases "f x s") (auto simp: obind_def split: sum.splits)
next
  case (Cons y ys)
  then show ?case by (cases "f y s") (auto simp: obind_def split: sum.splits)
qed

lemma in_root_cong: "size_of h' = size_of h \<Longrightarrow> get_obj h' 0 = get_obj h 0 \<Longrightarrow> get_obj h' 1 = get_obj h 1 \<Longrightarrow> in_root h' = in_root h"
  by (simp add: in_root_def)

lemma resolved_at_cong: "get_obj h' i = get_obj h i \<Longrightarrow> hp_opts h' = hp_opts h \<Longrightarrow> resolved_at keep h' i f = resolved_at keep h i f"
  by (simp add: resolved_at_def declared_options_def)

lemma resolve_members:
  assumes "in_root h" "size_of h = 2 + length fs" "list_all scalar_decl fs" "\<forall>i < length fs. field_at keep h (2 + i) (fs ! i)" "k \<le> length fs"
  shows "\<exists>h'. ofold resolve (map ((+) 2) [0..<k]) h = Some (Inr h') \<and> size_of h' = size_of h \<and> hp_opts h' = hp_opts h
    \<and> (\<forall>j. j < 2 \<or> 2 + k \<le> j \<longrightarrow> get_obj h' j = get_obj h j) \<and> (\<forall>i < k. resolved_at keep h' (2 + i) (fs ! i))"
  using assms(5)
proof (induction k)
  case (Suc k)
  then have "k \<le> length fs" by simp
  from Suc.IH [OF this] obtain h1 where h1: "ofold resolve (map ((+) 2) [0..<k]) h = Some (Inr h1)" "size_of h1 = size_of h" "hp_opts h1 = hp_opts h"
    "\<forall>j. j < 2 \<or> 2 + k \<le> j \<longrightarrow> get_obj h1 j = get_obj h j" "\<forall>i < k. resolved_at keep h1 (2 + i) (fs ! i)" by blast
  have k: "2 + k < size_of h" "k < length fs" using Suc.prems assms(2) by simp_all
  have "in_root h1" using assms(1) in_root_cong [of h1 h] h1(2, 4) by simp
  moreover have "field_at keep h1 (2 + k) (fs ! k)" using field_at_cong [of h1 "2 + k" h] h1(3, 4) assms(4) k(2) by simp
  moreover have "scalar_decl (fs ! k)" using assms(3) k(2) by (simp add: list_all_length)
  ultimately obtain h2 where h2: "resolve (2 + k) h1 = Some (Inr h2)" "size_of h2 = size_of h1" "hp_opts h2 = hp_opts h1"
    "\<forall>j. j \<noteq> 2 + k \<longrightarrow> get_obj h2 j = get_obj h1 j" "resolved_at keep h2 (2 + k) (fs ! k)"
    using resolve_member [of h1 keep "2 + k" "fs ! k"] k(1) h1(2) by auto
  have "resolved_at keep h2 (2 + i) (fs ! i)" if "i < Suc k" for i
  proof (cases "i = k")
    case False
    then show ?thesis using that h1(5) h2(3, 4) resolved_at_cong [of h2 "2 + i" h1] by simp
  qed (use h2(5) in simp)
  then have r: "\<forall>i < Suc k. resolved_at keep h2 (2 + i) (fs ! i)" by blast
  have e: "map ((+) 2) [0..<Suc k] = map ((+) 2) [0..<k] @ [2 + k]" by simp
  have o: "ofold resolve (map ((+) 2) [0..<Suc k]) h = Some (Inr h2)" unfolding e ofold_snoc h1(1) using h2(1) by simp
  have same: "\<forall>j. j < 2 \<or> 2 + Suc k \<le> j \<longrightarrow> get_obj h2 j = get_obj h j" using h1(4) h2(4) by auto
  have "size_of h2 = size_of h" "hp_opts h2 = hp_opts h" using h1(2, 3) h2(2, 3) by simp_all
  then show ?case using o r same by blast
qed simp

section \<open>What the generators see\<close>

fun declared_field :: "bool \<Rightarrow> field_decl \<Rightarrow> field" where
  "declared_field keep (r, t, n, k) =
     (let d = decl_default (r, t, n, k); repeated = (r = js ''repeated'') in
      \<lparr>f_name = cased keep n, f_id = nat k, f_type = Basic (the (scalar_of t)), f_required = (r = js ''required''), f_repeated = repeated,
       f_packed = (\<not> repeated), f_key = None, f_default = prototype_value (if repeated then JArr [] else d), f_values = [],
       f_part_of = None, f_type_default = d\<rparr>)"

definition declared_type :: "bool \<Rightarrow> jsstring \<Rightarrow> field_decl list \<Rightarrow> mtype" where
  "declared_type keep name fs = \<lparr>t_full_name = js ''.'' @ name, t_fields = map (declared_field keep) fs, t_group = False\<rparr>"

lemma reflect_resolved: "resolved_at keep h i f \<Longrightarrow> snd (reflect_field ts h i) = declared_field keep f"
proof -
  assume "resolved_at keep h i f"
  then obtain c fn x where o: "get_obj h i = (resolved_field keep f)\<lparr>ob_comment := c, ob_filename := fn, ob_options := x\<rparr>"
    and x: "declared_options h f x" by (auto simp: resolved_at_def)
  obtain r t n k where f: "f = (r, t, n, k)" by (cases f)
  have "get_option h i (js ''packed'') = (if r = js ''repeated'' then JBool False else JUndef)"
    using declared_option [OF x, of i "js ''packed''"] by (simp add: o f)
  then have "snd (field_packed i h) = (r \<noteq> js ''repeated'')"
    by (simp add: field_packed_def o resolved_field_def member_field_sel f Let_def)
  then obtain h' where "field_packed i h = (h', r \<noteq> js ''repeated'')" by (cases "field_packed i h") simp
  then show ?thesis
    by (simp add: reflect_field_def o resolved_field_def member_field_sel f Let_def)
qed

text \<open>Reflecting a field fills its cache of \<open>packed\<close> and touches no other.\<close>

lemma packed_keeps:
  assumes "i < size_of h"
  shows "size_of (fst (field_packed i h)) = size_of h" "hp_opts (fst (field_packed i h)) = hp_opts h"
    "ob_class (get_obj (fst (field_packed i h)) k) = ob_class (get_obj h k)" "ob_name (get_obj (fst (field_packed i h)) k) = ob_name (get_obj h k)"
    "ob_enum (get_obj (fst (field_packed i h)) k) = ob_enum (get_obj h k)"
    "j \<noteq> i \<Longrightarrow> get_obj (fst (field_packed i h)) j = get_obj h j"
proof -
  let ?h = "fst (field_packed i h)"
  have "?h = h \<or> (\<exists>b. ?h = upd_obj i (\<lambda>ob. ob\<lparr>ob_field := (ob_field ob)\<lparr>fd_packed_cache := b\<rparr>\<rparr>) h)"
    by (auto simp: field_packed_def Let_def split: option.splits)
  then consider "?h = h" | b where "?h = upd_obj i (\<lambda>ob. ob\<lparr>ob_field := (ob_field ob)\<lparr>fd_packed_cache := b\<rparr>\<rparr>) h" by blast
  note cases = this
  show "size_of ?h = size_of h" "hp_opts ?h = hp_opts h" by (cases rule: cases; simp add: size_of_def upd_obj_def)+
  show "ob_class (get_obj ?h k) = ob_class (get_obj h k)" "ob_name (get_obj ?h k) = ob_name (get_obj h k)" "ob_enum (get_obj ?h k) = ob_enum (get_obj h k)"
    using assms by (cases rule: cases; simp add: get_upd)+
  show "get_obj ?h j = get_obj h j" if "j \<noteq> i" using assms that by (cases rule: cases) (simp_all add: get_upd)
qed

lemma reflect_others:
  assumes "i < size_of h" "j < size_of h" "j \<noteq> i"
  shows "size_of (fst (reflect_field ts h i)) = size_of h" "snd (reflect_field ts (fst (reflect_field ts h i)) j) = snd (reflect_field ts h j)"
proof -
  define h' where "h' = fst (field_packed i h)"
  note keeps = packed_keeps [OF assms(1), folded h'_def]
  have f: "fst (reflect_field ts h i) = h'" by (simp add: reflect_field_def h'_def Let_def split: prod.splits)
  have j: "get_obj h' j = get_obj h j" using keeps(6) assms(3) by blast
  have "get_option h' j k = get_option h j k" for k by (simp add: get_option_def get_opts_def j keeps(2))
  then have p: "snd (field_packed j h') = snd (field_packed j h)" by (simp add: field_packed_def j Let_def split: option.splits)
  have j': "j < size_of h'" using assms(2) keeps(1) by simp
  obtain h1 b where 1: "field_packed j h' = (h1, b)" by fastforce
  obtain h2 where 2: "field_packed j h = (h2, b)" using p 1 by (cases "field_packed j h") simp
  have same: "ob_class (get_obj h1 k) = ob_class (get_obj h2 k)" "ob_name (get_obj h1 k) = ob_name (get_obj h2 k)"
    "ob_enum (get_obj h1 k) = ob_enum (get_obj h2 k)" for k
    using packed_keeps(3-5) [OF assms(2), of k] packed_keeps(3-5) [OF j', of k] keeps(3-5) [of k] by (simp_all add: 1 2)
  show "size_of (fst (reflect_field ts h i)) = size_of h" using f keeps(1) by simp
  show "snd (reflect_field ts (fst (reflect_field ts h i)) j) = snd (reflect_field ts h j)"
    unfolding f unfolding reflect_field_def j Let_def 1 2 by (simp add: same split: option.split)
qed

lemma reflect_members:
  "distinct xs \<Longrightarrow> set xs \<subseteq> {..< size_of h} \<Longrightarrow> snd (reflect_fields ts xs h) = map (\<lambda>x. snd (reflect_field ts h x)) xs"
proof (induction xs arbitrary: h)
  case (Cons x xs)
  let ?h = "fst (reflect_field ts h x)"
  have "fst (reflect_field ts h x) = fst (field_packed x h)" by (simp add: reflect_field_def Let_def split: prod.splits)
  then have size: "size_of ?h = size_of h" using packed_keeps(1) [of x h] Cons.prems(2) by simp
  have "snd (reflect_fields ts xs ?h) = map (\<lambda>y. snd (reflect_field ts ?h y)) xs"
    by (rule Cons.IH) (use Cons.prems size in auto)
  also have "\<dots> = map (\<lambda>y. snd (reflect_field ts h y)) xs"
    using Cons.prems reflect_others(2) [of x h] by (auto simp: subset_iff)
  finally show ?case by (cases "reflect_field ts h x"; cases "reflect_fields ts xs ?h") simp
qed simp

lemma reflect_fields_other:
  "set xs \<subseteq> {..< size_of h} \<Longrightarrow> j \<notin> set xs \<Longrightarrow> get_obj (fst (reflect_fields ts xs h)) j = get_obj h j"
proof (induction xs arbitrary: h)
  case (Cons x xs)
  let ?h = "fst (reflect_field ts h x)"
  have e: "?h = fst (field_packed x h)" by (simp add: reflect_field_def Let_def split: prod.splits)
  have "size_of ?h = size_of h" "get_obj ?h j = get_obj h j"
    using packed_keeps(1) [of x h] packed_keeps(6) [of x h j] Cons.prems by (simp_all add: e)
  moreover have "get_obj (fst (reflect_fields ts xs ?h)) j = get_obj ?h j"
    by (rule Cons.IH) (use Cons.prems calculation in auto)
  ultimately show ?case by (cases "reflect_field ts h x"; cases "reflect_fields ts xs ?h") simp
qed simp

lemma field_name_start: "field_decl_ok f \<Longrightarrow> field_name keep f \<noteq> [] \<and> name_start (hd (field_name keep f))"
proof -
  assume "field_decl_ok f"
  then obtain r t n k where f: "f = (r, t, n, k)" "name_re n" by (cases f) simp
  then obtain c n' where "n = c # n'" "name_start c" using name_re_start [of n] by (cases n) simp_all
  then show ?thesis by (simp add: f(1) cased_def camel_case_def)
qed

lemma fields_in_order:
  assumes "message_ok keep fs"
  shows "to_array (Some (fields_table keep fs)) = map ((+) 2) [0..<length fs]"
proof -
  let ?ns = "map (field_name keep) fs" and ?xs = "map ((+) 2) [0..<length fs]"
  have "array_index k = None" if "k \<in> set ?ns" for k
  proof -
    have "k \<in> field_name keep ` set fs" using that by (simp only: set_map)
    then obtain f where "f \<in> set fs" "k = field_name keep f" by blast
    then have "k \<noteq> [] \<and> name_start (hd k)" using assms field_name_start [of f keep] by (auto simp: message_ok_def list_all_iff)
    then show ?thesis using dec_no_start by (auto simp: array_index_def split: option.splits)
  qed
  then have e: "filter (\<lambda>k. array_index k \<noteq> None) ?ns = []" "filter (\<lambda>k. array_index k = None) ?ns = ?ns"
    by (auto simp: filter_empty_conv filter_id_conv)
  then have "object_keys (fields_table keep fs) = ?ns" by (simp add: object_keys_def Let_def map_fst_fields_table)
  moreover have "prop_get (fields_table keep fs) (?ns ! i) = Some (?xs ! i)" if "i < length fs" for i
    unfolding fields_table_def by (rule map_of_zip_nth) (use assms that in \<open>simp_all add: message_ok_def\<close>)
  then have "map (\<lambda>k. the (prop_get (fields_table keep fs) k)) ?ns = ?xs"
    by (intro nth_equalityI) (simp only: length_map length_upt diff_zero, simp only: length_map nth_map [where xs = ?ns] option.sel)
  ultimately show ?thesis by (simp add: to_array_def)
qed

lemma full_name_in_root: "in_root h \<Longrightarrow> ob_name (get_obj h 0) = [] \<Longrightarrow> ob_name (get_obj h 1) = name \<Longrightarrow> full_name h 1 = Some (js ''.'' @ name)"
proof -
  assume h: "in_root h" and n: "ob_name (get_obj h 0) = []" "ob_name (get_obj h 1) = name"
  obtain n where "length (hp_objs h) = Suc (Suc n)" using h by (auto simp: in_root_def size_of_def dest!: le_Suc_ex)
  then have "parents h 1 = Some [1, 0]" using h by (simp add: parents_def in_root_def)
  then show ?thesis using n by (simp add: full_name_def js_simps)
qed

text \<open>\<open>setup\<close> of the parsed type.\<close>

lemma setup_parsed:
  assumes "parsed_message keep name fs h" "message_ok keep fs" "list_all scalar_decl fs"
  shows "\<exists>h'. type_setup ts 1 h = Some (Inr (h', declared_type keep name fs))"
proof -
  let ?xs = "map ((+) 2) [0..<length fs]"
  obtain ns where r: "get_obj h 0 = new_root\<lparr>ob_ns := ns\<rparr>" using assms(1) by (auto simp: parsed_message_def)
  obtain c fn ns' where t: "get_obj h 1 = (message_obj keep name fs)\<lparr>ob_comment := c, ob_filename := fn, ob_parent := Some 0, ob_resolved := False, ob_ns := ns'\<rparr>"
    using assms(1) by (auto simp: parsed_message_def)
  have size: "size_of h = 2 + length fs" using assms(1) by (simp add: parsed_message_def)
  define h1 where "h1 = upd_type 1 (\<lambda>d. d\<lparr>ty_fields_array := Some ?xs\<rparr>) h"
  have a: "get_fields_array 1 h = (h1, ?xs)"
    using fields_in_order [OF assms(2)] by (simp add: get_fields_array_def t message_obj_sel h1_def Let_def del: One_nat_def)
  have g1: "get_obj h1 j = (if j = 1 then (get_obj h 1)\<lparr>ob_type := (ob_type (get_obj h 1))\<lparr>ty_fields_array := Some ?xs\<rparr>\<rparr> else get_obj h j)" for j
    using size by (simp add: h1_def upd_type_def get_upd)
  have s1: "size_of h1 = 2 + length fs" "hp_opts h1 = hp_opts h" using size by (simp_all add: h1_def upd_type_def upd_obj_def size_of_def)
  have i1: "in_root h1" "ob_name (get_obj h1 0) = []" "ob_name (get_obj h1 1) = name" "ty_group (ob_type (get_obj h1 1)) = False"
    using s1 by (simp_all add: in_root_def g1 r t message_obj_sel new_root_def blank_obj_def del: One_nat_def)
  have "field_at keep h1 (2 + i) (fs ! i)" if "i < length fs" for i
  proof -
    have "field_at keep h (2 + i) (fs ! i)" using assms(1) that by (simp add: parsed_message_def)
    moreover have "get_obj h1 (2 + i) = get_obj h (2 + i)" unfolding g1 by simp
    ultimately show ?thesis using field_at_cong s1(2) by blast
  qed
  then have "\<forall>i < length fs. field_at keep h1 (2 + i) (fs ! i)" by blast
  from resolve_members [OF i1(1) s1(1) assms(3) this order_refl] obtain h2 where h2: "ofold resolve ?xs h1 = Some (Inr h2)"
    "size_of h2 = size_of h1" "\<forall>j. j < 2 \<or> 2 + length fs \<le> j \<longrightarrow> get_obj h2 j = get_obj h1 j" "\<forall>i < length fs. resolved_at keep h2 (2 + i) (fs ! i)" by blast
  have low: "get_obj h2 0 = get_obj h1 0" "get_obj h2 1 = get_obj h1 1" using h2(3) by simp_all
  have n: "full_name h2 1 = Some (js ''.'' @ name)"
    by (rule full_name_in_root) (use i1 h2(2) low in_root_cong [of h2 h1] in simp_all)
  have "snd (reflect_fields ts ?xs h2) = map (\<lambda>x. snd (reflect_field ts h2 x)) ?xs"
    by (rule reflect_members) (use h2(2) s1(1) in \<open>auto simp: distinct_map\<close>)
  also have "\<dots> = map (declared_field keep) fs"
    by (rule nth_equalityI) (use h2(4) reflect_resolved in simp_all)
  finally have f: "snd (reflect_fields ts ?xs h2) = map (declared_field keep) fs" .
  obtain h3 where "reflect_fields ts ?xs h2 = (h3, map (declared_field keep) fs)" using f by (cases "reflect_fields ts ?xs h2") simp
  moreover have "ty_group (ob_type (get_obj h3 1)) = False"
  proof -
    have "set ?xs \<subseteq> {..< size_of h2}" "1 \<notin> set ?xs" using h2(2) s1(1) by auto
    from reflect_fields_other [OF this, of ts] show ?thesis using low(2) i1(4) by (simp add: calculation del: One_nat_def)
  qed
  moreover have one: "list_all one_default (map (declared_field keep) fs)"
    by (auto simp: list_all_iff one_default_def Let_def)
  ultimately have "type_setup ts 1 h = done_with (h3, declared_type keep name fs)"
    using h2(1) n one by (simp add: type_setup_def a done_with_def declared_type_def del: declared_field.simps One_nat_def)
  then show ?thesis by (simp add: done_with_def)
qed

section \<open>From the source to the wire\<close>

lemma declared_name [simp]: "f_name (declared_field keep f) = field_name keep f"
  by (cases f) (simp add: Let_def)

lemma declared_type_wf:
  assumes "message_ok keep fs" "list_all scalar_decl fs"
  shows "type_wf sc (declared_type keep name fs)"
proof -
  have names: "map f_name (map (declared_field keep) fs) = map (field_name keep) fs"
    using declared_name by simp
  have "f_id (declared_field keep f) = nat (field_id f)" for f by (cases f) (simp add: Let_def)
  then have ids: "map f_id (map (declared_field keep) fs) = map nat (map field_id fs)" by simp
  have "0 \<le> field_id f" if "f \<in> set fs" for f using assms(1) that by (cases f) (auto simp: message_ok_def list_all_iff)
  then have "inj_on nat (set (map field_id fs))" by (auto simp: inj_on_def eq_nat_nat_iff)
  then have "distinct (map nat (map field_id fs))" using assms(1) by (simp only: distinct_map message_ok_def)
  moreover have "field_wf sc (declared_field keep f)" if "scalar_decl f" for f
    using that by (cases f) (auto simp: field_wf_def Let_def nat_less_iff)
  ultimately show ?thesis
    using assms by (simp add: type_wf_def declared_type_def names ids list_all_iff message_ok_def del: map_map declared_field.simps)
qed

text \<open>C4: from the source of a schema to the wire: the source of a message with fields of scalar types, in any layout of white
  space and comments that puts no comment directly behind a word, is parsed, its type is resolved and set up as the type it
  declares - names, ids, rules, defaults and packing - and every well-formed value of that type is written by the generated
  encoder and read back by the generated decoder, into the message of the constructor. The names of Object.prototype are
  excluded.\<close>

theorem schema_source_to_wire:
  fixes keep :: bool and name :: jsstring and fs :: "field_decl list"
  defines "T \<equiv> declared_type keep name fs"
  assumes "name_re name" "message_ok keep fs" "list_all scalar_decl fs"
    and "map fst l = message_items name fs" "list_all gap_ok gs" "layout_ok l" "length fs + 6 \<le> n"
    and "name \<noteq> js ''__proto__''" "msg_ok d [T] T v" "plain_keys v"
    and "length (msg_bytes d [T] T v) < 2 ^ 32"
  shows "\<exists>s h w. parse n keep file (concat (map print_gap gs) @ print_layout l) 0 root_heap = Some (Inr s)
    \<and> type_setup [1] 1 (ps_heap s) = Some (Inr (h, T))
    \<and> encode d [T] T v new_writer = Some (Inr w)
    \<and> decode (2 * length (msg_bytes d [T] T v) + 2) le' [T] T (new_reader (fst (w_finish le w))) None
      = Some (Inr (msg_norm d [T] T v, \<lparr>r_buf = msg_bytes d [T] T v, r_pos = length (msg_bytes d [T] T v)\<rparr>))"
proof -
  note a = assms(2-)
  obtain s where s: "parse n keep file (concat (map print_gap gs) @ print_layout l) 0 root_heap = Some (Inr s)"
    and p: "parsed_message keep name fs (ps_heap s)" using message_parsed [OF a(1, 2, 4-8)] by blast
  obtain h where h: "type_setup [1] 1 (ps_heap s) = Some (Inr (h, T))"
    using setup_parsed [OF p a(2, 3)] unfolding T_def by blast
  have wf: "schema_wf [T]" "type_wf [T] T"
    using declared_type_wf [OF a(2, 3), of _ name] unfolding T_def by (simp_all add: schema_wf_def)
  have "plain_type T" using a(2)
    by (auto simp: plain_type_def plain_name_def T_def declared_type_def message_ok_def list_all_iff proto_names_def)
  then have "list_all plain_type [T, T]" by simp
  from written_and_read [OF wf a(9) this a(10, 11), of le le'] s h show ?thesis by blast
qed

text \<open>A required and a repeated number, the latter in snake case.\<close>

definition pair_layout :: layout where
  "pair_layout =
     [(Word (js ''message''), [Blank 32]), (Word (js ''P''), []), (Punct 123, [LineComment (js '' p'')]),
      (Word (js ''required''), [Blank 32]), (Word (js ''int32''), [Blank 9]), (Word (js ''x''), []), (Punct 61, []), (Word (js ''1''), []),
      (Punct 59, [Blank 10]),
      (Word (js ''repeated''), [Blank 32]), (Word (js ''sint32''), [Blank 32]), (Word (js ''y_z''), []), (Punct 61, []), (Word (js ''7''), []),
      (Punct 59, [BlockComment (js ''y'')]), (Punct 125, [])]"

definition pair_fields :: "field_decl list" where
  "pair_fields = [(js ''required'', js ''int32'', js ''x'', 1), (js ''repeated'', js ''sint32'', js ''y_z'', 7)]"

definition pair_message :: jsval where
  "pair_message = JObj [(js ''x'', JNum 5), (js ''yZ'', JArr [JNum (-2), JNum 3])]"

definition pair_type :: mtype where
  "pair_type =
     \<lparr>t_full_name = js ''.P'', t_fields =
        [\<lparr>f_name = js ''x'', f_id = 1, f_type = Basic TInt32, f_required = True, f_repeated = False, f_packed = True, f_key = None,
          f_default = JNum 0, f_values = [], f_part_of = None, f_type_default = JNum 0\<rparr>,
         \<lparr>f_name = js ''yZ'', f_id = 7, f_type = Basic TSint32, f_required = False, f_repeated = True, f_packed = False, f_key = None,
          f_default = JArr [], f_values = [], f_part_of = None, f_type_default = JNum 0\<rparr>], t_group = False\<rparr>"

lemma pair_declared: "declared_type False (js ''P'') pair_fields = pair_type"
  by code_simp

lemma schema_source_to_wire_witness:
  "\<exists>s h w. parse 8 False None (print_layout pair_layout) 0 root_heap = Some (Inr s)
    \<and> type_setup [1] 1 (ps_heap s) = Some (Inr (h, pair_type)) \<and> encode (Suc 0) [pair_type] pair_type pair_message new_writer = Some (Inr w)
    \<and> (\<exists>r. decode 14 True [pair_type] pair_type (new_reader (fst (w_finish True w))) None 
      = Some (Inr (JObj [(js ''yZ'', JArr [JNum (-2), JNum 3]), (js ''x'', JNum 5)], r)))"
proof -
  have 1: "name_re (js ''P'')" by (simp add: name_re_def name_start_def js_simps)
  have 2: "message_ok False pair_fields" unfolding message_ok_def by code_simp
  have 3: "list_all scalar_decl pair_fields" by code_simp
  have 4: "map fst pair_layout = message_items (js ''P'') pair_fields"
    by (simp add: pair_layout_def pair_fields_def message_items_def dec_of_int_def dec_digits.simps js_simps)
  have 5: "layout_ok pair_layout"
    by (simp add: pair_layout_def js_simps is_delim_def is_space_def is_quote_def)
  have 6: "length pair_fields + 6 \<le> 8" by (simp add: pair_fields_def)
  have 7: "msg_ok (Suc 0) [pair_type] pair_type pair_message" unfolding pair_type_def
    by (simp add: pair_message_def js_simps codec_type_def field_ok_def elem_ok_def val_ok_def scalar_call_def nullish_def)
  have 8: "msg_bytes (Suc 0) [pair_type] pair_type pair_message = [8, 5, 56, 3, 56, 6]" unfolding pair_type_def
    by (simp add: pair_message_def js_simps codec_type_def field_bytes_def field_items_def item_bytes_def is_packed_def
      elem_bytes_def tag_bytes_def tag_def basic_wire_def type_tables wire_val_def scalar_call_def
      varint.simps byte_of_def zigzag_def)
  have 9: "msg_norm (Suc 0) [pair_type] pair_type pair_message = JObj [(js ''yZ'', JArr [JNum (-2), JNum 3]), (js ''x'', JNum 5)]" unfolding pair_type_def
    by (simp add: pair_message_def js_simps field_norm_def elem_norm_def new_message_def set_field_def own_put_def sort_key_def)
  have 10: "js ''P'' \<noteq> js ''__proto__''" by (simp add: js_simps)
  have 11: "plain_keys pair_message" by (simp add: pair_message_def plain_name_def js_simps)
  have 12: "list_all gap_ok []" by simp
  note wire = schema_source_to_wire [OF 1 2 3 4 12 5 6 10, of "Suc 0" pair_message None True True,
      unfolded pair_declared, OF 7 11, unfolded 8 9]
  then show ?thesis by simp blast
qed

end
