(* ===== verification/Loader.thy ===== *)
theory Loader
  imports Parser ReflectJson
begin

text \<open>
  \<open>Root.load\<close>: the files that it asks for, the answers in any order, the imports that they lead to, and the
  one call of the callback; with \<open>JSON.parse\<close>, which reads preprocessed files, and the bundled descriptors of
  \<open>common\<close>.
\<close>

section \<open>JSON text\<close>

text \<open>\<open>JSON.parse\<close> of the standard library. None is a SyntaxError.\<close>

definition skip_ws :: "jsstring \<Rightarrow> jsstring" where
  "skip_ws s = dropWhile (\<lambda>c. c \<in> {32, 9, 10, 13}) s"

definition json_escape :: "u16 \<Rightarrow> u16 option" where
  "json_escape c =
     (if c \<in> {34, 92, 47} then Some c else if c = 98 then Some 8 else if c = 102 then Some 12
      else if c = 110 then Some 10 else if c = 114 then Some 13 else if c = 116 then Some 9 else None)"

fun json_chars :: "jsstring \<Rightarrow> (jsstring \<times> jsstring) option" where
  "json_chars [] = None"
| "json_chars (c # s) =
     (if c = 34 then Some ([], s)
      else if c < 32 then None
      else if c \<noteq> 92 then map_option (\<lambda>(t, r). (c # t, r)) (json_chars s)
      else case s of
          [] \<Rightarrow> None
        | e # s \<Rightarrow>
            if e = 117 then
              (case s of
                 h3 # h2 # h1 # h0 # s \<Rightarrow>
                   if list_all hex_digit [h3, h2, h1, h0]
                   then map_option (\<lambda>(t, r). (of_nat (digits_in 16 [h3, h2, h1, h0]) # t, r)) (json_chars s)
                   else None
               | _ \<Rightarrow> None)
            else (case json_escape e of None \<Rightarrow> None | Some x \<Rightarrow> map_option (\<lambda>(t, r). (x # t, r)) (json_chars s)))"

definition json_number :: "jsstring \<Rightarrow> (jsval \<times> jsstring) option" where
  "json_number s =
     (let negative = (take 1 s = [45]); s = (if negative then drop 1 s else s);
          whole = takeWhile is_digit s; s = drop (length whole) s;
          frac = (case s of c # r \<Rightarrow> if c = 46 then c # takeWhile is_digit r else [] | [] \<Rightarrow> []); s = drop (length frac) s;
          expo = (case s of c # r \<Rightarrow>
                    if c \<in> {101, 69} then let sign = (if take 1 r \<in> {[43], [45]} then take 1 r else [])
                                       in c # sign @ takeWhile is_digit (drop (length sign) r)
                    else []
                  | [] \<Rightarrow> [])
      in if whole = [] \<or> hd whole = 48 \<and> tl whole \<noteq> [] \<or> frac = [46] \<or> expo \<noteq> [] \<and> \<not> is_digit (last expo) then None
         else Some (parse_float negative (whole @ frac @ expo), drop (length expo) s))"

text \<open>A value, the rest of an array after an element's place, and the rest of an object.\<close>

fun json_value :: "nat \<Rightarrow> jsstring \<Rightarrow> (jsval \<times> jsstring) option"
  and json_elements :: "nat \<Rightarrow> jsval list \<Rightarrow> jsstring \<Rightarrow> (jsval \<times> jsstring) option"
  and json_members :: "nat \<Rightarrow> (jsstring \<times> jsval) list \<Rightarrow> jsstring \<Rightarrow> (jsval \<times> jsstring) option" where
  "json_value 0 s = None"
| "json_value (Suc n) s =
     (case skip_ws s of
        [] \<Rightarrow> None
      | c # r \<Rightarrow>
          if c = 123 then (case skip_ws r of
              [] \<Rightarrow> None
            | d # r' \<Rightarrow> if d = 125 then Some (JObj [], r') else json_members n [] (d # r'))
          else if c = 91 then (case skip_ws r of
              [] \<Rightarrow> None
            | d # r' \<Rightarrow> if d = 93 then Some (JArr [], r') else json_elements n [] (d # r'))
          else if c = 34 then map_option (\<lambda>(t, r). (JStr t, r)) (json_chars r)
          else if take 4 (c # r) = js ''true'' then Some (JBool True, drop 4 (c # r))
          else if take 5 (c # r) = js ''false'' then Some (JBool False, drop 5 (c # r))
          else if take 4 (c # r) = js ''null'' then Some (JNull, drop 4 (c # r))
          else json_number (c # r))"
| "json_elements 0 vs s = None"
| "json_elements (Suc n) vs s =
     (case json_value n s of
        None \<Rightarrow> None
      | Some (v, r) \<Rightarrow>
          (case skip_ws r of
             [] \<Rightarrow> None
           | c # r \<Rightarrow> if c = 44 then json_elements n (vs @ [v]) r else if c = 93 then Some (JArr (vs @ [v]), r) else None))"
| "json_members 0 m s = None"
| "json_members (Suc n) m s =
     (case skip_ws s of
        [] \<Rightarrow> None
      | q # r \<Rightarrow>
          if q \<noteq> 34 then None
          else (case json_chars r of
              None \<Rightarrow> None
            | Some (k, r) \<Rightarrow>
                (case skip_ws r of
                   [] \<Rightarrow> None
                 | c # r \<Rightarrow>
                     if c \<noteq> 58 then None
                     else (case json_value n r of
                         None \<Rightarrow> None
                       | Some (v, r) \<Rightarrow>
                           (case skip_ws r of
                              [] \<Rightarrow> None
                            | c # r \<Rightarrow>
                                if c = 44 then json_members n (prop_set m k v) r
                                else if c = 125 then Some (JObj (prop_set m k v), r)
                                else None)))))"

text \<open>Every second call consumes a character.\<close>

definition json_parse :: "jsstring \<Rightarrow> jsval res" where
  "json_parse s =
     (case json_value (2 * length s + 2) s of
        None \<Rightarrow> Inl (JsError (js ''SyntaxError''))
      | Some (v, r) \<Rightarrow> if skip_ws r = [] then Inr v else Inl (JsError (js ''SyntaxError'')))"

section \<open>The bundled descriptors\<close>

text \<open>\<open>common\<close> with a descriptor of \<open>google.protobuf\<close>, and the fields in its literals.\<close>

definition google_name :: "jsstring \<Rightarrow> jsstring" where
  "google_name name = js ''google/protobuf/'' @ name @ js ''.proto''"

definition nested_in :: "jsstring \<Rightarrow> jsval \<Rightarrow> jsval" where
  "nested_in name j = JObj [(js ''nested'', JObj [(name, j)])]"

definition common_add :: "jsstring \<Rightarrow> jsval \<Rightarrow> (jsstring \<times> jsval) list \<Rightarrow> (jsstring \<times> jsval) list" where
  "common_add name j m =
     (if list_ex (\<lambda>c. c = 47 \<or> c = 46) name then prop_set m name j
      else prop_set m (google_name name) (nested_in (js ''google'') (nested_in (js ''protobuf'') (JObj [(js ''nested'', j)]))))"

definition typed :: "string \<Rightarrow> string \<Rightarrow> int \<Rightarrow> jsstring \<times> jsval" where
  "typed name t k = (js name, JObj [(js ''type'', JStr (js t)), (js ''id'', JNum k)])"

definition fields_of :: "string \<Rightarrow> (jsstring \<times> jsval) list \<Rightarrow> jsstring \<times> jsval" where
  "fields_of name fs = (js name, JObj [(js ''fields'', JObj fs)])"

definition any_json :: jsval where
  "any_json = JObj [fields_of ''Any'' [typed ''type_url'' ''string'' 1, typed ''value'' ''bytes'' 2]]"

definition time_type :: "string \<Rightarrow> jsstring \<times> jsval" where
  "time_type name = fields_of name [typed ''seconds'' ''int64'' 1, typed ''nanos'' ''int32'' 2]"

definition duration_json :: jsval where
  "duration_json = JObj [time_type ''Duration'']"

definition timestamp_json :: jsval where
  "timestamp_json = JObj [time_type ''Timestamp'']"

definition empty_json :: jsval where
  "empty_json = JObj [fields_of ''Empty'' []]"

definition struct_json :: jsval where
  "struct_json =
     JObj
       [fields_of ''Struct''
          [(js ''fields'', JObj [(js ''keyType'', JStr (js ''string'')), (js ''type'', JStr (js ''Value'')), (js ''id'', JNum 1)])],
        (js ''Value'', JObj
          [(js ''oneofs'', JObj [(js ''kind'', JObj [(js ''oneof'', JArr (map (\<lambda>s. JStr (js s))
             [''nullValue'', ''numberValue'', ''stringValue'', ''boolValue'', ''structValue'', ''listValue'']))])]),
           (js ''fields'', JObj
             [typed ''nullValue'' ''NullValue'' 1, typed ''numberValue'' ''double'' 2, typed ''stringValue'' ''string'' 3,
              typed ''boolValue'' ''bool'' 4, typed ''structValue'' ''Struct'' 5, typed ''listValue'' ''ListValue'' 6])]),
        (js ''NullValue'', JObj [(js ''values'', JObj [(js ''NULL_VALUE'', JNum 0)])]),
        fields_of ''ListValue''
          [(js ''values'', JObj [(js ''rule'', JStr (js ''repeated'')), (js ''type'', JStr (js ''Value'')), (js ''id'', JNum 1)])]]"

definition wrappers_json :: jsval where
  "wrappers_json =
     JObj (map (\<lambda>(name, t). fields_of name [typed ''value'' t 1])
       [(''DoubleValue'', ''double''), (''FloatValue'', ''float''), (''Int64Value'', ''int64''), (''UInt64Value'', ''uint64''),
        (''Int32Value'', ''int32''), (''UInt32Value'', ''uint32''), (''BoolValue'', ''bool''), (''StringValue'', ''string''),
        (''BytesValue'', ''bytes'')])"

definition bundled :: "(jsstring \<times> jsval) list" where
  "bundled = fold (\<lambda>(name, j). common_add (js name) j)
     [(''any'', any_json), (''duration'', duration_json), (''timestamp'', timestamp_json), (''empty'', empty_json),
      (''struct'', struct_json), (''wrappers'', wrappers_json)] []"

text \<open>
  \<open>filename in common\<close> and \<open>common[filename]\<close>: \<open>common\<close> is a function of strict code, so the names that functions
  inherit count as bundled. Its \<open>name\<close> is a string; \<open>caller\<close> and \<open>arguments\<close> throw when they are read; the others
  have neither \<open>options\<close> nor \<open>nested\<close>, as an empty object.
\<close>

definition throwing_names :: "jsstring list" where
  "throwing_names = [js ''caller'', js ''arguments'']"

definition function_names :: "jsstring list" where
  "function_names = [js ''length'', js ''prototype'', js ''apply'', js ''bind'', js ''call''] @ proto_names"

definition in_common :: "jsstring \<Rightarrow> bool" where
  "in_common f \<longleftrightarrow> prop_get bundled f \<noteq> None \<or> f = js ''name'' \<or> f \<in> set throwing_names \<or> f \<in> set function_names"

definition common_get :: "jsstring \<Rightarrow> jsval res" where
  "common_get f =
     (case prop_get bundled f of
        Some j \<Rightarrow> Inr j
      | None \<Rightarrow> if f = js ''name'' then Inr (JStr (js ''common''))
                else if f \<in> set throwing_names then Inl (JsTypeError f)
                else if f \<in> set function_names then Inr (JObj []) else Inr JUndef)"

section \<open>The state of a load\<close>

text \<open>What the callback of a timer or of \<open>util.fetch\<close> waits for, and the answer to a request.\<close>

datatype task = Timer jsstring | Request jsstring bool

datatype answer = Failure js_error | Source jsstring

text \<open>
  The variables of the closure and the \<open>files\<close> of the root, which no other operation uses. \<open>ld_calls\<close> has the
  first arguments that the callback was called with, null as None; \<open>ld_callback\<close> says that \<open>callback\<close> is not null. The heap is
  None from the first file on that could not be read: what such a file leaves in the tree is not modelled.
\<close>

record loader =
  ld_heap :: "heap option"
  ld_pending :: "task list"
  ld_queued :: int
  ld_files :: "jsstring list"
  ld_callback :: bool
  ld_calls :: "js_error option list"

definition ld_finish :: "js_error option \<Rightarrow> loader \<Rightarrow> loader" where
  "ld_finish err s = (if \<not> ld_callback s then s else s\<lparr>ld_callback := False, ld_calls := ld_calls s @ [err]\<rparr>)"

definition ld_settle :: "loader \<Rightarrow> loader" where
  "ld_settle s = (if ld_queued s = 0 then ld_finish None s else s)"

text \<open>\<open>fetch(filename, weak)\<close>.\<close>

definition last_index_of :: "jsstring \<Rightarrow> jsstring \<Rightarrow> nat option" where
  "last_index_of p s =
     (case filter (\<lambda>i. take (length p) (drop i s) = p) [0..<Suc (length s)] of [] \<Rightarrow> None | is \<Rightarrow> Some (last is))"

definition bundled_name :: "jsstring \<Rightarrow> jsstring" where
  "bundled_name f =
     (case last_index_of (js ''google/protobuf/'') f of
        None \<Rightarrow> f
      | Some i \<Rightarrow> if in_common (drop i f) then drop i f else f)"

definition ld_fetch :: "bool \<Rightarrow> jsstring \<Rightarrow> loader \<Rightarrow> loader" where
  "ld_fetch weak filename s =
     (let f = bundled_name filename
      in if f \<in> set (ld_files s) then s
         else s\<lparr>ld_files := ld_files s @ [f], ld_queued := ld_queued s + 1,
                ld_pending := ld_pending s @ [if in_common f then Timer f else Request f weak]\<rparr>)"

definition ld_fetch_all :: "bool \<Rightarrow> jsstring \<Rightarrow> jsstring list \<Rightarrow> loader \<Rightarrow> loader" where
  "ld_fetch_all weak origin targets =
     fold (\<lambda>t s. let r = path_resolve origin t False in if r \<noteq> [] then ld_fetch weak r s else s) targets"

text \<open>
  What \<open>process(filename, source)\<close> does in its \<open>try\<close>: the heap and the imports of the file. Options of a JSON file
  that are a string or an array are not modelled.
\<close>

definition load_json :: "nat \<Rightarrow> oid \<Rightarrow> jsval \<Rightarrow> heap \<Rightarrow> heap outcome" where
  "load_json n rt j h =
     (case jprop j (js ''options'') of
        JObj m \<Rightarrow> add_json (ReflectJson.make n) n rt (jprop j (js ''nested'')) (set_options rt (Some m) False h)
      | JStr x \<Rightarrow> if x = [] then add_json (ReflectJson.make n) n rt (jprop j (js ''nested'')) h else None
      | JArr x \<Rightarrow> None
      | _ \<Rightarrow> add_json (ReflectJson.make n) n rt (jprop j (js ''nested'')) h)"

definition ld_read :: "nat \<Rightarrow> bool \<Rightarrow> oid \<Rightarrow> jsstring \<Rightarrow> jsval \<Rightarrow> heap \<Rightarrow> (heap \<times> jsstring list \<times> jsstring list) outcome" where
  "ld_read n keep rt f v h =
     (let json = (\<lambda>j. obind (load_json n rt j h) (\<lambda>h. done_with (h, [], [])))
      in case v of
           JStr src \<Rightarrow>
             if take 1 src = [123] then (case json_parse src of Inl e \<Rightarrow> Some (Inl e) | Inr j \<Rightarrow> json j)
             else obind (parse n keep (Some f) src rt h) (\<lambda>p.
                    done_with (ps_heap p, (case ps_imports p of None \<Rightarrow> [] | Some is \<Rightarrow> is),
                               (case ps_weak_imports p of None \<Rightarrow> [] | Some is \<Rightarrow> is)))
         | _ \<Rightarrow> json v)"

definition ld_process :: "nat \<Rightarrow> bool \<Rightarrow> oid \<Rightarrow> jsstring \<Rightarrow> jsval \<Rightarrow> loader \<Rightarrow> loader option" where
  "ld_process n keep rt f v s =
     (case ld_heap s of
        None \<Rightarrow> Some (ld_settle s)
      | Some h \<Rightarrow>
          (case ld_read n keep rt f v h of
             None \<Rightarrow> None
           | Some (Inl e) \<Rightarrow> Some (ld_settle (ld_finish (Some e) (s\<lparr>ld_heap := None\<rparr>)))
           | Some (Inr (h, imports, weak)) \<Rightarrow>
               Some (ld_settle (ld_fetch_all True f weak (ld_fetch_all False f imports (s\<lparr>ld_heap := Some h\<rparr>))))))"

text \<open>The callbacks of \<open>setTimeout\<close> and of \<open>util.fetch\<close>; a timer that throws is reported by the page and ends.\<close>

definition ld_answer :: "nat \<Rightarrow> bool \<Rightarrow> oid \<Rightarrow> task \<Rightarrow> answer \<Rightarrow> loader \<Rightarrow> loader option" where
  "ld_answer n keep rt t a s =
     (let s = s\<lparr>ld_queued := ld_queued s - 1\<rparr>
      in case t of
           Timer f \<Rightarrow> (case common_get f of Inl e \<Rightarrow> Some s | Inr v \<Rightarrow> ld_process n keep rt f v s)
         | Request f weak \<Rightarrow>
             if \<not> ld_callback s then Some s
             else (case a of
                     Failure e \<Rightarrow> Some (if \<not> weak then ld_finish (Some e) s else ld_settle s)
                   | Source src \<Rightarrow> ld_process n keep rt f (JStr src) s))"

text \<open>\<open>load(filename, options, callback)\<close> itself, on a root with the files \<open>fs\<close>.\<close>

definition ld_load :: "jsstring list \<Rightarrow> jsstring list \<Rightarrow> heap \<Rightarrow> loader" where
  "ld_load names fs h =
     ld_settle (ld_fetch_all False [] names
       \<lparr>ld_heap = Some h, ld_pending = [], ld_queued = 0, ld_files = fs, ld_callback = True, ld_calls = []\<rparr>)"

text \<open>The answers come in any order, each once; a run records which callback got which answer.\<close>

type_synonym event = "task \<times> answer"

inductive load_step :: "nat \<Rightarrow> bool \<Rightarrow> oid \<Rightarrow> loader \<Rightarrow> event \<Rightarrow> loader \<Rightarrow> bool" for n keep rt where
  answered: "i < length (ld_pending s) \<Longrightarrow>
    ld_answer n keep rt (ld_pending s ! i) a (s\<lparr>ld_pending := splice1 i (ld_pending s)\<rparr>) = Some s' \<Longrightarrow>
    load_step n keep rt s (ld_pending s ! i, a) s'"

inductive load_run :: "nat \<Rightarrow> bool \<Rightarrow> oid \<Rightarrow> loader \<Rightarrow> event list \<Rightarrow> loader \<Rightarrow> bool" for n keep rt where
  start: "load_run n keep rt s [] s"
| then_answer: "load_run n keep rt s es s' \<Longrightarrow> load_step n keep rt s' ev s'' \<Longrightarrow> load_run n keep rt s (es @ [ev]) s''"

inductive_cases load_stepE: "load_step n keep rt s ev s'"

section \<open>The callback is called once\<close>

text \<open>
  What holds between the callbacks: a request is pending for every file that is counted in \<open>queued\<close>, and a
  load that still has its callback waits for an answer.
\<close>

definition task_name :: "task \<Rightarrow> jsstring" where
  "task_name t = (case t of Timer f \<Rightarrow> f | Request f weak \<Rightarrow> f)"

text \<open>\<open>loading\<close> holds within a callback, before its last test of \<open>queued\<close>; \<open>es\<close> are the answers so far.\<close>

definition failed_event :: "event \<Rightarrow> bool" where
  "failed_event ev \<longleftrightarrow> (\<exists>f e. ev = (Request f False, Failure e))"

definition loading :: "event list \<Rightarrow> jsstring list \<Rightarrow> loader \<Rightarrow> bool" where
  "loading es fs s \<longleftrightarrow>
     ld_queued s = int (length (ld_pending s)) \<and> length (ld_files s) = length fs + length es + length (ld_pending s)
     \<and> distinct (ld_files s) \<and> task_name ` set (ld_pending s) \<subseteq> set (ld_files s)
     \<and> (\<forall>f. Timer f \<in> set (ld_pending s) \<longrightarrow> in_common f)
     \<and> (if ld_callback s then ld_calls s = [] else length (ld_calls s) = 1)
     \<and> (ld_callback s \<or> ld_calls s = [None] \<longrightarrow> \<not> list_ex failed_event es)
     \<and> (ld_calls s = [None] \<longrightarrow> ld_pending s = [])"

definition waiting :: "loader \<Rightarrow> bool" where
  "waiting s \<longleftrightarrow> (ld_callback s \<and> ld_pending s = [] \<longrightarrow> (\<exists>f \<in> set throwing_names. f \<in> set (ld_files s)))"

lemma finish_loading: "loading es fs s \<Longrightarrow> (err = None \<Longrightarrow> ld_pending s = []) \<Longrightarrow> loading es fs (ld_finish err s) \<and> waiting (ld_finish err s)"
  by (auto simp: loading_def ld_finish_def waiting_def)

lemma settle_loading: "loading es fs s \<Longrightarrow> loading es fs (ld_settle s) \<and> waiting (ld_settle s)"
  using finish_loading [of es fs s None] by (auto simp: ld_settle_def loading_def waiting_def)

lemma fetch_loading:
  "loading es fs s \<Longrightarrow> ld_calls s \<noteq> [None] \<Longrightarrow> loading es fs (ld_fetch weak f s) \<and> ld_calls (ld_fetch weak f s) = ld_calls s"
  by (auto simp: ld_fetch_def loading_def task_name_def Let_def)

lemma fetch_all_loading:
  "loading es fs s \<Longrightarrow> ld_calls s \<noteq> [None] \<Longrightarrow>
    loading es fs (ld_fetch_all weak origin targets s) \<and> ld_calls (ld_fetch_all weak origin targets s) = ld_calls s"
  unfolding ld_fetch_all_def
proof (induction targets arbitrary: s)
  case (Cons t ts)
  let ?s = "if path_resolve origin t False \<noteq> [] then ld_fetch weak (path_resolve origin t False) s else s"
  have "loading es fs ?s \<and> ld_calls ?s = ld_calls s" using fetch_loading [OF Cons.prems] Cons.prems by simp
  then show ?case using Cons.IH [of ?s] Cons.prems(2) by (simp add: Let_def)
qed simp

lemma loading_heap [simp]: "loading es fs (s\<lparr>ld_heap := h\<rparr>) = loading es fs s"
  by (simp add: loading_def)

lemma process_loading:
  assumes "loading es fs s" "ld_calls s \<noteq> [None]" "ld_process n keep rt f v s = Some s'"
  shows "loading es fs s' \<and> waiting s'"
proof (cases "ld_heap s")
  case None
  then show ?thesis using assms settle_loading by (auto simp: ld_process_def)
next
  case (Some h)
  show ?thesis
  proof (cases "ld_read n keep rt f v h")
    case None
    then show ?thesis using assms(3) Some by (simp add: ld_process_def)
  next
    case r: (Some res)
    show ?thesis
    proof (cases res)
      case (Inl e)
      have "loading es fs (ld_finish (Some e) (s\<lparr>ld_heap := None\<rparr>))"
        using finish_loading [of es fs "s\<lparr>ld_heap := None\<rparr>" "Some e"] assms(1) by simp
      then show ?thesis using settle_loading assms(3) by (auto simp: ld_process_def Some r Inl)
    next
      case (Inr x)
      obtain h' imps ws where x: "x = (h', imps, ws)" by (cases x) auto
      let ?t = "ld_fetch_all False f imps (s\<lparr>ld_heap := Some h'\<rparr>)"
      have "loading es fs ?t \<and> ld_calls ?t = ld_calls s" using fetch_all_loading [of es fs "s\<lparr>ld_heap := Some h'\<rparr>"] assms(1, 2) by simp
      then have "loading es fs (ld_fetch_all True f ws ?t)" using fetch_all_loading [of es fs ?t] assms(2) by simp
      then show ?thesis using settle_loading assms(3) by (auto simp: ld_process_def Some r Inr x)
    qed
  qed
qed

lemma splice1_props: "set (splice1 k xs) \<subseteq> set xs" "k < length xs \<Longrightarrow> length (splice1 k xs) = length xs - 1"
  by (auto simp: splice1_def dest: in_set_takeD in_set_dropD)

text \<open>The state in which a callback starts; a request that failed will still call the callback.\<close>

lemma answered_loading:
  assumes "loading es fs s" "i < length (ld_pending s)"
  defines "s' \<equiv> s\<lparr>ld_pending := splice1 i (ld_pending s), ld_queued := ld_queued s - 1\<rparr>"
  shows "\<not> failed_event ev \<Longrightarrow> loading (es @ [ev]) fs s'" "ld_callback s \<Longrightarrow> loading (es @ [ev]) fs (ld_finish (Some e) s')"
    "\<not> ld_callback s \<Longrightarrow> loading (es @ [ev]) fs s'" "ld_calls s' \<noteq> [None]" "\<not> ld_callback s \<Longrightarrow> waiting s'"
  using assms(1, 2) splice1_props [of i "ld_pending s"] unfolding s'_def
  by (auto simp: loading_def ld_finish_def waiting_def)

lemma step_loading:
  assumes "load_step n keep rt s ev s'" "loading es fs s"
  shows "loading (es @ [ev]) fs s' \<and> waiting s'"
  using assms(1)
proof (rule load_stepE)
  fix i a assume ev: "ev = (ld_pending s ! i, a)" and i: "i < length (ld_pending s)"
    and s': "ld_answer n keep rt (ld_pending s ! i) a (s\<lparr>ld_pending := splice1 i (ld_pending s)\<rparr>) = Some s'"
  let ?s = "s\<lparr>ld_pending := splice1 i (ld_pending s), ld_queued := ld_queued s - 1\<rparr>"
  note start = answered_loading [OF assms(2) i]
  show ?thesis
  proof (cases "ld_pending s ! i")
    case (Timer f)
    then have s: "loading (es @ [ev]) fs ?s" using start(1) by (simp add: ev failed_event_def)
    show ?thesis
    proof (cases "common_get f")
      case (Inl e)
      then have "f \<in> set throwing_names" by (auto simp: common_get_def split: option.splits if_splits)
      moreover have "Timer f \<in> set (ld_pending s)" using Timer i nth_mem by metis
      then have "f \<in> set (ld_files s)" using assms(2) by (force simp: loading_def task_name_def)
      ultimately have "waiting ?s" by (auto simp: waiting_def)
      moreover have "s' = ?s" using s' Inl by (simp add: ld_answer_def Timer)
      ultimately show ?thesis using s by simp
    next
      case (Inr v)
      then show ?thesis using process_loading [OF s start(4)] s' by (simp add: ld_answer_def Timer)
    qed
  next
    case (Request f weak)
    consider "\<not> ld_callback s" | e where "ld_callback s" "a = Failure e" | src where "ld_callback s" "a = Source src" by (cases a) auto
    then show ?thesis
    proof cases
      case 1
      then have "s' = ?s" using s' by (simp add: ld_answer_def Request)
      then show ?thesis using start(3, 5) 1 by simp
    next
      case 2
      show ?thesis
      proof (cases weak)
        case True
        then have "s' = ld_settle ?s" "\<not> failed_event ev" using s' 2 by (simp_all add: ld_answer_def Request ev failed_event_def)
        then show ?thesis using settle_loading [OF start(1)] by simp
      next
        case False
        then have "s' = ld_finish (Some e) ?s" using s' 2 by (simp add: ld_answer_def Request)
        moreover have "waiting (ld_finish (Some e) ?s)" by (simp add: waiting_def ld_finish_def)
        ultimately show ?thesis using start(2) [OF 2(1)] by simp
      qed
    next
      case 3
      then have "loading (es @ [ev]) fs ?s" using start(1) by (simp add: ev failed_event_def)
      then show ?thesis using process_loading [OF _ start(4)] s' 3 by (simp add: ld_answer_def Request)
    qed
  qed
qed

lemma load_loading:
  assumes "distinct fs"
  shows "loading [] fs (ld_load names fs h) \<and> waiting (ld_load names fs h)"
  unfolding ld_load_def
  by (rule settle_loading, rule fetch_all_loading [THEN conjunct1]) (use assms in \<open>simp_all add: loading_def\<close>)

lemma run_loading:
  "load_run n keep rt s0 es s \<Longrightarrow> loading [] fs s0 \<and> waiting s0 \<Longrightarrow> loading es fs s \<and> waiting s"
  by (induction rule: load_run.induct) (auto dest: step_loading)

text \<open>C7: in every order of the answers, a load asks for each file once and calls its callback at most once;
  when no answer is due it has called it exactly once, unless it was asked for a file with the name of a property that
  throws; and when it reports success, no answer is due and every request that was not weak has got its source.\<close>

theorem load_calls_back_once:
  assumes "load_run n keep rt (ld_load names fs h) es s" "distinct fs"
  shows "distinct (ld_files s) \<and> length (ld_files s) = length fs + length es + length (ld_pending s)
    \<and> length (ld_calls s) \<le> 1
    \<and> (ld_pending s = [] \<and> set throwing_names \<inter> set (ld_files s) = {} \<longrightarrow> length (ld_calls s) = 1)
    \<and> (ld_calls s = [None] \<longrightarrow> ld_pending s = [] \<and> (\<forall>f a. (Request f False, a) \<in> set es \<longrightarrow> (\<exists>src. a = Source src)))"
proof -
  have l: "loading es fs s" and w: "waiting s" using run_loading [OF assms(1) load_loading [OF assms(2)]] by simp_all
  have "\<exists>src. a = Source src" if "ld_calls s = [None]" "(Request f False, a) \<in> set es" for f a
    using l that by (cases a) (auto simp: loading_def list_ex_iff failed_event_def)
  then show ?thesis using l w by (auto simp: loading_def waiting_def split: if_splits)
qed


text \<open>A load of a bundled descriptor and of an empty JSON file, in two answers.\<close>

definition empty_proto :: jsstring where "empty_proto = js ''google/protobuf/empty.proto''"
definition a_json :: jsstring where "a_json = js ''a.json''"

definition only_root :: heap where
  "only_root = \<lparr>hp_objs = [new_root], hp_opts = []\<rparr>"

lemma sample_paths: "path_resolve [] empty_proto False = empty_proto" "path_resolve [] a_json False = a_json"
  "empty_proto \<noteq> []" "a_json \<noteq> []" "a_json \<noteq> empty_proto"
  by code_simp+

lemma sample_common: "in_common empty_proto" "\<not> in_common a_json"
  by (simp_all add: in_common_def bundled_def common_add_def google_name_def empty_proto_def a_json_def
      function_names_def throwing_names_def proto_names_def js_simps)

lemma sample_indices: "last_index_of (js ''google/protobuf/'') empty_proto = Some 0" "last_index_of (js ''google/protobuf/'') a_json = None"
  by code_simp+

lemma load_sample:
  "ld_load [empty_proto, a_json] [] h =
     \<lparr>ld_heap = Some h, ld_pending = [Timer empty_proto, Request a_json False], ld_queued = 2, ld_files = [empty_proto, a_json],
      ld_callback = True, ld_calls = []\<rparr>"
  by (simp add: ld_load_def ld_fetch_all_def ld_fetch_def Let_def sample_paths bundled_name_def sample_indices sample_common ld_settle_def)

lemma empty_proto_json: "common_get empty_proto = Inr (nested_in (js ''google'') (nested_in (js ''protobuf'') (JObj [(js ''nested'', empty_json)])))"
  by (simp add: common_get_def bundled_def common_add_def google_name_def empty_proto_def js_simps)

lemma empty_proto_loads: "case ld_read 9 False 0 empty_proto (nested_in (js ''google'') (nested_in (js ''protobuf'') (JObj [(js ''nested'', empty_json)]))) only_root
    of Some (Inr (h, is, ws)) \<Rightarrow> is = [] \<and> ws = [] | _ \<Rightarrow> False"
  by code_simp

lemma a_json_read: "ld_read 9 False 0 a_json (JStr [123, 125]) h = Some (Inr (h, [], []))"
proof -
  have "json_parse [123, 125] = Inr (JObj [])" by code_simp
  then show ?thesis by (simp add: ld_read_def load_json_def jprop_def add_json_def entries_def js_truthy_def done_with_def)
qed

lemma load_calls_back_once_witness:
  "\<exists>s. load_run 9 False 0 (ld_load [empty_proto, a_json] [] only_root)
      [(Timer empty_proto, Source []), (Request a_json False, Source [123, 125])] s
    \<and> ld_files s = [empty_proto, a_json] \<and> length (ld_calls s) = 1"
proof -
  let ?s0 = "ld_load [empty_proto, a_json] [] only_root"
  obtain h where h: "ld_read 9 False 0 empty_proto (nested_in (js ''google'') (nested_in (js ''protobuf'') (JObj [(js ''nested'', empty_json)]))) only_root
      = Some (Inr (h, [], []))" using empty_proto_loads by (auto split: option.splits sum.splits)
  let ?s1 = "\<lparr>ld_heap = Some h, ld_pending = [Request a_json False], ld_queued = 1, ld_files = [empty_proto, a_json],
      ld_callback = True, ld_calls = []\<rparr>"
  let ?s2 = "\<lparr>ld_heap = Some h, ld_pending = [], ld_queued = 0, ld_files = [empty_proto, a_json], ld_callback = False, ld_calls = [None]\<rparr>"
  have "load_step 9 False 0 ?s0 (Timer empty_proto, Source []) ?s1"
    using answered [of 0 ?s0 9 False 0 "Source []" ?s1]
    by (simp add: load_sample ld_answer_def ld_process_def empty_proto_json h ld_fetch_all_def ld_settle_def splice1_def)
  moreover have "load_step 9 False 0 ?s1 (Request a_json False, Source [123, 125]) ?s2"
    using answered [of 0 ?s1 9 False 0 "Source [123, 125]" ?s2]
    by (simp add: ld_answer_def ld_process_def a_json_read ld_fetch_all_def ld_settle_def ld_finish_def splice1_def)
  ultimately have run: "load_run 9 False 0 ?s0 [(Timer empty_proto, Source []), (Request a_json False, Source [123, 125])] ?s2"
    using then_answer [OF then_answer [OF start]] by simp
  moreover from load_calls_back_once [OF run] have "length (ld_calls ?s2) = 1" by simp
  ultimately show ?thesis by (intro exI [of _ ?s2]) simp
qed

end
