(* ===== verification/Spec2Isabelle.thy ===== *)
theory Spec2Isabelle
  imports JsPrelude RepGraph RepGraphInv Monitor GraphProps LongBits Bytes Utf8 Base64 Float Pool Writer Wire Reader ReadBack Types Codec
    CodecBack DecodeTotal RoundTrip Emitter Rpc Path Verify VerifyOk Convert Message Tokenizer TokenProps Reflect ReflectAdd ReflectResolve
    ReflectProps ReflectInv ReflectKeep ReflectJson Parser Classes ParserNum ParserProps MessageProps SchemaProps Loader
begin

text \<open>
  \<^bold>\<open>The program.\<close>
  The repository is a permissioned block chain in Scala with a web page that watches it. This development models
  the JavaScript that the page runs: the cluster graph (\<open>src/main/resources/web/js/rep_graph.js\<close>), the part of
  the page script that drives it (\<open>src/main/resources/web/g1.html\<close>), and the library
  \<open>src/main/resources/web/js/protobuf.js\<close>, with which the page reads the schema \<open>peer.proto\<close> and decodes the
  events that the node sends over a web socket. An event takes this way: the loader fetches and parses the schema
  into a tree of reflection objects, the tree is resolved and a decoder is generated for the type of the
  event, the decoder reads the bytes of a message with the Reader, and the page turns the decoded event into calls of the graph.

  The configuration is the browser's: typed arrays exist, \<open>util.Buffer\<close> and the Long library do not, so 64-bit values
  are JavaScript numbers.

  \<^bold>\<open>Conventions.\<close>
  Strings are lists of UTF-16 code units (\<open>jsstring\<close>); \<open>js\<close> makes one of an ASCII literal. A plain object is the association list
  of its own properties in insertion order (\<open>prop_get\<close>, \<open>prop_set\<close>, \<open>prop_del\<close>; \<open>own_put\<close> is an assignment, which makes no
  property \<open>__proto__\<close>), and where the code reads properties that
  \<open>Object.prototype\<close> may supply, the result is a \<open>slot\<close>. Bytes, code units and 32-bit values are words; JavaScript numbers
  that are integers are \<open>int\<close>, with the rounding to 53 bits written out where it matters, and other doubles are bit patterns.

  Code that may throw returns \<open>'a res\<close>, with the error on the left. Code that may throw or
  not return is an \<open>'a outcome = 'a res option\<close>: None says that the fuel ran out, \<open>Some (Inl e)\<close> is an exception,
  \<open>Some (Inr x)\<close> a result; \<open>obind\<close> and \<open>ofold\<close> are its sequence and its loop. An exception ends the run: the
  state that it leaves behind is not part of the result, except for the Reader's position in its error and for the page, which goes on.

  Fuel. \<open>decode\<close> takes fuel for its nesting and its fields; twice the length of the buffer and two suffice for every input
  (\<open>decode_returns\<close>). The encoder, the verifier and the converter take fuel for the depth of the value. \<open>lookup\<close> supplies its own fuel, the
  number of objects and of segments of the path, which suffices whenever the parents do not run in a circle (\<open>lookup_scopes\<close>).
  \<open>run\<close>, \<open>make\<close>, \<open>to_json\<close> and \<open>parse\<close> take fuel for the depth of the calls and the length of the loops; the properties about them hold
  for every fuel, or for every fuel from a bound on that the property names.

  \<^bold>\<open>Parts.\<close>
  \<^item> JsPrelude: results, property lists, \<open>splice\<close>, \<open>indexOf\<close>; \<open>js_simps\<close> unfolds string literals.
  \<^item> RepGraph, RepGraphInv, Monitor, GraphProps: \<open>myGraph\<close> of rep_graph.js as the record \<open>graph\<close>. Nodes are references, since
    \<open>update\<close> keeps them in data joins; the three link arrays and \<open>links\<close> are references into a store because \<open>resetNodes\<close> replaces arrays that
    closures still hold. One definition per method (\<open>addNode\<close>, \<open>removeNode\<close>, \<open>onAddNode\<close>, \<open>setBlocker\<close>, \<open>update\<close> and the others). Monitor has the
    page: \<open>on_open\<close>, \<open>on_message\<close> with its counters, the list of blocks and the calls of the graph.
    RepGraphInv proves what every sequence of operations keeps (\<open>base_inv\<close>), the consistency that those keep which are no removal of
    an unknown id, \<open>removeAllNodes\<close> or \<open>resetNodes\<close> (\<open>graph_run\<close>, \<open>graph_inv\<close>), and which arrays they write; GraphProps the properties of the graph and of event streams.
  \<^item> LongBits, Bytes, Utf8, Base64, Float, Pool: the helper modules (sections 2, 6, 9, 10, 38 of the bundle). Bytes holds buffers and
    writes at an offset.
  \<^item> Writer, Wire, Reader, ReadBack: the Writer as its queue of operations with the states of \<open>fork\<close>; Wire states the wire format
    without the writer and proves that the writer refines it; the Reader as a buffer with a position; ReadBack proves what it reads of the wire format.
  \<^item> Types, Codec, CodecBack, DecodeTotal, RoundTrip: the type tables, and the functions that \<open>encoder\<close> and
    \<open>decoder\<close> generate for a type. What these builders print is not text here but the function that the printed text
    computes. The decoder fills the message that the constructor makes (\<open>new_message\<close>). CodecBack has the locale \<open>value_codec\<close>, the contract between the bytes of a value and the read that gives it back, with its
    loops (packed arrays), and interprets it for the scalars and for tags. RoundTrip composes them for messages.
  \<^item> Verify, VerifyOk, Convert: the functions that \<open>verifier\<close> and \<open>converter\<close> generate. Message: message objects with the
    accessors of their oneofs and the constructor; Classes: what \<open>Class\<close> and \<open>Service#create\<close> make of a reflected type and service.
  \<^item> Emitter, Rpc, Path: the event emitter over a store of arrays; the rpc service as a machine with a stack of the calls of user code
    (\<open>frame\<close>), which may use the service again, return or throw, over the log of its effects; path resolution.
  \<^item> Tokenizer, TokenProps: the closure of \<open>tokenize\<close> as the record \<open>tokenizer\<close>; a layout is a list of tokens with the blanks and comments
    that follow each.
  \<^item> Reflect, ReflectAdd, ReflectResolve, ReflectJson: the reflection classes as a heap of objects (\<open>heap\<close>, \<open>obj\<close>), with the
    cached arrays as parts of the state. \<open>add\<close>, \<open>remove\<close>, \<open>onAdd\<close>, \<open>onRemove\<close> and the hooks of a root call each other on the class of their
    object: each is a definition over a dispatcher, \<open>dispatch\<close> selects and \<open>run\<close> closes the recursion.
    ReflectProps proves the scoping of look-ups, ReflectInv and ReflectKeep the invariant of the heap.
  \<^item> Parser, ParserNum, ParserProps, MessageProps: the closure of \<open>parse\<close> as functions over the record \<open>parser\<close>, which holds the tokenizer and the heap.
    ParserNum has the decimal numbers of a source; ParserProps has total-correctness rules (\<open>yields\<close>, \<open>parse_rules\<close>)
    for the parser over a source that is laid out from tokens, and what an enum declaration is parsed to, MessageProps the same
    for messages with fields. SchemaProps joins the components: a parsed message is resolved and set up as the type it declares, and its
    values make the round trip over the wire.
  \<^item> Loader: \<open>Root.load\<close> as the record \<open>loader\<close> with its pending timers and requests; \<open>load_step\<close> answers one of them, in any
    order. It reads a file with \<open>parse\<close> or, when it is JSON, with \<open>JSON.parse\<close> and \<open>addJSON\<close>; the descriptors of \<open>common\<close> are values. That
    every load calls back once holds for all answers that are processed to their end.

  \<^bold>\<open>Not modelled.\<close>
  \<^item> \<open>codegen\<close> and its \<open>sprintf\<close>, which print the generated functions: their output is modelled as functions.
  \<^item> the static methods of \<open>Message\<close> and of a class, which delegate to the modelled functions of a type.
  \<^item> the \<open>asPromise\<close> and \<open>inquire\<close> wrappers, the \<open>fetch\<close> module (XMLHttpRequest), \<open>BufferReader\<close>, \<open>BufferWriter\<close> and whatever else needs node.
  \<^item> \<open>loadSync\<close>, which throws in a browser, and the
    small helpers of \<open>util\<close> that no modelled code calls.
  \<^item> the rounding of a number to a float when it is stored: the float module is given the bit pattern.
  \<^item> ids in CSS selectors that are no CSS names: such a selector is taken to find nothing (\<open>picked\<close>).
  \<^item> objects whose prototype was replaced by an assignment to \<open>__proto__\<close>; where it matters a definition gives None or a property excludes the name.
  \<^item> the IEEE 754 fall-back of the float module, for engines without typed arrays, and conversions to the Long library.
  \<^item> drawing: SVG attributes, transitions and the forces of d3 in rep_graph.js, the HTML of the panels in g1.html.
  \<^item> the vendored jQuery, jQuery UI, d3 and Swagger bundles, and the Scala sources.
\<close>

end
